(* ===== verification/Prelude.thy ===== *)
theory Prelude
  imports Main "HOL-Library.Word"
begin

text \<open>
  Shared vocabulary of the development.  C's fixed-width unsigned integers are words, a C
  \<^verbatim>\<open>int\<close> whose overflow plays no role is an \<open>int\<close>; code that can hit undefined behaviour or
  fail returns a sum whose left injection is the fault; a \<^verbatim>\<open>qemu_irq\<close> (hw/core/irq.c: a handler
  with its opaque state) is a function that takes the state the handler owns and the level.
  Flag tests \<^verbatim>\<open>x & FLAG\<close> on words are turned into tests of a single bit by the collection
  \<open>flag_simps\<close>.
\<close>

unbundle bit_operations_syntax

type_synonym u8 = "8 word"
type_synonym u16 = "16 word"
type_synonym u32 = "32 word"
type_synonym u64 = "64 word"

type_synonym 'w qemu_irq = "'w \<Rightarrow> int \<Rightarrow> 'w"

named_theorems flag_simps
  \<comment> \<open>masks with one flag, read as a bit\<close>

subsection \<open>Faults\<close>

definition bindE :: "'e + 'a \<Rightarrow> ('a \<Rightarrow> 'e + 'b) \<Rightarrow> 'e + 'b" where
  "bindE m f = (case m of Inl e \<Rightarrow> Inl e | Inr x \<Rightarrow> f x)"

lemma bindE_simps [simp]:
  "bindE (Inl e) f = Inl e"
  "bindE (Inr x) f = f x"
  by (simp_all add: bindE_def)

lemma bindE_eq_Inr: "bindE m f = Inr y \<longleftrightarrow> (\<exists>x. m = Inr x \<and> f x = Inr y)"
  by (simp add: bindE_def split: sum.splits)

lemma bindE_InrE:
  assumes "bindE m f = Inr y"
  obtains x where "m = Inr x" "f x = Inr y"
  using assms by (auto simp: bindE_eq_Inr)

lemma bindE_assoc: "bindE (bindE m f) g = bindE m (\<lambda>x. bindE (f x) g)"
  by (simp add: bindE_def split: sum.splits)

fun foldE :: "('a \<Rightarrow> 'b \<Rightarrow> 'e + 'b) \<Rightarrow> 'a list \<Rightarrow> 'b \<Rightarrow> 'e + 'b" where
  "foldE f [] s = Inr s"
| "foldE f (x # xs) s = bindE (f x s) (foldE f xs)"

lemma foldE_cong:
  "(\<And>x s. x \<in> set xs \<Longrightarrow> f x s = g x s) \<Longrightarrow> foldE f xs s = foldE g xs s"
  by (induction xs arbitrary: s) (auto simp: bindE_def split: sum.split)

lemma foldE_snoc: "foldE f (xs @ [x]) s = bindE (foldE f xs s) (f x)"
  by (induction xs arbitrary: s) (simp_all add: bindE_def split: sum.split)

lemma foldE_map: "foldE f (map g xs) s = foldE (\<lambda>x. f (g x)) xs s"
  by (induction xs arbitrary: s) (auto simp: bindE_def split: sum.split)

lemma foldE_filter: "foldE f (filter P xs) s = foldE (\<lambda>x s. if P x then f x s else Inr s) xs s"
  by (induction xs arbitrary: s) (auto simp: bindE_def split: sum.split)

subsection \<open>Single-flag masks\<close>

lemma and_exp_flag [flag_simps]:
  fixes x :: "'a::len word"
  shows "(x AND 2 ^ n = 0) = (\<not> bit x n)"
  by (simp add: and_exp_eq_0_iff_not_bit)

lemma flag_bits [flag_simps]:
  fixes x :: "'a::len word"
  shows "(x AND 1 = 0) = (\<not> bit x 0)"
    "(x AND 2 = 0) = (\<not> bit x 1)"
    "(x AND 4 = 0) = (\<not> bit x 2)"
    "(x AND 8 = 0) = (\<not> bit x 3)"
    "(x AND 16 = 0) = (\<not> bit x 4)"
    "(x AND 32 = 0) = (\<not> bit x 5)"
    "(x AND 64 = 0) = (\<not> bit x 6)"
    "(x AND 128 = 0) = (\<not> bit x 7)"
  using and_exp_flag [of x 0] and_exp_flag [of x 1] and_exp_flag [of x 2] and_exp_flag [of x 3]
    and_exp_flag [of x 4] and_exp_flag [of x 5] and_exp_flag [of x 6] and_exp_flag [of x 7]
  by (simp_all del: bit_0)

lemma and_line_flag [flag_simps]:
  fixes x :: "'a::len word"
  shows "(x AND push_bit n 1 = 0) = (\<not> bit x n)"
  by (simp add: push_bit_of_1 and_exp_flag)

lemma bit_line_mask: "bit (push_bit n 1 :: 'a::len word) i \<longleftrightarrow> i = n \<and> n < LENGTH('a)"
  by (auto simp: push_bit_of_1 bit_exp_iff)

subsection \<open>Lists\<close>

lemma takeWhile_sep:
  "\<forall>x \<in> set xs. P x \<Longrightarrow> \<not> P y \<Longrightarrow> takeWhile P (xs @ y # ys) = xs"
  by (induction xs) auto

lemma takeWhile_stop:
  "\<forall>x \<in> set xs. P x \<Longrightarrow> ys = [] \<or> \<not> P (hd ys) \<Longrightarrow> takeWhile P (xs @ ys) = xs"
  by (cases ys) (auto simp: takeWhile_sep)

lemma find_first_iff:
  "find P xs = Some s \<longleftrightarrow> (\<exists>ys zs. xs = ys @ s # zs \<and> P s \<and> (\<nexists>t. t \<in> set ys \<and> P t))"
proof
  show "find P xs = Some s \<Longrightarrow> \<exists>ys zs. xs = ys @ s # zs \<and> P s \<and> (\<nexists>t. t \<in> set ys \<and> P t)"
  proof (induction xs)
    case (Cons x xs)
    show ?case
    proof (cases "P x")
      case True
      with Cons.prems show ?thesis by (intro exI [of _ "[]"] exI [of _ xs]) simp
    next
      case False
      with Cons obtain ys zs where "xs = ys @ s # zs" "P s" "\<nexists>t. t \<in> set ys \<and> P t" by auto
      with False show ?thesis by (intro exI [of _ "x # ys"] exI [of _ zs]) auto
    qed
  qed simp
  have "\<nexists>t. t \<in> set ys \<and> P t \<Longrightarrow> P s \<Longrightarrow> find P (ys @ s # zs) = Some s" for ys zs
    by (induction ys) auto
  then show "\<exists>ys zs. xs = ys @ s # zs \<and> P s \<and> (\<nexists>t. t \<in> set ys \<and> P t) \<Longrightarrow> find P xs = Some s"
    by blast
qed

subsection \<open>Interrupt lines\<close>

text \<open>
  The contract between a device and whatever its interrupt output is wired to: the far end
  remembers the level driven last.  \<open>out\<close> is the handler behind the \<^verbatim>\<open>qemu_irq\<close> (or behind a
  callback such as \<^verbatim>\<open>update_irq\<close>), \<open>lev\<close> is what the far end remembers.
\<close>

locale wire =
  fixes out :: "'w qemu_irq" and lev :: "'w \<Rightarrow> bool"
  assumes lev_out [simp]: "lev (out w l) \<longleftrightarrow> l \<noteq> 0"

text \<open>The plain pin: its state is the level itself.\<close>

definition pin :: "bool qemu_irq" where
  "pin b l = (l \<noteq> 0)"

interpretation pin_wire: wire pin "\<lambda>b. b"
  by unfold_locales (simp add: pin_def)

text \<open>A condition on the far end that driving the line keeps.\<close>

locale irq_inv =
  fixes out :: "'w qemu_irq" and inv :: "'w \<Rightarrow> bool"
  assumes inv_out: "inv w \<Longrightarrow> inv (out w l)"

subsection \<open>Bounded queues\<close>

text \<open>
  The contract of a byte queue of fixed capacity, as the PS/2 devices rely on it: \<open>items\<close> is what is
  queued, oldest first; \<open>put\<close> appends or, when the queue is full, drops the new item; \<open>get\<close> removes the
  oldest.
\<close>

locale bounded_fifo =
  fixes ok :: "'s \<Rightarrow> bool" and items :: "'s \<Rightarrow> 'b list" and put :: "'b \<Rightarrow> 's \<Rightarrow> 's"
    and get :: "'s \<Rightarrow> 'b \<times> 's" and cap :: nat
  assumes ok_put: "ok s \<Longrightarrow> ok (put b s)"
    and ok_get: "ok s \<Longrightarrow> ok (snd (get s))"
    and items_put: "ok s \<Longrightarrow> items (put b s) = (if length (items s) < cap then items s @ [b] else items s)"
    and items_get: "ok s \<Longrightarrow> items s = b # bs \<Longrightarrow> fst (get s) = b \<and> items (snd (get s)) = bs"
    and items_cap: "ok s \<Longrightarrow> length (items s) \<le> cap"
begin

lemma ok_puts: "ok s \<Longrightarrow> ok (fold put bs s)"
  by (induction bs arbitrary: s) (simp_all add: ok_put)

lemma items_puts: "ok s \<Longrightarrow> items (fold put bs s) = items s @ take (cap - length (items s)) bs"
proof (induction bs arbitrary: s)
  case (Cons b bs)
  show ?case
  proof (cases "length (items s) < cap")
    case True
    then obtain n where "cap - length (items s) = Suc n" by (metis Suc_diff_Suc)
    then show ?thesis using Cons True
      by (simp add: ok_put items_put) (metis diff_Suc_Suc diff_Suc_1 diff_diff_left Suc_eq_plus1)
  qed (use Cons items_cap [of s] in \<open>simp add: ok_put items_put\<close>)
qed simp

lemma items_puts_fit:
  "ok s \<Longrightarrow> length (items s) + length bs \<le> cap \<Longrightarrow> items (fold put bs s) = items s @ bs"
  by (simp add: items_puts)

text \<open>Reading as often as there are items gives all of them, in order.\<close>

primrec drain :: "nat \<Rightarrow> 's \<Rightarrow> 'b list \<times> 's" where
  "drain 0 s = ([], s)"
| "drain (Suc n) s = (let (b, s1) = get s; (bs, s2) = drain n s1 in (b # bs, s2))"

lemma drain_items: "ok s \<Longrightarrow> fst (drain (length (items s)) s) = items s \<and> items (snd (drain (length (items s)) s)) = []"
proof (induction "items s" arbitrary: s)
  case (Cons b bs)
  then have g: "fst (get s) = b" "items (snd (get s)) = bs" using items_get [of s b bs] by auto
  from Cons.hyps(1) [of "snd (get s)"] Cons.prems g
  have "fst (drain (length bs) (snd (get s))) = bs \<and> items (snd (drain (length bs) (snd (get s)))) = []"
    by (simp add: ok_get)
  then show ?case using g by (simp add: Cons.hyps(2) [symmetric] case_prod_unfold)
next
  case Nil
  then show ?case by (simp flip: Nil.hyps)
qed

end

end
