(* ===== verification/C_Library.thy ===== *)
theory C_Library
  imports Prelude
begin

text \<open>
  The parts of the C library that the VM manager and the modified QEMU sources call on text:
  \<^verbatim>\<open>atoi\<close>, \<^verbatim>\<open>strtok\<close> with the delimiter \<^verbatim>\<open>" "\<close>, \<^verbatim>\<open>sprintf\<close> with \<^verbatim>\<open>%d\<close> and
  \<^verbatim>\<open>%s\<close>, and \<^verbatim>\<open>read\<close> into a fixed array.  A \<^verbatim>\<open>char\<close> array is a list of its bytes, a pointer
  into it is an index, and the string at a pointer ends before the first NUL.  Undefined
  behaviour is a value of \<open>c_fault\<close>.
\<close>

datatype c_fault =
    Null_Pointer        \<comment> \<open>a library call is given a null pointer\<close>
  | Buffer_Overrun      \<comment> \<open>a read or a write runs past an array\<close>
  | Uninitialised       \<comment> \<open>an uninitialised array is read as a string\<close>
  | Assertion_Failed    \<comment> \<open>an assertion of the source does not hold\<close>
  | Process_Exit        \<comment> \<open>the source calls \<^verbatim>\<open>exit\<close>\<close>
  | Overlapping_Copy    \<comment> \<open>\<^verbatim>\<open>sprintf\<close> reads from the array it writes to\<close>
  | Division_By_Zero    \<comment> \<open>a division of integers by zero\<close>

definition NUL :: char where
  "NUL = CHR 0x00"

definition cstr_at :: "string \<Rightarrow> nat \<Rightarrow> string" where
  "cstr_at buf p = takeWhile (\<lambda>c. c \<noteq> NUL) (drop p buf)"

subsection \<open>Division\<close>

text \<open>The \<^verbatim>\<open>/\<close> of C truncates towards zero.\<close>

definition c_div :: "int \<Rightarrow> int \<Rightarrow> int" where
  "c_div a b = sgn a * sgn b * (\<bar>a\<bar> div \<bar>b\<bar>)"

definition c_divE :: "int \<Rightarrow> int \<Rightarrow> c_fault + int" where
  "c_divE a b = (if b = 0 then Inl Division_By_Zero else Inr (c_div a b))"

lemma c_div_nonneg: "0 \<le> a \<Longrightarrow> 0 < b \<Longrightarrow> c_div a b = a div b"
  by (cases "a = 0") (simp_all add: c_div_def)

lemma c_divE_pos [simp]: "0 \<le> a \<Longrightarrow> 0 < b \<Longrightarrow> c_divE a b = Inr (a div b)"
  by (simp add: c_divE_def c_div_nonneg)

subsection \<open>Reading into a fixed array\<close>

text \<open>\<^verbatim>\<open>read(fd, buf, n)\<close>: the received bytes overwrite the front of the array, the rest stays.\<close>

definition c_read :: "nat \<Rightarrow> string \<Rightarrow> string \<Rightarrow> string" where
  "c_read n bytes buf = take n bytes @ drop (length (take n bytes)) buf"

subsection \<open>\<^verbatim>\<open>strtok\<close>\<close>

text \<open>
  \<open>strtok_at buf p\<close> is \<^verbatim>\<open>strtok(buf + p, " ")\<close>, and also \<^verbatim>\<open>strtok(NULL, " ")\<close> when \<open>p\<close> is the
  position the previous call saved: it returns the token's position (\<open>None\<close> for a null pointer),
  the array with the delimiter after the token overwritten by NUL, and the saved position.
\<close>

definition strtok_begin :: "string \<Rightarrow> nat \<Rightarrow> nat" where
  "strtok_begin buf p = p + length (takeWhile (\<lambda>c. c = CHR '' '') (drop p buf))"

definition strtok_end :: "string \<Rightarrow> nat \<Rightarrow> nat" where
  "strtok_end buf b = b + length (takeWhile (\<lambda>c. c \<noteq> CHR '' '' \<and> c \<noteq> NUL) (drop b buf))"

definition strtok_at :: "string \<Rightarrow> nat \<Rightarrow> c_fault + (nat option \<times> string \<times> nat)" where
  "strtok_at buf p =
     (let b = strtok_begin buf p
      in if length buf \<le> b then Inl Buffer_Overrun
         else if buf ! b = NUL then Inr (None, buf, b)
         else let e = strtok_end buf b
              in if length buf \<le> e then Inl Buffer_Overrun
                 else if buf ! e = NUL then Inr (Some b, buf, e)
                 else Inr (Some b, buf[e := NUL], Suc e))"

subsection \<open>\<^verbatim>\<open>atoi\<close>\<close>

definition is_space :: "char \<Rightarrow> bool" where
  "is_space c \<longleftrightarrow> c \<in> {CHR '' '', CHR 0x09, CHR 0x0A, CHR 0x0B, CHR 0x0C, CHR 0x0D}"

definition is_digit :: "char \<Rightarrow> bool" where
  "is_digit c \<longleftrightarrow> 48 \<le> (of_char c :: nat) \<and> (of_char c :: nat) \<le> 57"

definition digit_val :: "char \<Rightarrow> nat" where
  "digit_val c = of_char c - 48"

definition digits_val :: "string \<Rightarrow> nat" where
  "digits_val ds = foldl (\<lambda>v c. 10 * v + digit_val c) 0 ds"

text \<open>\<^verbatim>\<open>strtol\<close> saturates at the range of a 64-bit \<^verbatim>\<open>long\<close>; \<^verbatim>\<open>atoi\<close> then converts to \<^verbatim>\<open>int\<close>.\<close>

definition strtol10 :: "string \<Rightarrow> int" where
  "strtol10 s =
     (let s1 = dropWhile is_space s;
          neg = (s1 \<noteq> [] \<and> hd s1 = CHR ''-'');
          s2 = (if s1 \<noteq> [] \<and> (hd s1 = CHR ''-'' \<or> hd s1 = CHR ''+'') then tl s1 else s1);
          v = int (digits_val (takeWhile is_digit s2))
      in if neg then max (- (2 ^ 63)) (- v) else min (2 ^ 63 - 1) v)"

definition to_int32 :: "int \<Rightarrow> int" where
  "to_int32 x = sint (word_of_int x :: u32)"

definition atoi :: "string \<Rightarrow> int" where
  "atoi s = to_int32 (strtol10 s)"

subsection \<open>\<^verbatim>\<open>sprintf\<close>\<close>

fun dec_of_nat :: "nat \<Rightarrow> string" where
  "dec_of_nat n =
     (if n < 10 then [char_of (48 + n)] else dec_of_nat (n div 10) @ [char_of (48 + n mod 10)])"

declare dec_of_nat.simps [simp del]

definition dec_of_int :: "int \<Rightarrow> string" where
  "dec_of_int i = (if i < 0 then CHR ''-'' # dec_of_nat (nat (- i)) else dec_of_nat (nat i))"

text \<open>\<^verbatim>\<open>sprintf(buf, ...)\<close> of the text \<open>s\<close> into an array of \<open>n\<close> bytes.\<close>

definition sprintf_into :: "nat \<Rightarrow> string \<Rightarrow> c_fault + string" where
  "sprintf_into n s = (if length s < n then Inr s else Inl Buffer_Overrun)"

text \<open>\<^verbatim>\<open>sprintf(buf, "%s%s", pre, buf + q)\<close>, defined only when the result stays clear of its argument.\<close>

definition sprintf_self :: "nat \<Rightarrow> string \<Rightarrow> nat \<Rightarrow> string \<Rightarrow> c_fault + string" where
  "sprintf_self n pre q buf =
     (let s = pre @ cstr_at buf q in if q \<le> length s then Inl Overlapping_Copy else sprintf_into n s)"

subsection \<open>Fields of a request\<close>

text \<open>\<^verbatim>\<open>temp = strtok(...)\<close> whose result is used as a string, and \<^verbatim>\<open>atoi(temp)\<close>.\<close>

definition tok_ptr :: "string \<times> nat \<Rightarrow> c_fault + (nat \<times> string \<times> nat)" where
  "tok_ptr st =
     bindE (strtok_at (fst st) (snd st)) (\<lambda>(t, buf, p).
       case t of None \<Rightarrow> Inl Null_Pointer | Some q \<Rightarrow> Inr (q, buf, p))"

definition tok_int :: "string \<times> nat \<Rightarrow> c_fault + (int \<times> string \<times> nat)" where
  "tok_int st = bindE (tok_ptr st) (\<lambda>(q, buf, p). Inr (atoi (cstr_at buf q), buf, p))"

text \<open>
  The state of a tokenizer over a message whose fields each end with a blank: \<open>done\<close> is the part
  already cut up, \<open>ts\<close> are the fields ahead, \<open>rest\<close> is whatever the array held behind them.
\<close>

definition msg_fields :: "string list \<Rightarrow> string" where
  "msg_fields ts = concat (map (\<lambda>t. t @ '' '') ts)"

definition cut_fields :: "string list \<Rightarrow> string" where
  "cut_fields ts = concat (map (\<lambda>t. t @ [NUL]) ts)"

definition tokst :: "string \<Rightarrow> string list \<Rightarrow> string \<Rightarrow> string \<times> nat" where
  "tokst done ts rest = (done @ msg_fields ts @ rest, length done)"

definition is_token :: "string \<Rightarrow> bool" where
  "is_token t \<longleftrightarrow> t \<noteq> [] \<and> CHR '' '' \<notin> set t \<and> NUL \<notin> set t"

subsection \<open>Laws\<close>

lemma NUL_neq_space [simp]: "NUL \<noteq> CHR '' ''" "CHR '' '' \<noteq> NUL"
  by (simp_all add: NUL_def)

lemma length_c_read [simp]: "n \<le> length buf \<Longrightarrow> length (c_read n bytes buf) = length buf"
  by (simp add: c_read_def)

lemma strtok_at_token:
  assumes tok: "tok \<noteq> []" "CHR '' '' \<notin> set tok" "NUL \<notin> set tok"
    and p: "p = length pre"
  shows "strtok_at (pre @ tok @ CHR '' '' # rest) p =
           Inr (Some p, pre @ tok @ NUL # rest, p + length tok + 1)"
proof -
  let ?rest = "tok @ CHR '' '' # rest"
  obtain t ts where t: "tok = t # ts" using tok(1) by (cases tok) auto
  have t': "t \<noteq> NUL" "t \<noteq> CHR '' ''" using tok t by auto
  have skip: "strtok_begin (pre @ ?rest) p = p"
    using t t' p by (simp add: strtok_begin_def)
  have "takeWhile (\<lambda>c. c \<noteq> CHR '' '' \<and> c \<noteq> NUL) ?rest = tok"
    by (rule takeWhile_sep) (use tok in auto)
  then have scan: "strtok_end (pre @ ?rest) p = p + length tok"
    using p by (simp add: strtok_end_def)
  have nth: "(pre @ ?rest) ! p = t" "(pre @ ?rest) ! (p + length tok) = CHR '' ''"
    using t p by (simp_all add: nth_append)
  show ?thesis
    using t' p by (simp add: strtok_at_def skip [unfolded p] scan [unfolded p] nth [unfolded p] Let_def list_update_append)
qed

lemma cstr_at_token:
  assumes "NUL \<notin> set tok" "p = length pre"
  shows "cstr_at (pre @ tok @ NUL # rest) p = tok"
  using assms by (simp add: cstr_at_def) (rule takeWhile_sep, auto)

lemma of_char_digit [simp]: "n < 10 \<Longrightarrow> of_char (char_of (48 + n :: nat)) = (48 + n :: nat)"
  by simp

lemma dec_of_nat_digits: "\<forall>c \<in> set (dec_of_nat n). is_digit c"
proof (induction n rule: dec_of_nat.induct)
  case (1 n)
  then show ?case by (subst dec_of_nat.simps) (auto simp: is_digit_def)
qed

lemma dec_of_nat_nonempty [simp]: "dec_of_nat n \<noteq> []"
  by (subst dec_of_nat.simps) simp

lemma digits_val_snoc: "digits_val (ds @ [c]) = 10 * digits_val ds + digit_val c"
  by (simp add: digits_val_def)

lemma digits_val_dec_of_nat [simp]: "digits_val (dec_of_nat n) = n"
proof (induction n rule: dec_of_nat.induct)
  case (1 n)
  show ?case
  proof (cases "n < 10")
    case True
    then show ?thesis
      by (subst dec_of_nat.simps) (simp add: digits_val_def digit_val_def)
  next
    case False
    then have "digits_val (dec_of_nat (n div 10)) = n div 10" using "1.IH" by simp
    then show ?thesis
      using False by (subst dec_of_nat.simps) (simp add: digits_val_snoc digit_val_def)
  qed
qed

lemma to_int32_id [simp]: "- (2 ^ 31) \<le> i \<Longrightarrow> i < 2 ^ 31 \<Longrightarrow> to_int32 i = i"
  by (simp add: to_int32_def sint_sbintrunc' signed_take_bit_int_eq_self)

lemma strtol10_dec_of_nat:
  assumes "rest = [] \<or> \<not> is_digit (hd rest)"
  shows "strtol10 (dec_of_nat n @ rest) = min (2 ^ 63 - 1) (int n)"
proof -
  have d: "\<forall>c \<in> set (dec_of_nat n). is_digit c" by (rule dec_of_nat_digits)
  obtain c cs where c: "dec_of_nat n = c # cs"
    by (cases "dec_of_nat n") auto
  have c': "is_digit c" using d c by simp
  then have sp: "\<not> is_space c" and sg: "c \<noteq> CHR ''-''" "c \<noteq> CHR ''+''"
    by (auto simp: is_digit_def is_space_def)
  have "takeWhile is_digit (dec_of_nat n @ rest) = dec_of_nat n"
    using d assms by (rule takeWhile_stop)
  moreover have "dropWhile is_space (dec_of_nat n @ rest) = dec_of_nat n @ rest"
    using c sp by simp
  moreover have "hd (dec_of_nat n @ rest) = c" using c by simp
  ultimately show ?thesis
    using sg by (simp add: strtol10_def Let_def)
qed

text \<open>Printing an \<^verbatim>\<open>int\<close> and reading it back, whatever non-digit text follows.\<close>

lemma atoi_dec_of_nat:
  assumes "int n < 2 ^ 31" "rest = [] \<or> \<not> is_digit (hd rest)"
  shows "atoi (dec_of_nat n @ rest) = int n"
  using assms by (simp add: atoi_def strtol10_dec_of_nat)

lemma dec_of_nat_no_delim:
  "CHR '' '' \<notin> set (dec_of_nat n)" "NUL \<notin> set (dec_of_nat n)"
  using dec_of_nat_digits [of n] by (auto simp: is_digit_def NUL_def)

lemma length_dec_of_nat:
  "n < 10 ^ Suc k \<Longrightarrow> length (dec_of_nat n) \<le> Suc k"
proof (induction k arbitrary: n)
  case 0
  then show ?case by (subst dec_of_nat.simps) simp
next
  case (Suc k)
  then have "n div 10 < 10 ^ Suc k" by (simp add: less_mult_imp_div_less)
  then have "length (dec_of_nat (n div 10)) \<le> Suc k" by (rule Suc.IH)
  then show ?case by (subst dec_of_nat.simps) simp
qed

lemma length_dec_of_nat_pos: "1 \<le> length (dec_of_nat n)"
  using dec_of_nat_nonempty [of n] by (cases "dec_of_nat n") auto

lemma length_dec_u8: "length (dec_of_int (uint (w :: u8))) \<le> 3"
  using length_dec_of_nat [of "unat w" 2] unsigned_less [of w, where ?'a = nat]
  by (simp add: dec_of_int_def unat_eq_nat_uint [symmetric])

lemma length_dec_u16: "length (dec_of_int (uint (w :: u16))) \<le> 5"
  using length_dec_of_nat [of "unat w" 4] unsigned_less [of w, where ?'a = nat]
  by (simp add: dec_of_int_def unat_eq_nat_uint [symmetric])

lemma dec_of_int_nat [simp]: "dec_of_int (int n) = dec_of_nat n"
  by (simp add: dec_of_int_def)

lemma msg_fields_simps [simp]: "msg_fields [] = []" "msg_fields (t # ts) = t @ CHR '' '' # msg_fields ts"
  by (simp_all add: msg_fields_def)

lemma cut_fields_simps [simp]: "cut_fields [] = []" "cut_fields (t # ts) = t @ NUL # cut_fields ts"
  by (simp_all add: cut_fields_def)

lemma length_cut_fields [simp]: "length (cut_fields ts) = length (msg_fields ts)"
  by (induction ts) auto

lemma length_msg_fields: "length (msg_fields ts) = sum_list (map length ts) + length ts"
  by (induction ts) auto

lemma is_token_dec [simp]: "is_token (dec_of_nat n)"
  using dec_of_nat_no_delim [of n] by (simp add: is_token_def)

lemma tok_ptr_tokst:
  assumes "is_token t"
  shows "tok_ptr (tokst done (t # ts) rest) = Inr (length done, tokst (done @ t @ [NUL]) ts rest)"
  using assms strtok_at_token [of t "length done" "done" "msg_fields ts @ rest"]
  by (simp add: tok_ptr_def tokst_def is_token_def)

lemma tok_int_tokst:
  assumes "int n < 2 ^ 31"
  shows "tok_int (tokst done (dec_of_nat n # ts) rest) =
           Inr (int n, tokst (done @ dec_of_nat n @ [NUL]) ts rest)"
proof -
  have "cstr_at (done @ dec_of_nat n @ NUL # msg_fields ts @ rest) (length done) = dec_of_nat n"
    by (rule cstr_at_token) (simp_all add: dec_of_nat_no_delim)
  moreover have "atoi (dec_of_nat n) = int n"
    using atoi_dec_of_nat [OF assms, of "[]"] by simp
  ultimately show ?thesis
    by (simp add: tok_int_def tok_ptr_tokst) (simp add: tokst_def)
qed

lemma dec_of_nat_append:
  assumes "0 < n" shows "dec_of_nat n @ dec_of_nat e = dec_of_nat (n * 10 ^ length (dec_of_nat e) + e)"
proof (induction e rule: dec_of_nat.induct)
  case (1 e)
  have step: "dec_of_nat (10 * k + d) = dec_of_nat k @ [char_of (48 + d)]" if "0 < k" "d < 10" for k d
    using that by (subst dec_of_nat.simps) simp
  show ?case
  proof (cases "e < 10")
    case True
    then show ?thesis using step [of n e] assms by (simp add: dec_of_nat.simps [of e] mult.commute)
  next
    case False
    let ?l = "length (dec_of_nat (e div 10))"
    have e: "dec_of_nat e = dec_of_nat (e div 10) @ [char_of (48 + e mod 10)]" using False by (subst dec_of_nat.simps) simp
    have "n * 10 ^ Suc ?l + e = 10 * (n * 10 ^ ?l + e div 10) + e mod 10" by simp
    moreover have "dec_of_nat (10 * (n * 10 ^ ?l + e div 10) + e mod 10) = dec_of_nat (n * 10 ^ ?l + e div 10) @ [char_of (48 + e mod 10)]"
      by (rule step) (use assms in auto)
    moreover have "length (dec_of_nat e) = Suc ?l" using e by simp
    ultimately show ?thesis
      using "1.IH" [OF False] by (metis append_assoc e)
  qed
qed

text \<open>The last field may end with the NUL that ends the string.\<close>

lemma tok_ptr_last:
  assumes "is_token t"
  shows "tok_ptr (done @ t @ NUL # rest, length done) = Inr (length done, done @ t @ NUL # rest, length done + length t)"
    "cstr_at (done @ t @ NUL # rest) (length done) = t"
proof -
  let ?buf = "done @ t @ NUL # rest"
  have t: "t \<noteq> []" "\<forall>c \<in> set t. c \<noteq> CHR '' '' \<and> c \<noteq> NUL" using assms by (auto simp: is_token_def)
  then have "takeWhile (\<lambda>c. c = CHR '' '') (t @ NUL # rest) = []" by (cases t) auto
  then have b: "strtok_begin ?buf (length done) = length done" by (simp add: strtok_begin_def)
  have "takeWhile (\<lambda>c. c \<noteq> CHR '' '' \<and> c \<noteq> NUL) (t @ NUL # rest) = t"
    by (rule takeWhile_sep) (use t in auto)
  then have e: "strtok_end ?buf (length done) = length done + length t" by (simp add: strtok_end_def)
  have "?buf ! length done \<noteq> NUL" using t by (simp add: nth_append)
  moreover have "?buf ! (length done + length t) = NUL" by (simp add: nth_append)
  ultimately show "tok_ptr (?buf, length done) = Inr (length done, ?buf, length done + length t)"
    by (simp add: tok_ptr_def strtok_at_def b e Let_def)
  show "cstr_at ?buf (length done) = t" by (rule cstr_at_token) (use t in auto)
qed

lemma cstr_at_cut_field:
  assumes "NUL \<notin> set t" "p = length (cut_fields ts)"
  shows "cstr_at (cut_fields (ts @ t # us) @ rest) p = t"
  using cstr_at_token [OF assms, of "cut_fields us @ rest"] by (simp add: cut_fields_def)

lemma c_read_msg_fields:
  "length (msg_fields ts) \<le> n \<Longrightarrow>
     (c_read n (msg_fields ts) buf, 0) = tokst [] ts (drop (length (msg_fields ts)) buf)"
  by (simp add: c_read_def tokst_def)

end
