(* ===== verification/Vm_Manager.thy ===== *)
theory Vm_Manager
  imports C_Library
begin

text \<open>
  The VM manager, src/VMManager/vm_manager.c: a TCP server that reads one request per connection
  (\<^verbatim>\<open>start_server\<close>), keeps the table \<open>android\<close> of free base images and turns a request into a call
  of command.sh (\<^verbatim>\<open>command\<close>).  \<open>manager\<close> is the memory of one server process; \<^verbatim>\<open>command\<close> forks and
  both processes go back to the accept loop, so the server is a pool of such memories with the
  step relation \<open>vm_step\<close>.  The operating system (does a \<^verbatim>\<open>chdir\<close>, \<^verbatim>\<open>fopen\<close>, \<^verbatim>\<open>fork\<close> succeed) is
  the parameter \<open>os_env\<close>; what the process asks of it is a list of \<open>action\<close>.
\<close>

record client_info =
  ci_command :: u8
  ci_os_type :: u8
  ci_index :: u8
  ci_id :: string
  ci_ip :: string
  ci_connect_type :: u8
  ci_port_i :: u16
  ci_port_a :: u16
  ci_port_e :: u16

record manager =
  android :: "int list"
  buffer :: string
  cwd :: string

record os_env =
  os_chdir :: "string \<Rightarrow> string \<Rightarrow> string option"
  os_fopen :: "string \<Rightarrow> string \<Rightarrow> bool"
  os_fclose :: bool
  os_fork :: bool

datatype action =
    Write_File string string string
  | Fork_System string string

definition android_init :: "int list" where
  "android_init = replicate 100 1"

definition manager_init :: "string \<Rightarrow> manager" where
  "manager_init d = \<lparr>android = android_init, buffer = replicate 500 NUL, cwd = d\<rparr>"

subsection \<open>The request: \<^verbatim>\<open>start_server\<close>\<close>

text \<open>The set-up of the listening socket: \<open>Some r\<close> is an early return, \<open>None\<close> enters the loop.\<close>

definition start_server_setup :: "int \<Rightarrow> int \<Rightarrow> int \<Rightarrow> int option" where
  "start_server_setup socket_rc bind_rc listen_rc =
     (if socket_rc = - 1 then Some (- 1)
      else if bind_rc < 0 then Some (- 1)
      else if listen_rc < 0 then Some (- 1)
      else None)"

definition parse_request :: "client_info \<Rightarrow> string \<Rightarrow> c_fault + (client_info \<times> string)" where
  "parse_request c0 buf =
     (if NUL \<notin> set buf then Inl Buffer_Overrun else
      bindE (tok_int (buf, 0)) (\<lambda>(command, st).
      bindE (tok_int st) (\<lambda>(os_type, st).
      bindE (tok_int st) (\<lambda>(index, st).
      bindE (tok_ptr st) (\<lambda>(idp, st).
      let c1 = c0\<lparr>ci_command := word_of_int command, ci_os_type := word_of_int os_type,
                  ci_index := word_of_int index\<rparr>
      in if ci_command c1 = 0 \<or> ci_command c1 = 3 then
           bindE (tok_ptr st) (\<lambda>(ipp, st).
           bindE (tok_int st) (\<lambda>(connect_type, st).
           bindE (tok_int st) (\<lambda>(port_i, st).
           bindE (tok_int st) (\<lambda>(port_a, st).
           bindE (tok_int st) (\<lambda>(port_e, st).
             Inr (c1\<lparr>ci_id := cstr_at (fst st) idp, ci_ip := cstr_at (fst st) ipp,
                     ci_connect_type := word_of_int connect_type,
                     ci_port_i := word_of_int port_i, ci_port_a := word_of_int port_a,
                     ci_port_e := word_of_int port_e\<rparr>, fst st))))))
         else Inr (c1\<lparr>ci_id := cstr_at (fst st) idp\<rparr>, fst st))))))"

subsection \<open>The command: \<^verbatim>\<open>command\<close>\<close>

text \<open>The two loops over \<^verbatim>\<open>android[100]\<close>: the first slot holding \<open>old\<close> is set to \<open>new\<close>.\<close>

function slot_loop :: "int \<Rightarrow> int \<Rightarrow> nat \<Rightarrow> int list \<Rightarrow> nat \<times> int list" where
  "slot_loop old new i a =
     (if i < 100
      then if a ! i = old then (i, a[i := new]) else slot_loop old new (Suc i) a
      else (0, a))"
  by pat_completeness auto
termination
  by (relation "measure (\<lambda>(old, new, i, a). 100 - i)") auto

declare slot_loop.simps [simp del]

definition pick_slot :: "client_info \<Rightarrow> int list \<Rightarrow> nat \<times> int list" where
  "pick_slot c a =
     (if ci_command c = 1 then
        if ci_os_type c = 0 then slot_loop 1 0 0 a else (0, a)
      else if ci_command c = 2 then
        if ci_os_type c = 0 then slot_loop 0 1 0 a else (0, a)
      else (0, a))"

definition os_name :: "u8 \<Rightarrow> string option" where
  "os_name t =
     (if t = 0 then Some ''android''
      else if t = 1 then Some ''tizen''
      else if t = 2 then Some ''ubuntu''
      else if t = 3 then Some ''windows7''
      else None)"

definition client_data :: "client_info \<Rightarrow> string" where
  "client_data c =
     dec_of_int (uint (ci_os_type c)) @ '' '' @ dec_of_int (uint (ci_port_i c)) @ '' '' @
     dec_of_int (uint (ci_port_a c)) @ '' '' @ dec_of_int (uint (ci_port_e c))"

definition command_line :: "client_info \<Rightarrow> string \<Rightarrow> nat \<Rightarrow> string" where
  "command_line c os index =
     ''./command.sh '' @ dec_of_int (uint (ci_command c)) @ '' '' @ ci_id c @ '' '' @ os @ '' '' @
     dec_of_int (uint (ci_index c)) @ '' '' @ dec_of_int (int index)"

definition chdir :: "os_env \<Rightarrow> string \<Rightarrow> string \<Rightarrow> string" where
  "chdir env d path = (case os_chdir env d path of Some d' \<Rightarrow> d' | None \<Rightarrow> d)"

text \<open>The end of \<^verbatim>\<open>command\<close>: the command line is printed and the forking parent runs it.\<close>

definition launch ::
  "os_env \<Rightarrow> client_info \<Rightarrow> nat \<Rightarrow> manager \<Rightarrow> action list \<Rightarrow> c_fault + (manager \<times> action list)" where
  "launch env c index m acts =
     (case os_name (ci_os_type c) of
        None \<Rightarrow> Inl Uninitialised
      | Some os \<Rightarrow>
          bindE (sprintf_into 100 (command_line c os index)) (\<lambda>cmd.
            Inr (m, acts @ (if os_fork env then [Fork_System (cwd m) cmd] else []))))"

definition command :: "os_env \<Rightarrow> client_info \<Rightarrow> manager \<Rightarrow> c_fault + (manager \<times> action list)" where
  "command env c m =
     (let (index, a) = pick_slot c (android m);
          m1 = m\<lparr>android := a\<rparr>
      in if ci_command c = 0 \<or> ci_command c = 3 then
           let d = chdir env (cwd m1) (ci_id c);
               m2 = m1\<lparr>cwd := d\<rparr>
           in if \<not> os_fopen env d ''client_data.dat'' then Inr (m2, [])
              else bindE (sprintf_into 100 (client_data c)) (\<lambda>data.
                let acts = [Write_File d ''client_data.dat'' data]
                in if \<not> os_fclose env then Inr (m2, acts)
                   else launch env c index (m2\<lparr>cwd := chdir env d ''..''\<rparr>) acts)
         else launch env c index m1 [])"

text \<open>One turn of the accept loop; \<open>bytes\<close> is what \<^verbatim>\<open>read\<close> delivers, \<open>c0\<close> the fresh \<^verbatim>\<open>malloc\<close>.\<close>

definition serve ::
  "os_env \<Rightarrow> client_info \<Rightarrow> int \<Rightarrow> string \<Rightarrow> manager \<Rightarrow> c_fault + (manager \<times> action list)" where
  "serve env c0 client_fd bytes m =
     (if client_fd < 0 then Inr (m, [])
      else bindE (parse_request c0 (c_read 500 bytes (buffer m))) (\<lambda>(c, buf).
             command env c (m\<lparr>buffer := buf\<rparr>)))"

subsection \<open>The pool of server processes\<close>

record pool =
  procs :: "manager list"
  actions :: "action list"

definition forks :: "action list \<Rightarrow> bool" where
  "forks acts = list_ex (\<lambda>a. case a of Fork_System _ _ \<Rightarrow> True | _ \<Rightarrow> False) acts"

definition pool_serve :: "os_env \<Rightarrow> client_info \<Rightarrow> nat \<Rightarrow> string \<Rightarrow> pool \<Rightarrow> c_fault + pool" where
  "pool_serve env c0 i bytes s =
     (if i < length (procs s) then
        bindE (serve env c0 1 bytes (procs s ! i)) (\<lambda>(m, acts).
          Inr \<lparr>procs = (procs s)[i := m] @ (if forks acts then [m] else []),
               actions = actions s @ acts\<rparr>)
      else Inr s)"

inductive vm_reach :: "os_env \<Rightarrow> string \<Rightarrow> pool \<Rightarrow> bool" for env d where
  vm_start: "vm_reach env d \<lparr>procs = [manager_init d], actions = []\<rparr>"
| vm_step: "vm_reach env d s \<Longrightarrow> pool_serve env c0 i bytes s = Inr s' \<Longrightarrow> vm_reach env d s'"

subsection \<open>Requests\<close>

lemma parse_request_short:
  assumes "(buf, 0) = tokst [] [dec_of_nat c, dec_of_nat t, dec_of_nat k, uid] rest"
    and "NUL \<in> set buf" "is_token uid" "c < 2 ^ 31" "t < 2 ^ 31" "k < 2 ^ 31"
    and "(of_nat c :: u8) \<noteq> 0" "(of_nat c :: u8) \<noteq> 3"
  shows "parse_request c0 buf =
           Inr (c0\<lparr>ci_command := of_nat c, ci_os_type := of_nat t, ci_index := of_nat k, ci_id := uid\<rparr>,
                cut_fields [dec_of_nat c, dec_of_nat t, dec_of_nat k, uid] @ rest)"
proof -
  let ?ds = "[dec_of_nat c, dec_of_nat t, dec_of_nat k]"
  have id: "cstr_at (cut_fields (?ds @ [uid]) @ rest) (length (cut_fields ?ds)) = uid"
    by (rule cstr_at_cut_field) (use assms in \<open>simp_all add: is_token_def\<close>)
  show ?thesis
    using assms(2-) id
    by (simp add: parse_request_def assms(1) tok_int_tokst tok_ptr_tokst Let_def) (simp add: tokst_def)
qed

lemma parse_request_long:
  assumes "(buf, 0) = tokst [] [dec_of_nat c, dec_of_nat t, dec_of_nat k, uid, ipa, dec_of_nat ct,
             dec_of_nat p1, dec_of_nat p2, dec_of_nat p3] rest"
    and "NUL \<in> set buf" "is_token uid" "is_token ipa"
    and "c < 2 ^ 31" "t < 2 ^ 31" "k < 2 ^ 31" "ct < 2 ^ 31" "p1 < 2 ^ 31" "p2 < 2 ^ 31" "p3 < 2 ^ 31"
    and "(of_nat c :: u8) = 0 \<or> (of_nat c :: u8) = 3"
  shows "parse_request c0 buf =
           Inr (\<lparr>ci_command = of_nat c, ci_os_type = of_nat t, ci_index = of_nat k, ci_id = uid, ci_ip = ipa,
                 ci_connect_type = of_nat ct, ci_port_i = of_nat p1, ci_port_a = of_nat p2,
                 ci_port_e = of_nat p3\<rparr>,
                cut_fields [dec_of_nat c, dec_of_nat t, dec_of_nat k, uid, ipa, dec_of_nat ct,
                  dec_of_nat p1, dec_of_nat p2, dec_of_nat p3] @ rest)"
proof -
  let ?ds = "[dec_of_nat c, dec_of_nat t, dec_of_nat k]"
  let ?ps = "[dec_of_nat ct, dec_of_nat p1, dec_of_nat p2, dec_of_nat p3]"
  have id: "cstr_at (cut_fields (?ds @ uid # ipa # ?ps) @ rest) (length (cut_fields ?ds)) = uid"
    by (rule cstr_at_cut_field) (use assms in \<open>simp_all add: is_token_def\<close>)
  have ip: "cstr_at (cut_fields ((?ds @ [uid]) @ ipa # ?ps) @ rest)
      (length (cut_fields (?ds @ [uid]))) = ipa"
    by (rule cstr_at_cut_field) (use assms in \<open>simp_all add: is_token_def\<close>)
  show ?thesis
    using assms(2-) id ip
    by (simp add: parse_request_def assms(1) tok_int_tokst tok_ptr_tokst Let_def) (simp add: tokst_def)
qed

subsection \<open>The slot table\<close>

definition table_ok :: "int list \<Rightarrow> bool" where
  "table_ok a \<longleftrightarrow> length a = 100 \<and> set a \<subseteq> {0, 1}"

definition free_slots :: "int list \<Rightarrow> nat set" where
  "free_slots a = {i. i < 100 \<and> a ! i = 1}"

definition used_slots :: "int list \<Rightarrow> nat set" where
  "used_slots a = {i. i < 100 \<and> a ! i = 0}"

lemma slot_loop_hit:
  "\<lbrakk>i \<le> k; k < 100; a ! k = old; \<forall>j. i \<le> j \<and> j < k \<longrightarrow> a ! j \<noteq> old\<rbrakk>
     \<Longrightarrow> slot_loop old new i a = (k, a[k := new])"
proof (induction old new i a rule: slot_loop.induct)
  case (1 old new i a)
  show ?case
  proof (cases "a ! i = old")
    case True
    then have "i = k" using "1.prems" by (metis le_neq_implies_less order_refl)
    with True "1.prems" show ?thesis by (subst slot_loop.simps) simp
  next
    case False
    then have "Suc i \<le> k" using "1.prems" by (metis Suc_leI le_neq_implies_less)
    with False "1" show ?thesis by (simp add: slot_loop.simps [of old new i a])
  qed
qed

lemma slot_loop_miss:
  "\<forall>j. i \<le> j \<and> j < 100 \<longrightarrow> a ! j \<noteq> old \<Longrightarrow> slot_loop old new i a = (0, a)"
  by (induction old new i a rule: slot_loop.induct) (subst slot_loop.simps, auto)

lemma slot_loop_Min:
  assumes "S = {i. i < 100 \<and> a ! i = old}"
  shows "slot_loop old new 0 a = (if S = {} then (0, a) else (Min S, a[Min S := new]))"
proof (cases "S = {}")
  case True
  then show ?thesis using assms by (auto intro!: slot_loop_miss)
next
  case False
  have "finite S" using assms by simp
  then have m: "Min S \<in> S" using False by simp
  have "a ! j \<noteq> old" if "j < Min S" for j
  proof
    assume "a ! j = old"
    then have "j \<in> S" using that m assms by auto
    then show False using that \<open>finite S\<close> by (simp add: leD)
  qed
  moreover have "Min S < 100" "a ! Min S = old"
    using m unfolding assms by blast+
  ultimately have "slot_loop old new 0 a = (Min S, a[Min S := new])"
    by (intro slot_loop_hit) simp_all
  then show ?thesis using False by simp
qed

lemma finite_slots [simp]: "finite (free_slots a)" "finite (used_slots a)"
  by (simp_all add: free_slots_def used_slots_def)

lemma pick_slot_create:
  assumes "ci_command c = 1" "ci_os_type c = 0"
  shows "pick_slot c a =
           (if free_slots a = {} then (0, a) else (Min (free_slots a), a[Min (free_slots a) := 0]))"
  using assms slot_loop_Min [of "free_slots a" a 1 0] by (simp add: pick_slot_def free_slots_def)

lemma pick_slot_delete:
  assumes "ci_command c = 2" "ci_os_type c = 0"
  shows "pick_slot c a =
           (if used_slots a = {} then (0, a) else (Min (used_slots a), a[Min (used_slots a) := 1]))"
  using assms slot_loop_Min [of "used_slots a" a 0 1] by (simp add: pick_slot_def used_slots_def)

lemma pick_slot_other:
  "ci_os_type c \<noteq> 0 \<or> ci_command c \<notin> {1, 2} \<Longrightarrow> pick_slot c a = (0, a)"
  by (auto simp: pick_slot_def)

lemma slot_update:
  assumes "table_ok a" "i < 100"
  shows "free_slots (a[i := 0]) = free_slots a - {i}" "used_slots (a[i := 0]) = insert i (used_slots a)"
    "free_slots (a[i := 1]) = insert i (free_slots a)" "used_slots (a[i := 1]) = used_slots a - {i}"
proof -
  have n: "(a[i := v]) ! j = (if j = i then v else a ! j)" for v j
    using assms by (simp add: table_ok_def nth_list_update)
  show "free_slots (a[i := 0]) = free_slots a - {i}" by (auto simp: free_slots_def n)
  show "used_slots (a[i := 0]) = insert i (used_slots a)"
    using assms(2) by (auto simp: used_slots_def n)
  show "free_slots (a[i := 1]) = insert i (free_slots a)"
    using assms(2) by (auto simp: free_slots_def n)
  show "used_slots (a[i := 1]) = used_slots a - {i}" by (auto simp: used_slots_def n)
qed

lemma slot_update_ok: "table_ok a \<Longrightarrow> v \<in> {0, 1} \<Longrightarrow> table_ok (a[i := v])"
  using set_update_subset_insert [of a i v] by (auto simp: table_ok_def)

lemma Min_slots_less: "free_slots a \<noteq> {} \<Longrightarrow> Min (free_slots a) < 100"
  "used_slots a \<noteq> {} \<Longrightarrow> Min (used_slots a) < 100"
  using Min_in [of "free_slots a"] Min_in [of "used_slots a"]
  by (auto simp: free_slots_def used_slots_def)

lemma pick_slot_table_ok: "table_ok a \<Longrightarrow> table_ok (snd (pick_slot c a))"
  by (cases "ci_os_type c \<noteq> 0 \<or> ci_command c \<notin> {1, 2}")
     (auto simp: pick_slot_other pick_slot_create pick_slot_delete slot_update_ok)

lemma android_init_ok: "table_ok android_init" "free_slots android_init = {..<100}"
  by (auto simp: table_ok_def android_init_def free_slots_def)

text \<open>A client and an operating system to evaluate the definitions on.\<close>

definition sample_client :: client_info where
  "sample_client = \<lparr>ci_command = 1, ci_os_type = 0, ci_index = 0, ci_id = ''a'', ci_ip = ''10.0.0.2'',
     ci_connect_type = 0, ci_port_i = 1, ci_port_a = 1, ci_port_e = 1\<rparr>"

definition sample_env :: os_env where
  "sample_env = \<lparr>os_chdir = (\<lambda>d path. Some (d @ ''/'' @ path)), os_fopen = (\<lambda>_ _. False),
     os_fclose = True, os_fork = True\<rparr>"

text \<open>
  C11. Allocation refines an abstract set of free base images: a create request for Android hands
  out the least free image and removes exactly that one; when none is free it hands out image 0,
  which is in use, and records nothing.
\<close>

theorem create_takes_least_free:
  assumes "table_ok a" "ci_command c = 1" "ci_os_type c = 0"
  shows "if free_slots a = {} then pick_slot c a = (0, a) \<and> 0 \<in> used_slots a
         else fst (pick_slot c a) = Min (free_slots a) \<and>
              free_slots (snd (pick_slot c a)) = free_slots a - {fst (pick_slot c a)} \<and>
              used_slots (snd (pick_slot c a)) = insert (fst (pick_slot c a)) (used_slots a)"
proof (cases "free_slots a = {}")
  case True
  have "a ! 0 \<in> set a" using assms(1) by (simp add: table_ok_def)
  then have "a ! 0 = 0 \<or> a ! 0 = 1" using assms(1) unfolding table_ok_def by blast
  then have "0 \<in> used_slots a" using True by (auto simp: free_slots_def used_slots_def)
  then show ?thesis using assms True by (simp add: pick_slot_create)
next
  case False
  then show ?thesis using assms by (simp add: pick_slot_create slot_update Min_slots_less)
qed

theorem create_takes_least_free_witness:
  "fst (pick_slot sample_client android_init) = Min (free_slots android_init) \<and> free_slots android_init \<noteq> {}"
proof -
  have "ci_command sample_client = 1" "ci_os_type sample_client = 0" by (simp_all add: sample_client_def)
  moreover have "0 \<in> free_slots android_init" by (simp add: android_init_ok)
  then have "free_slots android_init \<noteq> {}" by (metis empty_iff)
  ultimately show ?thesis
    using create_takes_least_free [OF android_init_ok(1), of sample_client] by simp
qed

text \<open>Consecutive create requests on one table.\<close>

fun create_seq :: "client_info \<Rightarrow> nat \<Rightarrow> int list \<Rightarrow> nat list \<times> int list" where
  "create_seq c 0 a = ([], a)"
| "create_seq c (Suc n) a =
     (let (is, a') = create_seq c n a; (i, a'') = pick_slot c a' in (is @ [i], a''))"

definition slots :: "nat \<Rightarrow> int list" where
  "slots n = replicate n 0 @ replicate (100 - n) 1"

lemma slots_nth: "x < 100 \<Longrightarrow> n \<le> 100 \<Longrightarrow> slots n ! x = (if x < n then 0 else 1)"
  by (simp add: slots_def nth_append)

lemma length_slots [simp]: "n \<le> 100 \<Longrightarrow> length (slots n) = 100"
  by (simp add: slots_def)

lemma slots_sets: "n \<le> 100 \<Longrightarrow> free_slots (slots n) = {n..<100}"
  "n \<le> 100 \<Longrightarrow> used_slots (slots n) = {0..<n}"
  by (auto simp: free_slots_def used_slots_def slots_nth split: if_splits)

lemma slots_ok: "n \<le> 100 \<Longrightarrow> table_ok (slots n)"
  by (auto simp: table_ok_def slots_def)

lemma slots_0: "slots 0 = android_init"
  by (simp add: slots_def android_init_def)

lemma pick_slot_slots:
  assumes "ci_command c = 1" "ci_os_type c = 0" "n < 100"
  shows "pick_slot c (slots n) = (n, slots (Suc n))"
proof -
  have "Min {n..<100} = n" using assms by (intro Min_eqI) auto
  then have "pick_slot c (slots n) = (n, (slots n)[n := 0])"
    using assms by (simp add: pick_slot_create slots_sets)
  moreover have "(slots n)[n := 0] = slots (Suc n)"
    using assms by (intro nth_equalityI) (auto simp: slots_nth nth_list_update)
  ultimately show ?thesis by simp
qed

lemma create_seq_table:
  assumes "ci_command c = 1" "ci_os_type c = 0" "n \<le> 100"
  shows "create_seq c n android_init = ([0..<n], slots n)"
  using assms(3) by (induction n) (simp_all add: slots_0 pick_slot_slots assms(1,2))

text \<open>
  On one server process the first \<open>n\<close> Android create requests, \<open>n\<close> at most 100, get the base
  images 0, 1, \<dots>, n - 1: no image is handed out twice.
\<close>

theorem creates_are_distinct:
  assumes "ci_command c = 1" "ci_os_type c = 0" "n \<le> 100"
  shows "fst (create_seq c n android_init) = [0..<n]"
  using assms by (simp add: create_seq_table)

theorem creates_are_distinct_witness:
  "fst (create_seq sample_client 3 android_init) = [0, 1, 2]"
  using creates_are_distinct [of sample_client 3] by (simp add: sample_client_def upt_rec)

text \<open>
  A delete request frees the least image in use; the image number the request carries plays
  no part.  So after \<open>n\<close> creates any delete frees image 0, and the next create hands image 0 out
  although only the deleted machine's image is gone.
\<close>

theorem delete_ignores_index:
  assumes "ci_command del = 2" "ci_os_type del = 0" "ci_command c = 1" "ci_os_type c = 0"
    and "0 < n" "n \<le> 100"
  shows "fst (pick_slot del (snd (create_seq c n android_init))) = 0 \<and>
         fst (pick_slot c (snd (pick_slot del (snd (create_seq c n android_init))))) = 0"
proof -
  have "Min {0..<n} = 0" using assms by (intro Min_eqI) auto
  then have d: "pick_slot del (slots n) = (0, (slots n)[0 := 1])"
    using assms by (simp add: pick_slot_delete slots_sets)
  have "free_slots ((slots n)[0 := 1]) = insert 0 {n..<100}"
    using assms by (simp add: slot_update slots_ok slots_sets)
  moreover have "Min (insert 0 {n..<100}) = 0" by (intro Min_eqI) auto
  ultimately have "fst (pick_slot c ((slots n)[0 := 1])) = 0"
    using assms by (simp add: pick_slot_create)
  then show ?thesis
    using assms d by (simp add: create_seq_table)
qed

theorem delete_ignores_index_witness:
  "fst (pick_slot (sample_client\<lparr>ci_command := 2, ci_index := 4\<rparr>)
     (snd (create_seq sample_client 5 android_init))) = 0"
  using delete_ignores_index [of "sample_client\<lparr>ci_command := 2, ci_index := 4\<rparr>" sample_client 5]
  by (simp add: sample_client_def)

text \<open>
  The request wire format round-trips: whatever an earlier request left in the receive
  array, a start or install request whose nine fields each end with a blank is read back field
  by field, each at the width of its member of \<^verbatim>\<open>client_info\<close>.
\<close>

theorem start_request_roundtrip:
  assumes "msg = msg_fields [dec_of_nat c, dec_of_nat t, dec_of_nat k, uid, ipa, dec_of_nat ct,
             dec_of_nat p1, dec_of_nat p2, dec_of_nat p3]"
    and "length msg \<le> 500" "NUL \<in> set (drop (length msg) buf)" "is_token uid" "is_token ipa"
    and "c = 0 \<or> c = 3"
    and "t < 2 ^ 31" "k < 2 ^ 31" "ct < 2 ^ 31" "p1 < 2 ^ 31" "p2 < 2 ^ 31" "p3 < 2 ^ 31"
  shows "\<exists>buf'. parse_request c0 (c_read 500 msg buf) =
           Inr (\<lparr>ci_command = of_nat c, ci_os_type = of_nat t, ci_index = of_nat k, ci_id = uid, ci_ip = ipa,
                 ci_connect_type = of_nat ct, ci_port_i = of_nat p1, ci_port_a = of_nat p2,
                 ci_port_e = of_nat p3\<rparr>, buf')"
proof -
  have "(c_read 500 msg buf, 0) = tokst [] [dec_of_nat c, dec_of_nat t, dec_of_nat k, uid, ipa,
      dec_of_nat ct, dec_of_nat p1, dec_of_nat p2, dec_of_nat p3] (drop (length msg) buf)"
    using assms(2) unfolding assms(1) by (rule c_read_msg_fields)
  moreover have "NUL \<in> set (c_read 500 msg buf)"
    using assms(2,3) by (simp add: c_read_def)
  ultimately show ?thesis
    using assms(4-) by (intro exI) (rule parse_request_long, auto)
qed

theorem start_request_roundtrip_witness:
  "\<exists>buf'. parse_request sample_client
       (c_read 500 ''0 2 1 bob 10.0.0.2 1 4 5 6 '' (replicate 500 NUL)) =
     Inr (\<lparr>ci_command = 0, ci_os_type = 2, ci_index = 1, ci_id = ''bob'', ci_ip = ''10.0.0.2'',
           ci_connect_type = 1, ci_port_i = 4, ci_port_a = 5, ci_port_e = 6\<rparr>, buf')"
proof -
  have "''0 2 1 bob 10.0.0.2 1 4 5 6 '' = msg_fields [dec_of_nat 0, dec_of_nat 2, dec_of_nat 1,
      ''bob'', ''10.0.0.2'', dec_of_nat 1, dec_of_nat 4, dec_of_nat 5, dec_of_nat 6]"
    by code_simp
  from start_request_roundtrip [OF this, of "replicate 500 NUL" sample_client]
  show ?thesis by (simp add: is_token_def NUL_def)
qed

lemma launch_bound:
  assumes "os_name (ci_os_type c) = Some os" "index < 100"
  shows "(length (ci_id c) \<le> 66 \<longrightarrow>
            launch env c index m acts =
              Inr (m, acts @ (if os_fork env then [Fork_System (cwd m) (command_line c os index)] else []))) \<and>
         (75 \<le> length (ci_id c) \<longrightarrow> launch env c index m acts = Inl Buffer_Overrun)"
proof -
  have os: "5 \<le> length os" "length os \<le> 8"
    using assms(1) by (auto simp: os_name_def split: if_splits)
  have ix: "length (dec_of_int (int index)) \<le> 2" "1 \<le> length (dec_of_int (int index))"
    using length_dec_of_nat [of index 1] length_dec_of_nat_pos [of index] assms(2) by simp_all
  have w: "1 \<le> length (dec_of_int (uint (x :: u8)))" for x
    using length_dec_of_nat_pos [of "unat x"] by (simp add: dec_of_int_def unat_eq_nat_uint [symmetric])
  note cl = os ix w [of "ci_command c"] w [of "ci_index c"]
    length_dec_u8 [of "ci_command c"] length_dec_u8 [of "ci_index c"]
  have len: "length (command_line c os index) =
      17 + length (dec_of_int (uint (ci_command c))) + length (ci_id c) + length os +
      length (dec_of_int (uint (ci_index c))) + length (dec_of_int (int index))"
    by (simp add: command_line_def)
  have "length (ci_id c) \<le> 66 \<Longrightarrow> length (command_line c os index) < 100"
    using len cl by linarith
  moreover have "75 \<le> length (ci_id c) \<Longrightarrow> \<not> length (command_line c os index) < 100"
    using len cl by linarith
  ultimately show ?thesis
    using assms(1) by (simp add: launch_def sprintf_into_def)
qed

lemma pick_slot_index: "fst (pick_slot c a) < 100"
  by (cases "ci_os_type c \<noteq> 0 \<or> ci_command c \<notin> {1, 2}")
     (auto simp: pick_slot_other pick_slot_create pick_slot_delete Min_slots_less)

text \<open>
  C38. What becomes of the command line for every type of system and every slot that the table can yield: a type
  above 3 leaves the system's name unset and the line is made of uninitialised bytes; for the four known types
  the line fits its array of 100 bytes when the client's name has at most 66 characters, and the fork is reached with exactly
  that line; a name of 75 or more characters overruns the array.  (For the lengths between, it depends on the
  number of digits and the system's name.)
\<close>

theorem command_line_bound:
  fixes c a
  defines "index \<equiv> fst (pick_slot c a)"
  shows "case os_name (ci_os_type c) of
      None \<Rightarrow> 3 < ci_os_type c \<and> launch env c index m acts = Inl Uninitialised
    | Some os \<Rightarrow> ci_os_type c \<le> 3 \<and>
        (length (ci_id c) \<le> 66 \<longrightarrow>
            launch env c index m acts =
              Inr (m, acts @ (if os_fork env then [Fork_System (cwd m) (command_line c os index)] else []))) \<and>
        (75 \<le> length (ci_id c) \<longrightarrow> launch env c index m acts = Inl Buffer_Overrun)"
proof (cases "os_name (ci_os_type c)")
  case None
  have "3 < t" if "t \<noteq> 0" "t \<noteq> 1" "t \<noteq> 2" "t \<noteq> 3" for t :: u8
    using that by unat_arith
  then have "3 < ci_os_type c" using None by (auto simp: os_name_def split: if_splits)
  then show ?thesis using None by (simp add: launch_def)
next
  case (Some os)
  then have "ci_os_type c \<le> 3" by (auto simp: os_name_def split: if_splits)
  then show ?thesis
    using Some launch_bound [OF Some, of index env m acts] pick_slot_index [of c a] by (simp add: index_def)
qed

theorem command_line_bound_witness:
  "launch sample_env sample_client (fst (pick_slot sample_client android_init)) (manager_init ''/srv'') [] =
     Inr (manager_init ''/srv'', [Fork_System ''/srv'' ''./command.sh 1 a android 0 0'']) \<and>
   launch sample_env (sample_client\<lparr>ci_id := replicate 80 (CHR ''x'')\<rparr>) 0 (manager_init ''/srv'') [] = Inl Buffer_Overrun \<and>
   launch sample_env (sample_client\<lparr>ci_os_type := 9\<rparr>) 0 (manager_init ''/srv'') [] = Inl Uninitialised"
proof -
  let ?l = "sample_client\<lparr>ci_id := replicate 80 (CHR ''x'')\<rparr>" and ?t = "sample_client\<lparr>ci_os_type := 9\<rparr>"
  let ?u = "replicate 100 0 :: int list"
  have i: "fst (pick_slot sample_client android_init) = 0" "fst (pick_slot ?l ?u) = 0" "fst (pick_slot ?t ?u) = 0"
    by code_simp+
  have "command_line sample_client ''android'' 0 = ''./command.sh 1 a android 0 0''" by code_simp
  then show ?thesis
    using command_line_bound [of sample_client sample_env android_init "manager_init ''/srv''" "[]"]
      command_line_bound [of ?l sample_env ?u "manager_init ''/srv''" "[]"]
      command_line_bound [of ?t sample_env ?u "manager_init ''/srv''" "[]"]
    unfolding i by (simp add: os_name_def sample_client_def sample_env_def manager_init_def)
qed

subsection \<open>Runs of the server pool\<close>

definition create_msg :: string where
  "create_msg = ''1 0 0 a ''"

definition serving :: "string \<Rightarrow> nat \<Rightarrow> manager \<Rightarrow> bool" where
  "serving d n m \<longleftrightarrow>
     android m = slots n \<and> length (buffer m) = 500 \<and> NUL \<in> set (drop 8 (buffer m)) \<and> cwd m = d"

lemma serve_create:
  assumes "serving d n m" "n < 100" "os_fork env"
  shows "\<exists>m'. serve env c0 1 create_msg m =
           Inr (m', [Fork_System d (''./command.sh 1 a android 0 '' @ dec_of_nat n)]) \<and>
           serving d (Suc n) m'"
proof -
  let ?fs = "[dec_of_nat 1, dec_of_nat 0, dec_of_nat 0, ''a'']"
  let ?c = "c0\<lparr>ci_command := 1, ci_os_type := 0, ci_index := 0, ci_id := ''a''\<rparr>"
  have msg: "create_msg = msg_fields ?fs" by code_simp
  have len: "length create_msg = 8" by (simp add: create_msg_def)
  have "(c_read 500 create_msg (buffer m), 0) = tokst [] ?fs (drop 8 (buffer m))"
    using c_read_msg_fields [of ?fs 500 "buffer m"] len unfolding msg by simp
  moreover have "NUL \<in> set (c_read 500 create_msg (buffer m))"
    using assms(1) len by (simp add: c_read_def serving_def)
  ultimately have parse: "parse_request c0 (c_read 500 create_msg (buffer m)) =
      Inr (?c, cut_fields ?fs @ drop 8 (buffer m))"
    by (simp add: parse_request_short [where c = 1 and t = 0 and k = 0, simplified] is_token_def NUL_def)
  have cl: "length (dec_of_nat n) \<le> 2" using length_dec_of_nat [of n 1] assms(2) by simp
  have z: "dec_of_int 0 = ''0''" "dec_of_int 1 = ''1''" by code_simp+
  have "dec_of_nat 0 = ''0''" "dec_of_nat (Suc 0) = ''1''" by code_simp+
  then have "length (cut_fields ?fs) = 8" by simp
  then obtain cut where cut: "length cut = 8"
    and parse': "parse_request c0 (c_read 500 create_msg (buffer m)) = Inr (?c, cut @ drop 8 (buffer m))"
    using parse by blast
  show ?thesis
    using assms cl cut parse'
    by (simp add: serve_def command_def pick_slot_slots launch_def os_name_def sprintf_into_def
         command_line_def z serving_def)
qed

text \<open>
  C27. The table of images is not shared by the processes that \<^verbatim>\<open>command\<close> forks: parent and child go on serving, each with a
  copy of its own, so the pool of servers reaches a state in which three create requests have been answered
  with the base images 0, 1 and 1.  (One process alone never hands an image out twice: \<open>creates_are_distinct\<close>.)
\<close>

theorem forked_servers_reuse_image:
  assumes "os_fork env"
  shows "\<exists>s. vm_reach env d s \<and>
           actions s = [Fork_System d ''./command.sh 1 a android 0 0'',
                        Fork_System d ''./command.sh 1 a android 0 1'',
                        Fork_System d ''./command.sh 1 a android 0 1'']"
proof -
  have z: "dec_of_nat 0 = ''0''" "dec_of_nat 1 = ''1''" "dec_of_nat (Suc 0) = ''1''" by code_simp+
  let ?a0 = "Fork_System d ''./command.sh 1 a android 0 0''"
  let ?a1 = "Fork_System d ''./command.sh 1 a android 0 1''"
  have "serving d 0 (manager_init d)"
    by (simp add: serving_def manager_init_def slots_0)
  then obtain m1 where s1: "serve env sample_client 1 create_msg (manager_init d) = Inr (m1, [?a0])"
    and m1: "serving d 1 m1"
    using serve_create [of d 0 _ env sample_client] assms by (auto simp: z)
  obtain m2 where s2: "serve env sample_client 1 create_msg m1 = Inr (m2, [?a1])"
    using serve_create [OF m1 _ assms, of sample_client] by (auto simp: z)
  note step = vm_reach.vm_step [where ?c0.0 = sample_client and bytes = create_msg]
  have "vm_reach env d \<lparr>procs = [manager_init d], actions = []\<rparr>" by (rule vm_reach.vm_start)
  then have "vm_reach env d \<lparr>procs = [m1, m1], actions = [?a0]\<rparr>"
    by (rule step [where i = 0]) (simp add: pool_serve_def s1 forks_def)
  then have "vm_reach env d \<lparr>procs = [m2, m1, m2], actions = [?a0, ?a1]\<rparr>"
    by (rule step [where i = 0]) (simp add: pool_serve_def s2 forks_def)
  then have "vm_reach env d \<lparr>procs = [m2, m2, m2, m2], actions = [?a0, ?a1, ?a1]\<rparr>"
    by (rule step [where i = 1]) (simp add: pool_serve_def s2 forks_def)
  then show ?thesis by fastforce
qed

theorem forked_servers_reuse_image_witness:
  "\<exists>s. vm_reach sample_env ''/srv'' s \<and>
     actions s = [Fork_System ''/srv'' ''./command.sh 1 a android 0 0'',
                  Fork_System ''/srv'' ''./command.sh 1 a android 0 1'',
                  Fork_System ''/srv'' ''./command.sh 1 a android 0 1'']"
  by (rule forked_servers_reuse_image) (simp add: sample_env_def)

text \<open>
  When the hand-over file cannot be opened, a start request returns without going back to the
  parent directory: the server keeps running inside the client's directory.
\<close>

theorem failed_open_leaves_directory:
  assumes "ci_command c = 0 \<or> ci_command c = 3" "\<not> os_fopen env (chdir env (cwd m) (ci_id c)) ''client_data.dat''"
  shows "command env c m = Inr (m\<lparr>cwd := chdir env (cwd m) (ci_id c)\<rparr>, [])"
  using assms by (auto simp: command_def pick_slot_def Let_def)

theorem failed_open_leaves_directory_witness:
  "command sample_env (sample_client\<lparr>ci_command := 0\<rparr>) (manager_init ''/srv'') =
     Inr ((manager_init ''/srv'')\<lparr>cwd := ''/srv/a''\<rparr>, [])"
  using failed_open_leaves_directory [of "sample_client\<lparr>ci_command := 0\<rparr>" sample_env "manager_init ''/srv''"]
  by (simp add: sample_env_def sample_client_def manager_init_def chdir_def)

end
