(* ===== verification/Load_Balancer.thy ===== *)
theory Load_Balancer
  imports Vm_Manager
begin

text \<open>
  The load balancer, src/LoadBalancer: the handlers of routes/select.js that start or install an image, the
  session lists in Redis they claim a port in (util/Redis.js), the messages to the VM manager
  (util/SocketUtil.js) and the membership handlers (routes/member.js, model/MemberDAO.js).  Redis and MongoDB are
  parameters; what the code relies on is stated by \<open>redis_laws\<close> and \<open>member_laws\<close>.  A handler is a
  chain of callbacks: \<open>flight\<close> is a request under way with the replies it waits for, and \<open>turn\<close>
  handles its next reply, so that several requests can interleave.
\<close>

datatype js = Undefined | Null | Str string

datatype js_error = Type_Error

text \<open>The operator \<^verbatim>\<open>==\<close> on these values.\<close>

definition js_eq :: "js \<Rightarrow> js \<Rightarrow> bool" where
  "js_eq a b \<longleftrightarrow> a = b \<or> a \<in> {Undefined, Null} \<and> b \<in> {Undefined, Null}"

subsection \<open>Sessions\<close>

text \<open>\<open>hgetall\<close> is \<open>None\<close> (a null reply) for a hash that does not exist; \<open>redis_text\<close> is how the client
  library writes a value.\<close>

record 'r redis =
  hset :: "string \<Rightarrow> string \<Rightarrow> string \<Rightarrow> 'r \<Rightarrow> 'r"
  hgetall :: "string \<Rightarrow> 'r \<Rightarrow> (string \<rightharpoonup> string) option"
  hget :: "string \<Rightarrow> string \<Rightarrow> 'r \<Rightarrow> string option"
  hdel :: "string \<Rightarrow> string \<Rightarrow> 'r \<Rightarrow> 'r"
  redis_text :: "js \<Rightarrow> string"

definition redis_laws :: "'r redis \<Rightarrow> bool" where
  "redis_laws R \<longleftrightarrow>
     (\<forall>c k v db. hgetall R c (hset R c k v db) = Some ((case hgetall R c db of None \<Rightarrow> Map.empty | Some m \<Rightarrow> m)(k \<mapsto> v)))
     \<and> (\<forall>c c' k v db. c \<noteq> c' \<longrightarrow> hgetall R c (hset R c' k v db) = hgetall R c db)
     \<and> (\<forall>c k db. hget R c k db = Option.bind (hgetall R c db) (\<lambda>m. m k))
     \<and> redis_text R Null = ''null'' \<and> (\<forall>s. redis_text R (Str s) = s)"

definition setSession :: "'r redis \<Rightarrow> string \<Rightarrow> string \<Rightarrow> js \<Rightarrow> 'r \<Rightarrow> 'r" where
  "setSession R category key value = hset R category key (redis_text R value)"

definition getSession :: "'r redis \<Rightarrow> string \<Rightarrow> string \<Rightarrow> 'r \<Rightarrow> js" where
  "getSession R category key db = (case hget R category key db of None \<Rightarrow> Null | Some s \<Rightarrow> Str s)"

definition delSession :: "'r redis \<Rightarrow> string \<Rightarrow> string \<Rightarrow> 'r \<Rightarrow> 'r" where
  "delSession R category key = hdel R category key"

definition port_key :: "nat \<Rightarrow> string" where
  "port_key index = ''port'' @ dec_of_nat index"

definition initRedis :: "'r redis \<Rightarrow> 'r \<Rightarrow> 'r" where
  "initRedis R =
     fold (\<lambda>index db. setSession R ''sessionList2'' (port_key index) Null
                        (setSession R ''sessionList1'' (port_key index) Null db)) [1..<9]"

definition getPortLB :: "'r redis \<Rightarrow> string \<Rightarrow> nat \<Rightarrow> 'r \<Rightarrow> nat option" where
  "getPortLB R category index db = (if js_eq (getSession R category (port_key index) db) Null then Some index else None)"

text \<open>What the web server (src/WebServer/bin/www) does when the browser closes the image stream of worker \<open>i\<close>.\<close>

definition image_closed :: "'r redis \<Rightarrow> nat \<Rightarrow> 'r \<Rightarrow> 'r" where
  "image_closed R i = setSession R ''sessionList2'' (port_key i) Null"

subsection \<open>Choosing a port\<close>

definition entry :: "(string \<rightharpoonup> string) \<Rightarrow> nat \<Rightarrow> js" where
  "entry m index = (case m (port_key index) of None \<Rightarrow> Undefined | Some s \<Rightarrow> Str s)"

text \<open>The loops of \<^verbatim>\<open>LoadBalancer\<close> and \<^verbatim>\<open>checkOverLogin\<close>: where \<open>index\<close> stops.\<close>

function port_loop :: "(js \<Rightarrow> bool) \<Rightarrow> (string \<rightharpoonup> string) \<Rightarrow> nat \<Rightarrow> nat" where
  "port_loop hit m index =
     (if index \<le> 3 then if hit (entry m index) then index else port_loop hit m (Suc index) else index)"
  by pat_completeness auto
termination
  by (relation "measure (\<lambda>(hit, m, index). 4 - index)") auto

declare port_loop.simps [simp del]

definition checkOverLogin :: "js \<Rightarrow> (string \<rightharpoonup> string) \<Rightarrow> bool" where
  "checkOverLogin email m \<longleftrightarrow> \<not> port_loop (\<lambda>v. js_eq v email) m 1 > 3"

definition getImageIndex :: "string \<Rightarrow> nat option" where
  "getImageIndex version =
     (if version = ''androidx86'' then Some 0
      else if version = ''tizen'' then Some 1
      else if version = ''linux'' then Some 2
      else if version = ''window7'' then Some 3
      else None)"

subsection \<open>Messages to the VM manager\<close>

text \<open>The text a connect callback writes; \<^verbatim>\<open>toString\<close> of an undefined value throws.\<close>

definition js_texts :: "js list \<Rightarrow> js_error + string" where
  "js_texts vs =
     (if list_all (\<lambda>v. case v of Str _ \<Rightarrow> True | _ \<Rightarrow> False) vs
      then Inr (msg_fields (map (\<lambda>v. case v of Str s \<Rightarrow> s | _ \<Rightarrow> []) vs)) else Inl Type_Error)"

definition js_num :: "nat option \<Rightarrow> js" where
  "js_num n = (case n of None \<Rightarrow> Undefined | Some k \<Rightarrow> Str (dec_of_nat k))"

definition getSocketStart :: "nat \<Rightarrow> nat option \<Rightarrow> js \<Rightarrow> js \<Rightarrow> js \<Rightarrow> nat \<Rightarrow> nat option \<Rightarrow> js_error + string" where
  "getSocketStart cmd ostype index uid ip connectType port =
     js_texts [js_num (Some cmd), js_num ostype, index, uid, ip, js_num (Some connectType), js_num port, js_num port, js_num port]"

definition getSocketInstall :: "nat \<Rightarrow> nat option \<Rightarrow> js \<Rightarrow> js \<Rightarrow> js \<Rightarrow> nat \<Rightarrow> nat option \<Rightarrow> js_error + string" where
  "getSocketInstall cmd ostype index uid ip connectType port =
     js_texts [js_num (Some cmd), js_num ostype, index, uid, ip, js_num (Some connectType), js_num port, js_num port, js_num port]"

definition getSocketCreate :: "nat \<Rightarrow> nat option \<Rightarrow> js \<Rightarrow> js \<Rightarrow> js_error + string" where
  "getSocketCreate cmd ostype index uid = js_texts [js_num (Some cmd), js_num ostype, index, uid]"

definition getSocketDelete :: "nat \<Rightarrow> nat option \<Rightarrow> js \<Rightarrow> js \<Rightarrow> js_error + string" where
  "getSocketDelete cmd ostype index uid = js_texts [js_num (Some cmd), js_num ostype, index, uid]"

subsection \<open>Starting and installing\<close>

datatype kind = Start | Install

record request =
  rq_kind :: kind
  rq_version :: string
  rq_index :: js
  rq_email :: js
  rq_ip :: js

datatype pending_reply = Check1 | Check2 | Get_Ports | Set_Port nat

datatype response = Resp_Dup | Resp_Full | Resp_Url nat

record flight =
  rq :: request
  waiting :: "pending_reply list"
  check :: bool
  session_port :: "nat option"
  answer :: "response option"
  sent :: "(js_error + string) option"

definition own_list :: "kind \<Rightarrow> string" where
  "own_list k = (case k of Start \<Rightarrow> ''sessionList1'' | Install \<Rightarrow> ''sessionList2'')"

text \<open>\<^verbatim>\<open>requestStartOS\<close> and \<^verbatim>\<open>requestInstallOS\<close> up to their first call of Redis.  The branch for \<^verbatim>\<open>"androidx86"\<close>
  is never taken: the variable it tests holds the result of \<^verbatim>\<open>getImageIndex\<close>.\<close>

definition new_request :: "request \<Rightarrow> flight" where
  "new_request r = \<lparr>rq = r, waiting = [Check1], check = True, session_port = None, answer = None, sent = None\<rparr>"

definition vm_message :: "flight \<Rightarrow> js_error + string" where
  "vm_message f =
     (let r = rq f
      in case rq_kind r of
           Start \<Rightarrow> getSocketStart 0 (getImageIndex (rq_version r)) (rq_index r) (rq_email r) (rq_ip r) 1 (session_port f)
         | Install \<Rightarrow> getSocketInstall 3 (getImageIndex (rq_version r)) (rq_index r) (rq_email r) (rq_ip r) 0 (session_port f))"

text \<open>The callback of \<^verbatim>\<open>checkOverLogin\<close> on the first list, which starts the check of the second one but does not wait
  for it; the callback of that second check; and the two callbacks of \<^verbatim>\<open>LoadBalancer\<close>, the last with the
  caller's callback.  \<open>m\<close> is the list Redis replied with.\<close>

definition login_checked :: "(string \<rightharpoonup> string) \<Rightarrow> flight \<Rightarrow> flight" where
  "login_checked m f =
     (let f1 = (if checkOverLogin (rq_email (rq f)) m then f\<lparr>check := False\<rparr> else f\<lparr>waiting := waiting f @ [Check2]\<rparr>)
      in if \<not> check f1 then f1\<lparr>answer := Some Resp_Dup\<rparr> else f1\<lparr>waiting := waiting f1 @ [Get_Ports]\<rparr>)"

definition login_checked2 :: "(string \<rightharpoonup> string) \<Rightarrow> flight \<Rightarrow> flight" where
  "login_checked2 m f = (if checkOverLogin (rq_email (rq f)) m then f\<lparr>check := False\<rparr> else f)"

definition LoadBalancer_list :: "(string \<rightharpoonup> string) \<Rightarrow> flight \<Rightarrow> flight" where
  "LoadBalancer_list m f =
     (let index = port_loop (\<lambda>v. v = Str ''null'') m 1
      in if index \<le> 3 then f\<lparr>waiting := waiting f @ [Set_Port index]\<rparr> else f\<lparr>answer := Some Resp_Full\<rparr>)"

definition port_set :: "nat \<Rightarrow> flight \<Rightarrow> flight" where
  "port_set index f =
     (let f1 = f\<lparr>session_port := Some index\<rparr>
      in f1\<lparr>sent := Some (vm_message f1), answer := Some (Resp_Url index)\<rparr>)"

text \<open>The next reply of Redis; using a null list throws.\<close>

definition reply :: "'r redis \<Rightarrow> pending_reply \<Rightarrow> 'r \<times> flight \<Rightarrow> js_error + ('r \<times> flight)" where
  "reply R p df =
     (let (db, f) = df; list = own_list (rq_kind (rq f))
      in case p of
           Check1 \<Rightarrow> (case hgetall R ''sessionList1'' db of None \<Rightarrow> Inl Type_Error | Some m \<Rightarrow> Inr (db, login_checked m f))
         | Check2 \<Rightarrow> (case hgetall R ''sessionList2'' db of None \<Rightarrow> Inl Type_Error | Some m \<Rightarrow> Inr (db, login_checked2 m f))
         | Get_Ports \<Rightarrow> (case hgetall R list db of None \<Rightarrow> Inl Type_Error | Some m \<Rightarrow> Inr (db, LoadBalancer_list m f))
         | Set_Port index \<Rightarrow> Inr (setSession R list (port_key index) (rq_email (rq f)) db, port_set index f))"

lemmas callbacks = login_checked_def login_checked2_def LoadBalancer_list_def port_set_def

definition turn :: "'r redis \<Rightarrow> 'r \<times> flight \<Rightarrow> js_error + ('r \<times> flight)" where
  "turn R df = (case waiting (snd df) of [] \<Rightarrow> Inr df | p # ps \<Rightarrow> reply R p (fst df, (snd df)\<lparr>waiting := ps\<rparr>))"

text \<open>A request on its own needs at most four replies.\<close>

definition handle :: "'r redis \<Rightarrow> request \<Rightarrow> 'r \<Rightarrow> js_error + ('r \<times> flight)" where
  "handle R r db = bindE (turn R (db, new_request r)) (\<lambda>d1. bindE (turn R d1) (\<lambda>d2. bindE (turn R d2) (turn R)))"

text \<open>Requests under way together, and the order in which Redis serves them.\<close>

definition turn_of :: "'r redis \<Rightarrow> nat \<Rightarrow> 'r \<times> flight list \<Rightarrow> js_error + ('r \<times> flight list)" where
  "turn_of R i s =
     (if i < length (snd s)
      then bindE (turn R (fst s, snd s ! i)) (\<lambda>(db, f). Inr (db, (snd s)[i := f])) else Inr s)"

inductive lb_step :: "'r redis \<Rightarrow> 'r \<times> flight list \<Rightarrow> 'r \<times> flight list \<Rightarrow> bool" for R where
  lb_arrive: "rq_email r = Str e \<Longrightarrow> e \<noteq> ''null'' \<Longrightarrow> lb_step R (db, fs) (db, fs @ [new_request r])"
| lb_turn: "turn_of R i s = Inr s' \<Longrightarrow> lb_step R s s'"
| lb_close: "lb_step R (db, fs) (image_closed R i db, fs)"

subsection \<open>Creating and deleting\<close>

text \<open>What \<^verbatim>\<open>requestCreateOS\<close> and \<^verbatim>\<open>requestDeleteOS\<close> send, to the one address that both branches name; \<open>seq\<close> is the number the
  image collection gave out.\<close>

definition create_message :: "nat \<Rightarrow> string \<Rightarrow> js \<Rightarrow> js_error + string" where
  "create_message seq version email = getSocketCreate 1 (getImageIndex version) (Str (dec_of_nat seq)) email"

definition delete_message :: "js \<Rightarrow> string \<Rightarrow> js \<Rightarrow> js_error + string" where
  "delete_message index version email = getSocketDelete 2 (getImageIndex version) index email"

subsection \<open>Members\<close>

text \<open>The members collection; the number that \<^verbatim>\<open>joinMember\<close> asks for is taken to arrive before the search for the
  address ends, in the order of the two calls.  The fields are: the number of a member found by address, whether address and password match,
  insertion, and the counter of \<^verbatim>\<open>initIndexers\<close> and \<^verbatim>\<open>getIndexers\<close>.  First and last names play no part.\<close>

record 'm members =
  find_member :: "string \<Rightarrow> 'm \<Rightarrow> nat option"
  find_login :: "string \<Rightarrow> string \<Rightarrow> 'm \<Rightarrow> bool"
  insert_member :: "nat \<Rightarrow> string \<Rightarrow> string \<Rightarrow> 'm \<Rightarrow> 'm"
  next_index :: "'m \<Rightarrow> nat \<times> 'm"

definition member_laws :: "'m members \<Rightarrow> bool" where
  "member_laws M \<longleftrightarrow>
     (\<forall>e p i e' p' m. find_login M e p (insert_member M i e' p' m) \<longleftrightarrow> e = e' \<and> p = p' \<or> find_login M e p m)
     \<and> (\<forall>i e p m. find_member M e (insert_member M i e p m) = Some i
          \<or> find_member M e m \<noteq> None \<and> find_member M e (insert_member M i e p m) = find_member M e m)
     \<and> (\<forall>e p m. find_member M e (snd (next_index M m)) = find_member M e m
          \<and> find_login M e p (snd (next_index M m)) = find_login M e p m)
     \<and> (\<forall>m. 0 < fst (next_index M m))"

text \<open>\<^verbatim>\<open>initIndexers\<close> and \<^verbatim>\<open>getIndexers\<close> together; then the other functions of MemberDAO.js, of which \<^verbatim>\<open>getIndexMember\<close> calls back
  with \<^verbatim>\<open>false\<close> (\<open>None\<close>) when there is no such member.\<close>

definition member_index :: "'m members \<Rightarrow> 'm \<Rightarrow> nat \<times> 'm" where
  "member_index M m = next_index M m"

definition insertMember :: "'m members \<Rightarrow> nat \<Rightarrow> string \<Rightarrow> string \<Rightarrow> 'm \<Rightarrow> 'm" where
  "insertMember M index email password m = insert_member M index email password m"

definition checkLoginMember :: "'m members \<Rightarrow> string \<Rightarrow> string \<Rightarrow> 'm \<Rightarrow> bool" where
  "checkLoginMember M email password m = find_login M email password m"

definition getIndexMember :: "'m members \<Rightarrow> string \<Rightarrow> 'm \<Rightarrow> nat option" where
  "getIndexMember M email m = find_member M email m"

lemmas member_dao = member_index_def insertMember_def checkLoginMember_def getIndexMember_def

text \<open>\<^verbatim>\<open>checkIdMember\<close> calls back with the address or with \<^verbatim>\<open>false\<close>; the callers compare that with \<^verbatim>\<open>true\<close>, which
  for a string asks whether it is a numeral for 1.  \<open>to_number\<close> is that conversion.\<close>

definition checkIdMember :: "'m members \<Rightarrow> string \<Rightarrow> 'm \<Rightarrow> string option" where
  "checkIdMember M email m = (if find_member M email m \<noteq> None then Some email else None)"

definition eq_true :: "(string \<Rightarrow> int option) \<Rightarrow> string option \<Rightarrow> bool" where
  "eq_true to_number data = (case data of None \<Rightarrow> False | Some s \<Rightarrow> to_number s = Some 1)"

definition joinMember :: "'m members \<Rightarrow> (string \<Rightarrow> int option) \<Rightarrow> string \<Rightarrow> string \<Rightarrow> 'm \<Rightarrow> bool \<times> 'm" where
  "joinMember M to_number email password m =
     (let (index, m1) = member_index M m
      in if eq_true to_number (checkIdMember M email m1) then (False, m1)
         else (True, insertMember M index email password m1))"

definition idCheckMember :: "'m members \<Rightarrow> (string \<Rightarrow> int option) \<Rightarrow> string \<Rightarrow> 'm \<Rightarrow> bool" where
  "idCheckMember M to_number email m = eq_true to_number (checkIdMember M email m)"

text \<open>The answer, if any, and the address the session is logged in as; \<^verbatim>\<open>data!=false\<close> fails for the number 0.\<close>

definition loginMember :: "'m members \<Rightarrow> string \<Rightarrow> string \<Rightarrow> 'm \<Rightarrow> bool option \<times> string option" where
  "loginMember M email password m =
     (if checkLoginMember M email password m then
        case getIndexMember M email m of
          Some index \<Rightarrow> if index \<noteq> 0 then (Some True, Some email) else (None, None)
        | None \<Rightarrow> (None, None)
      else (Some False, None))"

text \<open>The same answer for the mobile client, as JSON text; the session is left alone.\<close>

definition login_json :: "bool \<Rightarrow> string" where
  "login_json b =
     (let q = [CHR 0x22] in ''{'' @ q @ ''login_result'' @ q @ '':'' @ q @ (if b then ''true'' else ''false'') @ q @ ''}'')"

definition mobile_loginMember :: "'m members \<Rightarrow> string \<Rightarrow> string \<Rightarrow> 'm \<Rightarrow> string option" where
  "mobile_loginMember M email password m =
     (if checkLoginMember M email password m then
        case getIndexMember M email m of
          Some index \<Rightarrow> if index \<noteq> 0 then Some (login_json True) else None
        | None \<Rightarrow> None
      else Some (login_json False))"

subsection \<open>Laws of the loops and of the store\<close>

lemma port_loop_cases:
  "port_loop hit m (Suc 0) = (if hit (entry m 1) then 1 else if hit (entry m 2) then 2 else if hit (entry m 3) then 3 else 4)"
proof -
  have 4: "port_loop hit m 4 = 4" by (subst port_loop.simps) simp
  have 3: "port_loop hit m 3 = (if hit (entry m 3) then 3 else 4)" by (subst port_loop.simps) (simp add: 4)
  have 2: "port_loop hit m 2 = (if hit (entry m 2) then 2 else port_loop hit m 3)" by (subst port_loop.simps) simp
  have "port_loop hit m (Suc 0) = (if hit (entry m 1) then 1 else port_loop hit m 2)"
    by (subst port_loop.simps) (simp add: numeral_2_eq_2)
  then show ?thesis by (simp add: 2 3)
qed

lemma entry_eq_Str: "entry m i = Str s \<longleftrightarrow> m (port_key i) = Some s"
  by (simp add: entry_def split: option.splits)

text \<open>The ports of a session list that are free, and whether somebody holds one.\<close>

definition free_ports :: "(string \<rightharpoonup> string) \<Rightarrow> nat set" where
  "free_ports m = {i \<in> {1, 2, 3}. m (port_key i) = Some ''null''}"

definition holds_port :: "string \<Rightarrow> (string \<rightharpoonup> string) \<Rightarrow> bool" where
  "holds_port e m \<longleftrightarrow> (\<exists>i \<in> {1, 2, 3}. m (port_key i) = Some e)"

lemma checkOverLogin_iff: "checkOverLogin (Str e) m \<longleftrightarrow> holds_port e m"
  by (auto simp: checkOverLogin_def port_loop_cases js_eq_def entry_eq_Str holds_port_def)

lemma port_loop_free:
  "port_loop (\<lambda>v. v = Str ''null'') m (Suc 0) = (if free_ports m = {} then 4 else Min (free_ports m))"
proof -
  let ?f = "\<lambda>i. m (port_key i) = Some ''null''"
  have f: "free_ports m = (if ?f 1 then {1} else {}) \<union> (if ?f 2 then {2} else {}) \<union> (if ?f 3 then {3} else {})"
    by (auto simp: free_ports_def)
  show ?thesis
    unfolding port_loop_cases entry_eq_Str f
    by (cases "?f 1"; cases "?f 2"; cases "?f 3") (simp_all add: Min_insert2)
qed

lemma Min_free_ports: "free_ports m \<noteq> {} \<Longrightarrow> Min (free_ports m) \<in> free_ports m"
  by (rule Min_in) (simp_all add: free_ports_def)

lemma Min_free_le: "free_ports m \<noteq> {} \<Longrightarrow> Min (free_ports m) \<le> 3"
  using Min_free_ports [of m] by (auto simp: free_ports_def)

lemma hgetall_setSession:
  assumes "redis_laws R"
  shows "hgetall R c (setSession R c' k v db) =
    (if c = c' then Some ((case hgetall R c db of None \<Rightarrow> Map.empty | Some m \<Rightarrow> m)(k \<mapsto> redis_text R v)) else hgetall R c db)"
  using assms by (auto simp: redis_laws_def setSession_def)

lemma redis_text_laws: "redis_laws R \<Longrightarrow> redis_text R Null = ''null''" "redis_laws R \<Longrightarrow> redis_text R (Str s) = s"
  by (simp_all add: redis_laws_def)

lemma port_key_inj [simp]: "port_key i = port_key j \<longleftrightarrow> i = j"
  by (metis digits_val_dec_of_nat port_key_def same_append_eq)

section \<open>Properties\<close>

text \<open>What a request asks for, once its port is known.\<close>

definition granted :: "request \<Rightarrow> nat \<Rightarrow> js_error + string" where
  "granted r p = vm_message ((new_request r)\<lparr>session_port := Some p\<rparr>)"

lemma handle_spec:
  assumes "redis_laws R" "rq_email r = Str e" "hgetall R ''sessionList1'' db = Some m1" "hgetall R ''sessionList2'' db = Some m2"
    and "m = (case rq_kind r of Start \<Rightarrow> m1 | Install \<Rightarrow> m2)"
  shows "\<exists>db' f. handle R r db = Inr (db', f) \<and>
    (if holds_port e m1 then answer f = Some Resp_Dup \<and> sent f = None \<and> db' = db
     else if free_ports m = {} then answer f = Some Resp_Full \<and> sent f = None \<and> db' = db
     else let p = Min (free_ports m)
          in answer f = Some (Resp_Url p) \<and> sent f = Some (granted r p)
           \<and> db' = setSession R (own_list (rq_kind r)) (port_key p) (Str e) db)"
proof -
  have own: "hgetall R (own_list (rq_kind r)) db = Some m"
    using assms(3-5) by (cases "rq_kind r") (simp_all add: own_list_def)
  note defs = handle_def turn_def reply_def callbacks new_request_def granted_def vm_message_def
  show ?thesis
  proof (cases "holds_port e m1")
    case True
    then show ?thesis using assms(2,3) by (simp add: defs checkOverLogin_iff)
  next
    case False
    note no = this
    show ?thesis
    proof (cases "free_ports m = {}")
      case True
      then show ?thesis
        using no assms(2-4) own by (simp add: defs checkOverLogin_iff port_loop_free)
    next
      case False
      then have "Min (free_ports m) \<le> 3" by (rule Min_free_le)
      then show ?thesis
        using no False assms(2-4) own by (cases "rq_kind r") (simp_all add: defs checkOverLogin_iff port_loop_free Let_def)
    qed
  qed
qed

text \<open>
  C8. A request served on its own refines an abstract table of three ports: a user who already holds a port
  of the start list is refused, a request that finds no free port in its list is told so, and otherwise it
  gets the least free port of that list, which from then on holds the user's name, while nothing else changes.
  The list of installations plays no part in the first check, although the source consults it.
\<close>

theorem least_free_port_granted:
  assumes "redis_laws R" "rq_email r = Str e" "hgetall R ''sessionList1'' db = Some m1" "hgetall R ''sessionList2'' db = Some m2"
    and "m = (case rq_kind r of Start \<Rightarrow> m1 | Install \<Rightarrow> m2)" "p = Min (free_ports m)"
  shows "\<exists>db' f. handle R r db = Inr (db', f) \<and>
    (if holds_port e m1 then answer f = Some Resp_Dup \<and> sent f = None \<and> db' = db
     else if free_ports m = {} then answer f = Some Resp_Full \<and> sent f = None \<and> db' = db
     else answer f = Some (Resp_Url p) \<and> sent f = Some (granted r p)
       \<and> hgetall R ''sessionList1'' db' = Some (case rq_kind r of Start \<Rightarrow> m1(port_key p \<mapsto> e) | Install \<Rightarrow> m1)
       \<and> hgetall R ''sessionList2'' db' = Some (case rq_kind r of Start \<Rightarrow> m2 | Install \<Rightarrow> m2(port_key p \<mapsto> e)))"
proof -
  from handle_spec [OF assms(1-5)] obtain db' f where h: "handle R r db = Inr (db', f)"
    "if holds_port e m1 then answer f = Some Resp_Dup \<and> sent f = None \<and> db' = db
     else if free_ports m = {} then answer f = Some Resp_Full \<and> sent f = None \<and> db' = db
     else let p = Min (free_ports m)
          in answer f = Some (Resp_Url p) \<and> sent f = Some (granted r p)
           \<and> db' = setSession R (own_list (rq_kind r)) (port_key p) (Str e) db" by blast
  then show ?thesis
    using assms(3-6) hgetall_setSession [OF assms(1)] redis_text_laws(2) [OF assms(1)]
    by (cases "rq_kind r") (auto simp: own_list_def Let_def split: if_splits)
qed

text \<open>
  C39. Two start requests that reach the server at the same time get the same port: both read the list before
  either has written its claim, and the second user's name overwrites the first's.
\<close>

theorem concurrent_starts_share_port:
  assumes "redis_laws R" "rq_kind r = Start" "rq_kind s = Start" "rq_email r = Str a" "rq_email s = Str b"
    and "hgetall R ''sessionList1'' db = Some m1" "hgetall R ''sessionList2'' db = Some m2"
    and "\<not> holds_port a m1" "\<not> holds_port b m1" "free_ports m1 \<noteq> {}" "p = Min (free_ports m1)"
  shows "\<exists>db' f g. foldE (turn_of R) [0, 1, 0, 1, 0, 1, 0, 1] (db, [new_request r, new_request s]) = Inr (db', [f, g])
    \<and> answer f = Some (Resp_Url p) \<and> answer g = Some (Resp_Url p)
    \<and> hgetall R ''sessionList1'' db' = Some (m1(port_key p \<mapsto> b))"
proof -
  have p: "p \<le> 3" using Min_free_le assms(10,11) by simp
  show ?thesis
    using assms p hgetall_setSession [OF assms(1)] redis_text_laws(2) [OF assms(1)]
    by (simp add: turn_of_def turn_def reply_def callbacks new_request_def checkOverLogin_iff port_loop_free own_list_def)
qed

text \<open>A start list without a free port, and requests under way that cannot claim one.\<close>

definition start_full :: "'r redis \<Rightarrow> 'r \<Rightarrow> bool" where
  "start_full R db \<longleftrightarrow> (case hgetall R ''sessionList1'' db of None \<Rightarrow> False | Some m \<Rightarrow> free_ports m = {})"

definition no_claim :: "flight \<Rightarrow> bool" where
  "no_claim f \<longleftrightarrow> rq_kind (rq f) = Start \<longrightarrow> list_all (\<lambda>p. \<forall>i. p \<noteq> Set_Port i) (waiting f) \<and> (\<forall>i. answer f \<noteq> Some (Resp_Url i))"

lemma start_full_install:
  "redis_laws R \<Longrightarrow> start_full R (setSession R ''sessionList2'' k v db) = start_full R db"
  by (simp add: start_full_def hgetall_setSession)

lemma reply_keeps_full:
  assumes "redis_laws R" "start_full R db" "no_claim (f\<lparr>waiting := p # waiting f\<rparr>)" "reply R p (db, f) = Inr (db', f')"
  shows "start_full R db' \<and> no_claim f'"
proof (cases p)
  case Check1
  then show ?thesis
    using assms by (auto simp: reply_def callbacks no_claim_def Let_def split: option.splits if_splits)
next
  case Check2
  then show ?thesis
    using assms by (auto simp: reply_def callbacks no_claim_def Let_def split: option.splits if_splits)
next
  case Get_Ports
  then show ?thesis
    using assms by (cases "rq_kind (rq f)")
      (auto simp: reply_def callbacks no_claim_def Let_def own_list_def start_full_def port_loop_free split: option.splits if_splits)
next
  case (Set_Port i)
  then show ?thesis
    using assms by (cases "rq_kind (rq f)") (auto simp: reply_def callbacks no_claim_def Let_def own_list_def start_full_install)
qed

lemma lb_step_keeps_full:
  assumes "redis_laws R" "lb_step R s s'" "start_full R (fst s)" "list_all no_claim (snd s)"
  shows "start_full R (fst s') \<and> list_all no_claim (snd s')"
  using assms(2)
proof cases
  case (lb_arrive r e db fs)
  then show ?thesis using assms(3,4) by (simp add: no_claim_def new_request_def)
next
  case (lb_turn i)
  show ?thesis
  proof (cases "i < length (snd s)")
    case True
    then have f: "no_claim (snd s ! i)" using assms(4) by (simp add: list_all_length)
    from lb_turn True obtain db f' where t: "turn R (fst s, snd s ! i) = Inr (db, f')" "s' = (db, (snd s)[i := f'])"
      by (auto simp: turn_of_def bindE_eq_Inr)
    have "start_full R db \<and> no_claim f'"
    proof (cases "waiting (snd s ! i)")
      case Nil
      then show ?thesis using t(1) f assms(3) by (simp add: turn_def)
    next
      case (Cons p ps)
      then have "reply R p (fst s, (snd s ! i)\<lparr>waiting := ps\<rparr>) = Inr (db, f')" using t(1) by (simp add: turn_def)
      moreover have "no_claim ((snd s ! i)\<lparr>waiting := ps\<rparr>\<lparr>waiting := p # waiting ((snd s ! i)\<lparr>waiting := ps\<rparr>)\<rparr>)"
        using f Cons by (simp add: no_claim_def)
      ultimately show ?thesis by (intro reply_keeps_full [OF assms(1,3)])
    qed
    then show ?thesis
      using assms(4) t(2) by (auto simp: list_all_iff dest!: set_update_subset_insert [THEN subsetD])
  qed (use lb_turn assms in \<open>simp add: turn_of_def\<close>)
next
  case (lb_close db fs i)
  then show ?thesis using assms(1,3,4) by (simp add: image_closed_def start_full_install)
qed

text \<open>
  Ports of the start list are never given back: once it is full, then whatever requests arrive, however
  their replies interleave and whichever streams are closed, it stays full and no start request is granted a port.
\<close>

theorem start_ports_leak:
  assumes "redis_laws R" "start_full R db" "(lb_step R)\<^sup>*\<^sup>* (db, []) (db', fs)"
  shows "start_full R db' \<and> list_all (\<lambda>f. rq_kind (rq f) = Install \<or> (\<forall>i. answer f \<noteq> Some (Resp_Url i))) fs"
proof -
  have "start_full R (fst s') \<and> list_all no_claim (snd s')" if "(lb_step R)\<^sup>*\<^sup>* (db, []) s'" for s'
    using that by induction (use assms(2) lb_step_keeps_full [OF assms(1)] in auto)
  from this [OF assms(3)] show ?thesis by (auto simp: list_all_iff no_claim_def) (metis kind.exhaust)
qed

lemma initRedis_lists:
  assumes "redis_laws R" "c = ''sessionList1'' \<or> c = ''sessionList2''"
  shows "\<exists>m. hgetall R c (initRedis R db) = Some m \<and> (\<forall>i \<in> {1, 2, 3}. m (port_key i) = Some ''null'')"
proof -
  define w where "w = (\<lambda>index db. setSession R ''sessionList2'' (port_key index) Null
      (setSession R ''sessionList1'' (port_key index) Null db))"
  have get: "hgetall R c (w i d) = Some ((case hgetall R c d of None \<Rightarrow> Map.empty | Some m \<Rightarrow> m)(port_key i \<mapsto> ''null''))" for i d
    using assms(2) by (auto simp: w_def hgetall_setSession [OF assms(1)] redis_text_laws(1) [OF assms(1)])
  have "\<exists>m. hgetall R c (fold w is d) = Some m \<and> (\<forall>i \<in> set is. m (port_key i) = Some ''null'')" if "is \<noteq> []" for "is" d
    using that
  proof (induction "is" rule: rev_induct)
    case (snoc i "is")
    show ?case
    proof (cases "is = []")
      case False
      from snoc.IH [OF this] obtain m where "hgetall R c (fold w is d) = Some m" "\<forall>i \<in> set is. m (port_key i) = Some ''null''"
        by blast
      then show ?thesis by (simp add: get)
    qed (simp add: get)
  qed simp
  from this [of "[1..<9]" db] show ?thesis unfolding initRedis_def w_def by auto
qed

text \<open>
  The two lists hand out the same ports: after start-up, a user who starts an image and another who installs
  one are both given port 1, so both virtual machines are told to stream to the same worker.
\<close>

theorem start_and_install_collide:
  assumes "redis_laws R" "rq_kind r = Start" "rq_kind s = Install" "rq_email r = Str a" "rq_email s = Str b"
    and "a \<noteq> b" "a \<noteq> ''null''" "b \<noteq> ''null''"
  shows "\<exists>db1 f db2 g. handle R r (initRedis R db) = Inr (db1, f) \<and> handle R s db1 = Inr (db2, g)
    \<and> answer f = Some (Resp_Url 1) \<and> answer g = Some (Resp_Url 1) \<and> sent f = Some (granted r 1) \<and> sent g = Some (granted s 1)"
proof -
  from initRedis_lists [OF assms(1), of "''sessionList1''" db] initRedis_lists [OF assms(1), of "''sessionList2''" db]
  obtain m1 m2 where m: "hgetall R ''sessionList1'' (initRedis R db) = Some m1" "\<forall>i \<in> {1, 2, 3}. m1 (port_key i) = Some ''null''"
    "hgetall R ''sessionList2'' (initRedis R db) = Some m2" "\<forall>i \<in> {1, 2, 3}. m2 (port_key i) = Some ''null''" by auto
  have fr: "free_ports m1 = {1, 2, 3}" "free_ports m2 = {1, 2, 3}" using m(2,4) by (auto simp: free_ports_def)
  have "\<not> holds_port a m1" using m(2) assms(7) by (auto simp: holds_port_def)
  with handle_spec [OF assms(1,4) m(1,3), of m1] assms(2) fr(1) obtain f where
    f: "handle R r (initRedis R db) = Inr (setSession R ''sessionList1'' (port_key 1) (Str a) (initRedis R db), f)"
      "answer f = Some (Resp_Url 1)" "sent f = Some (granted r 1)" by (auto simp: own_list_def)
  let ?db1 = "setSession R ''sessionList1'' (port_key 1) (Str a) (initRedis R db)"
  have l: "hgetall R ''sessionList1'' ?db1 = Some (m1(port_key 1 \<mapsto> a))" "hgetall R ''sessionList2'' ?db1 = Some m2"
    by (simp_all add: hgetall_setSession [OF assms(1)] redis_text_laws(2) [OF assms(1)] m)
  have "\<not> holds_port b (m1(port_key 1 \<mapsto> a))" using m(2) assms(6,8) by (auto simp: holds_port_def)
  with handle_spec [OF assms(1,5) l, of m2] assms(3) fr(2) obtain db2 g where
    "handle R s ?db1 = Inr (db2, g)" "answer g = Some (Resp_Url 1)" "sent g = Some (granted s 1)" by auto
  with f show ?thesis by blast
qed

text \<open>
  \<^verbatim>\<open>getPortLB\<close>, which no handler calls, would never report a free port: it looks for \<^verbatim>\<open>null\<close> where the lists hold the
  text \<open>null\<close>.
\<close>

theorem getPortLB_sees_no_free_port:
  assumes "redis_laws R" "hgetall R c db = Some m" "i \<in> free_ports m"
  shows "getPortLB R c i db = None"
  using assms by (auto simp: getPortLB_def getSession_def redis_laws_def free_ports_def js_eq_def)

lemma granted_text:
  assumes "getImageIndex (rq_version r) = Some t" "rq_index r = Str k" "rq_email r = Str e" "rq_ip r = Str ip"
  shows "granted r p = Inr (msg_fields [dec_of_nat (case rq_kind r of Start \<Rightarrow> 0 | Install \<Rightarrow> 3), dec_of_nat t, k, e, ip,
    dec_of_nat (case rq_kind r of Start \<Rightarrow> 1 | Install \<Rightarrow> 0), dec_of_nat p, dec_of_nat p, dec_of_nat p])"
  using assms
  by (cases "rq_kind r") (simp_all add: granted_def vm_message_def new_request_def getSocketStart_def getSocketInstall_def js_texts_def js_num_def)

lemma granted_parsed:
  assumes "getImageIndex (rq_version r) = Some t" "rq_index r = Str (dec_of_nat k)" "rq_email r = Str e" "rq_ip r = Str ip"
    and "is_token e" "is_token ip" "k < 2 ^ 31" "p < 2 ^ 31" "granted r p = Inr msg" "length msg \<le> 500"
    and "NUL \<in> set (drop (length msg) buf)"
  shows "\<exists>buf'. parse_request c0 (c_read 500 msg buf) =
    Inr (\<lparr>ci_command = (case rq_kind r of Start \<Rightarrow> 0 | Install \<Rightarrow> 3), ci_os_type = of_nat t, ci_index = of_nat k, ci_id = e,
          ci_ip = ip, ci_connect_type = (case rq_kind r of Start \<Rightarrow> 1 | Install \<Rightarrow> 0), ci_port_i = of_nat p,
          ci_port_a = of_nat p, ci_port_e = of_nat p\<rparr>, buf')"
proof -
  let ?c = "case rq_kind r of Start \<Rightarrow> 0 | Install \<Rightarrow> 3" and ?ct = "case rq_kind r of Start \<Rightarrow> 1 | Install \<Rightarrow> 0"
  let ?ts = "[dec_of_nat ?c, dec_of_nat t, dec_of_nat k, e, ip, dec_of_nat ?ct, dec_of_nat p, dec_of_nat p, dec_of_nat p]"
  have msg: "msg = msg_fields ?ts" using granted_text [OF assms(1-4), of p] assms(9) by simp
  have st: "(c_read 500 msg buf, 0) = tokst [] ?ts (drop (length msg) buf)"
    using assms(10) unfolding msg by (rule c_read_msg_fields)
  have nul: "NUL \<in> set (c_read 500 msg buf)" using assms(10,11) by (simp add: c_read_def)
  have "t < 2 ^ 31" using assms(1) by (auto simp: getImageIndex_def split: if_splits)
  from parse_request_long [OF st nul assms(5,6) _ this assms(7) _ assms(8,8,8)] show ?thesis
    by (cases "rq_kind r") auto
qed

text \<open>
  The VM manager reads what the load balancer writes: the message of a granted request is parsed
  into the command, the image's system and number, the user, the address and three times the port.
\<close>

theorem granted_message_understood:
  assumes "getImageIndex (rq_version r) = Some t" "rq_index r = Str (dec_of_nat k)" "rq_email r = Str e" "rq_ip r = Str ip"
    and "is_token e" "is_token ip" "k < 2 ^ 31" "p < 2 ^ 31" "granted r p = Inr msg" "length msg \<le> 500"
    and "NUL \<in> set (drop (length msg) buf)"
  shows "\<exists>buf'. parse_request c0 (c_read 500 msg buf) =
    Inr (\<lparr>ci_command = (case rq_kind r of Start \<Rightarrow> 0 | Install \<Rightarrow> 3), ci_os_type = of_nat t, ci_index = of_nat k, ci_id = e,
          ci_ip = ip, ci_connect_type = (case rq_kind r of Start \<Rightarrow> 1 | Install \<Rightarrow> 0), ci_port_i = of_nat p,
          ci_port_a = of_nat p, ci_port_e = of_nat p\<rparr>, buf')"
  by (rule granted_parsed [OF assms])

text \<open>
  The VM manager keeps eight bits of an image's number: the messages that create the images \<open>k\<close> and \<open>k\<close> + 256 of
  a user are read as the same request, and the second image's file replaces the first's.
\<close>

theorem image_numbers_wrap:
  assumes "getImageIndex version = Some t" "is_token e" "k + 256 < 2 ^ 31" "length buf = 500" "buf ! 499 = NUL"
    and "create_message k version (Str e) = Inr msg1" "create_message (k + 256) version (Str e) = Inr msg2"
    and "length msg1 < 500" "length msg2 < 500"
  shows "\<exists>c buf1 buf2. parse_request c0 (c_read 500 msg1 buf) = Inr (c, buf1) \<and> parse_request c0 (c_read 500 msg2 buf) = Inr (c, buf2)"
proof -
  have t: "t < 2 ^ 31" using assms(1) by (auto simp: getImageIndex_def split: if_splits)
  have *: "\<exists>buf'. parse_request c0 (c_read 500 msg buf) =
      Inr (c0\<lparr>ci_command := 1, ci_os_type := of_nat t, ci_index := of_nat j, ci_id := e\<rparr>, buf')"
    if "create_message j version (Str e) = Inr msg" "length msg < 500" "j < 2 ^ 31" for j msg
  proof -
    let ?ts = "[dec_of_nat 1, dec_of_nat t, dec_of_nat j, e]"
    have msg: "msg = msg_fields ?ts"
      using that(1) assms(1) by (simp add: create_message_def getSocketCreate_def js_texts_def js_num_def)
    have st: "(c_read 500 msg buf, 0) = tokst [] ?ts (drop (length msg) buf)"
      using that(2) unfolding msg by (intro c_read_msg_fields) simp
    have "drop (length msg) buf ! (499 - length msg) = NUL" "499 - length msg < length (drop (length msg) buf)"
      using that(2) assms(4,5) by auto
    then have "NUL \<in> set (drop (length msg) buf)" by (metis nth_mem)
    then have nul: "NUL \<in> set (c_read 500 msg buf)" using that(2) by (simp add: c_read_def)
    from parse_request_short [OF st nul assms(2) _ t that(3)] show ?thesis by simp
  qed
  have "(of_nat (k + 256) :: u8) = of_nat k" by simp
  with * [OF assms(6,8)] * [OF assms(7,9,3)] assms(3) show ?thesis by auto
qed

text \<open>
  Joining with somebody else's address succeeds, because the answer of the check is compared with
  \<^verbatim>\<open>true\<close>, and gives a second password for that member: who joins so can log in as the member.
\<close>

theorem join_takes_over_account:
  assumes "member_laws M" "find_member M email m = Some i" "i \<noteq> 0" "find_login M email password m" "to_number email \<noteq> Some 1"
    and "joinMember M to_number email stolen m = (ok, m')"
  shows "ok \<and> \<not> idCheckMember M to_number email m \<and> loginMember M email stolen m' = (Some True, Some email)
    \<and> loginMember M email password m' = (Some True, Some email)"
proof -
  obtain j m1 where j: "next_index M m = (j, m1)" by fastforce
  have m1: "find_member M email m1 = Some i" "find_login M email password m1" "0 < j"
    using assms(1,2,4) j unfolding member_laws_def by (metis fst_conv snd_conv)+
  then have m': "ok" "m' = insert_member M j email stolen m1"
    using assms(5,6) j by (simp_all add: joinMember_def checkIdMember_def eq_true_def member_dao)
  have "find_login M email stolen m'" "find_login M email password m'"
    using assms(1) m1(2) unfolding member_laws_def m'(2) by blast+
  moreover have "find_member M email m' = Some j \<or> find_member M email m' = Some i"
    using assms(1) m1(1) unfolding member_laws_def m'(2) by metis
  ultimately show ?thesis
    using m'(1) m1(3) assms(3,5) by (auto simp: loginMember_def idCheckMember_def checkIdMember_def eq_true_def member_dao)
qed

subsection \<open>Examples\<close>

definition map_redis :: "(string \<rightharpoonup> (string \<rightharpoonup> string)) redis" where
  "map_redis = \<lparr>hset = (\<lambda>c k v db. db(c \<mapsto> (case db c of None \<Rightarrow> Map.empty | Some m \<Rightarrow> m)(k \<mapsto> v))), hgetall = (\<lambda>c db. db c),
     hget = (\<lambda>c k db. Option.bind (db c) (\<lambda>m. m k)), hdel = (\<lambda>c k db. db(c := map_option (\<lambda>m. m(k := None)) (db c))),
     redis_text = (\<lambda>v. case v of Undefined \<Rightarrow> ''undefined'' | Null \<Rightarrow> ''null'' | Str s \<Rightarrow> s)\<rparr>"

lemma map_redis_laws: "redis_laws map_redis"
  by (simp add: redis_laws_def map_redis_def)

definition sample_request :: "kind \<Rightarrow> string \<Rightarrow> request" where
  "sample_request k e = \<lparr>rq_kind = k, rq_version = ''linux'', rq_index = Str ''1'', rq_email = Str e, rq_ip = Str ''10.0.0.2''\<rparr>"

definition sample_list :: "string \<rightharpoonup> string" where
  "sample_list = [port_key 1 \<mapsto> ''ann'', port_key 2 \<mapsto> ''null'', port_key 3 \<mapsto> ''null'']"

definition full_list :: "string \<rightharpoonup> string" where
  "full_list = [port_key 1 \<mapsto> ''ann'', port_key 2 \<mapsto> ''eve'', port_key 3 \<mapsto> ''joe'']"

definition sample_db :: "(string \<rightharpoonup> string) \<Rightarrow> string \<rightharpoonup> (string \<rightharpoonup> string)" where
  "sample_db m = [''sessionList1'' \<mapsto> m, ''sessionList2'' \<mapsto> sample_list]"

lemma sample_db_lists:
  "hgetall map_redis ''sessionList1'' (sample_db m) = Some m" "hgetall map_redis ''sessionList2'' (sample_db m) = Some sample_list"
  by (simp_all add: map_redis_def sample_db_def)

lemma sample_list_free: "free_ports sample_list = {2, 3}" "\<not> holds_port ''bob'' sample_list" "\<not> holds_port ''cat'' sample_list"
  by (auto simp: free_ports_def sample_list_def holds_port_def)

theorem least_free_port_granted_witness:
  "\<exists>db' f. handle map_redis (sample_request Start ''bob'') (sample_db sample_list) = Inr (db', f) \<and> answer f = Some (Resp_Url 2)"
  using least_free_port_granted [OF map_redis_laws, of "sample_request Start ''bob''" "''bob''" "sample_db sample_list" sample_list sample_list sample_list 2]
  by (auto simp: sample_db_lists sample_list_free sample_request_def)

theorem concurrent_starts_share_port_witness:
  "\<exists>db' f g. foldE (turn_of map_redis) [0, 1, 0, 1, 0, 1, 0, 1]
      (sample_db sample_list, [new_request (sample_request Start ''bob''), new_request (sample_request Start ''cat'')]) = Inr (db', [f, g])
    \<and> answer f = Some (Resp_Url 2) \<and> answer g = Some (Resp_Url 2)"
proof -
  have r: "rq_kind (sample_request Start x) = Start" "rq_email (sample_request Start x) = Str x" for x
    by (simp_all add: sample_request_def)
  have ne: "free_ports sample_list \<noteq> {}" by (simp add: sample_list_free)
  have p: "2 = Min (free_ports sample_list)" by (simp add: sample_list_free)
  from concurrent_starts_share_port [OF map_redis_laws r(1) r(1) r(2) r(2) sample_db_lists sample_list_free(2,3) ne p]
  show ?thesis by blast
qed

theorem start_ports_leak_witness: "start_full map_redis (image_closed map_redis 1 (sample_db full_list))"
proof -
  have "start_full map_redis (sample_db full_list)"
    unfolding start_full_def sample_db_lists by (auto simp: free_ports_def full_list_def)
  from start_ports_leak [OF map_redis_laws this r_into_rtranclp [of "lb_step map_redis", OF lb_close [of map_redis _ "[]"]]]
  show ?thesis by blast
qed

theorem start_and_install_collide_witness:
  "\<exists>db1 f db2 g. handle map_redis (sample_request Start ''bob'') (initRedis map_redis Map.empty) = Inr (db1, f)
    \<and> handle map_redis (sample_request Install ''cat'') db1 = Inr (db2, g) \<and> answer f = Some (Resp_Url 1) \<and> answer g = Some (Resp_Url 1)"
  using start_and_install_collide [OF map_redis_laws, of "sample_request Start ''bob''" "sample_request Install ''cat''" "''bob''" "''cat''" Map.empty]
  by (auto simp: sample_request_def)

theorem granted_message_understood_witness:
  "\<exists>buf'. parse_request sample_client (c_read 500 ''0 2 1 bob 10.0.0.2 1 2 2 2 '' (replicate 500 NUL)) =
    Inr (\<lparr>ci_command = 0, ci_os_type = 2, ci_index = 1, ci_id = ''bob'', ci_ip = ''10.0.0.2'', ci_connect_type = 1,
          ci_port_i = 2, ci_port_a = 2, ci_port_e = 2\<rparr>, buf')"
proof -
  let ?r = "sample_request Start ''bob''"
  have "granted ?r 2 = Inr ''0 2 1 bob 10.0.0.2 1 2 2 2 ''" "dec_of_nat 1 = ''1''" "getImageIndex ''linux'' = Some 2" by code_simp+
  then show ?thesis
    using granted_message_understood [of ?r 2 1 "''bob''" "''10.0.0.2''" 2 "''0 2 1 bob 10.0.0.2 1 2 2 2 ''" "replicate 500 NUL" sample_client]
    by (simp add: sample_request_def is_token_def NUL_def)
qed

theorem image_numbers_wrap_witness:
  "\<exists>c buf1 buf2. parse_request sample_client (c_read 500 ''1 2 1 bob '' (replicate 500 NUL)) = Inr (c, buf1)
    \<and> parse_request sample_client (c_read 500 ''1 2 257 bob '' (replicate 500 NUL)) = Inr (c, buf2)"
proof -
  have "create_message 1 ''linux'' (Str ''bob'') = Inr ''1 2 1 bob ''"
    "create_message (1 + 256) ''linux'' (Str ''bob'') = Inr ''1 2 257 bob ''" "getImageIndex ''linux'' = Some 2" by code_simp+
  then show ?thesis
    using image_numbers_wrap [of "''linux''" 2 "''bob''" 1 "replicate 500 NUL" "''1 2 1 bob ''" "''1 2 257 bob ''" sample_client]
    by (simp add: is_token_def NUL_def)
qed

definition list_members :: "(nat \<times> (nat \<times> string \<times> string) list) members" where
  "list_members = \<lparr>find_member = (\<lambda>e m. map_option fst (find (\<lambda>(i, e', p). e' = e) (snd m))),
     find_login = (\<lambda>e p m. list_ex (\<lambda>(i, e', p'). e' = e \<and> p' = p) (snd m)),
     insert_member = (\<lambda>i e p m. (fst m, snd m @ [(i, e, p)])), next_index = (\<lambda>m. (Suc (fst m), Suc (fst m), snd m))\<rparr>"

lemma find_snoc: "find P (xs @ [x]) = (case find P xs of None \<Rightarrow> if P x then Some x else None | Some y \<Rightarrow> Some y)"
  by (induction xs) auto

lemma list_members_laws: "member_laws list_members"
  unfolding member_laws_def by (auto simp: list_members_def find_snoc split: option.splits)

theorem join_takes_over_account_witness:
  "loginMember list_members ''a@b'' ''mine'' (snd (joinMember list_members (\<lambda>_. None) ''a@b'' ''mine'' (1, [(1, ''a@b'', ''theirs'')])))
     = (Some True, Some ''a@b'')"
  using join_takes_over_account [OF list_members_laws, of "''a@b''" "(1, [(1, ''a@b'', ''theirs'')])" 1 "''theirs''" "\<lambda>_. None" "''mine''"]
  by (cases "joinMember list_members (\<lambda>_. None) ''a@b'' ''mine'' (1, [(1, ''a@b'', ''theirs'')])") (simp add: list_members_def)

end
