(* ===== verification/Image_Files.thy ===== *)
theory Image_Files
  imports Vm_Manager
begin

text \<open>
  The script src/command.sh that the VM manager runs for each request, on a file system \<open>disk\<close>: image files by path.
  \<open>blank\<close> is the image that \<^verbatim>\<open>qemu-img create\<close> makes; running QEMU is an action that names the image.  The path of
  an image is \<open>image_path\<close>, that of a prepared Android image \<open>base_path\<close>.
\<close>

type_synonym 'i disk = "string \<rightharpoonup> 'i"

datatype qemu_run =
    Run_Qemu string string        \<comment> \<open>directory and disk image\<close>
  | Run_Tizen string
  | Run_Install string string string

text \<open>
  The shell that \<^verbatim>\<open>system\<close> starts is a parameter where its answer is not fixed by the source: whether the user's directory
  exists after \<^verbatim>\<open>mkdir\<close>, whether \<^verbatim>\<open>cd\<close> enters it, and what it makes of a line with characters that mean something to it
  (\<^verbatim>\<open>;\<close>, \<^verbatim>\<open>&\<close>, \<^verbatim>\<open>|\<close>, \<^verbatim>\<open>$\<close>, quotes and the like), as nothing in the source quotes the user's name.
\<close>

record 'i shell_env =
  sh_mkdir :: "string \<Rightarrow> bool"
  sh_cd :: "string \<Rightarrow> bool"
  sh_other :: "string \<Rightarrow> 'i disk \<Rightarrow> 'i disk \<times> qemu_run list"

text \<open>Characters that stand for themselves in a command line.\<close>

definition sh_plain :: "char \<Rightarrow> bool" where
  "sh_plain c \<longleftrightarrow> is_digit c \<or> (let n = of_char c :: nat in 65 \<le> n \<and> n \<le> 90 \<or> 97 \<le> n \<and> n \<le> 122) \<or> c \<in> set ''@._-+/,:%''"

text \<open>A line of such characters and blanks is split at the blanks.\<close>

fun sh_split :: "string \<Rightarrow> string \<Rightarrow> string list" where
  "sh_split w [] = (if w = [] then [] else [w])"
| "sh_split w (c # cs) =
     (if c = CHR '' '' then (if w = [] then [] else [w]) @ sh_split [] cs else sh_split (w @ [c]) cs)"

definition sh_plain_line :: "string \<Rightarrow> bool" where
  "sh_plain_line line \<longleftrightarrow> list_all (\<lambda>c. c = CHR '' '' \<or> sh_plain c) line"

definition image_path :: "string \<Rightarrow> string \<Rightarrow> string \<Rightarrow> string" where
  "image_path ID OS INDEX = ''./'' @ ID @ ''/'' @ OS @ ''_'' @ INDEX @ ''.img''"

definition base_path :: "string \<Rightarrow> string \<Rightarrow> string" where
  "base_path OS ANDROID = ''./baseImage/'' @ OS @ ''_'' @ ANDROID @ ''.img''"

text \<open>Where the script looks for an image after \<^verbatim>\<open>cd\<close>: when that fails, it goes on in the directory it is in.\<close>

definition run_path :: "'i shell_env \<Rightarrow> string \<Rightarrow> string \<Rightarrow> string \<Rightarrow> string \<times> string" where
  "run_path she ID OS INDEX =
     (if sh_cd she ID then (ID, image_path ID OS INDEX) else (''.'', ''./'' @ OS @ ''_'' @ INDEX @ ''.img''))"

text \<open>\<^verbatim>\<open>mv\<close> leaves everything as it is when the source does not exist.\<close>

definition mv :: "string \<Rightarrow> string \<Rightarrow> 'i disk \<Rightarrow> 'i disk" where
  "mv a b fs = (case fs a of None \<Rightarrow> fs | Some i \<Rightarrow> (fs(a := None))(b \<mapsto> i))"

definition command_sh :: "'i shell_env \<Rightarrow> 'i \<Rightarrow> string list \<Rightarrow> 'i disk \<Rightarrow> 'i disk \<times> qemu_run list" where
  "command_sh she blank args fs =
     (case args of
        [COMMAND, ID, OS, INDEX, ANDROID] \<Rightarrow>
          let (dir, hda) = run_path she ID OS INDEX
          in if COMMAND = ''0'' then
               (fs, if OS = ''windows7'' \<or> OS = ''ubuntu'' \<or> OS = ''android'' then [Run_Qemu dir hda]
                    else if OS = ''tizen'' then [Run_Tizen dir] else [])
             else if COMMAND = ''1'' then
               (if \<not> sh_mkdir she ID then fs
                else if OS = ''windows7'' \<or> OS = ''ubuntu'' then fs(image_path ID OS INDEX \<mapsto> blank)
                else if OS = ''android'' then mv (base_path OS ANDROID) (image_path ID OS INDEX) fs
                else fs, [])
             else if COMMAND = ''2'' then (fs(image_path ID OS INDEX := None), [])
             else (fs, [Run_Install dir hda (''../baseImage/'' @ OS @ ''.iso'')])
      | _ \<Rightarrow> (fs, []))"

text \<open>What a request to one server process does to the disk: its command line, run by the shell in the
  process's directory, which has the script only when it is the server's own directory \<open>base\<close>.\<close>

fun run_action :: "'i shell_env \<Rightarrow> string \<Rightarrow> 'i \<Rightarrow> action \<Rightarrow> 'i disk \<times> qemu_run list \<Rightarrow> 'i disk \<times> qemu_run list" where
  "run_action she base blank (Fork_System d cmd) (fs, rs) =
     (if d = base then
        let (fs', rs') = (if sh_plain_line cmd then command_sh she blank (tl (sh_split [] cmd)) fs else sh_other she cmd fs)
        in (fs', rs @ rs')
      else (fs, rs))"
| "run_action she base blank (Write_File d f t) s = s"

definition perform ::
  "'i shell_env \<Rightarrow> os_env \<Rightarrow> string \<Rightarrow> 'i \<Rightarrow> client_info \<Rightarrow> manager \<times> 'i disk \<Rightarrow> c_fault + (manager \<times> 'i disk \<times> qemu_run list)" where
  "perform she env base blank c s =
     bindE (command env c (fst s)) (\<lambda>(m, acts). Inr (m, fold (run_action she base blank) acts (snd s, [])))"

section \<open>The command line as the script sees it\<close>

lemma sh_split_word: "CHR '' '' \<notin> set t \<Longrightarrow> sh_split w (t @ s) = sh_split (w @ t) s"
  by (induction t arbitrary: w) auto

lemma sh_split_token: "is_token t \<Longrightarrow> sh_split [] (t @ CHR '' '' # s) = t # sh_split [] s"
  by (simp add: sh_split_word is_token_def)

lemma sh_split_last: "is_token t \<Longrightarrow> sh_split [] t = [t]"
  using sh_split_word [of t "[]" "[]"] by (simp add: is_token_def)

lemma command_line_words:
  assumes "is_token (ci_id c)" "os_name (ci_os_type c) = Some os"
  shows "tl (sh_split [] (command_line c os i)) =
    [dec_of_nat (unat (ci_command c)), ci_id c, os, dec_of_nat (unat (ci_index c)), dec_of_nat i]"
proof -
  have os: "is_token os" "is_token ''./command.sh''"
    using assms(2) by (auto simp: os_name_def is_token_def NUL_def split: if_splits)
  have d: "dec_of_int (uint (w :: u8)) = dec_of_nat (unat w)" for w
    by (simp add: dec_of_int_def unat_eq_nat_uint [symmetric])
  have "command_line c os i = ''./command.sh'' @ CHR '' '' # dec_of_nat (unat (ci_command c)) @ CHR '' '' # ci_id c @
      CHR '' '' # os @ CHR '' '' # dec_of_nat (unat (ci_index c)) @ CHR '' '' # dec_of_nat i"
    by (simp add: command_line_def d)
  then show ?thesis using assms(1) os by (simp only: sh_split_token is_token_dec sh_split_last list.sel)
qed

lemma plain_line:
  assumes "list_all sh_plain (ci_id c)" "os_name (ci_os_type c) = Some os"
  shows "sh_plain_line (command_line c os i)"
proof -
  have d: "list_all (\<lambda>c. c = CHR '' '' \<or> sh_plain c) (dec_of_int (int n))" for n
    using dec_of_nat_digits [of n] by (auto simp: sh_plain_def list_all_iff dec_of_int_def)
  have w: "list_all (\<lambda>c. c = CHR '' '' \<or> sh_plain c) (dec_of_int (uint (w :: u8)))" for w
    using d [of "unat w"] by simp
  have lit: "list_all (\<lambda>c. c = CHR '' '' \<or> sh_plain c) t" if "t \<in> set [''./command.sh '', '' '', ''android'', ''tizen'', ''ubuntu'', ''windows7'']" for t
  proof -
    have "list_all (list_all (\<lambda>c. c = CHR '' '' \<or> sh_plain c)) [''./command.sh '', '' '', ''android'', ''tizen'', ''ubuntu'', ''windows7'']"
      by code_simp
    then show ?thesis using that unfolding list_all_iff [of "list_all _"] by (rule bspec)
  qed
  have "os \<in> set [''./command.sh '', '' '', ''android'', ''tizen'', ''ubuntu'', ''windows7'']"
    using assms(2) by (auto simp: os_name_def split: if_splits)
  note os = lit [OF this]
  have "list_all (\<lambda>c. c = CHR '' '' \<or> sh_plain c) (ci_id c)" using assms(1) by (simp add: list_all_iff)
  moreover note lit [of "''./command.sh ''"] lit [of "'' ''"]
  ultimately show ?thesis unfolding sh_plain_line_def command_line_def list_all_append using os w d by simp
qed

lemma perform_short:
  assumes "ci_command c = 1 \<or> ci_command c = 2" "os_name (ci_os_type c) = Some os" "is_token (ci_id c)" "length (ci_id c) \<le> 66"
    and "os_fork env" "cwd m = base" "pick_slot c (android m) = (i, a)" "i < 100" "list_all sh_plain (ci_id c)"
  shows "perform she env base blank c (m, fs) =
    Inr (m\<lparr>android := a\<rparr>, command_sh she blank [dec_of_nat (unat (ci_command c)), ci_id c, os, dec_of_nat (unat (ci_index c)), dec_of_nat i] fs)"
proof -
  have "command env c m = launch env c i (m\<lparr>android := a\<rparr>) []"
    using assms(1,7) by (auto simp: command_def)
  then have "command env c m = Inr (m\<lparr>android := a\<rparr>, [Fork_System base (command_line c os i)])"
    using launch_bound [OF assms(2,8), of env "m\<lparr>android := a\<rparr>" "[]"] assms(4-6) by simp
  then show ?thesis
    using command_line_words [OF assms(3,2), of i] plain_line [OF assms(9,2), of i] by (simp add: perform_def case_prod_unfold Let_def)
qed

section \<open>Properties\<close>

lemma dec_small: "dec_of_nat (Suc 0) = ''1''" "dec_of_nat 2 = ''2''" "dec_of_nat 0 = ''0''"
  by code_simp+

lemma android_init_Min: "Min (free_slots android_init) = 0" "free_slots android_init \<noteq> {}"
proof -
  have "0 \<in> free_slots android_init" unfolding android_init_ok(2) by simp
  then show "free_slots android_init \<noteq> {}" "Min (free_slots android_init) = 0" by (blast, intro Min_eqI) auto
qed

text \<open>
  Creating an Android image moves the prepared image of the least free slot to the user's file: the file
  then holds that image, and every other file but the prepared one is as before.
\<close>

theorem create_moves_base_image:
  assumes "ci_command c = 1" "ci_os_type c = 0" "is_token (ci_id c)" "length (ci_id c) \<le> 66" "os_fork env" "cwd m = base"
    and "free_slots (android m) \<noteq> {}" "i = Min (free_slots (android m))"
    and "fs (base_path ''android'' (dec_of_nat i)) = Some img"
    and "file = image_path (ci_id c) ''android'' (dec_of_nat (unat (ci_index c)))" "list_all sh_plain (ci_id c)" "sh_mkdir she (ci_id c)"
  shows "\<exists>fs'. perform she env base blank c (m, fs) = Inr (m\<lparr>android := (android m)[i := 0]\<rparr>, fs', [])
    \<and> fs' file = Some img \<and> (\<forall>f. f \<noteq> file \<and> f \<noteq> base_path ''android'' (dec_of_nat i) \<longrightarrow> fs' f = fs f)"
proof -
  have slot: "pick_slot c (android m) = (i, (android m)[i := 0])"
    using pick_slot_create [OF assms(1,2), of "android m"] assms(7,8) by simp
  have "i < 100" using Min_slots_less(1) [OF assms(7)] assms(8) by simp
  from perform_short [OF _ _ assms(3-6) slot this assms(11), where she = she and blank = blank and fs = fs, of "''android''"] assms(1,2,9,12)
  have "perform she env base blank c (m, fs) = Inr (m\<lparr>android := (android m)[i := 0]\<rparr>, mv (base_path ''android'' (dec_of_nat i)) file fs, [])"
    by (simp add: os_name_def command_sh_def run_path_def dec_small assms(10))
  then show ?thesis using assms(9) by (auto simp: mv_def)
qed

text \<open>
  A slot that was given back cannot be used again: after an image was created and deleted, the next
  create request takes the same slot, whose prepared image is gone, and makes no file, while the server
  counts the slot as used.
\<close>

theorem deleted_slot_yields_nothing:
  assumes "ci_command c1 = 1" "ci_command c2 = 2" "ci_command c3 = 1" "ci_os_type c1 = 0" "ci_os_type c2 = 0" "ci_os_type c3 = 0"
    and "list_all (\<lambda>c. is_token (ci_id c) \<and> length (ci_id c) \<le> 66 \<and> list_all sh_plain (ci_id c) \<and> sh_mkdir she (ci_id c)) [c1, c2, c3]" "os_fork env" "cwd m = base" "android m = android_init"
    and "list_all (\<lambda>c. image_path (ci_id c) ''android'' (dec_of_nat (unat (ci_index c))) \<noteq> base_path ''android'' ''0'') [c1, c2, c3]"
    and "fs (base_path ''android'' ''0'') \<noteq> None" "ci_id c2 = ci_id c1" "ci_index c2 = ci_index c1"
    and "file = image_path (ci_id c3) ''android'' (dec_of_nat (unat (ci_index c3)))" "fs file = None"
  shows "\<exists>m1 s1 r1 m2 s2 r2 m3 s3 r3. perform she env base blank c1 (m, fs) = Inr (m1, s1, r1) \<and> perform she env base blank c2 (m1, s1) = Inr (m2, s2, r2)
    \<and> perform she env base blank c3 (m2, s2) = Inr (m3, s3, r3) \<and> android m3 ! 0 = 0 \<and> s3 file = None"
proof -
  let ?b = "base_path ''android'' ''0''" and ?f = "\<lambda>c. image_path (ci_id c) ''android'' (dec_of_nat (unat (ci_index c)))"
  let ?used = "android_init[0 := 0]"
  have one: "android_init ! 0 = 1" "length android_init = 100" by (simp_all add: android_init_def nth_replicate)
  have "used_slots android_init = {}" by (simp add: used_slots_def android_init_def)
  then have used: "used_slots ?used = {0}" using slot_update(2) [OF android_init_ok(1), of 0] by simp
  have undo: "?used[0 := 1] = android_init" using one(1) by (metis list_update_id list_update_overwrite)
  have "Min (free_slots android_init) = 0" "free_slots android_init \<noteq> {}" by (rule android_init_Min)+
  then have p: "pick_slot c1 android_init = (0, ?used)" "pick_slot c3 android_init = (0, ?used)"
    using pick_slot_create [of c1 android_init] pick_slot_create [of c3 android_init] assms(1,3,4,6) by auto
  have p2: "pick_slot c2 ?used = (0, android_init)"
    using pick_slot_delete [OF assms(2,5), of ?used] used undo by simp
  obtain img where img: "fs ?b = Some img" using assms(12) by auto
  have s: "is_token (ci_id c) \<and> length (ci_id c) \<le> 66 \<and> list_all sh_plain (ci_id c) \<and> sh_mkdir she (ci_id c)" if "c \<in> {c1, c2, c3}" for c using that assms(7) by auto
  have 1: "perform she env base blank c1 (m, fs) = Inr (m\<lparr>android := ?used\<rparr>, (fs(?b := None))(?f c1 \<mapsto> img), [])"
    using perform_short [of c1 "''android''" env m base 0 ?used she blank fs] assms(1,4,8-10) p(1) s [of c1] img
    by (simp add: os_name_def command_sh_def run_path_def dec_small mv_def)
  have 2: "perform she env base blank c2 (m\<lparr>android := ?used\<rparr>, (fs(?b := None))(?f c1 \<mapsto> img)) =
      Inr (m\<lparr>android := android_init\<rparr>, (fs(?b := None))(?f c1 := None), [])"
    using perform_short [of c2 "''android''" env "m\<lparr>android := ?used\<rparr>" base 0 android_init she blank] assms(2,5,8,9,13,14) p2 s [of c2]
    by (simp add: os_name_def command_sh_def run_path_def dec_small)
  have 3: "perform she env base blank c3 (m\<lparr>android := android_init\<rparr>, (fs(?b := None))(?f c1 := None)) =
      Inr (m\<lparr>android := ?used\<rparr>, (fs(?b := None))(?f c1 := None), [])"
    using perform_short [of c3 "''android''" env "m\<lparr>android := android_init\<rparr>" base 0 ?used she blank] assms(3,6,8,9) p(2) s [of c3]
    by (simp add: os_name_def command_sh_def run_path_def dec_small mv_def)
  have "?used ! 0 = 0" using one(2) by simp
  then show ?thesis using 1 2 3 assms(15,16) by simp
qed

subsection \<open>Examples\<close>

definition bob :: "u8 \<Rightarrow> u8 \<Rightarrow> client_info" where
  "bob cmd k = sample_client\<lparr>ci_command := cmd, ci_index := k, ci_id := ''bob''\<rparr>"

definition plain_shell :: "'i shell_env" where
  "plain_shell = \<lparr>sh_mkdir = (\<lambda>_. True), sh_cd = (\<lambda>_. True), sh_other = (\<lambda>_ fs. (fs, []))\<rparr>"

lemma plain_shell_simps [simp]: "sh_mkdir plain_shell x" "sh_cd plain_shell x"
  by (simp_all add: plain_shell_def)

definition one_base :: "nat disk" where
  "one_base = [base_path ''android'' ''0'' \<mapsto> 7]"

lemma bob_simps [simp]: "ci_command (bob cmd k) = cmd" "ci_os_type (bob cmd k) = 0" "ci_index (bob cmd k) = k" "ci_id (bob cmd k) = ''bob''"
  by (simp_all add: bob_def sample_client_def)

lemma bob_paths: "image_path ''bob'' ''android'' k \<noteq> base_path ''android'' ''0''" "one_base (image_path ''bob'' ''android'' k) = None"
  by (simp_all add: image_path_def base_path_def one_base_def)

lemma bob_plain [simp]: "sh_plain CHR ''b''" "sh_plain CHR ''o''"
  by code_simp+

lemma bob_name: "is_token ''bob''" "length ''bob'' \<le> 66" "os_fork sample_env" "cwd (manager_init d) = d" "android (manager_init d) = android_init"
  by (simp_all add: is_token_def NUL_def sample_env_def manager_init_def)

theorem create_moves_base_image_witness:
  "\<exists>fs'. perform plain_shell sample_env ''/srv'' 0 (bob 1 5) (manager_init ''/srv'', one_base) =
      Inr ((manager_init ''/srv'')\<lparr>android := android_init[0 := 0]\<rparr>, fs', []) \<and> fs' (image_path ''bob'' ''android'' ''5'') = Some 7"
proof -
  have m: "0 = Min (free_slots (android (manager_init ''/srv'')))" "free_slots (android (manager_init ''/srv'')) \<noteq> {}"
    unfolding bob_name(5) by (simp_all add: android_init_Min)
  have d: "dec_of_nat 5 = ''5''" by code_simp
  from create_moves_base_image [of "bob 1 5" sample_env "manager_init ''/srv''" "''/srv''" 0 one_base 7 _ plain_shell 0, OF _ _ _ _ _ _ m(2,1) _ refl]
  show ?thesis using bob_name by (auto simp: dec_small one_base_def d)
qed

theorem deleted_slot_yields_nothing_witness:
  "\<exists>m1 s1 r1 m2 s2 r2 m3 s3 r3. perform plain_shell sample_env ''/srv'' 0 (bob 1 5) (manager_init ''/srv'', one_base) = Inr (m1, s1, r1)
    \<and> perform plain_shell sample_env ''/srv'' 0 (bob 2 5) (m1, s1) = Inr (m2, s2, r2) \<and> perform plain_shell sample_env ''/srv'' 0 (bob 1 6) (m2, s2) = Inr (m3, s3, r3)
    \<and> android m3 ! 0 = 0 \<and> s3 (image_path ''bob'' ''android'' (dec_of_nat (unat (6 :: u8)))) = None"
  by (rule deleted_slot_yields_nothing) (use bob_name bob_paths bob_plain in \<open>simp_all add: one_base_def\<close>)

end
