(* ===== verification/Client_Ipc.thy ===== *)
theory Client_Ipc
  imports Vm_Manager
begin

text \<open>
  The QEMU end of the hand-over between the VM manager and a virtual machine, src/Qemu-2.4.1/vl.c:
  \<^verbatim>\<open>IPC_getClientData\<close> reads the file \<^verbatim>\<open>client_data.dat\<close> that the VM manager's \<^verbatim>\<open>command\<close> wrote, and
  \<^verbatim>\<open>socket_client_open\<close> connects to the event port it names.  The receive array lies on the stack and
  is not initialised: its earlier contents are the parameter \<open>stack\<close>.  The two scale factors are of
  type \<^verbatim>\<open>double\<close> in the source; the only values they ever hold, 0 and 1, are integers here.
\<close>

record qemu_globals =
  g_androidMode :: bool
  g_audio_domain :: string
  g_frame_domain :: string
  portnum :: int
  g_img_width :: int
  g_img_height :: int
  g_scaleConstant_X :: int
  g_scaleConstant_Y :: int

definition qemu_globals_init :: qemu_globals where
  "qemu_globals_init = \<lparr>g_androidMode = False, g_audio_domain = [], g_frame_domain = [], portnum = 0,
     g_img_width = 0, g_img_height = 0, g_scaleConstant_X = 0, g_scaleConstant_Y = 0\<rparr>"

text \<open>The port a connection is made to, or \<open>None\<close> when \<^verbatim>\<open>socket\<close> or \<^verbatim>\<open>connect\<close> fails; \<^verbatim>\<open>htons\<close> takes 16 bits.\<close>

definition socket_client_open :: "bool \<Rightarrow> (u16 \<Rightarrow> bool) \<Rightarrow> qemu_globals \<Rightarrow> u16 option" where
  "socket_client_open socket_ok accepts gl =
     (let p = word_of_int (portnum gl) in if socket_ok \<and> accepts p then Some p else None)"

text \<open>The loop around \<^verbatim>\<open>open\<close>: each element says what one attempt finds.\<close>

fun ipc_open :: "string option list \<Rightarrow> string option" where
  "ipc_open [] = None"
| "ipc_open (None # fs) = ipc_open fs"
| "ipc_open (Some f # fs) = Some f"

definition domain_url :: "string \<Rightarrow> string \<Rightarrow> c_fault + string" where
  "domain_url base tok = sprintf_into 100 (''http://211.189.20.76:'' @ base @ tok @ ''/1234'')"

definition ipc_parse :: "string \<Rightarrow> qemu_globals \<Rightarrow> c_fault + qemu_globals" where
  "ipc_parse buf0 gl =
     (if NUL \<notin> set buf0 then Inl Buffer_Overrun else
      bindE (tok_int (buf0, 0)) (\<lambda>(os, st1).
      bindE (tok_ptr st1) (\<lambda>(q2, st2).
      bindE (domain_url ''850'' (cstr_at (fst st2) q2)) (\<lambda>audio.
      bindE (tok_ptr st2) (\<lambda>(q3, st3).
      bindE (domain_url ''800'' (cstr_at (fst st3) q3)) (\<lambda>frame.
      bindE (tok_ptr st3) (\<lambda>(q4, st4).
      bindE (sprintf_self 200 ''750'' q4 (fst st4)) (\<lambda>s.
        Inr (gl\<lparr>g_androidMode := (os = 0 \<or> g_androidMode gl), g_audio_domain := audio,
               g_frame_domain := frame, portnum := atoi s, g_img_width := 1280, g_img_height := 768,
               g_scaleConstant_X := 1, g_scaleConstant_Y := 1\<rparr>)))))))))"

definition IPC_getClientData :: "string option list \<Rightarrow> string \<Rightarrow> qemu_globals \<Rightarrow> (c_fault + qemu_globals) option" where
  "IPC_getClientData opens stack gl =
     map_option (\<lambda>file. ipc_parse (c_read 200 file stack) gl) (ipc_open opens)"

subsection \<open>The hand-over\<close>

lemma dec_of_uint: "dec_of_int (uint (w :: 'a::len word)) = dec_of_nat (unat w)"
  by (simp add: dec_of_int_def unat_eq_nat_uint [symmetric])

lemma length_client_data: "length (client_data c) \<le> 21"
  using length_dec_u8 [of "ci_os_type c"] length_dec_u16 [of "ci_port_i c"] length_dec_u16 [of "ci_port_a c"]
    length_dec_u16 [of "ci_port_e c"]
  by (simp add: client_data_def)

lemma ipc_parse_client_data:
  fixes c g tail
  defines "t \<equiv> dec_of_nat (unat (ci_port_e c)) @ g"
  assumes "length (client_data c @ g @ NUL # tail) = 200" and g: "CHR '' '' \<notin> set g" "NUL \<notin> set g"
    and "length t \<le> 2"
  shows "ipc_parse (client_data c @ g @ NUL # tail) gl = Inr (gl\<lparr>
    g_androidMode := (ci_os_type c = 0 \<or> g_androidMode gl),
    g_audio_domain := ''http://211.189.20.76:850'' @ dec_of_nat (unat (ci_port_i c)) @ ''/1234'',
    g_frame_domain := ''http://211.189.20.76:800'' @ dec_of_nat (unat (ci_port_a c)) @ ''/1234'',
    portnum := atoi (''750'' @ t), g_img_width := 1280, g_img_height := 768,
    g_scaleConstant_X := 1, g_scaleConstant_Y := 1\<rparr>)"
proof -
  let ?os = "dec_of_nat (unat (ci_os_type c))" and ?i = "dec_of_nat (unat (ci_port_i c))"
    and ?a = "dec_of_nat (unat (ci_port_a c))"
  let ?buf = "client_data c @ g @ NUL # tail"
  have st0: "(?buf, 0) = tokst [] [?os, ?i, ?a] (t @ NUL # tail)"
    by (simp add: client_data_def dec_of_uint tokst_def t_def)
  have os: "int (unat (ci_os_type c)) < 2 ^ 31" using unsigned_less [of "ci_os_type c", where ?'a = int] by simp
  have len: "length (dec_of_nat (unat (w :: u16))) \<le> 5" for w using length_dec_u16 [of w] by (simp add: dec_of_uint)
  define R where "R = t @ NUL # tail"
  define d1 where "d1 = ?os @ [NUL]"
  define d2 where "d2 = d1 @ ?i @ [NUL]"
  define d3 where "d3 = d2 @ ?a @ [NUL]"
  have cut: "cstr_at (d @ dec_of_nat n @ NUL # rest) (length d) = dec_of_nat n" for d rest n
    by (rule cstr_at_token) (simp_all add: dec_of_nat_no_delim)
  have s1: "tok_int (?buf, 0) = Inr (int (unat (ci_os_type c)), tokst d1 [?i, ?a] R)"
    unfolding st0 R_def [symmetric] using tok_int_tokst [OF os, of "[]"] by (simp add: d1_def)
  have s2: "tok_ptr (tokst d1 [?i, ?a] R) = Inr (length d1, tokst d2 [?a] R)"
    "cstr_at (fst (tokst d2 [?a] R)) (length d1) = ?i"
    using cut [of d1] by (simp_all add: tok_ptr_tokst d2_def tokst_def [of _ "[dec_of_nat n]" for n])
  have s3: "tok_ptr (tokst d2 [?a] R) = Inr (length d2, tokst d3 [] R)"
    "cstr_at (fst (tokst d3 [] R)) (length d2) = ?a"
    using cut [of d2] by (simp_all add: tok_ptr_tokst d3_def tokst_def [of _ "[]"])
  have tok: "is_token t" using g is_token_dec [of "unat (ci_port_e c)"] by (simp add: is_token_def t_def)
  have s4: "tok_ptr (tokst d3 [] R) = Inr (length d3, d3 @ R, length d3 + length t)"
    "cstr_at (d3 @ R) (length d3) = t"
    using tok_ptr_last [OF tok, of d3 tail] by (simp_all add: tokst_def R_def)
  have "6 \<le> length d3"
    using length_dec_of_nat_pos [of "unat (ci_os_type c)"] length_dec_of_nat_pos [of "unat (ci_port_i c)"]
      length_dec_of_nat_pos [of "unat (ci_port_a c)"] by (simp add: d1_def d2_def d3_def)
  then have self: "sprintf_self 200 ''750'' (length d3) (d3 @ R) = Inr (''750'' @ t)"
    unfolding sprintf_self_def sprintf_into_def s4(2) Let_def using assms(5) by simp
  have url: "domain_url base (dec_of_nat (unat (w :: u16)))
      = Inr (''http://211.189.20.76:'' @ base @ dec_of_nat (unat w) @ ''/1234'')" if "length base = 3" for base w
    using len [of w] that by (simp add: domain_url_def sprintf_into_def)
  have nul: "NUL \<in> set ?buf" by simp
  show ?thesis
    unfolding ipc_parse_def s1 bindE_simps prod.case s2 s3 s4 fst_conv url [of "''850''", simplified] url [of "''800''", simplified] self
    using nul by (simp add: uint_0_iff)
qed

lemma hand_over:
  assumes "command env c m = Inr (m', acts)" "ci_command c = 0 \<or> ci_command c = 3"
    and "os_fopen env (chdir env (cwd m) (ci_id c)) ''client_data.dat''"
    and "length stack = 200" "stack ! length (client_data c) = NUL" "unat (ci_port_e c) < 100"
  shows "\<exists>file. Write_File (chdir env (cwd m) (ci_id c)) ''client_data.dat'' file \<in> set acts
    \<and> IPC_getClientData (replicate n None @ [Some file]) stack gl = Some (Inr (gl\<lparr>
        g_androidMode := (ci_os_type c = 0 \<or> g_androidMode gl),
        g_audio_domain := ''http://211.189.20.76:850'' @ dec_of_nat (unat (ci_port_i c)) @ ''/1234'',
        g_frame_domain := ''http://211.189.20.76:800'' @ dec_of_nat (unat (ci_port_a c)) @ ''/1234'',
        portnum := (if unat (ci_port_e c) < 10 then 7500 else 75000) + uint (ci_port_e c),
        g_img_width := 1280, g_img_height := 768, g_scaleConstant_X := 1, g_scaleConstant_Y := 1\<rparr>))"
proof -
  let ?d = "client_data c" and ?e = "unat (ci_port_e c)"
  have "Write_File (chdir env (cwd m) (ci_id c)) ''client_data.dat'' ?d \<in> set acts"
    using assms(1-3) length_client_data [of c]
    by (auto simp: command_def launch_def sprintf_into_def Let_def bindE_eq_Inr split: prod.splits if_splits option.splits)
  moreover have stk: "c_read 200 ?d stack = ?d @ [] @ NUL # drop (Suc (length ?d)) stack"
    using assms(4,5) length_client_data [of c] by (simp add: c_read_def Cons_nth_drop_Suc [symmetric])
  moreover have opn: "ipc_open (replicate n None @ [Some ?d]) = Some ?d" by (induction n) auto
  moreover have "length (dec_of_nat ?e @ []) \<le> 2" using length_dec_of_nat [of ?e 1] assms(6) by simp
  moreover have "atoi (''750'' @ dec_of_nat ?e @ []) = (if ?e < 10 then 7500 else 75000) + uint (ci_port_e c)"
  proof -
    have l: "length (dec_of_nat ?e) = (if ?e < 10 then 1 else 2)"
      using assms(6) less_mult_imp_div_less [of ?e 10 10] by (simp add: dec_of_nat.simps [of ?e] dec_of_nat.simps [of "?e div 10"])
    have "dec_of_nat 750 = ''750''" by code_simp
    then have p: "''750'' @ dec_of_nat ?e @ [] = dec_of_nat ((if ?e < 10 then 7500 else 75000) + ?e)"
      using dec_of_nat_append [of 750 ?e] l by simp
    show ?thesis
      unfolding p using unsigned_less [of "ci_port_e c", where ?'a = int] atoi_dec_of_nat [of "(if ?e < 10 then 7500 else 75000) + ?e" "[]"] assms(6) by auto
  qed
  moreover have "length (?d @ [] @ NUL # drop (Suc (length ?d)) stack) = 200"
    using assms(4) length_client_data [of c] by simp
  ultimately show ?thesis
    using ipc_parse_client_data [of c "[]" "drop (Suc (length ?d)) stack" gl]
    by (intro exI [of _ ?d]) (simp add: IPC_getClientData_def)
qed

text \<open>A start or install request of a known system, when the file can be opened and closed, reaches the fork.\<close>

lemma command_starts:
  assumes "ci_command c = 0 \<or> ci_command c = 3" "os_name (ci_os_type c) = Some os" "length (ci_id c) \<le> 66"
    and "os_fopen env (chdir env (cwd m) (ci_id c)) ''client_data.dat''" "os_fclose env"
  shows "\<exists>m' acts. command env c m = Inr (m', acts) \<and> forks acts = os_fork env"
proof -
  have pick: "pick_slot c (android m) = (0, android m)" using assms(1) by (intro pick_slot_other) auto
  have fit: "sprintf_into 100 (client_data c) = Inr (client_data c)"
    using length_client_data [of c] by (simp add: sprintf_into_def)
  have go: "launch env c 0 n as = Inr (n, as @ (if os_fork env then [Fork_System (cwd n) (command_line c os 0)] else []))" for n as
    using launch_bound [OF assms(2), of 0 env n as] assms(3) by simp
  show ?thesis unfolding command_def Let_def pick prod.case using assms(1,4,5) by (simp add: fit go forks_def)
qed

text \<open>
  What the VM manager writes for a start or install request is read back by the virtual machine:
  the mode, both stream addresses and, for an event port below 100, the port number, whatever the
  globals held, provided the array on the stack held a NUL behind the file's last character.
\<close>

theorem hand_over_roundtrip:
  assumes "command env c m = Inr (m', acts)" "ci_command c = 0 \<or> ci_command c = 3"
    and "os_fopen env (chdir env (cwd m) (ci_id c)) ''client_data.dat''"
    and "length stack = 200" "stack ! length (client_data c) = NUL" "unat (ci_port_e c) < 100"
  shows "\<exists>file. Write_File (chdir env (cwd m) (ci_id c)) ''client_data.dat'' file \<in> set acts
    \<and> IPC_getClientData (replicate n None @ [Some file]) stack gl = Some (Inr (gl\<lparr>
        g_androidMode := (ci_os_type c = 0 \<or> g_androidMode gl),
        g_audio_domain := ''http://211.189.20.76:850'' @ dec_of_nat (unat (ci_port_i c)) @ ''/1234'',
        g_frame_domain := ''http://211.189.20.76:800'' @ dec_of_nat (unat (ci_port_a c)) @ ''/1234'',
        portnum := (if unat (ci_port_e c) < 10 then 7500 else 75000) + uint (ci_port_e c),
        g_img_width := 1280, g_img_height := 768, g_scaleConstant_X := 1, g_scaleConstant_Y := 1\<rparr>))"
  by (rule hand_over [OF assms])

definition ipc_client :: client_info where
  "ipc_client = sample_client\<lparr>ci_command := 3, ci_port_i := 2, ci_port_a := 3, ci_port_e := 4\<rparr>"

definition ipc_env :: os_env where
  "ipc_env = sample_env\<lparr>os_fopen := (\<lambda>_ _. True)\<rparr>"

theorem hand_over_roundtrip_witness:
  "\<exists>m' acts file gl. command ipc_env ipc_client (manager_init ''/srv'') = Inr (m', acts)
    \<and> Write_File (chdir ipc_env ''/srv'' ''a'') ''client_data.dat'' file \<in> set acts
    \<and> IPC_getClientData [None, Some file] (replicate 200 NUL) qemu_globals_init = Some (Inr gl)
    \<and> portnum gl = 7504 \<and> g_androidMode gl"
proof -
  have "\<not> isl (command ipc_env ipc_client (manager_init ''/srv''))" by code_simp
  then obtain m' acts where c: "command ipc_env ipc_client (manager_init ''/srv'') = Inr (m', acts)"
    by (cases "command ipc_env ipc_client (manager_init ''/srv'')") auto
  have d: "length (client_data ipc_client) = 7" "unat (ci_port_e ipc_client) = 4" "uint (ci_port_e ipc_client) = 4"
    "ci_os_type ipc_client = 0" "ci_command ipc_client = 3" "ci_id ipc_client = ''a''" "cwd (manager_init ''/srv'') = ''/srv''"
    "os_fopen ipc_env (chdir ipc_env ''/srv'' ''a'') ''client_data.dat''" "replicate 200 NUL ! 7 = NUL"
    by code_simp+
  show ?thesis
    using c hand_over_roundtrip [OF c, of "replicate 200 NUL" 1 qemu_globals_init]
    unfolding d by (auto simp: d(8))
qed

text \<open>
  The last field has no delimiter of its own, so characters that the uninitialised array held behind
  it become part of the port number.
\<close>

theorem stack_joins_port:
  assumes "length stack = 200" "drop (length (client_data c)) stack = g @ NUL # tail"
    and "CHR '' '' \<notin> set g" "NUL \<notin> set g" "length (dec_of_nat (unat (ci_port_e c)) @ g) \<le> 2"
  shows "\<exists>gl'. IPC_getClientData [Some (client_data c)] stack gl = Some (Inr gl')
    \<and> portnum gl' = atoi (''750'' @ dec_of_nat (unat (ci_port_e c)) @ g)"
proof -
  have stk: "c_read 200 (client_data c) stack = client_data c @ g @ NUL # tail"
    using assms(1,2) length_client_data [of c] by (simp add: c_read_def)
  have "length (client_data c) + length (drop (length (client_data c)) stack) = 200"
    using assms(1) length_client_data [of c] by simp
  then have "length (client_data c @ g @ NUL # tail) = 200" unfolding assms(2) by simp
  from ipc_parse_client_data [OF this assms(3-5), of gl] show ?thesis
    by (simp add: IPC_getClientData_def stk)
qed

theorem stack_joins_port_witness:
  "\<exists>gl. IPC_getClientData [Some (client_data ipc_client)] (replicate 7 NUL @ ''9'' @ replicate 192 NUL) qemu_globals_init
      = Some (Inr gl) \<and> portnum gl = atoi ''75049''"
proof -
  have d: "length (client_data ipc_client) = 7" "unat (ci_port_e ipc_client) = 4" "dec_of_nat 4 = ''4''" by code_simp+
  show ?thesis
    using stack_joins_port [of "replicate 7 NUL @ ''9'' @ replicate 192 NUL" ipc_client "''9''" "replicate 191 NUL" qemu_globals_init]
    by (simp add: d NUL_def replicate_Suc [symmetric] del: replicate_Suc)
qed

end
