(* ===== verification/Catalogue.thy ===== *)
theory Catalogue
  imports Load_Balancer Image_Files Client_Ipc "HOL-Library.Multiset"
begin

text \<open>
  The load balancer's catalogue of images, src/LoadBalancer/model/ImageDAO.js, with the handlers of routes/select.js that list,
  create and delete images, and what their messages make the VM manager and its script do.  The two MongoDB collections
  are the parameter \<open>image_store\<close>; what the code relies on is stated by \<open>store_laws\<close>, in terms of the documents
  and the counter that a state of the database holds.  A request under way is a task that waits for the database, so that
  requests can interleave.
\<close>

record image_doc =
  im_Index :: int
  im_Email :: js
  im_Image :: string

datatype store_reply = Db_Error | Db_Null | Db_List "image_doc list"

record 'd image_store =
  find_images :: "js \<Rightarrow> 'd \<Rightarrow> store_reply"
  insert_image :: "image_doc \<Rightarrow> 'd \<Rightarrow> 'd"
  remove_images :: "int option \<Rightarrow> js \<Rightarrow> string \<Rightarrow> 'd \<Rightarrow> 'd"
  insert_counter :: "'d \<Rightarrow> 'd"
  inc_counter :: "'d \<Rightarrow> nat \<times> 'd"

definition removed :: "int option \<Rightarrow> js \<Rightarrow> string \<Rightarrow> image_doc \<Rightarrow> bool" where
  "removed n e v d \<longleftrightarrow> Some (im_Index d) = n \<and> im_Email d = e \<and> im_Image d = v"

text \<open>Inserting a counter that exists fails and changes nothing.\<close>

definition store_laws :: "'d image_store \<Rightarrow> ('d \<Rightarrow> image_doc multiset) \<Rightarrow> ('d \<Rightarrow> nat option) \<Rightarrow> bool" where
  "store_laws S docs counter \<longleftrightarrow>
     (\<forall>e db. \<exists>xs. find_images S e db = Db_List xs \<and> mset xs = filter_mset (\<lambda>d. im_Email d = e) (docs db))
     \<and> (\<forall>d db. docs (insert_image S d db) = add_mset d (docs db) \<and> counter (insert_image S d db) = counter db)
     \<and> (\<forall>n e v db. docs (remove_images S n e v db) = filter_mset (\<lambda>d. \<not> removed n e v d) (docs db)
          \<and> counter (remove_images S n e v db) = counter db)
     \<and> (\<forall>db. docs (insert_counter S db) = docs db
          \<and> counter (insert_counter S db) = (case counter db of None \<Rightarrow> Some 0 | Some n \<Rightarrow> Some n))
     \<and> (\<forall>db n. counter db = Some n \<longrightarrow> fst (inc_counter S db) = n + 1 \<and> docs (snd (inc_counter S db)) = docs db
          \<and> counter (snd (inc_counter S db)) = Some (n + 1))"

subsection \<open>The data access object\<close>

text \<open>\<^verbatim>\<open>parseInt\<close>: white space, a sign, and the longest run of digits, hexadecimal after \<^verbatim>\<open>0x\<close>; \<open>None\<close> is \<^verbatim>\<open>NaN\<close>.\<close>

definition hex_val :: "char \<Rightarrow> nat option" where
  "hex_val c =
     (let n = of_char c :: nat
      in if 48 \<le> n \<and> n \<le> 57 then Some (n - 48) else if 97 \<le> n \<and> n \<le> 102 then Some (n - 87)
         else if 65 \<le> n \<and> n \<le> 70 then Some (n - 55) else None)"

definition parseInt :: "js \<Rightarrow> int option" where
  "parseInt v =
     (let s = dropWhile is_space (case v of Undefined \<Rightarrow> ''undefined'' | Null \<Rightarrow> ''null'' | Str s \<Rightarrow> s);
          neg = (take 1 s = ''-'');
          s1 = (if take 1 s = ''-'' \<or> take 1 s = ''+'' then drop 1 s else s);
          (ds, n) = (if take 2 s1 = ''0x'' \<or> take 2 s1 = ''0X''
                     then let ds = takeWhile (\<lambda>c. hex_val c \<noteq> None) (drop 2 s1)
                          in (ds, foldl (\<lambda>a c. 16 * a + the (hex_val c)) 0 ds)
                     else let ds = takeWhile is_digit s1 in (ds, digits_val ds))
      in if ds = [] then None else Some (if neg then - int n else int n))"

definition initIndexers :: "'d image_store \<Rightarrow> 'd \<Rightarrow> 'd" where
  "initIndexers S = insert_counter S"

definition getIndexers :: "'d image_store \<Rightarrow> 'd \<Rightarrow> nat \<times> 'd" where
  "getIndexers S = inc_counter S"

text \<open>\<open>None\<close> is no answer at all, \<open>Some None\<close> the answer \<^verbatim>\<open>false\<close>; the loop copies each document.\<close>

definition checkImageList :: "'d image_store \<Rightarrow> js \<Rightarrow> 'd \<Rightarrow> image_doc list option option" where
  "checkImageList S email db =
     (case find_images S email db of
        Db_Error \<Rightarrow> None
      | Db_Null \<Rightarrow> Some None
      | Db_List result \<Rightarrow>
          Some (Some (foldl (\<lambda>l r. l @ [\<lparr>im_Index = im_Index r, im_Email = im_Email r, im_Image = im_Image r\<rparr>]) [] result)))"

definition insertImage :: "'d image_store \<Rightarrow> int \<Rightarrow> js \<Rightarrow> string \<Rightarrow> 'd \<Rightarrow> 'd" where
  "insertImage S index email version = insert_image S \<lparr>im_Index = index, im_Email = email, im_Image = version\<rparr>"

definition deleteImage :: "'d image_store \<Rightarrow> js \<Rightarrow> js \<Rightarrow> string \<Rightarrow> 'd \<Rightarrow> 'd" where
  "deleteImage S index email version = remove_images S (parseInt index) email version"

subsection \<open>The handlers\<close>

datatype image_task =
    Numbering js string             \<comment> \<open>a create request that waits for its number\<close>
  | Inserting int js string
  | Removing js js string           \<comment> \<open>a delete request that waits for the removal\<close>

record 'd desk =
  store :: 'd
  tasks :: "image_task list"
  messages :: "(js_error + string) list"
  answered :: nat

definition requestOSList :: "'d image_store \<Rightarrow> js \<Rightarrow> 'd desk \<Rightarrow> image_doc list option option" where
  "requestOSList S email k = checkImageList S email (store k)"

definition requestCreateOS :: "'d image_store \<Rightarrow> js \<Rightarrow> string \<Rightarrow> 'd desk \<Rightarrow> 'd desk" where
  "requestCreateOS S email version k = k\<lparr>store := initIndexers S (store k), tasks := tasks k @ [Numbering email version]\<rparr>"

text \<open>The callback of \<^verbatim>\<open>getIndexers\<close>: the insertion is left to the database, the message goes out and the request is answered.\<close>

definition image_numbered :: "'d image_store \<Rightarrow> js \<Rightarrow> string \<Rightarrow> 'd desk \<Rightarrow> 'd desk" where
  "image_numbered S email version k =
     (let (index, db) = getIndexers S (store k)
      in k\<lparr>store := db, tasks := tasks k @ [Inserting (int index) email version],
           messages := messages k @ [create_message index version email], answered := answered k + 1\<rparr>)"

definition requestDeleteOS :: "js \<Rightarrow> js \<Rightarrow> string \<Rightarrow> 'd desk \<Rightarrow> 'd desk" where
  "requestDeleteOS index email version k = k\<lparr>tasks := tasks k @ [Removing index email version]\<rparr>"

definition image_deleted :: "'d image_store \<Rightarrow> js \<Rightarrow> js \<Rightarrow> string \<Rightarrow> 'd desk \<Rightarrow> 'd desk" where
  "image_deleted S index email version k =
     k\<lparr>store := deleteImage S index email version (store k), messages := messages k @ [delete_message index version email],
       answered := answered k + 1\<rparr>"

text \<open>The database serves a task.\<close>

fun run_task :: "'d image_store \<Rightarrow> image_task \<Rightarrow> 'd desk \<Rightarrow> 'd desk" where
  "run_task S (Numbering email version) k = image_numbered S email version k"
| "run_task S (Inserting index email version) k = k\<lparr>store := insertImage S index email version (store k)\<rparr>"
| "run_task S (Removing index email version) k = image_deleted S index email version k"

definition take_task :: "'d image_store \<Rightarrow> nat \<Rightarrow> 'd desk \<Rightarrow> 'd desk" where
  "take_task S i k = run_task S (tasks k ! i) (k\<lparr>tasks := take i (tasks k) @ drop (Suc i) (tasks k)\<rparr>)"

inductive desk_step :: "'d image_store \<Rightarrow> 'd desk \<Rightarrow> 'd desk \<Rightarrow> bool" for S where
  desk_create: "desk_step S k (requestCreateOS S email version k)"
| desk_delete: "desk_step S k (requestDeleteOS index email version k)"
| desk_task: "i < length (tasks k) \<Longrightarrow> desk_step S k (take_task S i k)"

text \<open>A request on its own.\<close>

definition create_alone :: "'d image_store \<Rightarrow> js \<Rightarrow> string \<Rightarrow> 'd desk \<Rightarrow> 'd desk" where
  "create_alone S email version k = take_task S 0 (take_task S 0 (requestCreateOS S email version k))"

definition delete_alone :: "'d image_store \<Rightarrow> js \<Rightarrow> js \<Rightarrow> string \<Rightarrow> 'd desk \<Rightarrow> 'd desk" where
  "delete_alone S index email version k = take_task S 0 (requestDeleteOS index email version k)"

text \<open>The routers: which handler a request's target names.\<close>

datatype select_target = To_OSDisplay | To_OSList | To_CreateOS | To_DeleteOS | To_StartOS | To_InstallOS

definition select_router :: "string \<Rightarrow> select_target option" where
  "select_router checkTarget =
     (if checkTarget = ''requestOSDisplay'' then Some To_OSDisplay
      else if checkTarget = ''requestOSList'' then Some To_OSList
      else if checkTarget = ''requestCreateOS'' then Some To_CreateOS
      else if checkTarget = ''requestDeleteOS'' then Some To_DeleteOS
      else if checkTarget = ''requestStartOS'' then Some To_StartOS
      else if checkTarget = ''requestInstallOS'' then Some To_InstallOS
      else None)"

datatype member_target = To_loginMember | To_idCheckMember | To_joinMember | To_mobile_loginMember

definition member_router :: "string \<Rightarrow> member_target option" where
  "member_router checkTarget =
     (if checkTarget = ''loginMember'' then Some To_loginMember
      else if checkTarget = ''idCheckMember'' then Some To_idCheckMember
      else if checkTarget = ''joinMember'' then Some To_joinMember
      else if checkTarget = ''mobile_loginMember'' then Some To_mobile_loginMember
      else None)"

section \<open>Numbers are given out once\<close>

fun task_numbers :: "image_task \<Rightarrow> int multiset" where
  "task_numbers (Inserting n e v) = {#n#}"
| "task_numbers _ = {#}"

text \<open>The numbers of the images in the catalogue and of those about to be inserted.\<close>

definition numbers :: "('d \<Rightarrow> image_doc multiset) \<Rightarrow> 'd desk \<Rightarrow> int multiset" where
  "numbers docs k = image_mset im_Index (docs (store k)) + sum_list (map task_numbers (tasks k))"

definition desk_ok :: "('d \<Rightarrow> image_doc multiset) \<Rightarrow> ('d \<Rightarrow> nat option) \<Rightarrow> 'd desk \<Rightarrow> bool" where
  "desk_ok docs counter k \<longleftrightarrow>
     (\<forall>n. count (numbers docs k) n \<le> 1) \<and> (\<forall>n \<in># numbers docs k. case counter (store k) of None \<Rightarrow> False | Some c \<Rightarrow> n \<le> int c)
     \<and> (counter (store k) = None \<longrightarrow> (\<forall>t \<in> set (tasks k). case t of Numbering _ _ \<Rightarrow> False | _ \<Rightarrow> True))"

lemma count_filter_le: "count (image_mset f (filter_mset P M)) n \<le> count (image_mset f M) n"
  by (intro mset_subset_eq_count image_mset_subseteq_mono multiset_filter_subset)

lemma tasks_without:
  assumes "i < length ts"
  shows "sum_list (map task_numbers ts) = task_numbers (ts ! i) + sum_list (map task_numbers (take i ts @ drop (Suc i) ts))"
proof -
  have "sum_list (map task_numbers ts) = sum_list (map task_numbers (take i ts @ ts ! i # drop (Suc i) ts))"
    using assms by (simp add: id_take_nth_drop [symmetric])
  then show ?thesis by (simp add: ac_simps)
qed

lemmas dao_defs = initIndexers_def getIndexers_def insertImage_def deleteImage_def

lemma store_lawsD:
  assumes "store_laws S docs counter"
  shows "docs (insert_image S d db) = add_mset d (docs db)" "counter (insert_image S d db) = counter db"
    "docs (remove_images S n e v db) = filter_mset (\<lambda>d. \<not> removed n e v d) (docs db)" "counter (remove_images S n e v db) = counter db"
    "docs (insert_counter S db) = docs db" "counter (insert_counter S db) = (case counter db of None \<Rightarrow> Some 0 | Some n \<Rightarrow> Some n)"
    "counter db = Some c \<Longrightarrow> inc_counter S db = (c + 1, snd (inc_counter S db)) \<and> docs (snd (inc_counter S db)) = docs db
       \<and> counter (snd (inc_counter S db)) = Some (c + 1)"
  using assms unfolding store_laws_def by (auto simp: prod_eq_iff)

lemma desk_okI:
  assumes "desk_ok docs counter k" "numbers docs k' \<subseteq># numbers docs k" "counter (store k') = counter (store k)"
    and "counter (store k) = None \<Longrightarrow> set (tasks k') \<subseteq> set (tasks k) \<union> {t. \<exists>i e v. t = Removing i e v}"
  shows "desk_ok docs counter k'"
proof -
  have "count (numbers docs k') n \<le> 1" for n
    using assms(1) mset_subset_eq_count [OF assms(2), of n] order_trans unfolding desk_ok_def by blast
  moreover have "n \<in># numbers docs k" if "n \<in># numbers docs k'" for n using that assms(2) by (rule mset_subset_eqD [rotated])
  moreover have "\<forall>t \<in> set (tasks k'). case t of Numbering _ _ \<Rightarrow> False | _ \<Rightarrow> True" if "counter (store k) = None"
    using assms(1,4) that unfolding desk_ok_def by fastforce
  ultimately show ?thesis using assms(1,3) unfolding desk_ok_def by auto
qed

lemma desk_ok_number:
  assumes "desk_ok docs counter k" "counter (store k) = Some c" "numbers docs k' = add_mset (int c + 1) (numbers docs k)"
    and "counter (store k') = Some (c + 1)"
  shows "desk_ok docs counter k'"
proof -
  have le: "n \<le> int c" if "n \<in># numbers docs k" for n using assms(1,2) that by (auto simp: desk_ok_def)
  then have "count (numbers docs k) (int c + 1) = 0" by (metis not_in_iff zle_add1_eq_le less_irrefl)
  then show ?thesis using assms le unfolding desk_ok_def by fastforce
qed

lemma desk_step_ok:
  assumes "store_laws S docs counter" "desk_step S k k'" "desk_ok docs counter k"
  shows "desk_ok docs counter k'"
  using assms(2,3)
proof (induction rule: desk_step.induct)
  case (desk_create k email version)
  note l = store_lawsD [OF assms(1)]
  have n: "numbers docs (requestCreateOS S email version k) = numbers docs k"
    by (simp add: numbers_def requestCreateOS_def dao_defs l)
  show ?case
  proof (cases "counter (store k)")
    case None
    then have "numbers docs k = {#}" using desk_create by (auto simp: desk_ok_def)
    then show ?thesis using n None by (simp add: desk_ok_def requestCreateOS_def dao_defs l)
  next
    case (Some c)
    then show ?thesis
      using desk_create n by (intro desk_okI [OF desk_create]) (simp_all add: requestCreateOS_def dao_defs l)
  qed
next
  case (desk_delete k index email version)
  show ?case by (intro desk_okI [OF desk_delete]) (auto simp: requestDeleteOS_def numbers_def)
next
  case (desk_task i k)
  note l = store_lawsD [OF assms(1)]
  define ts where "ts = take i (tasks k) @ drop (Suc i) (tasks k)"
  have num: "numbers docs k = image_mset im_Index (docs (store k)) + (task_numbers (tasks k ! i) + sum_list (map task_numbers ts))"
    using tasks_without [OF desk_task(1)] by (simp add: numbers_def ts_def)
  have sub: "set ts \<subseteq> set (tasks k)" unfolding ts_def using set_take_subset set_drop_subset by fastforce
  have t: "tasks k ! i \<in> set (tasks k)" using desk_task(1) by simp
  show ?case
  proof (cases "tasks k ! i")
    case (Numbering e v)
    then obtain c where c: "counter (store k) = Some c" using desk_task(2) t by (auto simp: desk_ok_def split: option.splits)
    from l(7) [OF c] obtain db where db: "inc_counter S (store k) = (c + 1, db)" "docs db = docs (store k)" "counter db = Some (c + 1)" by metis
    show ?thesis
      by (rule desk_ok_number [OF desk_task(2) c])
         (use db num Numbering in \<open>simp_all add: take_task_def image_numbered_def dao_defs numbers_def ts_def [symmetric] ac_simps\<close>)
  next
    case (Inserting n e v)
    show ?thesis
      by (rule desk_okI [OF desk_task(2)])
         (use sub num Inserting in \<open>auto simp: take_task_def dao_defs numbers_def ts_def [symmetric] l\<close>)
  next
    case (Removing n e v)
    have "image_mset im_Index (filter_mset (\<lambda>d. \<not> removed (parseInt n) e v d) (docs (store k))) \<subseteq># image_mset im_Index (docs (store k))"
      by (intro image_mset_subseteq_mono multiset_filter_subset)
    then show ?thesis
      by (intro desk_okI [OF desk_task(2)])
         (use sub num Removing in \<open>auto simp: take_task_def image_deleted_def dao_defs numbers_def ts_def [symmetric] l\<close>)
  qed
qed

text \<open>
  C10. No two images of the catalogue have the same number, however the requests of all users interleave, from an empty
  catalogue on; so a delete request removes at most one image.
\<close>

theorem image_numbers_unique:
  assumes "store_laws S docs counter" "docs db0 = {#}" "(desk_step S)\<^sup>*\<^sup>* \<lparr>store = db0, tasks = [], messages = [], answered = 0\<rparr> k"
  shows "count (image_mset im_Index (docs (store k))) n \<le> 1
    \<and> size (docs (store k)) \<le> size (docs (deleteImage S index email version (store k))) + 1"
proof -
  have init: "desk_ok docs counter \<lparr>store = db0, tasks = [], messages = [], answered = 0\<rparr>"
    using assms(2) by (simp add: desk_ok_def numbers_def)
  from assms(3) have ok: "desk_ok docs counter k"
    by (induction rule: rtranclp_induct) (use init desk_step_ok [OF assms(1)] in blast)+
  have le: "count (image_mset im_Index (docs (store k))) n \<le> 1" for n
  proof -
    have "count (image_mset im_Index (docs (store k))) n \<le> count (numbers docs k) n" by (simp add: numbers_def)
    then show ?thesis using ok order_trans unfolding desk_ok_def by blast
  qed
  let ?P = "removed (parseInt index) email version"
  have "size (filter_mset ?P (docs (store k))) \<le> 1"
  proof (cases "parseInt index")
    case None
    then have "?P = (\<lambda>_. False)" by (simp add: removed_def fun_eq_iff)
    then show ?thesis by simp
  next
    case (Some i)
    have "image_mset im_Index (filter_mset ?P (docs (store k))) = image_mset (\<lambda>_. i) (filter_mset ?P (docs (store k)))"
      by (intro image_mset_cong) (simp add: removed_def Some)
    then have "size (filter_mset ?P (docs (store k))) = count (image_mset im_Index (filter_mset ?P (docs (store k)))) i"
      by (metis count_replicate_mset image_mset_const_eq)
    also have "\<dots> \<le> 1" using count_filter_le [of im_Index ?P "docs (store k)" i] le [of i] by linarith
    finally show ?thesis .
  qed
  moreover have "size (docs (store k)) = size (filter_mset ?P (docs (store k))) + size (filter_mset (\<lambda>d. \<not> ?P d) (docs (store k)))"
    by (metis multiset_partition size_union)
  ultimately show ?thesis using le by (simp add: deleteImage_def store_lawsD(3) [OF assms(1)])
qed

section \<open>The catalogue and the disk\<close>

text \<open>A message that reaches a server process of the VM manager, with the script it runs.\<close>

definition serve_disk ::
  "'i shell_env \<Rightarrow> os_env \<Rightarrow> string \<Rightarrow> 'i \<Rightarrow> client_info \<Rightarrow> string \<Rightarrow> manager \<times> 'i disk \<Rightarrow> c_fault + (manager \<times> 'i disk \<times> qemu_run list)" where
  "serve_disk she env base blank c0 bytes s =
     bindE (serve env c0 1 bytes (fst s)) (\<lambda>(m, acts). Inr (m, fold (run_action she base blank) acts (snd s, [])))"

definition ready :: "string \<Rightarrow> manager \<Rightarrow> bool" where
  "ready base m \<longleftrightarrow> cwd m = base \<and> length (buffer m) = 500 \<and> buffer m ! 499 = NUL"

lemma fields_read:
  assumes "ready base m" "msg = msg_fields ts" "length msg < 500"
  shows "(c_read 500 msg (buffer m), 0) = tokst [] ts (drop (length msg) (buffer m))" "NUL \<in> set (c_read 500 msg (buffer m))"
    "ready base (m\<lparr>buffer := cut_fields ts @ drop (length msg) (buffer m)\<rparr>)"
proof -
  have m: "length (buffer m) = 500" "buffer m ! 499 = NUL" using assms(1) by (simp_all add: ready_def)
  show "(c_read 500 msg (buffer m), 0) = tokst [] ts (drop (length msg) (buffer m))"
    using assms(3) unfolding assms(2) by (intro c_read_msg_fields) simp
  have at: "drop (length msg) (buffer m) ! (499 - length msg) = NUL" "499 - length msg < length (drop (length msg) (buffer m))"
    using m assms(3) by auto
  then have "NUL \<in> set (drop (length msg) (buffer m))" by (metis nth_mem)
  then show "NUL \<in> set (c_read 500 msg (buffer m))" using assms(3) by (simp add: c_read_def)
  have "length (cut_fields ts) = length msg" using assms(2) by simp
  then show "ready base (m\<lparr>buffer := cut_fields ts @ drop (length msg) (buffer m)\<rparr>)"
    using assms(1,3) at(1) m(1) by (auto simp: ready_def nth_append)
qed

text \<open>Requests for images that are not Android's.\<close>

lemma plain_slot: "t = 2 \<or> t = 3 \<Longrightarrow> ci_os_type c = of_nat t \<Longrightarrow> pick_slot c a = (0, a)"
  by (rule pick_slot_other) auto

lemma served_short:
  assumes "ready base m" "c = 1 \<or> c = 2" "t = 2 \<or> t = 3" "os_name (of_nat t) = Some os" "k < 256" "is_token e" "length e \<le> 66" "os_fork env"
    and "list_all sh_plain e"
  shows "\<exists>m'. serve_disk she env base blank c0 (msg_fields [dec_of_nat c, dec_of_nat t, dec_of_nat k, e]) (m, fs) =
      Inr (m', command_sh she blank [dec_of_nat c, e, os, dec_of_nat k, dec_of_nat 0] fs) \<and> ready base m'"
proof -
  let ?ts = "[dec_of_nat c, dec_of_nat t, dec_of_nat k, e]"
  define msg where "msg = msg_fields ?ts"
  let ?c = "c0\<lparr>ci_command := of_nat c, ci_os_type := of_nat t, ci_index := of_nat k, ci_id := e\<rparr>"
  let ?m = "m\<lparr>buffer := cut_fields ?ts @ drop (length msg) (buffer m)\<rparr>"
  have "length (dec_of_nat c) \<le> 1" "length (dec_of_nat t) \<le> 1" "length (dec_of_nat k) \<le> 3"
    using length_dec_of_nat [of c 0] length_dec_of_nat [of t 0] length_dec_of_nat [of k 2] assms(2,3,5) by auto
  then have len: "length msg < 500" using assms(7) by (simp add: msg_def)
  note r = fields_read [OF assms(1) msg_def len]
  have w: "unat (of_nat c :: u8) = c" "unat (of_nat k :: u8) = k" "(of_nat c :: u8) \<noteq> 0" "(of_nat c :: u8) \<noteq> 3"
    using assms(2,5) by (auto simp: unat_of_nat)
  have p: "parse_request c0 (c_read 500 msg (buffer m)) = Inr (?c, cut_fields ?ts @ drop (length msg) (buffer m))"
    by (rule parse_request_short [OF r(1,2) assms(6)]) (use assms(2,3,5) w in auto)
  have "serve_disk she env base blank c0 msg (m, fs) = perform she env base blank ?c (?m, fs)"
    by (simp add: serve_disk_def serve_def p perform_def)
  also have "\<dots> = Inr (?m\<lparr>android := android m\<rparr>, command_sh she blank [dec_of_nat c, e, os, dec_of_nat k, dec_of_nat 0] fs)"
    using perform_short [of ?c os env ?m base 0 "android m" she blank fs] assms r(3) w plain_slot [OF assms(3), of ?c] by (auto simp: ready_def)
  finally show ?thesis using r(3) unfolding msg_def by (auto simp: ready_def)
qed

lemma served_start:
  assumes "ready base m" "t = 2 \<or> t = 3" "os_name (of_nat t) = Some os" "k < 256" "is_token e" "length e \<le> 66" "is_token ip" "length ip \<le> 66"
    and "p < 10" "os_fork env" "os_fclose env" "os_chdir env base e = Some d" "os_chdir env d ''..'' = Some base" "os_fopen env d ''client_data.dat''"
    and "list_all sh_plain e"
  shows "\<exists>m'. serve_disk she env base blank c0 (msg_fields [dec_of_nat 0, dec_of_nat t, dec_of_nat k, e, ip, dec_of_nat 1,
        dec_of_nat p, dec_of_nat p, dec_of_nat p]) (m, fs) =
      Inr (m', command_sh she blank [dec_of_nat 0, e, os, dec_of_nat k, dec_of_nat 0] fs) \<and> ready base m'"
proof -
  let ?ts = "[dec_of_nat 0, dec_of_nat t, dec_of_nat k, e, ip, dec_of_nat 1, dec_of_nat p, dec_of_nat p, dec_of_nat p]"
  define msg where "msg = msg_fields ?ts"
  define c where "c = \<lparr>ci_command = of_nat 0, ci_os_type = of_nat t, ci_index = of_nat k, ci_id = e, ci_ip = ip, ci_connect_type = of_nat 1,
     ci_port_i = of_nat p, ci_port_a = of_nat p, ci_port_e = of_nat p\<rparr>"
  have c: "ci_command c = 0" "ci_os_type c = of_nat t" "ci_index c = of_nat k" "ci_id c = e" by (simp_all add: c_def)
  have "length (dec_of_nat t) \<le> 1" "length (dec_of_nat k) \<le> 3" "length (dec_of_nat p) \<le> 1" "length (dec_of_nat 0) \<le> 1" "length (dec_of_nat 1) \<le> 1"
    using length_dec_of_nat [of t 0] length_dec_of_nat [of k 2] length_dec_of_nat [of p 0] length_dec_of_nat [of 0 0] length_dec_of_nat [of 1 0]
      assms(2,4,9) by auto
  then have len: "length msg < 500" using assms(6,8) by (simp add: msg_def)
  note r = fields_read [OF assms(1) msg_def len]
  have w: "unat (of_nat k :: u8) = k" using assms(4) by (simp add: unat_of_nat)
  define b1 where "b1 = cut_fields ?ts @ drop (length msg) (buffer m)"
  define m1 where "m1 = m\<lparr>buffer := b1\<rparr>"
  have m1: "ready base m1" "cwd m1 = base" using r(3) [folded b1_def] by (simp_all add: m1_def ready_def)
  have prs: "parse_request c0 (c_read 500 msg (buffer m)) = Inr (c, b1)"
    unfolding c_def b1_def by (rule parse_request_long [OF r(1,2) assms(5,7)]) (use assms(2,4,9) in auto)
  have slot: "pick_slot c a = (0, a)" for a by (rule plain_slot [OF assms(2) c(2)])
  have stay: "m1\<lparr>cwd := base\<rparr> = m1" using m1(2) by (cases m1) simp
  have "length (client_data c) < 100" using length_client_data [of c] by simp
  then have "command env c m1 = launch env c 0 m1 [Write_File d ''client_data.dat'' (client_data c)]"
    using assms(11-14) by (simp add: command_def slot c m1(2) chdir_def sprintf_into_def stay)
  also have "\<dots> = Inr (m1, [Write_File d ''client_data.dat'' (client_data c), Fork_System base (command_line c os 0)])"
    using launch_bound [of c os 0 env m1] assms(3,6,10) by (simp add: c m1(2))
  finally have "serve_disk she env base blank c0 msg (m, fs) = Inr (m1, command_sh she blank (tl (sh_split [] (command_line c os 0))) fs)"
    using plain_line [of c os 0] assms(3,15) by (simp add: serve_disk_def serve_def prs m1_def [symmetric] case_prod_unfold Let_def c)
  then show ?thesis
    using command_line_words [of c os 0] assms(3,5) w m1(1) unfolding msg_def c by auto
qed

subsection \<open>The life of an image\<close>

lemma foldl_snoc: "foldl (\<lambda>l r. l @ [f r]) acc xs = acc @ map f xs"
  by (induction xs arbitrary: acc) simp_all

lemma image_list:
  assumes "store_laws S docs counter"
  shows "\<exists>xs. checkImageList S e db = Some (Some xs) \<and> mset xs = filter_mset (\<lambda>d. im_Email d = e) (docs db)"
proof -
  from assms obtain xs where xs: "find_images S e db = Db_List xs" "mset xs = filter_mset (\<lambda>d. im_Email d = e) (docs db)"
    unfolding store_laws_def by blast
  have "foldl (\<lambda>l r. l @ [\<lparr>im_Index = im_Index r, im_Email = im_Email r, im_Image = im_Image r\<rparr>]) [] xs = xs"
    unfolding foldl_snoc [of "\<lambda>r. \<lparr>im_Index = im_Index r, im_Email = im_Email r, im_Image = im_Image r\<rparr>"] by (simp add: map_idI)
  then show ?thesis using xs by (simp add: checkImageList_def)
qed

lemma parseInt_dec: "parseInt (Str (dec_of_nat n)) = Some (int n)"
proof -
  have d: "is_digit x" if "x \<in> set (dec_of_nat n)" for x using dec_of_nat_digits that by blast
  then have all: "takeWhile is_digit (dec_of_nat n) = dec_of_nat n" by (simp add: takeWhile_eq_all_conv)
  obtain c cs where c: "dec_of_nat n = c # cs" by (cases "dec_of_nat n") auto
  have "is_digit c" using d c by simp
  then have sp: "\<not> is_space c" and sg: "c \<noteq> CHR ''-''" "c \<noteq> CHR ''+''"
    by (auto simp: is_digit_def is_space_def)
  have "take 2 (dec_of_nat n) \<noteq> ''0x''" "take 2 (dec_of_nat n) \<noteq> ''0X''"
    using d [of "CHR ''x''"] d [of "CHR ''X''"] in_set_takeD [of _ 2 "dec_of_nat n"] by (auto simp: is_digit_def)
  moreover have "dropWhile is_space (dec_of_nat n) = dec_of_nat n" "take 1 (dec_of_nat n) \<noteq> ''-''" "take 1 (dec_of_nat n) \<noteq> ''+''" "dec_of_nat n \<noteq> []"
    using sp sg by (simp_all add: c)
  ultimately show ?thesis by (simp add: parseInt_def all)
qed

text \<open>What the two requests of one user do on their own.\<close>

lemma create_alone_spec:
  assumes "store_laws S docs counter" "tasks k = []" "counter (store k) = Some n \<or> counter (store k) = None \<and> n = 0"
  shows "docs (store (create_alone S e v k)) = add_mset \<lparr>im_Index = int n + 1, im_Email = e, im_Image = v\<rparr> (docs (store k))"
    "tasks (create_alone S e v k) = []" "messages (create_alone S e v k) = messages k @ [create_message (n + 1) v e]"
    "counter (store (create_alone S e v k)) = Some (n + 1)"
proof -
  note l = store_lawsD [OF assms(1)]
  have c: "counter (insert_counter S (store k)) = Some n" using assms(3) by (auto simp: l)
  from l(7) [OF c] obtain db where "inc_counter S (insert_counter S (store k)) = (n + 1, db)" "docs db = docs (store k)" "counter db = Some (n + 1)"
    by (metis l(5))
  then show "docs (store (create_alone S e v k)) = add_mset \<lparr>im_Index = int n + 1, im_Email = e, im_Image = v\<rparr> (docs (store k))"
    "tasks (create_alone S e v k) = []" "messages (create_alone S e v k) = messages k @ [create_message (n + 1) v e]"
    "counter (store (create_alone S e v k)) = Some (n + 1)"
    using assms(2) by (simp_all add: create_alone_def requestCreateOS_def take_task_def image_numbered_def dao_defs l)
qed

lemma delete_alone_spec:
  assumes "store_laws S docs counter" "tasks k = []"
  shows "docs (store (delete_alone S i e v k)) = filter_mset (\<lambda>d. \<not> removed (parseInt i) e v d) (docs (store k))"
    "messages (delete_alone S i e v k) = messages k @ [delete_message i v e]"
  using assms(2) store_lawsD [OF assms(1)]
  by (simp_all add: delete_alone_def requestDeleteOS_def take_task_def image_deleted_def dao_defs)

lemma dec_012: "dec_of_nat 0 = ''0''" "dec_of_nat 1 = ''1''" "dec_of_nat 2 = ''2''"
  by code_simp+

definition start_request :: "string \<Rightarrow> nat \<Rightarrow> string \<Rightarrow> string \<Rightarrow> request" where
  "start_request version n e ip = \<lparr>rq_kind = Start, rq_version = version, rq_index = Str (dec_of_nat n), rq_email = Str e, rq_ip = Str ip\<rparr>"

lemma plain_messages:
  assumes "getImageIndex v = Some t"
  shows "create_message n v (Str e) = Inr (msg_fields [dec_of_nat 1, dec_of_nat t, dec_of_nat n, e])"
    "delete_message (Str (dec_of_nat n)) v (Str e) = Inr (msg_fields [dec_of_nat 2, dec_of_nat t, dec_of_nat n, e])"
    "granted (start_request v n e ip) p = Inr (msg_fields [dec_of_nat 0, dec_of_nat t, dec_of_nat n, e, ip, dec_of_nat 1,
       dec_of_nat p, dec_of_nat p, dec_of_nat p])"
  using assms granted_text [of "start_request v n e ip" t "dec_of_nat n" e ip p]
  by (simp_all add: create_message_def delete_message_def getSocketCreate_def getSocketDelete_def js_texts_def js_num_def start_request_def)

text \<open>
  C9. Catalogue, VM manager and disk agree on an image from its creation to its deletion.  The message of a create request for
  a Linux or Windows image makes the file of that user, system and number, and the image is then listed; starting
  the listed image runs QEMU on that very file; and the message of the delete request removes the file, and the image is no
  longer listed.  No other file is touched.  This is for requests that do not interleave, for the images numbered below 256, as the VM
  manager keeps eight bits of the number (\<open>image_numbers_wrap\<close>), and for a user whose name has at most 66 characters, all of them
  plain to the shell (\<open>sh_plain\<close>), and whose directory can be made and entered.
\<close>

theorem image_lifecycle:
  assumes "store_laws S docs counter" "tasks k = []" "counter (store k) = Some n \<or> counter (store k) = None \<and> n = 0" "n + 1 < 256"
    and "v = ''linux'' \<and> os = ''ubuntu'' \<or> v = ''window7'' \<and> os = ''windows7''" "is_token e" "length e \<le> 66" "is_token ip" "length ip \<le> 66"
    and "list_all sh_plain e" "sh_mkdir she e" "sh_cd she e"
    and "ready base m" "os_fork env" "os_fclose env" "p < 10"
    and "os_chdir env base e = Some d" "os_chdir env d ''..'' = Some base" "os_fopen env d ''client_data.dat''"
    and "k1 = create_alone S (Str e) v k" "k2 = delete_alone S (Str (dec_of_nat (n + 1))) (Str e) v k1"
    and "file = image_path e os (dec_of_nat (n + 1))" "doc = \<lparr>im_Index = int n + 1, im_Email = Str e, im_Image = v\<rparr>"
  shows "\<exists>msg1 msg2 msg3 m1 m2 m3 list1 list2. last (messages k1) = Inr msg1 \<and> granted (start_request v (n + 1) e ip) p = Inr msg2
    \<and> last (messages k2) = Inr msg3
    \<and> serve_disk she env base blank c1 msg1 (m, fs) = Inr (m1, fs(file \<mapsto> blank), [])
    \<and> requestOSList S (Str e) k1 = Some (Some list1) \<and> doc \<in> set list1
    \<and> serve_disk she env base blank c2 msg2 (m1, fs(file \<mapsto> blank)) = Inr (m2, fs(file \<mapsto> blank), [Run_Qemu e file])
    \<and> serve_disk she env base blank c3 msg3 (m2, fs(file \<mapsto> blank)) = Inr (m3, fs(file := None), [])
    \<and> requestOSList S (Str e) k2 = Some (Some list2) \<and> doc \<notin> set list2"
proof -
  obtain t where t: "getImageIndex v = Some t" "t = 2 \<or> t = 3" "os_name (of_nat t) = Some os" "os = ''windows7'' \<or> os = ''ubuntu''"
    using assms(5) by (auto simp: getImageIndex_def os_name_def)
  note c = create_alone_spec [OF assms(1-3), of "Str e" v, folded assms(20)]
  note d = delete_alone_spec [OF assms(1) c(2), of "Str (dec_of_nat (n + 1))" "Str e" v, folded assms(21)]
  note msgs = plain_messages [OF t(1)]
  from served_short [OF assms(13) _ t(2,3) assms(4,6,7,14,10), of 1 she blank c1 fs] obtain m1 where
    1: "serve_disk she env base blank c1 (msg_fields [dec_of_nat 1, dec_of_nat t, dec_of_nat (n + 1), e]) (m, fs) = Inr (m1, fs(file \<mapsto> blank), [])"
      "ready base m1" using t(4) assms(11,12) by (auto simp: command_sh_def run_path_def dec_012 assms(22) simp del: One_nat_def)
  from served_start [OF 1(2) t(2,3) assms(4,6-9,16,14,15,17-19,10), of she blank c2 "fs(file \<mapsto> blank)"] obtain m2 where
    2: "serve_disk she env base blank c2 (msg_fields [dec_of_nat 0, dec_of_nat t, dec_of_nat (n + 1), e, ip, dec_of_nat 1,
        dec_of_nat p, dec_of_nat p, dec_of_nat p]) (m1, fs(file \<mapsto> blank)) = Inr (m2, fs(file \<mapsto> blank), [Run_Qemu e file])"
      "ready base m2" using t(4) assms(11,12) by (auto simp: command_sh_def run_path_def dec_012 assms(22))
  from served_short [OF 2(2) _ t(2,3) assms(4,6,7,14,10), of 2 she blank c3 "fs(file \<mapsto> blank)"] obtain m3 where
    3: "serve_disk she env base blank c3 (msg_fields [dec_of_nat 2, dec_of_nat t, dec_of_nat (n + 1), e]) (m2, fs(file \<mapsto> blank)) = Inr (m3, fs(file := None), [])"
    by (auto simp: command_sh_def run_path_def dec_012 assms(22))
  from image_list [OF assms(1), of "Str e" "store k1"] obtain list1 where
    l1: "requestOSList S (Str e) k1 = Some (Some list1)" "mset list1 = filter_mset (\<lambda>d. im_Email d = Str e) (docs (store k1))"
    by (auto simp: requestOSList_def)
  from image_list [OF assms(1), of "Str e" "store k2"] obtain list2 where
    l2: "requestOSList S (Str e) k2 = Some (Some list2)" "mset list2 = filter_mset (\<lambda>d. im_Email d = Str e) (docs (store k2))"
    by (auto simp: requestOSList_def)
  have "doc \<in># mset list1" unfolding l1(2) c(1) by (simp add: assms(23))
  moreover have "doc \<notin># mset list2" unfolding l2(2) d(1) by (simp add: assms(23) removed_def parseInt_dec)
  ultimately show ?thesis using 1(1) 2(1) 3 l1(1) l2(1) c(3) d(2) msgs by auto
qed

subsection \<open>Examples\<close>

definition list_store :: "(nat option \<times> image_doc list) image_store" where
  "list_store = \<lparr>find_images = (\<lambda>e db. Db_List (filter (\<lambda>d. im_Email d = e) (snd db))),
     insert_image = (\<lambda>d db. (fst db, snd db @ [d])), remove_images = (\<lambda>n e v db. (fst db, filter (\<lambda>d. \<not> removed n e v d) (snd db))),
     insert_counter = (\<lambda>db. (Some (case fst db of None \<Rightarrow> 0 | Some n \<Rightarrow> n), snd db)),
     inc_counter = (\<lambda>db. case fst db of None \<Rightarrow> (0, db) | Some n \<Rightarrow> (n + 1, Some (n + 1), snd db))\<rparr>"

lemma list_store_laws: "store_laws list_store (\<lambda>db. mset (snd db)) fst"
  by (auto simp: store_laws_def list_store_def mset_filter split: option.split)

definition empty_desk :: "(nat option \<times> image_doc list) desk" where
  "empty_desk = \<lparr>store = (None, []), tasks = [], messages = [], answered = 0\<rparr>"

theorem image_numbers_unique_witness:
  "count (image_mset im_Index (mset (snd (store (requestCreateOS list_store (Str ''bob'') ''linux'' empty_desk))))) 1 \<le> 1"
proof -
  have "desk_step list_store empty_desk (requestCreateOS list_store (Str ''bob'') ''linux'' empty_desk)" by (rule desk_create)
  then have r: "(desk_step list_store)\<^sup>*\<^sup>* \<lparr>store = (None, []), tasks = [], messages = [], answered = 0\<rparr>
      (requestCreateOS list_store (Str ''bob'') ''linux'' empty_desk)" unfolding empty_desk_def by (rule r_into_rtranclp)
  show ?thesis using image_numbers_unique [OF list_store_laws _ r, of 1] by simp
qed

definition tree_env :: os_env where
  "tree_env = \<lparr>os_chdir = (\<lambda>d path. Some (if path = ''..'' then ''/srv'' else d @ ''/'' @ path)), os_fopen = (\<lambda>_ _. True),
     os_fclose = True, os_fork = True\<rparr>"

theorem image_lifecycle_witness:
  "\<exists>msg1 msg2 msg3 m1 m2 m3 list1 list2. last (messages (create_alone list_store (Str ''bob'') ''linux'' empty_desk)) = Inr msg1
    \<and> serve_disk plain_shell tree_env ''/srv'' (7 :: nat) sample_client msg1 (manager_init ''/srv'', Map.empty) =
        Inr (m1, [image_path ''bob'' ''ubuntu'' ''1'' \<mapsto> 7], [])
    \<and> requestOSList list_store (Str ''bob'') (create_alone list_store (Str ''bob'') ''linux'' empty_desk) = Some (Some list1)
    \<and> \<lparr>im_Index = 1, im_Email = Str ''bob'', im_Image = ''linux''\<rparr> \<in> set list1
    \<and> serve_disk plain_shell tree_env ''/srv'' (7 :: nat) sample_client msg2 (m1, [image_path ''bob'' ''ubuntu'' ''1'' \<mapsto> 7]) =
        Inr (m2, [image_path ''bob'' ''ubuntu'' ''1'' \<mapsto> 7], [Run_Qemu ''bob'' (image_path ''bob'' ''ubuntu'' ''1'')])
    \<and> serve_disk plain_shell tree_env ''/srv'' (7 :: nat) sample_client msg3 (m2, [image_path ''bob'' ''ubuntu'' ''1'' \<mapsto> 7]) = Inr (m3, Map.empty, [])
    \<and> requestOSList list_store (Str ''bob'') (delete_alone list_store (Str ''1'') (Str ''bob'') ''linux''
         (create_alone list_store (Str ''bob'') ''linux'' empty_desk)) = Some (Some list2)
    \<and> \<lparr>im_Index = 1, im_Email = Str ''bob'', im_Image = ''linux''\<rparr> \<notin> set list2"
proof -
  have t: "is_token ''bob''" "is_token ''10.0.0.2''" by (simp_all add: is_token_def NUL_def)
  have pl: "list_all sh_plain ''bob''" by simp
  have r: "ready ''/srv'' (manager_init ''/srv'')" by (simp add: ready_def manager_init_def)
  have e: "os_fork tree_env" "os_fclose tree_env" "os_chdir tree_env ''/srv'' ''bob'' = Some ''/srv/bob''"
    "os_chdir tree_env ''/srv/bob'' ''..'' = Some ''/srv''" "os_fopen tree_env ''/srv/bob'' ''client_data.dat''" by (simp_all add: tree_env_def)
  have k: "tasks empty_desk = []" "fst (store empty_desk) = Some 0 \<or> fst (store empty_desk) = None \<and> (0 :: nat) = 0"
    by (simp_all add: empty_desk_def)
  have d: "dec_of_nat (0 + 1) = ''1''" "int 0 + 1 = 1" by code_simp+
  have b: "(0 :: nat) + 1 < 256" "''linux'' = ''linux'' \<and> ''ubuntu'' = ''ubuntu'' \<or> ''linux'' = ''window7'' \<and> ''ubuntu'' = ''windows7''"
    "length ''bob'' \<le> 66" "length ''10.0.0.2'' \<le> 66" "(1 :: nat) < 10" by simp_all
  have z: "(Map.empty(f := None) :: nat disk) = Map.empty" for f by simp
  note l = image_lifecycle [OF list_store_laws k b(1,2) t(1) b(3) t(2) b(4) pl plain_shell_simps r e(1,2) b(5) e(3-5) refl refl refl refl,
      of "7 :: nat" sample_client Map.empty sample_client sample_client, unfolded d z]
  then show ?thesis by blast
qed

end
