(* ===== verification/Input_Keymap.thy ===== *)
theory Input_Keymap
  imports C_Library
begin

text \<open>
  Key identities, src/Qemu-2.4.1/ui/input-keymap.c.  A key is named either by a number (the scan code
  the front ends produce) or by a \<^verbatim>\<open>QKeyCode\<close>, the enumeration of qapi-schema.json.  The enumeration is
  an integer in C and a \<open>nat\<close> here: the position of the name in the schema.  The table
  \<open>qcode_to_number\<close> lists the numbers in that order, so an entry the source leaves out is 0.
\<close>

type_synonym QKeyCode = nat

datatype KeyValue = KEY_VALUE_KIND_NUMBER int | KEY_VALUE_KIND_QCODE QKeyCode

definition Q_KEY_CODE_MAX :: QKeyCode where
  "Q_KEY_CODE_MAX = 125"

definition Q_KEY_CODE_PAUSE :: QKeyCode where
  "Q_KEY_CODE_PAUSE = 122"

definition qcode_to_number :: "int list" where
  "qcode_to_number = [
     0, 0x2a, 0x36, 0x38, 0xb8, 0x64, 0xe4, 0x1d, \<comment> \<open>unmapped to ctrl\<close>
     0x9d, 0xdd, 0x01, 0x02, 0x03, 0x04, 0x05, 0x06, \<comment> \<open>ctrl_r to 5\<close>
     0x07, 0x08, 0x09, 0x0a, 0x0b, 0x0c, 0x0d, 0x0e, \<comment> \<open>6 to backspace\<close>
     0x0f, 0x10, 0x11, 0x12, 0x13, 0x14, 0x15, 0x16, \<comment> \<open>tab to u\<close>
     0x17, 0x18, 0x19, 0x1a, 0x1b, 0x1c, 0x1e, 0x1f, \<comment> \<open>i to s\<close>
     0x20, 0x21, 0x22, 0x23, 0x24, 0x25, 0x26, 0x27, \<comment> \<open>d to semicolon\<close>
     0x28, 0x29, 0x2b, 0x2c, 0x2d, 0x2e, 0x2f, 0x30, \<comment> \<open>apostrophe to b\<close>
     0x31, 0x32, 0x33, 0x34, 0x35, 0x37, 0x39, 0x3a, \<comment> \<open>n to caps_lock\<close>
     0x3b, 0x3c, 0x3d, 0x3e, 0x3f, 0x40, 0x41, 0x42, \<comment> \<open>f1 to f8\<close>
     0x43, 0x44, 0x45, 0x46, 0xb5, 0x37, 0x4a, 0x4e, \<comment> \<open>f9 to kp_add\<close>
     0x9c, 0x53, 0x54, 0x52, 0x4f, 0x50, 0x51, 0x4b, \<comment> \<open>kp_enter to kp_4\<close>
     0x4c, 0x4d, 0x47, 0x48, 0x49, 0x56, 0x57, 0x58, \<comment> \<open>kp_5 to f12\<close>
     0xb7, 0xc7, 0xc9, 0xd1, 0xcf, 0xcb, 0xc8, 0xd0, \<comment> \<open>print to down\<close>
     0xcd, 0xd2, 0xd3, 0, 0, 0, 0, 0, \<comment> \<open>right to front\<close>
     0, 0, 0, 0, 0, 0, 0, 0xdb, \<comment> \<open>copy to meta_l\<close>
     0xdc, 0, 0, 0x73, 0x7e, 0 \<comment> \<open>meta_r to kp_comma, and the end marker\<close>]"

abbreviation SCANCODE_GREY :: int where "SCANCODE_GREY \<equiv> 0x80"
abbreviation SCANCODE_EMUL0 :: int where "SCANCODE_EMUL0 \<equiv> 0xe0"
abbreviation SCANCODE_UP :: int where "SCANCODE_UP \<equiv> 0x80"

definition qemu_input_key_value_to_number :: "KeyValue \<Rightarrow> int" where
  "qemu_input_key_value_to_number value =
     (case value of KEY_VALUE_KIND_QCODE q \<Rightarrow> qcode_to_number ! q | KEY_VALUE_KIND_NUMBER n \<Rightarrow> n)"

text \<open>The table that the first call of \<^verbatim>\<open>qemu_input_key_number_to_qcode\<close> fills: a later entry with the
  same number overwrites an earlier one.\<close>

definition number_to_qcode :: "QKeyCode list" where
  "number_to_qcode =
     fold (\<lambda>qcode tab. tab[nat (qcode_to_number ! qcode) := qcode]) [0..<Q_KEY_CODE_MAX]
       (replicate 0x100 0)"

definition qemu_input_key_number_to_qcode :: "u8 \<Rightarrow> QKeyCode" where
  "qemu_input_key_number_to_qcode nr = number_to_qcode ! unat nr"

definition qemu_input_key_value_to_qcode :: "KeyValue \<Rightarrow> QKeyCode" where
  "qemu_input_key_value_to_qcode value =
     (case value of KEY_VALUE_KIND_QCODE q \<Rightarrow> q
      | KEY_VALUE_KIND_NUMBER n \<Rightarrow> qemu_input_key_number_to_qcode (word_of_int n))"

text \<open>The scan codes written to \<^verbatim>\<open>codes\<close>; the count returned is the length of the list.\<close>

definition qemu_input_key_value_to_scancode :: "KeyValue \<Rightarrow> bool \<Rightarrow> int list" where
  "qemu_input_key_value_to_scancode value down =
     (if value = KEY_VALUE_KIND_QCODE Q_KEY_CODE_PAUSE then
        let v = (if down then 0 else 0x80) in [0xe1, 0x1d OR v, 0x45 OR v]
      else
        let keycode = qemu_input_key_value_to_number value;
            (codes, keycode) = (if keycode AND SCANCODE_GREY \<noteq> 0
                                then ([SCANCODE_EMUL0], keycode AND NOT SCANCODE_GREY)
                                else ([], keycode));
            keycode = (if \<not> down then keycode OR SCANCODE_UP else keycode)
        in codes @ [keycode])"

section \<open>Properties\<close>

lemma key_tables_checked:
  "list_all (\<lambda>q. qcode_to_number ! q \<noteq> 0 \<longrightarrow>
     qcode_to_number ! (number_to_qcode ! nat (qcode_to_number ! q)) = qcode_to_number ! q)
   [0..<Q_KEY_CODE_MAX]"
  by code_simp

lemma qcode_numbers_checked:
  "length qcode_to_number = Suc Q_KEY_CODE_MAX \<and> list_all (\<lambda>n. 0 \<le> n \<and> n < 0x100) qcode_to_number"
  by code_simp

lemma qcode_number_range:
  assumes "q < Q_KEY_CODE_MAX"
  shows "0 \<le> qcode_to_number ! q" "qcode_to_number ! q < 0x100"
  using qcode_numbers_checked assms by (auto simp: list_all_length)

text \<open>
  The table built at run time inverts the static one: a number that some key code has is mapped
  to a key code with that number (key codes that share a number, such as asterisk and the keypad's
  multiply, are not told apart).
\<close>

theorem key_number_roundtrip:
  assumes "q < Q_KEY_CODE_MAX" "qcode_to_number ! q = n" "n \<noteq> 0"
  shows "qemu_input_key_value_to_number
    (KEY_VALUE_KIND_QCODE (qemu_input_key_value_to_qcode (KEY_VALUE_KIND_NUMBER n))) = n"
proof -
  have "unat (word_of_int n :: u8) = nat n"
    using qcode_number_range [OF assms(1)] assms(2)
    by (simp add: unat_eq_nat_uint uint_word_of_int)
  moreover have "qcode_to_number ! (number_to_qcode ! nat n) = n"
    using key_tables_checked assms by (auto simp: list_all_iff)
  ultimately show ?thesis
    by (simp add: qemu_input_key_value_to_number_def qemu_input_key_value_to_qcode_def
        qemu_input_key_number_to_qcode_def)
qed

theorem key_number_roundtrip_witness:
  "qemu_input_key_value_to_number
     (KEY_VALUE_KIND_QCODE (qemu_input_key_value_to_qcode (KEY_VALUE_KIND_NUMBER 0x1e))) = 0x1e"
  by (rule key_number_roundtrip [of 38]) (code_simp, code_simp, simp)

text \<open>
  The number 0, which stands for a key without a scan code, is turned into the Pause key: every
  unmapped key code has the number 0 too and the last of them wins when the table is filled.
\<close>

theorem number_zero_is_pause:
  "qemu_input_key_value_to_qcode (KEY_VALUE_KIND_NUMBER 0) = Q_KEY_CODE_PAUSE
   \<and> qcode_to_number ! Q_KEY_CODE_PAUSE = 0"
  by code_simp

text \<open>What a receiver reads off the codes of one key: the key number and the direction.\<close>

definition scancode_key :: "int list \<Rightarrow> (int \<times> bool) option" where
  "scancode_key codes =
     (case codes of
        [c] \<Rightarrow> Some (c AND 0x7f, c AND SCANCODE_UP = 0)
      | [p, c] \<Rightarrow> if p = SCANCODE_EMUL0 then Some ((c AND 0x7f) OR SCANCODE_GREY, c AND SCANCODE_UP = 0)
                 else None
      | _ \<Rightarrow> None)"

lemma scancode_key_checked:
  "list_all (\<lambda>n. scancode_key (qemu_input_key_value_to_scancode (KEY_VALUE_KIND_NUMBER n) True) = Some (n, True)
     \<and> scancode_key (qemu_input_key_value_to_scancode (KEY_VALUE_KIND_NUMBER n) False) = Some (n, False)
     \<and> list_all (\<lambda>c. 0 \<le> c \<and> c < 0x100) (qemu_input_key_value_to_scancode (KEY_VALUE_KIND_NUMBER n) True
        @ qemu_input_key_value_to_scancode (KEY_VALUE_KIND_NUMBER n) False))
   [0..0xff]"
  by code_simp

text \<open>
  For every key number below 256 the scan codes are bytes that determine the key and whether it
  went down or up, so no two key events are sent alike.
\<close>

theorem scancode_roundtrip:
  assumes "0 \<le> n" "n < 0x100"
  shows "scancode_key (qemu_input_key_value_to_scancode (KEY_VALUE_KIND_NUMBER n) down) = Some (n, down)
    \<and> list_all (\<lambda>c. 0 \<le> c \<and> c < 0x100) (qemu_input_key_value_to_scancode (KEY_VALUE_KIND_NUMBER n) down)"
proof -
  have "n \<in> set [0..0xff]" using assms by simp
  from bspec [OF scancode_key_checked [unfolded list_all_iff [of _ "[0..0xff]"]] this]
  show ?thesis by (cases down) simp_all
qed

theorem scancode_roundtrip_witness:
  "scancode_key (qemu_input_key_value_to_scancode (KEY_VALUE_KIND_NUMBER 0xc8) False) = Some (0xc8, False)"
  using scancode_roundtrip [of 200 False] by simp

end
