(* ===== verification/Input_Core.thy ===== *)
theory Input_Core
  imports Input_Keymap
begin

text \<open>
  The input layer, src/Qemu-2.4.1/ui/input.c: the list of input devices, the routing of an event to
  the device that takes it, the queue of delayed key events, and the helpers the front ends call.
  The state of the devices is a type parameter \<open>'d\<close>; a handler is a pair of functions on it (the
  \<^verbatim>\<open>dev\<close> pointer is applied already).  Handlers are told apart by their \<open>id\<close>.  A console is a number.
\<close>

datatype InputButton = INPUT_BUTTON_LEFT | INPUT_BUTTON_MIDDLE | INPUT_BUTTON_RIGHT
  | INPUT_BUTTON_WHEEL_UP | INPUT_BUTTON_WHEEL_DOWN

datatype InputAxis = INPUT_AXIS_X | INPUT_AXIS_Y

datatype InputEvent =
    INPUT_EVENT_KIND_KEY KeyValue bool
  | INPUT_EVENT_KIND_BTN InputButton bool
  | INPUT_EVENT_KIND_REL InputAxis int
  | INPUT_EVENT_KIND_ABS InputAxis int

fun event_kind :: "InputEvent \<Rightarrow> nat" where
  "event_kind (INPUT_EVENT_KIND_KEY _ _) = 0"
| "event_kind (INPUT_EVENT_KIND_BTN _ _) = 1"
| "event_kind (INPUT_EVENT_KIND_REL _ _) = 2"
| "event_kind (INPUT_EVENT_KIND_ABS _ _) = 3"

abbreviation INPUT_EVENT_MASK_KEY :: u32 where "INPUT_EVENT_MASK_KEY \<equiv> push_bit 0 1"
abbreviation INPUT_EVENT_MASK_BTN :: u32 where "INPUT_EVENT_MASK_BTN \<equiv> push_bit 1 1"
abbreviation INPUT_EVENT_MASK_REL :: u32 where "INPUT_EVENT_MASK_REL \<equiv> push_bit 2 1"
abbreviation INPUT_EVENT_MASK_ABS :: u32 where "INPUT_EVENT_MASK_ABS \<equiv> push_bit 3 1"
abbreviation INPUT_EVENT_ABS_SIZE :: int where "INPUT_EVENT_ABS_SIZE \<equiv> 0x8000"

type_synonym console = nat

record 'd QemuInputHandler =
  h_name :: string
  h_mask :: u32
  h_event :: "console option \<Rightarrow> InputEvent \<Rightarrow> 'd \<Rightarrow> 'd"
  h_sync :: "('d \<Rightarrow> 'd) option"

record 'd QemuInputHandlerState =
  handler :: "'d QemuInputHandler"
  h_id :: int
  h_events :: int
  h_con :: "console option"

datatype QemuInputEventQueue =
    QEMU_INPUT_QUEUE_DELAY u32
  | QEMU_INPUT_QUEUE_EVENT "console option" InputEvent
  | QEMU_INPUT_QUEUE_SYNC

text \<open>
  The file's static variables, the devices behind the handlers, and the globals of other files it
  reads: whether the run state is running or suspended, \<^verbatim>\<open>graphic_rotate\<close> and the virtual clock in
  milliseconds.  \<open>kbd_timer\<close> is \<open>None\<close> before \<^verbatim>\<open>timer_new_ms\<close>, then holds the deadline if the timer is
  pending.  A notifier gets the mode it would ask for.
\<close>

record 'd input =
  handlers :: "'d QemuInputHandlerState list"
  next_id :: int
  mouse_mode_notifiers :: "(nat \<times> (bool \<Rightarrow> 'd \<Rightarrow> 'd)) list"
  current_is_absolute :: bool
  kbd_queue :: "QemuInputEventQueue list"
  kbd_timer :: "int option option"
  devs :: 'd
  accepting :: bool
  graphic_rotate :: int
  clock_ms :: int

subsection \<open>Choosing a handler\<close>

definition takes :: "u32 \<Rightarrow> 'd QemuInputHandlerState \<Rightarrow> bool" where
  "takes m s \<longleftrightarrow> m AND h_mask (handler s) \<noteq> 0"

definition qemu_input_find_handler ::
  "u32 \<Rightarrow> console option \<Rightarrow> 'd input \<Rightarrow> 'd QemuInputHandlerState option" where
  "qemu_input_find_handler m con st =
     (case find (\<lambda>s. \<not> (h_con s = None \<or> h_con s \<noteq> con) \<and> takes m s) (handlers st) of
        Some s \<Rightarrow> Some s
      | None \<Rightarrow> find (\<lambda>s. \<not> (h_con s \<noteq> None) \<and> takes m s) (handlers st))"

definition qemu_input_is_absolute :: "'d input \<Rightarrow> bool" where
  "qemu_input_is_absolute st =
     (case qemu_input_find_handler (INPUT_EVENT_MASK_REL OR INPUT_EVENT_MASK_ABS) None st of
        None \<Rightarrow> False | Some s \<Rightarrow> h_mask (handler s) AND INPUT_EVENT_MASK_ABS \<noteq> 0)"

definition notifier_list_notify :: "bool \<Rightarrow> 'd input \<Rightarrow> 'd input" where
  "notifier_list_notify absolute st =
     st\<lparr>devs := fold (\<lambda>n. snd n absolute) (mouse_mode_notifiers st) (devs st)\<rparr>"

definition qemu_input_check_mode_change :: "'d input \<Rightarrow> 'd input" where
  "qemu_input_check_mode_change st =
     (let is_absolute = qemu_input_is_absolute st;
          st1 = (if is_absolute \<noteq> current_is_absolute st then notifier_list_notify is_absolute st else st)
      in st1\<lparr>current_is_absolute := is_absolute\<rparr>)"

definition qemu_add_mouse_mode_change_notifier :: "nat \<Rightarrow> (bool \<Rightarrow> 'd \<Rightarrow> 'd) \<Rightarrow> 'd input \<Rightarrow> 'd input" where
  "qemu_add_mouse_mode_change_notifier n f st =
     st\<lparr>mouse_mode_notifiers := (n, f) # mouse_mode_notifiers st\<rparr>"

definition qemu_remove_mouse_mode_change_notifier :: "nat \<Rightarrow> 'd input \<Rightarrow> 'd input" where
  "qemu_remove_mouse_mode_change_notifier n st =
     st\<lparr>mouse_mode_notifiers := filter (\<lambda>p. fst p \<noteq> n) (mouse_mode_notifiers st)\<rparr>"

subsection \<open>The list of handlers\<close>

definition qemu_input_handler_register :: "'d QemuInputHandler \<Rightarrow> 'd input \<Rightarrow> int \<times> 'd input" where
  "qemu_input_handler_register h st =
     (let s = \<lparr>handler = h, h_id = next_id st, h_events = 0, h_con = None\<rparr>
      in (next_id st, qemu_input_check_mode_change
            (st\<lparr>next_id := next_id st + 1, handlers := handlers st @ [s]\<rparr>)))"

text \<open>The element with an id, as a list of at most one (\<^verbatim>\<open>QTAILQ_REMOVE\<close> and insertion elsewhere).\<close>

definition with_id :: "int \<Rightarrow> 'd QemuInputHandlerState list \<Rightarrow> 'd QemuInputHandlerState list" where
  "with_id i hs = filter (\<lambda>s. h_id s = i) hs"

definition without_id :: "int \<Rightarrow> 'd QemuInputHandlerState list \<Rightarrow> 'd QemuInputHandlerState list" where
  "without_id i hs = filter (\<lambda>s. h_id s \<noteq> i) hs"

definition qemu_input_handler_activate :: "int \<Rightarrow> 'd input \<Rightarrow> 'd input" where
  "qemu_input_handler_activate i st =
     qemu_input_check_mode_change
       (st\<lparr>handlers := with_id i (handlers st) @ without_id i (handlers st)\<rparr>)"

definition qemu_input_handler_deactivate :: "int \<Rightarrow> 'd input \<Rightarrow> 'd input" where
  "qemu_input_handler_deactivate i st =
     qemu_input_check_mode_change
       (st\<lparr>handlers := without_id i (handlers st) @ with_id i (handlers st)\<rparr>)"

definition qemu_input_handler_unregister :: "int \<Rightarrow> 'd input \<Rightarrow> 'd input" where
  "qemu_input_handler_unregister i st =
     qemu_input_check_mode_change (st\<lparr>handlers := without_id i (handlers st)\<rparr>)"

text \<open>The lookups of a device by its id and of the console of a device are parameters.\<close>

datatype bind_error = DeviceNotFound string | NotBound string

definition qemu_input_handler_bind ::
  "(string \<Rightarrow> 'v option) \<Rightarrow> ('v \<Rightarrow> int \<Rightarrow> console option) \<Rightarrow> int \<Rightarrow> string \<Rightarrow> int
   \<Rightarrow> 'd input \<Rightarrow> bind_error + 'd input" where
  "qemu_input_handler_bind qdev_find qemu_console_lookup_by_device i device_id head st =
     (case qdev_find device_id of
        None \<Rightarrow> Inl (DeviceNotFound device_id)
      | Some dev \<Rightarrow>
          (case qemu_console_lookup_by_device dev head of
             None \<Rightarrow> Inl (NotBound device_id)
           | Some con \<Rightarrow> Inr (st\<lparr>handlers :=
               map (\<lambda>s. if h_id s = i then s\<lparr>h_con := Some con\<rparr> else s) (handlers st)\<rparr>)))"

subsection \<open>Delivering events\<close>

fun qemu_input_transform_abs_rotate :: "int \<Rightarrow> InputEvent \<Rightarrow> InputEvent" where
  "qemu_input_transform_abs_rotate rot (INPUT_EVENT_KIND_ABS axis val) =
     (let flipped = INPUT_EVENT_ABS_SIZE - 1 - val
      in if rot = 90 then
           (if axis = INPUT_AXIS_X then INPUT_EVENT_KIND_ABS INPUT_AXIS_Y val
            else INPUT_EVENT_KIND_ABS INPUT_AXIS_X flipped)
         else if rot = 180 then INPUT_EVENT_KIND_ABS axis flipped
         else if rot = 270 then
           (if axis = INPUT_AXIS_X then INPUT_EVENT_KIND_ABS INPUT_AXIS_Y flipped
            else INPUT_EVENT_KIND_ABS INPUT_AXIS_X val)
         else INPUT_EVENT_KIND_ABS axis val)"
| "qemu_input_transform_abs_rotate rot evt = evt"

definition qemu_input_event_send :: "console option \<Rightarrow> InputEvent \<Rightarrow> 'd input \<Rightarrow> 'd input" where
  "qemu_input_event_send src evt st =
     (if \<not> accepting st then st
      else
        let evt = (if graphic_rotate st \<noteq> 0 \<and> event_kind evt = 3
                   then qemu_input_transform_abs_rotate (graphic_rotate st) evt else evt)
        in case qemu_input_find_handler (push_bit (event_kind evt) 1) src st of
             None \<Rightarrow> st
           | Some s \<Rightarrow>
               st\<lparr>devs := h_event (handler s) src evt (devs st),
                  handlers := map (\<lambda>t. if h_id t = h_id s then t\<lparr>h_events := h_events t + 1\<rparr> else t)
                    (handlers st)\<rparr>)"

definition sync_handler :: "'d QemuInputHandlerState \<Rightarrow> 'd \<Rightarrow> 'd" where
  "sync_handler s d =
     (if h_events s = 0 then d else case h_sync (handler s) of Some f \<Rightarrow> f d | None \<Rightarrow> d)"

definition qemu_input_event_sync :: "'d input \<Rightarrow> 'd input" where
  "qemu_input_event_sync st =
     (if \<not> accepting st then st
      else st\<lparr>devs := fold sync_handler (handlers st) (devs st),
              handlers := map (\<lambda>s. s\<lparr>h_events := 0\<rparr>) (handlers st)\<rparr>)"

datatype send_error = ConsoleNotFound int | VMNotRunning | HandlerNotFound nat

text \<open>\<^verbatim>\<open>qmp_x_input_send_event\<close>: nothing is sent unless every event has a handler.\<close>

definition qmp_x_input_send_event ::
  "(int \<Rightarrow> console option) \<Rightarrow> int option \<Rightarrow> InputEvent list \<Rightarrow> 'd input \<Rightarrow> send_error + 'd input" where
  "qmp_x_input_send_event qemu_console_lookup_by_index console events st =
     (case (case console of None \<Rightarrow> Inr None
            | Some c \<Rightarrow> (case qemu_console_lookup_by_index c of
                         None \<Rightarrow> Inl (ConsoleNotFound c) | Some con \<Rightarrow> Inr (Some con))) of
        Inl e \<Rightarrow> Inl e
      | Inr con \<Rightarrow>
          if \<not> accepting st then Inl VMNotRunning
          else case find (\<lambda>e. qemu_input_find_handler (push_bit (event_kind e) 1) con st = None) events of
                 Some e \<Rightarrow> Inl (HandlerNotFound (event_kind e))
               | None \<Rightarrow> Inr (qemu_input_event_sync (fold (qemu_input_event_send con) events st)))"

subsection \<open>The queue of delayed key events\<close>

text \<open>\<open>process_loop\<close> is the \<^verbatim>\<open>while\<close> loop of \<^verbatim>\<open>qemu_input_queue_process\<close>; its list is the queue while the
  loop runs, which neither \<^verbatim>\<open>qemu_input_event_send\<close> nor \<^verbatim>\<open>qemu_input_event_sync\<close> look at.\<close>

fun process_loop :: "QemuInputEventQueue list \<Rightarrow> 'd input \<Rightarrow> 'd input" where
  "process_loop [] st = st\<lparr>kbd_queue := []\<rparr>"
| "process_loop (QEMU_INPUT_QUEUE_DELAY ms # q) st =
     st\<lparr>kbd_queue := QEMU_INPUT_QUEUE_DELAY ms # q, kbd_timer := Some (Some (clock_ms st + uint ms))\<rparr>"
| "process_loop (QEMU_INPUT_QUEUE_EVENT src evt # q) st = process_loop q (qemu_input_event_send src evt st)"
| "process_loop (QEMU_INPUT_QUEUE_SYNC # q) st = process_loop q (qemu_input_event_sync st)"

definition qemu_input_queue_process :: "'d input \<Rightarrow> c_fault + 'd input" where
  "qemu_input_queue_process st =
     (case kbd_queue st of
        QEMU_INPUT_QUEUE_DELAY _ # q \<Rightarrow> Inr (process_loop q st)
      | _ \<Rightarrow> Inl Assertion_Failed)"

definition qemu_input_queue_delay :: "u32 \<Rightarrow> 'd input \<Rightarrow> 'd input" where
  "qemu_input_queue_delay ms st =
     (let start_timer = (kbd_queue st = []);
          st1 = st\<lparr>kbd_queue := kbd_queue st @ [QEMU_INPUT_QUEUE_DELAY ms]\<rparr>
      in if start_timer then st1\<lparr>kbd_timer := Some (Some (clock_ms st + uint ms))\<rparr> else st1)"

definition qemu_input_queue_event :: "console option \<Rightarrow> InputEvent \<Rightarrow> 'd input \<Rightarrow> 'd input" where
  "qemu_input_queue_event src evt st = st\<lparr>kbd_queue := kbd_queue st @ [QEMU_INPUT_QUEUE_EVENT src evt]\<rparr>"

definition qemu_input_queue_sync :: "'d input \<Rightarrow> 'd input" where
  "qemu_input_queue_sync st = st\<lparr>kbd_queue := kbd_queue st @ [QEMU_INPUT_QUEUE_SYNC]\<rparr>"

definition qemu_input_event_new_key :: "KeyValue \<Rightarrow> bool \<Rightarrow> InputEvent" where
  "qemu_input_event_new_key key down = INPUT_EVENT_KIND_KEY key down"

definition qemu_input_event_send_key :: "console option \<Rightarrow> KeyValue \<Rightarrow> bool \<Rightarrow> 'd input \<Rightarrow> 'd input" where
  "qemu_input_event_send_key src key down st =
     (let evt = qemu_input_event_new_key key down
      in if kbd_queue st = [] then qemu_input_event_sync (qemu_input_event_send src evt st)
         else qemu_input_queue_sync (qemu_input_queue_event src evt st))"

definition qemu_input_event_send_key_number :: "console option \<Rightarrow> int \<Rightarrow> bool \<Rightarrow> 'd input \<Rightarrow> 'd input" where
  "qemu_input_event_send_key_number src num = qemu_input_event_send_key src (KEY_VALUE_KIND_NUMBER num)"

definition qemu_input_event_send_key_qcode :: "console option \<Rightarrow> QKeyCode \<Rightarrow> bool \<Rightarrow> 'd input \<Rightarrow> 'd input" where
  "qemu_input_event_send_key_qcode src q = qemu_input_event_send_key src (KEY_VALUE_KIND_QCODE q)"

abbreviation kbd_default_delay_ms :: u32 where "kbd_default_delay_ms \<equiv> 10"

definition qemu_input_event_send_key_delay :: "u32 \<Rightarrow> 'd input \<Rightarrow> 'd input" where
  "qemu_input_event_send_key_delay delay_ms st =
     (let st1 = (if kbd_timer st = None then st\<lparr>kbd_timer := Some None\<rparr> else st)
      in qemu_input_queue_delay (if delay_ms \<noteq> 0 then delay_ms else kbd_default_delay_ms) st1)"

subsection \<open>Buttons and pointers\<close>

definition qemu_input_queue_btn :: "console option \<Rightarrow> InputButton \<Rightarrow> bool \<Rightarrow> 'd input \<Rightarrow> 'd input" where
  "qemu_input_queue_btn src btn down = qemu_input_event_send src (INPUT_EVENT_KIND_BTN btn down)"

definition InputButton_all :: "InputButton list" where
  "InputButton_all = [INPUT_BUTTON_LEFT, INPUT_BUTTON_MIDDLE, INPUT_BUTTON_RIGHT,
     INPUT_BUTTON_WHEEL_UP, INPUT_BUTTON_WHEEL_DOWN]"

definition qemu_input_update_buttons ::
  "console option \<Rightarrow> (InputButton \<Rightarrow> u32) \<Rightarrow> u32 \<Rightarrow> u32 \<Rightarrow> 'd input \<Rightarrow> 'd input" where
  "qemu_input_update_buttons src button_map button_old button_new st =
     fold (\<lambda>btn st. let m = button_map btn
                    in if button_old AND m = button_new AND m then st
                       else qemu_input_queue_btn src btn (button_new AND m \<noteq> 0) st)
       InputButton_all st"

text \<open>C's division rounds towards zero.\<close>

definition qemu_input_scale_axis :: "int \<Rightarrow> int \<Rightarrow> int \<Rightarrow> int" where
  "qemu_input_scale_axis val size_in size_out =
     (if size_in < 2 then c_div size_out 2 else c_div (val * (size_out - 1)) (size_in - 1))"

definition qemu_input_queue_rel :: "console option \<Rightarrow> InputAxis \<Rightarrow> int \<Rightarrow> 'd input \<Rightarrow> 'd input" where
  "qemu_input_queue_rel src axis val = qemu_input_event_send src (INPUT_EVENT_KIND_REL axis val)"

definition qemu_input_queue_abs :: "console option \<Rightarrow> InputAxis \<Rightarrow> int \<Rightarrow> int \<Rightarrow> 'd input \<Rightarrow> 'd input" where
  "qemu_input_queue_abs src axis val sz =
     qemu_input_event_send src
       (INPUT_EVENT_KIND_ABS axis (qemu_input_scale_axis val sz INPUT_EVENT_ABS_SIZE))"

subsection \<open>The monitor's view of the mice\<close>

record MouseInfo =
  mi_index :: int
  mi_name :: string
  mi_absolute :: bool
  mi_current :: bool

definition is_mouse :: "'d QemuInputHandlerState \<Rightarrow> bool" where
  "is_mouse s \<longleftrightarrow> h_mask (handler s) AND (INPUT_EVENT_MASK_REL OR INPUT_EVENT_MASK_ABS) \<noteq> 0"

definition qmp_query_mice :: "'d input \<Rightarrow> MouseInfo list" where
  "qmp_query_mice st =
     snd (fold (\<lambda>s (current, mice).
       if \<not> is_mouse s then (current, mice)
       else (False, \<lparr>mi_index = h_id s, mi_name = h_name (handler s),
                     mi_absolute = h_mask (handler s) AND INPUT_EVENT_MASK_ABS \<noteq> 0,
                     mi_current = current\<rparr> # mice))
       (handlers st) (True, []))"

datatype mouse_set_error = NotAMouse string | MouseNotFound int

definition hmp_mouse_set :: "int \<Rightarrow> 'd input \<Rightarrow> mouse_set_error option \<times> 'd input" where
  "hmp_mouse_set index st =
     (case find (\<lambda>s. h_id s = index) (handlers st) of
        None \<Rightarrow> (Some (MouseNotFound index), qemu_input_check_mode_change st)
      | Some s \<Rightarrow>
          if \<not> is_mouse s then (Some (NotAMouse (h_name (handler s))), st)
          else (None, qemu_input_check_mode_change (qemu_input_handler_activate (h_id s) st)))"

section \<open>Delayed keys keep their order\<close>

text \<open>The input layer without its queue, and everything that is pending delivered at once.\<close>

definition core :: "'d input \<Rightarrow> 'd input" where
  "core st = st\<lparr>kbd_queue := [], kbd_timer := None\<rparr>"

fun run_items :: "QemuInputEventQueue list \<Rightarrow> 'd input \<Rightarrow> 'd input" where
  "run_items [] st = st"
| "run_items (QEMU_INPUT_QUEUE_DELAY _ # q) st = run_items q st"
| "run_items (QEMU_INPUT_QUEUE_EVENT src evt # q) st = run_items q (qemu_input_event_send src evt st)"
| "run_items (QEMU_INPUT_QUEUE_SYNC # q) st = run_items q (qemu_input_event_sync st)"

definition flush :: "'d input \<Rightarrow> 'd input" where
  "flush st = run_items (kbd_queue st) (core st)"

lemma run_items_append [simp]: "run_items (p @ q) st = run_items q (run_items p st)"
  by (induction p st rule: run_items.induct) simp_all

lemma send_queue [simp]:
  "kbd_queue (qemu_input_event_send src evt st) = kbd_queue st"
  "kbd_timer (qemu_input_event_send src evt st) = kbd_timer st"
  "kbd_queue (qemu_input_event_sync st) = kbd_queue st"
  "kbd_timer (qemu_input_event_sync st) = kbd_timer st"
  by (simp_all add: qemu_input_event_send_def qemu_input_event_sync_def Let_def split: option.split)

lemma find_handler_core [simp]: "qemu_input_find_handler m con (core st) = qemu_input_find_handler m con st"
  unfolding qemu_input_find_handler_def core_def by (simp split: option.split)

lemma send_core: "core (qemu_input_event_send src evt st) = qemu_input_event_send src evt (core st)"
  and sync_core: "core (qemu_input_event_sync st) = qemu_input_event_sync (core st)"
proof -
  show "core (qemu_input_event_send src evt st) = qemu_input_event_send src evt (core st)"
    unfolding qemu_input_event_send_def find_handler_core Let_def
    by (simp add: core_def split: option.split)
qed (simp add: qemu_input_event_sync_def core_def)

lemma core_idem [simp]: "core (st\<lparr>kbd_queue := q\<rparr>) = core st" "core (st\<lparr>kbd_timer := t\<rparr>) = core st"
  by (simp_all add: core_def)

lemma flush_process_loop: "flush (process_loop q st) = run_items q (core st)"
  by (induction q st rule: process_loop.induct) (simp_all add: flush_def send_core sync_core)

lemma flush_delay: "flush (qemu_input_event_send_key_delay ms st) = flush st"
  by (simp add: flush_def qemu_input_event_send_key_delay_def qemu_input_queue_delay_def Let_def)

lemma flush_send_key:
  "flush (qemu_input_event_send_key src key down st) =
     qemu_input_event_sync (qemu_input_event_send src (INPUT_EVENT_KIND_KEY key down) (flush st))"
  by (simp add: flush_def qemu_input_event_send_key_def qemu_input_event_new_key_def
      qemu_input_queue_sync_def qemu_input_queue_event_def Let_def send_core sync_core)

lemma flush_process: "qemu_input_queue_process st = Inr st' \<Longrightarrow> flush st' = flush st"
  by (auto simp: qemu_input_queue_process_def flush_process_loop flush_def [of st]
      split: list.splits QemuInputEventQueue.splits)

section \<open>The timer of the queue\<close>

definition timer_ok :: "'d input \<Rightarrow> bool" where
  "timer_ok st \<longleftrightarrow>
     (case kbd_queue st of
        [] \<Rightarrow> (\<forall>t. kbd_timer st \<noteq> Some (Some t))
      | QEMU_INPUT_QUEUE_DELAY _ # _ \<Rightarrow> (\<exists>t. kbd_timer st = Some (Some t))
      | _ \<Rightarrow> False)"

text \<open>What happens to the queue: keys and delays are sent, the timer expires (it is then no longer
  pending and its callback runs), and anything else that leaves queue and timer alone.\<close>

inductive input_reach :: "'d input \<Rightarrow> c_fault + 'd input \<Rightarrow> bool" for st0 where
  reach_start: "input_reach st0 (Inr st0)"
| reach_key: "input_reach st0 (Inr st) \<Longrightarrow> input_reach st0 (Inr (qemu_input_event_send_key src key down st))"
| reach_delay: "input_reach st0 (Inr st) \<Longrightarrow> input_reach st0 (Inr (qemu_input_event_send_key_delay ms st))"
| reach_expire: "input_reach st0 (Inr st) \<Longrightarrow> kbd_timer st = Some (Some t) \<Longrightarrow> t \<le> clock_ms st
    \<Longrightarrow> input_reach st0 (qemu_input_queue_process (st\<lparr>kbd_timer := Some None\<rparr>))"
| reach_other: "input_reach st0 (Inr st) \<Longrightarrow> kbd_queue st' = kbd_queue st \<Longrightarrow> kbd_timer st' = kbd_timer st
    \<Longrightarrow> input_reach st0 (Inr st')"

inductive_cases input_reachE: "input_reach st0 r"

lemma timer_ok_process_loop:
  "(\<forall>t. kbd_timer st \<noteq> Some (Some t)) \<Longrightarrow> timer_ok (process_loop q st)"
  by (induction q st rule: process_loop.induct) (simp_all add: timer_ok_def)

lemma timer_ok_reach: "input_reach st0 r \<Longrightarrow> timer_ok st0 \<Longrightarrow> \<exists>st. r = Inr st \<and> timer_ok st"
proof (induction rule: input_reach.induct)
  case (reach_key st src key down)
  then show ?case
    by (auto simp: timer_ok_def qemu_input_event_send_key_def Let_def qemu_input_queue_sync_def
        qemu_input_queue_event_def split: list.splits QemuInputEventQueue.splits)
next
  case (reach_delay st ms)
  then show ?case
    by (auto simp: timer_ok_def qemu_input_event_send_key_delay_def Let_def qemu_input_queue_delay_def
        split: list.splits QemuInputEventQueue.splits)
next
  case (reach_expire st t)
  then have "\<exists>ms q. kbd_queue st = QEMU_INPUT_QUEUE_DELAY ms # q"
    by (auto simp: timer_ok_def split: list.splits QemuInputEventQueue.splits)
  then show ?case by (auto simp: qemu_input_queue_process_def timer_ok_process_loop)
qed (auto simp: timer_ok_def split: list.splits QemuInputEventQueue.splits)

section \<open>Properties\<close>

text \<open>An input layer whose single keyboard handler records the key events it gets.\<close>

definition recorder :: "(InputEvent list) input" where
  "recorder = \<lparr>handlers = [\<lparr>handler = \<lparr>h_name = ''recorder'', h_mask = INPUT_EVENT_MASK_KEY,
       h_event = (\<lambda>_ evt d. d @ [evt]), h_sync = None\<rparr>, h_id = 1, h_events = 0, h_con = None\<rparr>],
     next_id = 2, mouse_mode_notifiers = [], current_is_absolute = False, kbd_queue = [],
     kbd_timer = None, devs = [], accepting = True, graphic_rotate = 0, clock_ms = 0\<rparr>"

text \<open>
  C7. The delay queue never reorders, drops or duplicates keys: compared by what the devices will
  have seen once everything pending is delivered, sending a key delivers it after all keys sent
  before, and neither inserting a delay nor running the timer callback changes anything.
\<close>

theorem kbd_queue_refines_direct_delivery:
  "flush (qemu_input_event_send_key src key down st) =
     qemu_input_event_sync (qemu_input_event_send src (INPUT_EVENT_KIND_KEY key down) (flush st))
   \<and> flush (qemu_input_event_send_key_delay ms st) = flush st
   \<and> (qemu_input_queue_process st = Inr st' \<longrightarrow> flush st' = flush st)"
  using flush_send_key flush_delay flush_process by blast

theorem kbd_queue_refines_direct_delivery_witness:
  "let st = qemu_input_event_send_key_number None 30 True (qemu_input_event_send_key_delay 5 recorder)
   in devs st = [] \<and> devs (flush (projr (qemu_input_queue_process st))) = devs (flush st)"
proof -
  let ?st = "qemu_input_event_send_key_number None 30 True (qemu_input_event_send_key_delay 5 recorder)"
  have "qemu_input_queue_process ?st = Inr (projr (qemu_input_queue_process ?st))"
    by (simp add: recorder_def qemu_input_event_send_key_delay_def qemu_input_queue_delay_def Let_def
        qemu_input_event_send_key_number_def qemu_input_event_send_key_def qemu_input_queue_sync_def
        qemu_input_queue_event_def qemu_input_queue_process_def)
  then have "flush (projr (qemu_input_queue_process ?st)) = flush ?st"
    using kbd_queue_refines_direct_delivery [where st = ?st and st' = "projr (qemu_input_queue_process ?st)"]
    by blast
  then show ?thesis
    by (simp add: recorder_def qemu_input_event_send_key_delay_def qemu_input_queue_delay_def Let_def
        qemu_input_event_send_key_number_def qemu_input_event_send_key_def qemu_input_queue_sync_def
        qemu_input_queue_event_def)
qed

text \<open>
  The assertions of \<^verbatim>\<open>qemu_input_queue_process\<close> never fail, and keys are never stuck: the timer is
  pending exactly while the queue is non-empty, whose first item is then a delay.
\<close>

theorem kbd_timer_pending_iff_queued:
  assumes "input_reach st0 r" "kbd_queue st0 = []" "kbd_timer st0 = None"
  shows "\<exists>st. r = Inr st \<and> ((\<exists>t. kbd_timer st = Some (Some t)) \<longleftrightarrow> kbd_queue st \<noteq> [])
    \<and> (kbd_queue st = [] \<or> (\<exists>ms. hd (kbd_queue st) = QEMU_INPUT_QUEUE_DELAY ms))"
proof -
  have "timer_ok st0" using assms(2,3) by (simp add: timer_ok_def)
  from timer_ok_reach [OF assms(1) this] obtain st where "r = Inr st" "timer_ok st" by blast
  then show ?thesis
    by (intro exI [of _ st]) (auto simp: timer_ok_def split: list.splits QemuInputEventQueue.splits)
qed

theorem kbd_timer_pending_iff_queued_witness:
  "\<exists>st. Inr (qemu_input_event_send_key_delay 5 recorder) = (Inr st :: c_fault + InputEvent list input)
    \<and> ((\<exists>t. kbd_timer st = Some (Some t)) \<longleftrightarrow> kbd_queue st \<noteq> [])
    \<and> (kbd_queue st = [] \<or> (\<exists>ms. hd (kbd_queue st) = QEMU_INPUT_QUEUE_DELAY ms))"
  by (rule kbd_timer_pending_iff_queued [OF reach_delay [OF reach_start]]) (simp_all add: recorder_def)

text \<open>
  An event goes to the first handler that takes it among those bound to its console, and only if
  there is none to the first among those bound to no console; a handler bound to another console never
  gets it.
\<close>

theorem find_handler_correct:
  "qemu_input_find_handler m con st = Some s \<longleftrightarrow>
     (\<exists>before after. handlers st = before @ s # after \<and> takes m s \<and>
        (if h_con s = None then (\<nexists>t. t \<in> set before \<and> h_con t = None \<and> takes m t)
            \<and> (\<nexists>t. t \<in> set (handlers st) \<and> h_con t \<noteq> None \<and> h_con t = con \<and> takes m t)
         else h_con s = con \<and> (\<nexists>t. t \<in> set before \<and> h_con t = con \<and> takes m t)))"
proof -
  let ?B = "\<lambda>s. \<not> (h_con s = None \<or> h_con s \<noteq> con) \<and> takes m s"
  show ?thesis
  proof (cases "find ?B (handlers st)")
    case None
    then have none: "\<nexists>t. t \<in> set (handlers st) \<and> h_con t \<noteq> None \<and> h_con t = con \<and> takes m t"
      by (auto simp: find_None_iff)
    show ?thesis unfolding qemu_input_find_handler_def None option.case find_first_iff
      by (intro iff_exI) (use none in auto)
  next
    case (Some u)
    then have u: "u \<in> set (handlers st)" "?B u" by (auto simp: find_Some_iff)
    show ?thesis unfolding qemu_input_find_handler_def Some option.case
      unfolding Some [symmetric] find_first_iff by (intro iff_exI) (use u in auto)
  qed
qed

text \<open>
  A front end that reports its button state sends one event per button whose state changed, in
  the order of the enumeration, and nothing for the others.
\<close>

theorem update_buttons_sends_changes:
  "qemu_input_update_buttons src button_map old new st =
     fold (\<lambda>btn. qemu_input_event_send src (INPUT_EVENT_KIND_BTN btn (new AND button_map btn \<noteq> 0)))
       (filter (\<lambda>btn. old AND button_map btn \<noteq> new AND button_map btn) InputButton_all) st"
proof -
  let ?send = "\<lambda>btn. qemu_input_event_send src (INPUT_EVENT_KIND_BTN btn (new AND button_map btn \<noteq> 0))"
  have "fold (\<lambda>b st. let m = button_map b in if old AND m = new AND m then st
          else qemu_input_queue_btn src b (new AND m \<noteq> 0) st) bs st
      = fold ?send (filter (\<lambda>b. old AND button_map b \<noteq> new AND button_map b) bs) st" for bs
    by (induction bs arbitrary: st) (auto simp: Let_def qemu_input_queue_btn_def)
  then show ?thesis unfolding qemu_input_update_buttons_def .
qed

lemma scale_axis_div:
  "2 \<le> size_in \<Longrightarrow> 0 \<le> v \<Longrightarrow> 1 \<le> size_out \<Longrightarrow>
   qemu_input_scale_axis v size_in size_out = v * (size_out - 1) div (size_in - 1)"
  by (simp add: qemu_input_scale_axis_def c_div_nonneg)

text \<open>
  Scaling a coordinate of a window to the range of the tablet keeps it in range, keeps the order
  of coordinates, and maps the first and the last pixel to the ends of the range.
\<close>

theorem scale_axis_bounds:
  assumes "2 \<le> size_in" "1 \<le> size_out" "0 \<le> u" "u \<le> v" "v < size_in"
  shows "0 \<le> qemu_input_scale_axis u size_in size_out
    \<and> qemu_input_scale_axis u size_in size_out \<le> qemu_input_scale_axis v size_in size_out
    \<and> qemu_input_scale_axis v size_in size_out \<le> size_out - 1
    \<and> qemu_input_scale_axis 0 size_in size_out = 0
    \<and> qemu_input_scale_axis (size_in - 1) size_in size_out = size_out - 1"
proof -
  have mono: "a * (size_out - 1) div (size_in - 1) \<le> b * (size_out - 1) div (size_in - 1)" if "a \<le> b" for a b
    using that assms by (intro zdiv_mono1 mult_right_mono) auto
  have top: "(size_in - 1) * (size_out - 1) div (size_in - 1) = size_out - 1" using assms(1) by simp
  show ?thesis
    using mono [of u v] mono [of v "size_in - 1"] mono [of 0 u] assms top
    by (simp add: scale_axis_div)
qed

theorem scale_axis_bounds_witness:
  "0 \<le> qemu_input_scale_axis 5 1280 0x8000 \<and> qemu_input_scale_axis 700 1280 0x8000 \<le> 0x7fff"
  using scale_axis_bounds [of 1280 "0x8000" 5 700] by simp

text \<open>
  The rotations of absolute coordinates are those of the screen: 90 degrees after 270 and 180
  after 180 give back the event, 90 twice is 180, and coordinates stay in range.
\<close>

theorem rotate_group:
  "qemu_input_transform_abs_rotate 90 (qemu_input_transform_abs_rotate 270 e) = e
   \<and> qemu_input_transform_abs_rotate 270 (qemu_input_transform_abs_rotate 90 e) = e
   \<and> qemu_input_transform_abs_rotate 180 (qemu_input_transform_abs_rotate 180 e) = e
   \<and> qemu_input_transform_abs_rotate 90 (qemu_input_transform_abs_rotate 90 e)
       = qemu_input_transform_abs_rotate 180 e"
  by (cases e; cases "case e of INPUT_EVENT_KIND_ABS a _ \<Rightarrow> a | _ \<Rightarrow> INPUT_AXIS_X") simp_all

text \<open>A mouse list without duplicates of ids, as registration produces it.\<close>

lemma find_id_unique:
  "distinct (map h_id hs) \<Longrightarrow> find (\<lambda>s. h_id s = i) hs = Some s \<Longrightarrow> with_id i hs = [s]"
  unfolding with_id_def
proof (induction hs)
  case (Cons x xs)
  then show ?case by (cases "h_id x = i") (auto simp: filter_empty_conv intro: rev_image_eqI)
qed simp

lemma check_mode_handlers [simp]:
  "handlers (qemu_input_check_mode_change st) = handlers st"
  "current_is_absolute (qemu_input_check_mode_change st) = qemu_input_is_absolute st"
  by (simp_all add: qemu_input_check_mode_change_def notifier_list_notify_def Let_def)

lemma is_absolute_cong: "handlers st = handlers st' \<Longrightarrow> qemu_input_is_absolute st = qemu_input_is_absolute st'"
  unfolding qemu_input_is_absolute_def qemu_input_find_handler_def by (elim ssubst) (rule refl)

lemma query_mice_last:
  "is_mouse s \<Longrightarrow> handlers st = s # hs \<Longrightarrow>
   \<exists>mice. qmp_query_mice st = mice @ [\<lparr>mi_index = h_id s, mi_name = h_name (handler s),
     mi_absolute = h_mask (handler s) AND INPUT_EVENT_MASK_ABS \<noteq> 0, mi_current = True\<rparr>]
     \<and> (\<nexists>m. m \<in> set mice \<and> mi_current m)"
proof -
  let ?f = "\<lambda>s (current, mice). if \<not> is_mouse s then (current, mice)
       else (False, \<lparr>mi_index = h_id s, mi_name = h_name (handler s),
                     mi_absolute = h_mask (handler s) AND INPUT_EVENT_MASK_ABS \<noteq> 0,
                     mi_current = current\<rparr> # mice)"
  have fold: "\<exists>mice. fold ?f hs (False, tl) = (False, mice @ tl) \<and> (\<nexists>m. m \<in> set mice \<and> mi_current m)" for hs tl
  proof (induction hs arbitrary: tl)
    case (Cons h hs)
    show ?case
    proof (cases "is_mouse h")
      case True
      let ?m = "\<lparr>mi_index = h_id h, mi_name = h_name (handler h),
         mi_absolute = h_mask (handler h) AND INPUT_EVENT_MASK_ABS \<noteq> 0, mi_current = False\<rparr>"
      from Cons.IH [of "?m # tl"] obtain mice
        where m: "fold ?f hs (False, ?m # tl) = (False, mice @ ?m # tl)" "\<nexists>m. m \<in> set mice \<and> mi_current m" by blast
      then show ?thesis using True by (intro exI [of _ "mice @ [?m]"]) auto
    qed (use Cons.IH [of tl] in auto)
  qed simp
  assume "is_mouse s" "handlers st = s # hs"
  then show ?thesis
    using fold [of hs "[\<lparr>mi_index = h_id s, mi_name = h_name (handler s),
     mi_absolute = h_mask (handler s) AND INPUT_EVENT_MASK_ABS \<noteq> 0, mi_current = True\<rparr>]"]
    by (auto simp: qmp_query_mice_def)
qed

text \<open>
  The monitor command that selects a mouse succeeds exactly for the id of a registered pointing
  device; the selected device is then first in the list, it is the only one reported as current, and
  if it is not bound to a console it decides whether the pointer is absolute, about which the
  notifiers have been told.
\<close>

theorem mouse_set_selects:
  assumes "distinct (map h_id (handlers st))" "hmp_mouse_set index st = (err, st')"
  shows "(err = None \<longleftrightarrow> (\<exists>s. s \<in> set (handlers st) \<and> h_id s = index \<and> is_mouse s))
    \<and> (err = None \<longrightarrow> (\<exists>s rest mice m. handlers st' = s # rest \<and> h_id s = index
          \<and> qmp_query_mice st' = mice @ [m] \<and> mi_index m = index \<and> mi_current m
          \<and> (\<nexists>m. m \<in> set mice \<and> mi_current m)
          \<and> current_is_absolute st' = qemu_input_is_absolute st'
          \<and> (h_con s = None \<longrightarrow> qemu_input_is_absolute st' =
                (h_mask (handler s) AND INPUT_EVENT_MASK_ABS \<noteq> 0))))"
proof (cases "find (\<lambda>s. h_id s = index) (handlers st)")
  case None
  then have "err \<noteq> None" using assms(2) by (auto simp: hmp_mouse_set_def)
  then show ?thesis using None by (auto simp: find_None_iff)
next
  case (Some s)
  have s: "s \<in> set (handlers st)" "h_id s = index" using Some by (auto simp: find_Some_iff)
  have uniq: "t = s" if "t \<in> set (handlers st)" "h_id t = index" for t
    using assms(1) that s by (metis inj_onD distinct_map)
  show ?thesis
  proof (cases "is_mouse s")
    case False
    then show ?thesis using assms(2) uniq by (auto simp: hmp_mouse_set_def Some)
  next
    case True
    then have st': "err = None"
      "st' = qemu_input_check_mode_change (qemu_input_handler_activate index st)"
      using assms(2) s(2) by (auto simp: hmp_mouse_set_def Some)
    then have hs: "handlers st' = s # without_id index (handlers st)"
      by (simp add: qemu_input_handler_activate_def find_id_unique [OF assms(1) Some])
    have "current_is_absolute st' = qemu_input_is_absolute st'"
      unfolding st'(2) by (simp add: is_absolute_cong [of "qemu_input_check_mode_change _"])
    moreover have "qemu_input_is_absolute st' = (h_mask (handler s) AND INPUT_EVENT_MASK_ABS \<noteq> 0)"
      if "h_con s = None"
    proof -
      have "find (\<lambda>s. \<not> (h_con s = None \<or> h_con s \<noteq> None) \<and> takes m s) (handlers st') = None" for m
        by (auto simp: find_None_iff)
      moreover have "takes (INPUT_EVENT_MASK_REL OR INPUT_EVENT_MASK_ABS) s"
        using True by (simp add: takes_def is_mouse_def and.commute)
      ultimately show ?thesis using that
        unfolding qemu_input_is_absolute_def qemu_input_find_handler_def
        by (simp only: option.case) (simp add: hs)
    qed
    ultimately show ?thesis using s True st'(1) hs query_mice_last [OF True hs] by auto
  qed
qed

definition two_mice :: "unit input" where
  "two_mice =
     (let mouse = (\<lambda>n m. \<lparr>h_name = n, h_mask = m, h_event = (\<lambda>_ _ d. d), h_sync = None\<rparr>)
      in snd (qemu_input_handler_register (mouse ''tablet'' INPUT_EVENT_MASK_ABS)
        (snd (qemu_input_handler_register (mouse ''mouse'' INPUT_EVENT_MASK_REL)
          \<lparr>handlers = [], next_id = 1, mouse_mode_notifiers = [], current_is_absolute = False,
           kbd_queue = [], kbd_timer = None, devs = (), accepting = True, graphic_rotate = 0, clock_ms = 0\<rparr>))))"

theorem mouse_set_selects_witness:
  "fst (hmp_mouse_set 2 two_mice) = None"
proof -
  have reg: "handlers (snd (qemu_input_handler_register h st)) =
      handlers st @ [\<lparr>handler = h, h_id = next_id st, h_events = 0, h_con = None\<rparr>]"
    "next_id (snd (qemu_input_handler_register h st)) = next_id st + 1" for h and st :: "unit input"
    by (simp_all add: qemu_input_handler_register_def qemu_input_check_mode_change_def
        notifier_list_notify_def Let_def)
  have hs: "distinct (map h_id (handlers two_mice))"
    by (simp add: two_mice_def Let_def reg)
  have "\<exists>s. s \<in> set (handlers two_mice) \<and> h_id s = 2 \<and> is_mouse s"
    by (rule exI [of _ "last (handlers two_mice)"]) (simp add: two_mice_def Let_def reg is_mouse_def)
  moreover obtain err st' where e: "hmp_mouse_set 2 two_mice = (err, st')"
    by (cases "hmp_mouse_set 2 two_mice")
  ultimately show ?thesis using mouse_set_selects [OF hs e] by simp
qed

end
