(* ===== verification/Frame_Buffer.thy ===== *)
theory Frame_Buffer
  imports C_Library
begin

text \<open>
  The frame buffer file, the repository's additions to src/Qemu-2.4.1/ui/sdl.c (\<^verbatim>\<open>mmap_fb\<close> to \<^verbatim>\<open>sdl_update\<close>):
  the screen of the virtual machine is copied to a PPM image in a mapped file, which another thread
  hands to ffmpeg.  In Android mode the image is turned by 90 degrees.  The mapping is a list of
  bytes; accesses outside it or outside the pixels of the screen are faults.  \<^verbatim>\<open>real_screen\<close> is a record
  of what the code reads of it, with dimensions that are not negative; whether \<^verbatim>\<open>open\<close> and \<^verbatim>\<open>mmap\<close> succeed is a parameter.
\<close>

record SDL_Surface =
  sf_w :: int
  sf_h :: int
  sf_pitch :: int
  sf_pixels :: "u8 list"

datatype fb_action = Mmap int | Munmap int

text \<open>The globals of the file.  \<open>fb_size\<close> is the global variable, which the local one of \<^verbatim>\<open>mmap_fb\<close>
  hides.\<close>

record frame =
  fb_data :: "u8 list option"
  fb_size :: int
  header_len :: int
  fb_actions :: "fb_action list"

definition frame_init :: frame where
  "frame_init = \<lparr>fb_data = None, fb_size = 0, header_len = 0, fb_actions = []\<rparr>"

subsection \<open>Accesses\<close>

definition rd8 :: "u8 list \<Rightarrow> int \<Rightarrow> c_fault + u8" where
  "rd8 bytes i = (if 0 \<le> i \<and> i < int (length bytes) then Inr (bytes ! nat i) else Inl Buffer_Overrun)"

definition rd16 :: "u8 list \<Rightarrow> int \<Rightarrow> c_fault + u16" where
  "rd16 bytes i = bindE (rd8 bytes (2 * i)) (\<lambda>lo. bindE (rd8 bytes (2 * i + 1)) (\<lambda>hi.
     Inr (ucast lo OR push_bit 8 (ucast hi))))"

definition fb_put :: "int \<Rightarrow> u8 \<Rightarrow> u8 list \<Rightarrow> c_fault + u8 list" where
  "fb_put i v fb = (if 0 \<le> i \<and> i < int (length fb) then Inr (fb[nat i := v]) else Inl Buffer_Overrun)"

definition put_rgb :: "int \<Rightarrow> u8 \<times> u8 \<times> u8 \<Rightarrow> u8 list \<Rightarrow> c_fault + u8 list" where
  "put_rgb i rgb fb =
     (let (r, g, b) = rgb
      in bindE (fb_put (i + 2) b fb) (\<lambda>fb. bindE (fb_put (i + 1) g fb) (\<lambda>fb. fb_put i r fb)))"

definition rgb565 :: "u16 \<Rightarrow> u8 \<times> u8 \<times> u8" where
  "rgb565 p =
     (let r = drop_bit 11 p AND 31; g = drop_bit 5 p AND 63; b = p AND 31
      in (word_of_int (uint r * 255 div 31), word_of_int (uint g * 255 div 63),
          word_of_int (uint b * 255 div 31)))"

subsection \<open>The mapped file\<close>

definition ppm_header :: "string \<Rightarrow> string \<Rightarrow> string" where
  "ppm_header w_char h_char =
     ''P6'' @ [CHR 0x0A] @ w_char @ '' '' @ h_char @ [CHR 0x0A] @ ''255'' @ [CHR 0x0A]"

text \<open>\<^verbatim>\<open>fb_data[header_index++] = c\<close> for the characters of the header.\<close>

definition put_header :: "string \<Rightarrow> u8 list \<Rightarrow> c_fault + u8 list" where
  "put_header h fb = foldE (\<lambda>(i, c). fb_put i (of_char c)) (zip [0..int (length h) - 1] h) fb"

definition mmap_fb :: "bool \<Rightarrow> int \<Rightarrow> int \<Rightarrow> frame \<Rightarrow> c_fault + frame" where
  "mmap_fb os_ok w h st =
     bindE (sprintf_into 5 (dec_of_int w)) (\<lambda>w_char.
     bindE (sprintf_into 5 (dec_of_int h)) (\<lambda>h_char.
       let hl = 9 + int (length w_char) + int (length h_char);
           sz = w * h * 3 + hl
       in if \<not> os_ok then Inl Process_Exit
          else bindE (put_header (ppm_header w_char h_char) (replicate (nat sz) 0)) (\<lambda>fb.
            if hl \<noteq> int (length (ppm_header w_char h_char)) then Inl Process_Exit
            else Inr (st\<lparr>fb_data := Some fb, header_len := hl, fb_actions := fb_actions st @ [Mmap sz]\<rparr>))))"

definition fb_reset :: "frame \<Rightarrow> frame" where
  "fb_reset st = (if fb_data st \<noteq> None
     then st\<lparr>fb_data := None, fb_actions := fb_actions st @ [Munmap (fb_size st)]\<rparr> else st)"

subsection \<open>Filling the image\<close>

definition with_fb :: "(u8 list \<Rightarrow> c_fault + u8 list) \<Rightarrow> frame \<Rightarrow> c_fault + frame" where
  "with_fb f st = (case fb_data st of None \<Rightarrow> Inl Null_Pointer
     | Some fb \<Rightarrow> bindE (f fb) (\<lambda>fb'. Inr (st\<lparr>fb_data := Some fb'\<rparr>)))"

definition put16 :: "SDL_Surface \<Rightarrow> int \<Rightarrow> int \<Rightarrow> u8 list \<Rightarrow> c_fault + u8 list" where
  "put16 scr i at fb = bindE (rd16 (sf_pixels scr) i) (\<lambda>p. put_rgb at (rgb565 p) fb)"

definition android_pixel :: "SDL_Surface \<Rightarrow> int \<Rightarrow> int \<Rightarrow> int \<Rightarrow> int \<Rightarrow> u8 list \<Rightarrow> c_fault + u8 list" where
  "android_pixel scr hl w h i fb =
     (let x1 = i mod h; y1 = i div h; x2 = (w - 1) - y1; y2 = x1; i2 = w * y2 + x2
      in bindE (rd16 (sf_pixels scr) i) (\<lambda>p.
           if i2 > 0 then put_rgb (i2 * 3 + hl) (rgb565 p) fb else Inr fb))"

text \<open>The loop over the bytes of a 32-bit screen, with its two counters.\<close>

fun copy32 :: "SDL_Surface \<Rightarrow> int \<Rightarrow> int list \<Rightarrow> int \<Rightarrow> u8 list \<Rightarrow> c_fault + u8 list" where
  "copy32 scr hl [] j fb = Inr fb"
| "copy32 scr hl (i # is) j fb =
     (if i mod 4 = 0 then
        bindE (rd8 (sf_pixels scr) i) (\<lambda>v. bindE (fb_put (j * 3 + 2 + hl) v fb) (copy32 scr hl is j))
      else if i mod 4 = 1 then
        bindE (rd8 (sf_pixels scr) i) (\<lambda>v. bindE (fb_put (j * 3 + 1 + hl) v fb) (copy32 scr hl is j))
      else if i mod 4 = 2 then
        bindE (rd8 (sf_pixels scr) i) (\<lambda>v. bindE (fb_put (j * 3 + hl) v fb) (copy32 scr hl is (j + 1)))
      else copy32 scr hl is j fb)"

definition make_frameData :: "bool \<Rightarrow> bool \<Rightarrow> SDL_Surface \<Rightarrow> int \<Rightarrow> int \<Rightarrow> frame \<Rightarrow> c_fault + frame" where
  "make_frameData os_ok androidMode scr w h st =
     bindE (c_divE (sf_pitch scr) w) (\<lambda>bpp.
     bindE (mmap_fb os_ok w h (fb_reset st)) (\<lambda>st1.
       let hl = header_len st1
       in if androidMode then with_fb (foldE (android_pixel scr hl w h) [0..w * h - 1]) st1
          else if bpp = 4 then with_fb (copy32 scr hl [0..w * h * 4 - 1] 0) st1
          else if bpp = 2 then with_fb (foldE (\<lambda>i. put16 scr i (i * 3 + hl)) [0..w * h - 1]) st1
          else Inr st1))"

subsection \<open>Updating a rectangle\<close>

definition get_pixel_index :: "int \<Rightarrow> int \<Rightarrow> int \<Rightarrow> int" where
  "get_pixel_index w x y = w * y + x"

text \<open>The points of a rectangle in the order of the two nested loops, rows first.\<close>

definition rect :: "int \<Rightarrow> int \<Rightarrow> int \<Rightarrow> int \<Rightarrow> (int \<times> int) list" where
  "rect x y w h = concat (map (\<lambda>y. map (\<lambda>x. (x, y)) [x..x + w - 1]) [y..y + h - 1])"

definition update_android :: "SDL_Surface \<Rightarrow> int \<Rightarrow> int \<Rightarrow> int \<times> int \<Rightarrow> u8 list \<Rightarrow> c_fault + u8 list" where
  "update_android scr hl rech xy fb =
     (let (x, y) = xy; i = y * sf_w scr + x; x2 = (sf_h scr - 1) - y; y2 = x; i2 = rech * y2 + x2
      in put16 scr i (i2 * 3 + hl) fb)"

definition update32 :: "SDL_Surface \<Rightarrow> int \<Rightarrow> int \<Rightarrow> int \<times> int \<Rightarrow> u8 list \<Rightarrow> c_fault + u8 list" where
  "update32 scr hl recw xy fb =
     (let (x, y) = xy; p = get_pixel_index recw x y
      in bindE (rd8 (sf_pixels scr) (p * 4)) (\<lambda>b. bindE (fb_put (p * 3 + 2 + hl) b fb) (\<lambda>fb.
         bindE (rd8 (sf_pixels scr) (p * 4 + 1)) (\<lambda>g. bindE (fb_put (p * 3 + 1 + hl) g fb) (\<lambda>fb.
         bindE (rd8 (sf_pixels scr) (p * 4 + 2)) (\<lambda>r. fb_put (p * 3 + hl) r fb))))))"

definition update16 :: "SDL_Surface \<Rightarrow> int \<Rightarrow> int \<Rightarrow> int \<times> int \<Rightarrow> u8 list \<Rightarrow> c_fault + u8 list" where
  "update16 scr hl recw xy fb =
     (let (x, y) = xy; p = get_pixel_index recw x y in put16 scr p (p * 3 + hl) fb)"

definition Update_frameData ::
  "bool \<Rightarrow> SDL_Surface \<Rightarrow> int \<Rightarrow> int \<Rightarrow> int \<Rightarrow> int \<Rightarrow> frame \<Rightarrow> c_fault + frame" where
  "Update_frameData androidMode scr recx recy recw rech st =
     bindE (c_divE (sf_pitch scr) (sf_w scr)) (\<lambda>_.
       let hl = header_len st; r = rect recx recy recw rech
       in if androidMode then with_fb (foldE (update_android scr hl rech) r) st
          else bindE (c_divE (sf_pitch scr) recw) (\<lambda>bpp.
            if bpp = 4 then with_fb (foldE (update32 scr hl recw) r) st
            else if bpp = 2 then with_fb (foldE (update16 scr hl recw) r) st
            else Inr st))"

text \<open>\<^verbatim>\<open>Save_frameData\<close>: the contents of the file it writes.\<close>

definition Save_frameData :: "SDL_Surface \<Rightarrow> frame \<Rightarrow> c_fault + u8 list" where
  "Save_frameData scr st =
     (case fb_data st of None \<Rightarrow> Inl Null_Pointer
      | Some fb \<Rightarrow>
          if int (length fb) < 4 * sf_w scr * sf_h scr then Inl Buffer_Overrun
          else Inr (map of_char (ppm_header (dec_of_int (sf_w scr)) (dec_of_int (sf_h scr)))
                    @ take (nat (4 * sf_w scr * sf_h scr)) fb))"

text \<open>\<^verbatim>\<open>sdl_update\<close>: SDL's copy of the guest screen to the window is the parameter \<open>blit\<close> (\<open>None\<close> when the
  zooming copy fails).\<close>

definition sdl_update ::
  "(SDL_Surface \<Rightarrow> SDL_Surface option) \<Rightarrow> bool \<Rightarrow> int \<Rightarrow> int \<Rightarrow> int \<Rightarrow> int
   \<Rightarrow> SDL_Surface \<times> frame \<Rightarrow> c_fault + (SDL_Surface \<times> frame)" where
  "sdl_update blit androidMode x y w h s =
     (case blit (fst s) of
        None \<Rightarrow> Inl Process_Exit
      | Some scr \<Rightarrow> bindE (Update_frameData androidMode scr x y w h (snd s)) (\<lambda>st. Inr (scr, st)))"


subsection \<open>Writing pixels\<close>

type_synonym rgb = "u8 \<times> u8 \<times> u8"

definition pix :: "int \<Rightarrow> u8 list \<Rightarrow> int \<Rightarrow> rgb" where
  "pix hl fb j = (fb ! nat (j * 3 + hl), fb ! nat (j * 3 + hl + 1), fb ! nat (j * 3 + hl + 2))"

definition put_all :: "int \<Rightarrow> (int \<times> rgb) list \<Rightarrow> u8 list \<Rightarrow> c_fault + u8 list" where
  "put_all hl ws = foldE (\<lambda>(j, c). put_rgb (j * 3 + hl) c) ws"

lemma put_rgb_ok:
  assumes "0 \<le> i" "i + 2 < int (length fb)"
  shows "put_rgb i (r, g, b) fb = Inr (fb[nat (i + 2) := b, nat (i + 1) := g, nat i := r])"
  using assms by (simp add: put_rgb_def fb_put_def)

lemma put_rgb_pix:
  assumes "0 \<le> hl" "0 \<le> j" "j < n" "hl + 3 * n \<le> int (length fb)"
  shows "\<exists>fb'. put_rgb (j * 3 + hl) c fb = Inr fb' \<and> length fb' = length fb
    \<and> take (nat hl) fb' = take (nat hl) fb
    \<and> (\<forall>k. 0 \<le> k \<and> k < n \<longrightarrow> pix hl fb' k = (if k = j then c else pix hl fb k))"
proof -
  obtain r g b where c: "c = (r, g, b)" by (cases c) auto
  let ?fb = "fb[nat (j * 3 + hl + 2) := b, nat (j * 3 + hl + 1) := g, nat (j * 3 + hl) := r]"
  have "put_rgb (j * 3 + hl) c fb = Inr ?fb"
    unfolding c by (rule put_rgb_ok) (use assms in auto)
  moreover have "take (nat hl) ?fb = take (nat hl) fb"
    using assms by (simp add: take_update_cancel)
  moreover have "pix hl ?fb k = (if k = j then c else pix hl fb k)" if "0 \<le> k" "k < n" for k
  proof (cases "k = j")
    case True
    then show ?thesis using assms that by (simp add: pix_def c nth_list_update nat_eq_iff)
  next
    case False
    then have "k < j \<or> j < k" by auto
    then show ?thesis
      using assms that False by (elim disjE) (simp_all add: pix_def nth_list_update eq_nat_nat_iff)
  qed
  ultimately show ?thesis by auto
qed

lemma put_all_pix:
  assumes "0 \<le> hl" "hl + 3 * n \<le> int (length fb)" "fst ` set ws \<subseteq> {0..<n}"
  shows "\<exists>fb'. put_all hl ws fb = Inr fb' \<and> length fb' = length fb
    \<and> take (nat hl) fb' = take (nat hl) fb
    \<and> (\<forall>k. 0 \<le> k \<and> k < n \<longrightarrow> pix hl fb' k = (case map_of (rev ws) k of Some c \<Rightarrow> c | None \<Rightarrow> pix hl fb k))"
  using assms
proof (induction ws arbitrary: fb)
  case (Cons w ws)
  obtain j c where w: "w = (j, c)" by (cases w)
  from Cons.prems(3) w have j: "0 \<le> j" "j < n" and ws: "fst ` set ws \<subseteq> {0..<n}" by auto
  from put_rgb_pix [OF Cons.prems(1) j Cons.prems(2), of c] obtain fb1 where
    fb1: "put_rgb (j * 3 + hl) c fb = Inr fb1" "length fb1 = length fb"
      "take (nat hl) fb1 = take (nat hl) fb"
      "\<forall>k. 0 \<le> k \<and> k < n \<longrightarrow> pix hl fb1 k = (if k = j then c else pix hl fb k)" by auto
  have "hl + 3 * n \<le> int (length fb1)" using Cons.prems(2) fb1(2) by simp
  from Cons.IH [OF Cons.prems(1) this ws] obtain fb2 where
    fb2: "put_all hl ws fb1 = Inr fb2" "length fb2 = length fb1"
      "take (nat hl) fb2 = take (nat hl) fb1"
      "\<forall>k. 0 \<le> k \<and> k < n \<longrightarrow> pix hl fb2 k = (case map_of (rev ws) k of Some c \<Rightarrow> c | None \<Rightarrow> pix hl fb1 k)"
    by auto
  have "put_all hl (w # ws) fb = Inr fb2"
    using fb1(1) fb2(1) by (simp add: put_all_def w)
  moreover have "pix hl fb2 k = (case map_of (rev (w # ws)) k of Some c \<Rightarrow> c | None \<Rightarrow> pix hl fb k)"
    if "0 \<le> k" "k < n" for k
    using fb1(4) fb2(4) that by (auto simp: w map_add_def split: option.split)
  ultimately show ?case using fb1 fb2 by auto
qed (simp add: put_all_def)

lemma put_all_overrun:
  assumes "0 \<le> hl" "\<forall>(j, c) \<in> set ws. 0 \<le> j" "(j, c) \<in> set ws" "int (length fb) \<le> j * 3 + hl + 2"
  shows "put_all hl ws fb = Inl Buffer_Overrun"
  using assms
proof (induction ws arbitrary: fb)
  case (Cons w ws)
  obtain i rgb where w: "w = (i, rgb)" by (cases w)
  obtain r g b where c: "rgb = (r, g, b)" by (cases rgb)
  show ?case
  proof (cases "i * 3 + hl + 2 < int (length fb)")
    case True
    let ?fb = "fb[nat (i * 3 + hl + 2) := b, nat (i * 3 + hl + 1) := g, nat (i * 3 + hl) := r]"
    have "put_rgb (i * 3 + hl) rgb fb = Inr ?fb" unfolding c by (rule put_rgb_ok) (use True w Cons.prems in auto)
    moreover have "(j, c) \<in> set ws" using True Cons.prems(3,4) w by auto
    ultimately show ?thesis using Cons.IH [of ?fb] Cons.prems by (simp add: put_all_def w)
  qed (use Cons.prems(1) in \<open>simp add: put_all_def w c put_rgb_def fb_put_def\<close>)
qed simp

text \<open>The pixels written by a loop over \<open>is\<close> that sends the screen pixel \<open>i\<close> to the image pixel \<open>g i\<close>.\<close>

lemma put_all_image:
  assumes "0 \<le> hl" "hl + 3 * n \<le> int (length fb)" "\<And>i. i \<in> set is \<Longrightarrow> 0 \<le> g i \<and> g i < n"
    and "inj_on g (set is)"
  shows "\<exists>fb'. put_all hl (map (\<lambda>i. (g i, f i)) is) fb = Inr fb' \<and> length fb' = length fb
    \<and> take (nat hl) fb' = take (nat hl) fb
    \<and> (\<forall>i \<in> set is. pix hl fb' (g i) = f i)
    \<and> (\<forall>k. 0 \<le> k \<and> k < n \<and> k \<notin> g ` set is \<longrightarrow> pix hl fb' k = pix hl fb k)"
proof -
  let ?ws = "map (\<lambda>i. (g i, f i)) is"
  have some: "map_of (rev ?ws) (g i) = Some (f i)" if "i \<in> set is" for i
  proof -
    have "g i \<in> dom (map_of (rev ?ws))" using that by (simp add: dom_map_of_conv_image_fst image_image)
    then obtain c where c: "map_of (rev ?ws) (g i) = Some c" by auto
    then have "(g i, c) \<in> set ?ws" by (auto dest: map_of_SomeD)
    then show ?thesis using c assms(4) that by (auto dest: inj_onD)
  qed
  have none: "map_of (rev ?ws) k = None" if "k \<notin> g ` set is" for k
    using that by (auto simp: map_of_eq_None_iff)
  have rng: "fst ` set ?ws \<subseteq> {0..<n}" using assms(3) by auto
  from put_all_pix [OF assms(1,2) rng] obtain fb' where fb': "put_all hl ?ws fb = Inr fb'"
    "length fb' = length fb" "take (nat hl) fb' = take (nat hl) fb"
    "\<forall>k. 0 \<le> k \<and> k < n \<longrightarrow> pix hl fb' k = (case map_of (rev ?ws) k of Some c \<Rightarrow> c | None \<Rightarrow> pix hl fb k)"
    by auto
  then show ?thesis using some none assms(3) by (intro exI [of _ fb']) auto
qed

subsection \<open>The loops as lists of pixels\<close>

definition pixel16 :: "SDL_Surface \<Rightarrow> int \<Rightarrow> rgb" where
  "pixel16 scr i = rgb565 (ucast (sf_pixels scr ! nat (2 * i)) OR push_bit 8 (ucast (sf_pixels scr ! nat (2 * i + 1))))"

definition pixel32 :: "SDL_Surface \<Rightarrow> int \<Rightarrow> rgb" where
  "pixel32 scr i = (sf_pixels scr ! nat (4 * i + 2), sf_pixels scr ! nat (4 * i + 1), sf_pixels scr ! nat (4 * i))"

lemma put16_ok:
  "0 \<le> i \<Longrightarrow> 2 * i + 1 < int (length (sf_pixels scr)) \<Longrightarrow> put16 scr i at fb = put_rgb at (pixel16 scr i) fb"
  by (simp add: put16_def rd16_def rd8_def pixel16_def)

lemma put16_loop:
  assumes "\<And>i. i \<in> set is \<Longrightarrow> 0 \<le> s i \<and> 2 * s i + 1 < int (length (sf_pixels scr))"
  shows "foldE (\<lambda>i. put16 scr (s i) (g i * 3 + hl)) is fb = put_all hl (map (\<lambda>i. (g i, pixel16 scr (s i))) is) fb"
  unfolding put_all_def foldE_map by (rule foldE_cong) (simp add: assms put16_ok)

definition turned :: "int \<Rightarrow> int \<Rightarrow> int \<Rightarrow> int" where
  "turned w h i = w * (i mod h) + ((w - 1) - i div h)"

lemma android_loop:
  assumes "\<And>i. i \<in> set is \<Longrightarrow> 0 \<le> i \<and> 2 * i + 1 < int (length (sf_pixels scr))"
  shows "foldE (android_pixel scr hl w h) is fb
    = put_all hl (map (\<lambda>i. (turned w h i, pixel16 scr i)) (filter (\<lambda>i. 0 < turned w h i) is)) fb"
  unfolding put_all_def foldE_map foldE_filter
proof (rule foldE_cong)
  fix i fb assume "i \<in> set is"
  from assms [OF this] show "android_pixel scr hl w h i fb =
    (if 0 < turned w h i then (case (turned w h i, pixel16 scr i) of (j, c) \<Rightarrow> put_rgb (j * 3 + hl) c) fb
     else Inr fb)"
    by (simp add: android_pixel_def turned_def rd16_def rd8_def pixel16_def Let_def)
qed

lemma upto_4: "k < n \<Longrightarrow> [4 * k..4 * n - 1] = [4 * k, 4 * k + 1, 4 * k + 2, 4 * k + 3] @ [4 * (k + 1)..4 * n - 1]"
  for k n :: int
  using upto_rec1 [of "4 * k" "4 * n - 1"] upto_rec1 [of "4 * k + 1" "4 * n - 1"]
    upto_rec1 [of "4 * k + 2" "4 * n - 1"] upto_rec1 [of "4 * k + 3" "4 * n - 1"]
  by (simp add: add.assoc distrib_left)

lemma copy32_loop:
  assumes "0 \<le> k" "4 * n \<le> int (length (sf_pixels scr))"
  shows "copy32 scr hl [4 * k..4 * n - 1] k fb = put_all hl (map (\<lambda>i. (i, pixel32 scr i)) [k..n - 1]) fb"
  using assms
proof (induction "nat (n - k)" arbitrary: k fb)
  case (Suc d)
  then have kn: "k < n" by simp
  have up: "[k..n - 1] = k # [k + 1..n - 1]" using kn by (simp add: upto.simps)
  have IH: "copy32 scr hl [4 * (k + 1)..4 * n - 1] (k + 1) fb
    = put_all hl (map (\<lambda>i. (i, pixel32 scr i)) [k + 1..n - 1]) fb" for fb
    by (rule Suc.hyps(1)) (use Suc.hyps(2) Suc.prems in auto)
  have m: "(4 * k + 1) mod 4 = 1" "(4 * k + 2) mod 4 = 2" "(4 * k + 3) mod 4 = 3"
    by (simp_all add: mod_mult_self1_is_0 mod_add_eq [symmetric])
  have rd: "rd8 (sf_pixels scr) (4 * k + c) = Inr (sf_pixels scr ! nat (4 * k + c))" if "0 \<le> c" "c < 4" for c
    using Suc.prems kn that by (simp add: rd8_def)
  let ?rest = "[4 * (k + 1)..4 * n - 1]"
  have st: "copy32 scr hl ((4 * k + 1) # is) k
      = (\<lambda>fb. bindE (fb_put (k * 3 + hl + 1) (sf_pixels scr ! nat (4 * k + 1)) fb) (copy32 scr hl is k))"
    "copy32 scr hl ((4 * k + 2) # is) k
      = (\<lambda>fb. bindE (fb_put (k * 3 + hl) (sf_pixels scr ! nat (4 * k + 2)) fb) (copy32 scr hl is (k + 1)))"
    "copy32 scr hl ((4 * k + 3) # is) j = copy32 scr hl is j" for "is" j
    using rd [of 1] rd [of 2] by (auto simp: m fun_eq_iff add_ac)
  have IH': "copy32 scr hl ?rest (k + 1) = put_all hl (map (\<lambda>i. (i, pixel32 scr i)) [k + 1..n - 1])"
    by (rule ext) (rule IH)
  show ?case
    unfolding upto_4 [OF kn] up
    using rd [of 0]
    by (simp add: st IH' put_all_def put_rgb_def pixel32_def bindE_assoc add.assoc add.commute [of hl]
        add.left_commute [of hl] del: distrib_left_numeral)
qed (simp add: put_all_def)

subsection \<open>Images\<close>

definition screen_ok :: "int \<Rightarrow> SDL_Surface \<Rightarrow> bool" where
  "screen_ok bpp scr \<longleftrightarrow> 0 < sf_w scr \<and> sf_w scr < 10000 \<and> 0 < sf_h scr \<and> sf_h scr < 10000
     \<and> sf_pitch scr = bpp * sf_w scr \<and> int (length (sf_pixels scr)) = sf_pitch scr * sf_h scr"

definition screen_pixel :: "int \<Rightarrow> SDL_Surface \<Rightarrow> int \<Rightarrow> int \<Rightarrow> rgb" where
  "screen_pixel bpp scr x y =
     (if bpp = 4 then pixel32 scr (y * sf_w scr + x) else pixel16 scr (y * sf_w scr + x))"

text \<open>The mapping holds a PPM image of \<open>w\<close> columns and \<open>h\<close> rows, and what a reader of it sees.\<close>

definition image_ok :: "int \<Rightarrow> int \<Rightarrow> frame \<Rightarrow> bool" where
  "image_ok w h st =
     (let hd = ppm_header (dec_of_int w) (dec_of_int h)
      in case fb_data st of None \<Rightarrow> False
         | Some fb \<Rightarrow> header_len st = int (length hd) \<and> int (length fb) = header_len st + 3 * (w * h)
                      \<and> take (length hd) fb = map of_char hd)"

definition image_pixel :: "int \<Rightarrow> frame \<Rightarrow> int \<Rightarrow> int \<Rightarrow> rgb" where
  "image_pixel w st x y = (case fb_data st of None \<Rightarrow> (0, 0, 0) | Some fb \<Rightarrow> pix (header_len st) fb (y * w + x))"

lemma put_header_from:
  assumes "0 \<le> k" "k + int (length h) \<le> int (length fb)"
  shows "foldE (\<lambda>(i, c). fb_put i (of_char c)) (zip [k..k + int (length h) - 1] h) fb
    = Inr (take (nat k) fb @ map of_char h @ drop (nat k + length h) fb)"
  using assms
proof (induction h arbitrary: k fb)
  case (Cons c h)
  have up: "[k..k + int (length (c # h)) - 1] = k # [k + 1..(k + 1) + int (length h) - 1]"
    by (simp add: upto_rec1)
  let ?fb = "fb[nat k := of_char c]"
  have kl: "nat k < length fb" using Cons.prems by simp
  have "take (nat (k + 1)) ?fb = take (nat k) fb @ [of_char c]"
    using Cons.prems(1) kl by (simp add: nat_add_distrib take_Suc_conv_app_nth take_update_cancel)
  moreover have "drop (nat (k + 1) + length h) ?fb = drop (nat k + length (c # h)) fb"
    using Cons.prems(1) by (simp add: nat_add_distrib)
  ultimately show ?case
    unfolding up using Cons.IH [of "k + 1" ?fb] Cons.prems kl by (simp add: fb_put_def)
qed simp

lemma put_header_ok:
  "length h \<le> length fb \<Longrightarrow> put_header h fb = Inr (map of_char h @ drop (length h) fb)"
  using put_header_from [of 0 h fb] by (simp add: put_header_def)

lemma mmap_fb_ok:
  assumes "0 < w" "w < 10000" "0 < h" "h < 10000"
  shows "\<exists>st'. mmap_fb True w h st = Inr st' \<and> image_ok w h st'
    \<and> (\<forall>j. 0 \<le> j \<and> j < w * h \<longrightarrow> pix (header_len st') (the (fb_data st')) j = (0, 0, 0))"
proof -
  have dec: "length (dec_of_int i) < 5" if "0 < i" "i < 10000" for i
  proof -
    have "nat i < 10 ^ Suc 3" using that by simp
    from length_dec_of_nat [OF this] show ?thesis using that by (simp add: dec_of_int_def)
  qed
  let ?h = "ppm_header (dec_of_int w) (dec_of_int h)"
  let ?sz = "w * h * 3 + int (length ?h)"
  have lh: "int (length ?h) = 9 + int (length (dec_of_int w)) + int (length (dec_of_int h))"
    by (simp add: ppm_header_def)
  have wh: "0 \<le> w * h" using assms by simp
  then have "put_header ?h (replicate (nat ?sz) 0) = Inr (map of_char ?h @ replicate (nat (w * h * 3)) 0)"
    by (subst put_header_ok) (simp_all add: nat_add_distrib)
  then have "mmap_fb True w h st = Inr (st\<lparr>fb_data := Some (map of_char ?h @ replicate (nat (w * h * 3)) 0),
      header_len := int (length ?h), fb_actions := fb_actions st @ [Mmap ?sz]\<rparr>)"
    using assms by (simp add: mmap_fb_def sprintf_into_def dec lh [symmetric] Let_def)
  then show ?thesis
    using wh by (auto simp: image_ok_def Let_def pix_def nth_append nat_add_distrib)
qed

text \<open>A loop over the points of \<open>is\<close>, as an update of the image.\<close>

lemma with_fb_image:
  assumes "image_ok w h st" "\<And>i. i \<in> set is \<Longrightarrow> 0 \<le> g i \<and> g i < w * h" "inj_on g (set is)"
    and loop: "\<And>fb. loop fb = put_all (header_len st) (map (\<lambda>i. (g i, f i)) is) fb"
  shows "\<exists>st'. with_fb loop st = Inr st' \<and> image_ok w h st' \<and> header_len st' = header_len st
    \<and> (\<forall>i \<in> set is. pix (header_len st') (the (fb_data st')) (g i) = f i)
    \<and> (\<forall>k. 0 \<le> k \<and> k < w * h \<and> k \<notin> g ` set is \<longrightarrow>
         pix (header_len st') (the (fb_data st')) k = pix (header_len st) (the (fb_data st)) k)"
proof -
  let ?hd = "ppm_header (dec_of_int w) (dec_of_int h)"
  from assms(1) obtain fb where fb: "fb_data st = Some fb" "header_len st = int (length ?hd)"
    "int (length fb) = header_len st + 3 * (w * h)" "take (length ?hd) fb = map of_char ?hd"
    by (auto simp: image_ok_def Let_def split: option.splits)
  from put_all_image [of "header_len st" "w * h" fb "is" g f] assms(2,3) fb
  obtain fb' where fb': "put_all (header_len st) (map (\<lambda>i. (g i, f i)) is) fb = Inr fb'"
    "length fb' = length fb" "take (nat (header_len st)) fb' = take (nat (header_len st)) fb"
    "\<forall>i \<in> set is. pix (header_len st) fb' (g i) = f i"
    "\<forall>k. 0 \<le> k \<and> k < w * h \<and> k \<notin> g ` set is \<longrightarrow> pix (header_len st) fb' k = pix (header_len st) fb k"
    by auto
  have "with_fb loop st = Inr (st\<lparr>fb_data := Some fb'\<rparr>)"
    by (simp add: with_fb_def fb(1) loop fb'(1))
  then show ?thesis using fb fb' by (auto simp: image_ok_def Let_def)
qed

lemma point_range:
  fixes x y w h :: int
  assumes "0 \<le> x" "x < w" "0 \<le> y" "y < h"
  shows "0 \<le> y * w + x \<and> y * w + x < w * h"
proof -
  have "y * w \<le> (h - 1) * w" using assms by (intro mult_right_mono) auto
  then show ?thesis using assms by (simp add: algebra_simps)
qed

lemma point_inj:
  fixes x y w :: int
  assumes "0 \<le> x" "x < w" "0 \<le> x'" "x' < w" "y * w + x = y' * w + x'"
  shows "x = x' \<and> y = y'"
proof -
  have "(y * w + x) mod w = x \<and> (y * w + x) div w = y" using assms(1,2) by simp
  moreover have "(y' * w + x') mod w = x' \<and> (y' * w + x') div w = y'" using assms(3,4) by simp
  ultimately show ?thesis using assms(5) by metis
qed

lemma set_rect: "set (rect x y w h) = {(a, b). x \<le> a \<and> a < x + w \<and> y \<le> b \<and> b < y + h}"
  by (auto simp: rect_def)

lemma turned_point:
  assumes "0 \<le> x" "x < w" shows "turned h w (y * w + x) = x * h + ((h - 1) - y)"
  using assms by (simp add: turned_def)

lemma row_range:
  fixes i w h :: int
  assumes "0 < w" "0 \<le> i" "i < w * h" shows "i div w < h \<and> 0 \<le> i div w"
proof -
  have "i div w * w \<le> i" using assms(1) by (simp add: minus_mod_eq_div_mult [symmetric])
  also have "i < h * w" using assms(3) by (simp add: mult.commute)
  finally show ?thesis using assms by (simp add: pos_imp_zdiv_nonneg_iff)
qed

lemma turned_range:
  assumes "0 < w" "0 \<le> i" "i < w * h"
  shows "0 \<le> turned h w i \<and> turned h w i < h * w"
proof -
  show ?thesis
    using row_range [OF assms] point_range [of "(h - 1) - i div w" h "i mod w" w] assms by (simp add: turned_def mult.commute)
qed

lemma turned_inj:
  assumes "0 < w" shows "inj_on (turned h w) {i. 0 \<le> i \<and> i < w * h}"
proof (rule inj_onI)
  fix i j assume ij: "i \<in> {i. 0 \<le> i \<and> i < w * h}" "j \<in> {i. 0 \<le> i \<and> i < w * h}"
    and eq: "turned h w i = turned h w j"
  have "h - 1 - i div w = h - 1 - j div w \<and> i mod w = j mod w"
    by (rule point_inj [of _ h]) (use row_range [OF assms, of i h] row_range [OF assms, of j h] ij eq in \<open>auto simp: turned_def mult.commute\<close>)
  then show "i = j" by (metis diff_left_imp_eq div_mod_decomp_int)
qed

lemma make_frame_shows:
  assumes "screen_ok bpp scr" "bpp = 2 \<or> bpp = 4"
  shows "\<exists>st'. make_frameData True False scr (sf_w scr) (sf_h scr) st = Inr st'
    \<and> image_ok (sf_w scr) (sf_h scr) st'
    \<and> (\<forall>x y. 0 \<le> x \<and> x < sf_w scr \<and> 0 \<le> y \<and> y < sf_h scr \<longrightarrow>
         image_pixel (sf_w scr) st' x y = screen_pixel bpp scr x y)"
proof -
  let ?w = "sf_w scr" and ?h = "sf_h scr"
  let ?f = "if bpp = 4 then pixel32 scr else pixel16 scr"
  have g: "0 < ?w" "?w < 10000" "0 < ?h" "?h < 10000" "sf_pitch scr = bpp * ?w"
    and len: "int (length (sf_pixels scr)) = bpp * (?w * ?h)"
    using assms(1) by (auto simp: screen_ok_def)
  from mmap_fb_ok [OF g(1-4), of "fb_reset st"] obtain st1 where
    st1: "mmap_fb True ?w ?h (fb_reset st) = Inr st1" "image_ok ?w ?h st1" by auto
  define loop where "loop = (if bpp = 4 then copy32 scr (header_len st1) [0..?w * ?h * 4 - 1] 0
    else foldE (\<lambda>i. put16 scr i (i * 3 + header_len st1)) [0..?w * ?h - 1])"
  have "make_frameData True False scr ?w ?h st = with_fb loop st1"
    using g st1 assms(2) by (auto simp: make_frameData_def loop_def)
  moreover have "loop fb = put_all (header_len st1) (map (\<lambda>i. (i, ?f i)) [0..?w * ?h - 1]) fb" for fb
    using copy32_loop [of 0 "?w * ?h" scr] put16_loop [of "[0..?w * ?h - 1]" "\<lambda>i. i" scr "\<lambda>i. i"] len assms(2)
    by (auto simp: loop_def mult.commute)
  from with_fb_image [OF st1(2) _ _ this] obtain st2 where "with_fb loop st1 = Inr st2" "image_ok ?w ?h st2"
    "\<forall>i \<in> set [0..?w * ?h - 1]. pix (header_len st2) (the (fb_data st2)) i = ?f i" by auto
  moreover from this have "image_pixel ?w st2 x y = screen_pixel bpp scr x y"
    if "0 \<le> x" "x < ?w" "0 \<le> y" "y < ?h" for x y
    using point_range [OF that] by (auto simp: image_pixel_def screen_pixel_def image_ok_def split: option.splits)
  ultimately show ?thesis by auto
qed

text \<open>
  A new frame of a 16-bit or 32-bit screen is a PPM image with the size of the screen that
  shows every pixel of it; no access leaves the mapping or the screen.
\<close>

theorem frame_shows_screen:
  assumes "screen_ok bpp scr" "bpp = 2 \<or> bpp = 4"
  shows "\<exists>st'. make_frameData True False scr (sf_w scr) (sf_h scr) st = Inr st'
    \<and> image_ok (sf_w scr) (sf_h scr) st'
    \<and> (\<forall>x y. 0 \<le> x \<and> x < sf_w scr \<and> 0 \<le> y \<and> y < sf_h scr \<longrightarrow>
         image_pixel (sf_w scr) st' x y = screen_pixel bpp scr x y)"
  by (rule make_frame_shows [OF assms])

lemma android_frame_shows:
  assumes "screen_ok 2 scr"
  shows "\<exists>st'. make_frameData True True scr (sf_h scr) (sf_w scr) st = Inr st'
    \<and> image_ok (sf_h scr) (sf_w scr) st'
    \<and> (\<forall>x y. 0 \<le> x \<and> x < sf_w scr \<and> 0 \<le> y \<and> y < sf_h scr \<longrightarrow>
         image_pixel (sf_h scr) st' (sf_h scr - 1 - y) x
           = (if x = 0 \<and> y = sf_h scr - 1 then (0, 0, 0) else screen_pixel 2 scr x y))"
proof -
  let ?w = "sf_w scr" and ?h = "sf_h scr"
  let ?is = "filter (\<lambda>i. 0 < turned ?h ?w i) [0..?h * ?w - 1]"
  have g: "0 < ?h" "?h < 10000" "0 < ?w" "?w < 10000"
    and len: "int (length (sf_pixels scr)) = 2 * (?w * ?h)"
    using assms(1) by (auto simp: screen_ok_def)
  from mmap_fb_ok [OF g, of "fb_reset st"] obtain st1 where
    st1: "mmap_fb True ?h ?w (fb_reset st) = Inr st1" "image_ok ?h ?w st1"
    "\<forall>j. 0 \<le> j \<and> j < ?h * ?w \<longrightarrow> pix (header_len st1) (the (fb_data st1)) j = (0, 0, 0)" by auto
  have "make_frameData True True scr ?h ?w st
      = with_fb (foldE (android_pixel scr (header_len st1) ?h ?w) [0..?h * ?w - 1]) st1"
    using g st1 by (simp add: make_frameData_def c_divE_def)
  moreover have loop: "foldE (android_pixel scr (header_len st1) ?h ?w) [0..?h * ?w - 1] fb
      = put_all (header_len st1) (map (\<lambda>i. (turned ?h ?w i, pixel16 scr i)) ?is) fb" for fb
    by (rule android_loop) (auto simp: len mult.commute)
  have rng: "0 \<le> turned ?h ?w i \<and> turned ?h ?w i < ?h * ?w" if "i \<in> set ?is" for i
    using turned_range [OF g(3)] that by (auto simp: mult.commute)
  have inj: "inj_on (turned ?h ?w) (set ?is)"
    by (rule inj_on_subset [OF turned_inj [OF g(3)]]) (auto simp: mult.commute)
  from with_fb_image [OF st1(2) rng inj loop] obtain st2 where
    st2: "with_fb (foldE (android_pixel scr (header_len st1) ?h ?w) [0..?h * ?w - 1]) st1 = Inr st2"
    "image_ok ?h ?w st2" and px: "\<forall>i \<in> set ?is. pix (header_len st2) (the (fb_data st2)) (turned ?h ?w i) = pixel16 scr i"
    and rest: "\<forall>k. 0 \<le> k \<and> k < ?h * ?w \<and> k \<notin> turned ?h ?w ` set ?is \<longrightarrow>
         pix (header_len st2) (the (fb_data st2)) k = (0, 0, 0)"
    using st1(3) by auto
  have "image_pixel ?h st2 (?h - 1 - y) x = (if x = 0 \<and> y = ?h - 1 then (0, 0, 0) else screen_pixel 2 scr x y)"
    if xy: "0 \<le> x" "x < ?w" "0 \<le> y" "y < ?h" for x y
  proof -
    let ?k = "x * ?h + (?h - 1 - y)"
    have t: "turned ?h ?w (y * ?w + x) = ?k" using turned_point [OF xy(1,2)] .
    have z: "?k = 0 \<longleftrightarrow> x = 0 \<and> y = ?h - 1" using xy g by (auto simp: add_nonneg_eq_0_iff)
    have k: "0 \<le> ?k \<and> ?k < ?h * ?w" using point_range [of "?h - 1 - y" ?h x ?w] xy by simp
    have "image_pixel ?h st2 (?h - 1 - y) x = pix (header_len st2) (the (fb_data st2)) ?k"
      using st2(2) by (auto simp: image_pixel_def image_ok_def split: option.splits)
    moreover have "pix (header_len st2) (the (fb_data st2)) ?k = screen_pixel 2 scr x y" if "?k \<noteq> 0"
      using px [rule_format, of "y * ?w + x"] point_range [OF xy] that k t
      by (simp add: screen_pixel_def mult.commute)
    moreover have "pix (header_len st2) (the (fb_data st2)) ?k = (0, 0, 0)" if "?k = 0"
    proof -
      have "0 \<notin> turned ?h ?w ` set ?is" by auto
      then show ?thesis using rest k that by simp
    qed
    ultimately show ?thesis using z by auto
  qed
  then show ?thesis using calculation st2 by auto
qed

text \<open>
  In Android mode the new frame shows the screen turned by 90 degrees, screen pixel (x, y) at
  column h - 1 - y of row x, except that the pixel in the image's first corner stays black.
\<close>

theorem android_frame_is_turned:
  assumes "screen_ok 2 scr"
  shows "\<exists>st'. make_frameData True True scr (sf_h scr) (sf_w scr) st = Inr st'
    \<and> image_ok (sf_h scr) (sf_w scr) st'
    \<and> (\<forall>x y. 0 \<le> x \<and> x < sf_w scr \<and> 0 \<le> y \<and> y < sf_h scr \<longrightarrow>
         image_pixel (sf_h scr) st' (sf_h scr - 1 - y) x
           = (if x = 0 \<and> y = sf_h scr - 1 then (0, 0, 0) else screen_pixel 2 scr x y))"
  by (rule android_frame_shows [OF assms])

subsection \<open>Updates\<close>

text \<open>The image pixel to which an update sends the screen pixel \<open>p\<close>, and the update as a loop over pixels.\<close>

definition update_target :: "bool \<Rightarrow> SDL_Surface \<Rightarrow> int \<Rightarrow> int \<Rightarrow> int \<times> int \<Rightarrow> int" where
  "update_target androidMode scr recw rech p =
     (if androidMode then rech * fst p + ((sf_h scr - 1) - snd p) else get_pixel_index recw (fst p) (snd p))"

lemma update32_ok:
  assumes "0 \<le> recw * y + x" "4 * (recw * y + x) + 2 < int (length (sf_pixels scr))"
  shows "update32 scr hl recw (x, y) fb = put_rgb ((recw * y + x) * 3 + hl) (pixel32 scr (recw * y + x)) fb"
  using assms by (simp add: update32_def get_pixel_index_def rd8_def put_rgb_def pixel32_def add_ac mult.commute Let_def)

lemma update_loop:
  assumes "\<And>x y. (x, y) \<in> set ps \<Longrightarrow> 0 \<le> x \<and> x < sf_w scr \<and> 0 \<le> y \<and> y < sf_h scr"
    and "screen_ok bpp scr" "bpp = 4 \<longrightarrow> \<not> a" "bpp = 2 \<or> bpp = 4"
  shows "foldE (if a then update_android scr hl rech else if bpp = 4 then update32 scr hl (sf_w scr)
                else update16 scr hl (sf_w scr)) ps fb
    = put_all hl (map (\<lambda>p. (update_target a scr (sf_w scr) rech p, screen_pixel bpp scr (fst p) (snd p))) ps) fb"
  unfolding put_all_def foldE_map
proof (rule foldE_cong)
  fix p fb assume p: "p \<in> set ps"
  obtain x y where xy: "p = (x, y)" by (cases p)
  let ?i = "y * sf_w scr + x"
  have i: "0 \<le> ?i \<and> ?i < sf_w scr * sf_h scr"
    by (rule point_range) (use assms(1) p xy in auto)
  have len: "int (length (sf_pixels scr)) = bpp * (sf_w scr * sf_h scr)"
    using assms(2) by (auto simp: screen_ok_def)
  have i4: "bpp = 4 \<longrightarrow> 4 * ?i + 2 < int (length (sf_pixels scr))"
    and i2: "bpp = 2 \<longrightarrow> 2 * ?i + 1 < int (length (sf_pixels scr))" using i len by auto
  show "(if a then update_android scr hl rech else if bpp = 4 then update32 scr hl (sf_w scr)
          else update16 scr hl (sf_w scr)) p fb
      = (case (update_target a scr (sf_w scr) rech p, screen_pixel bpp scr (fst p) (snd p)) of
           (j, c) \<Rightarrow> put_rgb (j * 3 + hl) c) fb"
    using i i4 i2 assms(3,4)
    by (auto simp: xy update_android_def update16_def update_target_def get_pixel_index_def screen_pixel_def
        update32_ok put16_ok mult.commute Let_def)
qed

lemma update_frame_loop:
  assumes "screen_ok bpp scr" "bpp = 2 \<or> bpp = 4" "bpp = 4 \<longrightarrow> \<not> a"
    and "a \<or> recw = sf_w scr"
  shows "Update_frameData a scr x y recw rech st
    = with_fb (foldE (if a then update_android scr (header_len st) rech
                else if bpp = 4 then update32 scr (header_len st) (sf_w scr)
                else update16 scr (header_len st) (sf_w scr)) (rect x y recw rech)) st"
proof -
  have w: "0 < sf_w scr" "sf_pitch scr = bpp * sf_w scr" using assms(1) by (simp_all add: screen_ok_def)
  then have c: "c_divE (sf_pitch scr) (sf_w scr) = Inr bpp" using assms(2) by auto
  show ?thesis
    unfolding Update_frameData_def c bindE_simps Let_def using assms(2-4) c
    by (cases a; elim disjE) simp_all
qed

text \<open>
  C29. An update of the whole screen brings an image of the screen's size up to date, for screens with 16 bits per
  pixel in both modes and for screens with 32 bits outside Android mode: every pixel of the screen is shown,
  in Android mode turned by a quarter.  (Android mode reads every screen as if it had 16 bits per pixel.)
\<close>

theorem full_update_shows_screen:
  assumes scr: "screen_ok bpp scr" "bpp = 2 \<or> bpp = 4" "bpp = 4 \<longrightarrow> \<not> androidMode"
    and st: "image_ok (if androidMode then sf_h scr else sf_w scr) (if androidMode then sf_w scr else sf_h scr) st"
  shows "\<exists>st'. Update_frameData androidMode scr 0 0 (sf_w scr) (sf_h scr) st = Inr st'
    \<and> image_ok (if androidMode then sf_h scr else sf_w scr) (if androidMode then sf_w scr else sf_h scr) st'
    \<and> (\<forall>x y. 0 \<le> x \<and> x < sf_w scr \<and> 0 \<le> y \<and> y < sf_h scr \<longrightarrow>
         (if androidMode then image_pixel (sf_h scr) st' (sf_h scr - 1 - y) x
          else image_pixel (sf_w scr) st' x y) = screen_pixel bpp scr x y)"
proof -
  let ?w = "sf_w scr" and ?h = "sf_h scr" and ?a = androidMode
  let ?W = "if ?a then ?h else ?w" and ?H = "if ?a then ?w else ?h"
  let ?ps = "rect 0 0 ?w ?h" and ?g = "update_target ?a scr ?w ?h"
  have ps: "0 \<le> x \<and> x < ?w \<and> 0 \<le> y \<and> y < ?h" if "(x, y) \<in> set ?ps" for x y
    using that by (simp add: set_rect)
  have rng: "0 \<le> ?g p \<and> ?g p < ?W * ?H" if "p \<in> set ?ps" for p
    using ps [of "fst p" "snd p"] that point_range [of "fst p" ?w "snd p" ?h]
      point_range [of "?h - 1 - snd p" ?h "fst p" ?w]
    by (auto simp: update_target_def get_pixel_index_def mult.commute)
  have inj: "inj_on ?g (set ?ps)"
  proof (rule inj_onI)
    fix p q assume "p \<in> set ?ps" "q \<in> set ?ps" "?g p = ?g q"
    with ps [of "fst p" "snd p"] ps [of "fst q" "snd q"] show "p = q"
      using point_inj [of "fst p" ?w "fst q" "snd p" "snd q"]
        point_inj [of "?h - 1 - snd p" ?h "?h - 1 - snd q" "fst p" "fst q"]
      by (auto simp: update_target_def get_pixel_index_def mult.commute prod_eq_iff split: if_splits)
  qed
  from with_fb_image [OF st rng inj update_loop [OF ps scr(1) scr(3,2)]] update_frame_loop [OF scr, of ?w 0 0 ?h st]
  obtain st' where st': "Update_frameData ?a scr 0 0 ?w ?h st = Inr st'" "image_ok ?W ?H st'"
    "\<forall>p \<in> set ?ps. pix (header_len st') (the (fb_data st')) (?g p) = screen_pixel bpp scr (fst p) (snd p)"
    by auto
  moreover have "(if ?a then image_pixel ?h st' (?h - 1 - y) x else image_pixel ?w st' x y)
      = screen_pixel bpp scr x y" if "0 \<le> x" "x < ?w" "0 \<le> y" "y < ?h" for x y
    using st'(2) st'(3) [rule_format, of "(x, y)"] that
    by (auto simp: image_pixel_def image_ok_def set_rect update_target_def get_pixel_index_def mult.commute
        split: option.splits)
  ultimately show ?thesis by auto
qed

text \<open>
  On a 32-bit screen the update of a rectangle of at most four fifths of the width changes nothing.
\<close>

theorem narrow_updates_are_lost:
  assumes "screen_ok 4 scr" "0 < recw" "5 * recw \<le> 4 * sf_w scr"
  shows "Update_frameData False scr x y recw rech st = Inr st"
proof -
  have "5 * recw div recw \<le> 4 * sf_w scr div recw" by (rule zdiv_mono1) (use assms in auto)
  then show ?thesis using assms by (simp add: Update_frameData_def screen_ok_def)
qed

text \<open>
  In Android mode the update of a single screen pixel (x, y) that is not in the first column leaves
  its place in the image as it was and overwrites the pixel x + h - 1 - y of the image.
\<close>

theorem android_partial_update_astray:
  assumes "image_ok (sf_h scr) (sf_w scr) st" and scr: "screen_ok 2 scr"
    and h: "1 < sf_h scr" and xy: "0 < x" "x < sf_w scr" "0 \<le> y" "y < sf_h scr"
  shows "\<exists>st'. Update_frameData True scr x y 1 1 st = Inr st'
    \<and> image_pixel (sf_h scr) st' (sf_h scr - 1 - y) x = image_pixel (sf_h scr) st (sf_h scr - 1 - y) x
    \<and> image_pixel (sf_h scr) st' (x + sf_h scr - 1 - y) 0 = screen_pixel 2 scr x y"
proof -
  let ?w = "sf_w scr" and ?h = "sf_h scr" and ?j = "x + ((sf_h scr - 1) - y)"
  have ps: "0 \<le> a \<and> a < ?w \<and> 0 \<le> b \<and> b < ?h" if "(a, b) \<in> set (rect x y 1 1)" for a b
    using that xy by (auto simp: set_rect)
  have set1: "set (rect x y 1 1) = {(x, y)}" by (auto simp: set_rect)
  have mono: "x * 1 < x * ?h" using h xy by (intro mult_strict_left_mono) auto
  have k: "0 \<le> x * ?h + (?h - 1 - y) \<and> x * ?h + (?h - 1 - y) < ?h * ?w"
    by (rule point_range) (use xy in auto)
  have j: "0 \<le> ?j \<and> ?j < ?h * ?w" "x * ?h + (?h - 1 - y) \<noteq> ?j" using mono k xy by linarith+
  have rng: "0 \<le> update_target True scr ?w 1 p \<and> update_target True scr ?w 1 p < ?h * ?w" if "p \<in> set (rect x y 1 1)" for p
    using that j(1) by (auto simp: set1 update_target_def)
  have inj: "inj_on (update_target True scr ?w 1) (set (rect x y 1 1))" by (simp add: set1)
  from with_fb_image [OF assms(1) rng inj update_loop [OF ps scr]] update_frame_loop [OF scr, of True 1 x y 1 st]
  obtain st' where "Update_frameData True scr x y 1 1 st = Inr st'" "image_ok ?h ?w st'" "header_len st' = header_len st"
    "pix (header_len st') (the (fb_data st')) ?j = screen_pixel 2 scr x y"
    "pix (header_len st') (the (fb_data st')) (x * ?h + (?h - 1 - y))
      = pix (header_len st) (the (fb_data st)) (x * ?h + (?h - 1 - y))"
    using k j(2) by (auto simp: set1 update_target_def)
  then show ?thesis
    using assms by (auto simp: image_pixel_def image_ok_def Let_def add_diff_eq split: option.splits)
qed

subsection \<open>Examples\<close>

text \<open>A 16-bit and a 32-bit screen of two columns and two rows, and a 32-bit screen of five columns.\<close>

definition tiny16 :: SDL_Surface where
  "tiny16 = \<lparr>sf_w = 2, sf_h = 2, sf_pitch = 4, sf_pixels = [0, 248, 224, 7, 31, 0, 255, 255]\<rparr>"

definition tiny32 :: SDL_Surface where
  "tiny32 = \<lparr>sf_w = 5, sf_h = 1, sf_pitch = 20, sf_pixels = map word_of_int [1..20]\<rparr>"

definition tiny_frame :: frame where
  "tiny_frame = \<lparr>fb_data = Some (map of_char (ppm_header ''2'' ''2'') @ replicate 12 7), fb_size = 0,
     header_len = 11, fb_actions = []\<rparr>"

lemma tiny_ok: "screen_ok 2 tiny16" "screen_ok 4 tiny32" "image_ok 2 2 tiny_frame"
  "sf_w tiny16 = 2" "sf_h tiny16 = 2" "sf_w tiny32 = 5"
  by code_simp+

theorem frame_shows_screen_witness:
  "\<exists>st'. make_frameData True False tiny16 2 2 frame_init = Inr st' \<and> image_pixel 2 st' 1 0 = screen_pixel 2 tiny16 1 0"
  using frame_shows_screen [OF tiny_ok(1), of frame_init] by (auto simp: tiny_ok)

theorem android_frame_is_turned_witness:
  "\<exists>st'. make_frameData True True tiny16 2 2 frame_init = Inr st' \<and> image_pixel 2 st' 1 0 = screen_pixel 2 tiny16 0 0"
proof -
  from android_frame_is_turned [OF tiny_ok(1), of frame_init] obtain st' where
    st': "make_frameData True True tiny16 2 2 frame_init = Inr st'"
    and px: "\<forall>x y. 0 \<le> x \<and> x < 2 \<and> 0 \<le> y \<and> y < 2 \<longrightarrow>
         image_pixel 2 st' (2 - 1 - y) x = (if x = 0 \<and> y = 2 - 1 then (0, 0, 0) else screen_pixel 2 tiny16 x y)"
    by (auto simp: tiny_ok)
  show ?thesis using st' px [rule_format, of 0 0] by simp
qed

theorem full_update_shows_screen_witness:
  "\<exists>st' st''. Update_frameData True tiny16 0 0 2 2 tiny_frame = Inr st' \<and> image_pixel 2 st' 1 0 = (255, 0, 0)
    \<and> image_pixel 2 st' 1 1 = (0, 255, 0) \<and> Update_frameData False tiny16 0 0 2 2 tiny_frame = Inr st''
    \<and> image_pixel 2 st'' 0 0 = (255, 0, 0) \<and> image_pixel 2 st'' 1 0 = (0, 255, 0)"
proof -
  have px: "screen_pixel 2 tiny16 0 0 = (255, 0, 0)" "screen_pixel 2 tiny16 1 0 = (0, 255, 0)" by code_simp+
  from full_update_shows_screen [OF tiny_ok(1), of True tiny_frame] obtain st' where
    t: "Update_frameData True tiny16 0 0 2 2 tiny_frame = Inr st'"
      "\<forall>x y. 0 \<le> x \<and> x < 2 \<and> 0 \<le> y \<and> y < 2 \<longrightarrow> image_pixel 2 st' (2 - 1 - y) x = screen_pixel 2 tiny16 x y"
    by (auto simp: tiny_ok)
  from full_update_shows_screen [OF tiny_ok(1), of False tiny_frame] obtain st'' where
    p: "Update_frameData False tiny16 0 0 2 2 tiny_frame = Inr st''"
      "\<forall>x y. 0 \<le> x \<and> x < 2 \<and> 0 \<le> y \<and> y < 2 \<longrightarrow> image_pixel 2 st'' x y = screen_pixel 2 tiny16 x y"
    by (auto simp: tiny_ok)
  show ?thesis
    using t p(1) t(2) [rule_format, of 0 0] t(2) [rule_format, of 1 0] p(2) [rule_format, of 0 0] p(2) [rule_format, of 1 0]
    by (simp add: px)
qed

theorem narrow_updates_are_lost_witness: "Update_frameData False tiny32 0 0 4 1 tiny_frame = Inr tiny_frame"
  by (rule narrow_updates_are_lost [OF tiny_ok(2)]) (simp_all add: tiny_ok)

theorem android_partial_update_astray_witness:
  "\<exists>st'. Update_frameData True tiny16 1 0 1 1 tiny_frame = Inr st'
    \<and> image_pixel 2 st' 1 1 = (7, 7, 7) \<and> image_pixel 2 st' 2 0 = screen_pixel 2 tiny16 1 0"
proof -
  have "image_pixel 2 tiny_frame 1 1 = (7, 7, 7)" by code_simp
  then show ?thesis
    using android_partial_update_astray [of tiny16 tiny_frame 1 0] by (simp add: tiny_ok)
qed

end
