(* ===== verification/Cursor.thy ===== *)
theory Cursor
  imports C_Library
begin

text \<open>
  Cursor images, src/Qemu-2.4.1/ui/cursor.c: the guest's cursor as an array of pixels and as the two monochrome bitmaps that SDL takes,
  one bit a pixel from the highest bit of each byte on, rows padded to whole bytes.  Width and height are not negative.
  An access outside an array is a fault.
\<close>

record QEMUCursor =
  c_width :: nat
  c_height :: nat
  c_hot_x :: int
  c_hot_y :: int
  c_refcount :: int
  c_data :: "u32 list"

definition cursor_alloc :: "nat \<Rightarrow> nat \<Rightarrow> QEMUCursor" where
  "cursor_alloc width height = \<lparr>c_width = width, c_height = height, c_hot_x = 0, c_hot_y = 0, c_refcount = 1, c_data = replicate (width * height) 0\<rparr>"

definition cursor_get :: "QEMUCursor \<Rightarrow> QEMUCursor" where
  "cursor_get c = c\<lparr>c_refcount := c_refcount c + 1\<rparr>"

text \<open>\<open>None\<close> is the null pointer, or afterwards a cursor that was freed.\<close>

definition cursor_put :: "QEMUCursor option \<Rightarrow> QEMUCursor option" where
  "cursor_put c =
     (case c of None \<Rightarrow> None
      | Some c \<Rightarrow> let c = c\<lparr>c_refcount := c_refcount c - 1\<rparr> in if c_refcount c \<noteq> 0 then Some c else None)"

definition cursor_get_mono_bpl :: "QEMUCursor \<Rightarrow> nat" where
  "cursor_get_mono_bpl c = (c_width c + 7) div 8"

text \<open>The step of \<^verbatim>\<open>bit\<close> at the end of the inner loops.\<close>

definition next_bit :: "u8 \<Rightarrow> u8" where
  "next_bit b = (if drop_bit 1 b = 0 then 0x80 else drop_bit 1 b)"

text \<open>The inner loop's body; \<open>off\<close> is how far \<^verbatim>\<open>mask\<close> and \<^verbatim>\<open>image\<close> have moved, \<open>d\<close> the position of \<^verbatim>\<open>data\<close>.\<close>

definition set_mono_step ::
  "u32 \<Rightarrow> u32 \<Rightarrow> u8 list \<Rightarrow> bool \<Rightarrow> u8 list \<Rightarrow> nat \<Rightarrow> nat \<Rightarrow> nat \<times> u8 \<times> u32 list \<Rightarrow> c_fault + nat \<times> u8 \<times> u32 list" where
  "set_mono_step foreground background pic transparent msk off x s =
     (let (d, b, data) = s; i = off + x div 8
      in if i \<ge> length msk \<or> d \<ge> length data then Inl Buffer_Overrun
         else if transparent \<and> msk ! i AND b \<noteq> 0 then Inr (d + 1, next_bit b, data[d := 0x00000000])
         else if \<not> transparent \<and> \<not> msk ! i AND b \<noteq> 0 then Inr (d + 1, next_bit b, data[d := 0x00000000])
         else if i \<ge> length pic then Inl Buffer_Overrun
         else if pic ! i AND b \<noteq> 0 then Inr (d + 1, next_bit b, data[d := 0xff000000 OR foreground])
         else Inr (d + 1, next_bit b, data[d := 0xff000000 OR background]))"

definition cursor_set_mono :: "u32 \<Rightarrow> u32 \<Rightarrow> u8 list \<Rightarrow> bool \<Rightarrow> u8 list \<Rightarrow> QEMUCursor \<Rightarrow> c_fault + QEMUCursor" where
  "cursor_set_mono foreground background pic transparent msk c =
     (let bpl = cursor_get_mono_bpl c
      in bindE (foldE (\<lambda>y (d, data).
             bindE (foldE (set_mono_step foreground background pic transparent msk (y * bpl)) [0..<c_width c] (d, 0x80, data))
               (\<lambda>(d, b, data). Inr (d, data))) [0..<c_height c] (0, c_data c))
           (\<lambda>(d, data). Inr (c\<lparr>c_data := data\<rparr>)))"

text \<open>The two functions that read the pixels have the same loops and differ in the test; \<open>hit\<close> is the test.\<close>

definition get_mono_step :: "(u32 \<Rightarrow> bool) \<Rightarrow> u32 list \<Rightarrow> nat \<Rightarrow> nat \<Rightarrow> nat \<times> u8 \<times> u8 list \<Rightarrow> c_fault + nat \<times> u8 \<times> u8 list" where
  "get_mono_step hit data off x s =
     (let (d, b, img) = s; i = off + x div 8
      in if d \<ge> length data then Inl Buffer_Overrun
         else if \<not> hit (data ! d) then Inr (d + 1, next_bit b, img)
         else if i \<ge> length img then Inl Buffer_Overrun
         else Inr (d + 1, next_bit b, img[i := img ! i OR b]))"

definition get_mono :: "(u32 \<Rightarrow> bool) \<Rightarrow> QEMUCursor \<Rightarrow> u8 list \<Rightarrow> c_fault + u8 list" where
  "get_mono hit c img =
     (let bpl = cursor_get_mono_bpl c; n = bpl * c_height c
      in if n > length img then Inl Buffer_Overrun
         else bindE (foldE (\<lambda>y (d, img).
                bindE (foldE (get_mono_step hit (c_data c) (y * bpl)) [0..<c_width c] (d, 0x80, img))
                  (\<lambda>(d, b, img). Inr (d, img))) [0..<c_height c] (0, replicate n 0 @ drop n img))
              (\<lambda>(d, img). Inr img))"

definition cursor_get_mono_image :: "QEMUCursor \<Rightarrow> u32 \<Rightarrow> u8 list \<Rightarrow> c_fault + u8 list" where
  "cursor_get_mono_image c foreground = get_mono (\<lambda>p. p AND 0xff000000 = 0xff000000 \<and> p AND 0x00ffffff = foreground) c"

definition cursor_get_mono_mask :: "QEMUCursor \<Rightarrow> bool \<Rightarrow> u8 list \<Rightarrow> c_fault + u8 list" where
  "cursor_get_mono_mask c transparent =
     get_mono (\<lambda>p. if p AND 0xff000000 \<noteq> 0xff000000 then transparent else \<not> transparent) c"

text \<open>The pixel loops of \<^verbatim>\<open>cursor_parse_xpm\<close> on the rows after the header and the colour table \<open>ctab\<close>; the terminating NUL of
  a row can be read.\<close>

definition xpm_step :: "u32 list \<Rightarrow> string \<Rightarrow> nat \<Rightarrow> nat \<times> u32 list \<Rightarrow> c_fault + nat \<times> u32 list" where
  "xpm_step ctab row x s =
     (let (pixel, data) = s; idx = (if x < length row then of_char (row ! x) else 0)
      in if x > length row \<or> idx \<ge> length ctab \<or> pixel \<ge> length data then Inl Buffer_Overrun
         else Inr (pixel + 1, data[pixel := ctab ! idx]))"

definition xpm_pixels :: "u32 list \<Rightarrow> string list \<Rightarrow> nat \<Rightarrow> nat \<Rightarrow> c_fault + QEMUCursor" where
  "xpm_pixels ctab rows width height =
     (let c = cursor_alloc width height
      in bindE (foldE (\<lambda>y s. if y \<ge> length rows then Inl Buffer_Overrun else foldE (xpm_step ctab (rows ! y)) [0..<height] s)
             [0..<height] (0, c_data c))
           (\<lambda>(pixel, data). Inr (c\<lparr>c_data := data\<rparr>)))"

section \<open>The loops\<close>

definition bit_at :: "nat \<Rightarrow> u8" where
  "bit_at x = drop_bit (x mod 8) 0x80"

lemma bit_at_checked:
  "list_all (\<lambda>k. next_bit (drop_bit k 0x80) = drop_bit (Suc k mod 8) 0x80 \<and> list_all (\<lambda>i. bit (drop_bit k 0x80 :: u8) i = (i = 7 - k)) [0..<8]) [0..<8]"
  by code_simp

lemma bit_at_0 [simp]: "bit_at 0 = 0x80"
  by (simp add: bit_at_def)

lemma next_bit_at [simp]: "next_bit (bit_at x) = bit_at (Suc x)"
proof -
  have "x mod 8 \<in> set [0..<8]" by simp
  from bspec [OF bit_at_checked [unfolded list_all_iff [of _ "[0..<8]"]] this] show ?thesis
    by (simp add: bit_at_def mod_Suc_eq)
qed

lemma bit_bit_at: "i < 8 \<Longrightarrow> bit (bit_at x) i \<longleftrightarrow> i = 7 - x mod 8"
proof -
  assume "i < 8"
  have "x mod 8 \<in> set [0..<8]" by simp
  from bspec [OF bit_at_checked [unfolded list_all_iff [of _ "[0..<8]"]] this] \<open>i < 8\<close> show ?thesis
    by (simp add: bit_at_def list_all_iff)
qed

text \<open>The pixel at \<open>x\<close> of row \<open>y\<close> in a bitmap.\<close>

definition mono_bit :: "nat \<Rightarrow> u8 list \<Rightarrow> nat \<Rightarrow> nat \<Rightarrow> bool" where
  "mono_bit bpl img x y = bit (img ! (y * bpl + x div 8)) (7 - x mod 8)"

lemma test_bit_at: "(w AND bit_at x \<noteq> 0) = bit w (7 - x mod 8)"
proof -
  have "bit_at x = push_bit (7 - x mod 8) 1"
  proof (rule bit_word_eqI)
    fix i assume "i < LENGTH(8)"
    then have "i < 8" by simp
    then show "bit (bit_at x) i = bit (push_bit (7 - x mod 8) (1 :: u8)) i" unfolding bit_line_mask by (auto simp: bit_bit_at)
  qed
  then show ?thesis by (simp add: flag_simps)
qed

subsection \<open>Reading the pixels\<close>

text \<open>What the reading loops set: the bits of the pixels that are hit, among those seen so far.\<close>

definition marks :: "(u32 \<Rightarrow> bool) \<Rightarrow> u32 list \<Rightarrow> nat \<Rightarrow> nat \<Rightarrow> nat \<Rightarrow> nat \<Rightarrow> nat \<Rightarrow> bool" where
  "marks hit data off d k j i \<longleftrightarrow> (\<exists>x < k. j = off + x div 8 \<and> i = 7 - x mod 8 \<and> hit (data ! (d + x)))"

lemma marks_Suc: "marks hit data off d (Suc k) j i \<longleftrightarrow> marks hit data off d k j i \<or> j = off + k div 8 \<and> i = 7 - k mod 8 \<and> hit (data ! (d + k))"
  by (auto simp: marks_def less_Suc_eq)

lemma get_row:
  assumes "d + k \<le> length data" "off + (k + 7) div 8 \<le> length img"
  shows "\<exists>img'. foldE (get_mono_step hit data off) [0..<k] (d, 0x80, img) = Inr (d + k, bit_at k, img') \<and> length img' = length img
    \<and> (\<forall>j < length img. \<forall>i < 8. bit (img' ! j) i = (bit (img ! j) i \<or> marks hit data off d k j i))"
  using assms
proof (induction k)
  case 0
  then show ?case by (simp add: marks_def)
next
  case (Suc k)
  have le: "d + k \<le> length data" "off + (k + 7) div 8 \<le> length img" "off + k div 8 < length img" using Suc.prems by auto
  from Suc.IH [OF le(1,2)] obtain img1 where i1: "foldE (get_mono_step hit data off) [0..<k] (d, 0x80, img) = Inr (d + k, bit_at k, img1)"
    "length img1 = length img" "\<And>j i. j < length img \<Longrightarrow> i < 8 \<Longrightarrow> bit (img1 ! j) i = (bit (img ! j) i \<or> marks hit data off d k j i)" by blast
  define img2 where "img2 = (if hit (data ! (d + k)) then img1[off + k div 8 := img1 ! (off + k div 8) OR bit_at k] else img1)"
  have "foldE (get_mono_step hit data off) [0..<Suc k] (d, 0x80, img) = Inr (d + Suc k, bit_at (Suc k), img2)"
    using i1(1,2) le Suc.prems(1) by (auto simp: foldE_snoc get_mono_step_def img2_def Let_def)
  moreover have "length img2 = length img" by (simp add: img2_def i1(2))
  moreover have "bit (img2 ! j) i = (bit (img ! j) i \<or> marks hit data off d (Suc k) j i)" if "j < length img" "i < 8" for j i
    using that i1(2,3) le(3) by (auto simp: img2_def marks_Suc nth_list_update bit_or_iff bit_bit_at)
  ultimately show ?case by blast
qed

lemma get_rows:
  assumes "length data = w * h" "bpl = (w + 7) div 8" "bpl * h \<le> length img" "n \<le> h"
  shows "\<exists>img'. foldE (\<lambda>y (d, img). bindE (foldE (get_mono_step hit data (y * bpl)) [0..<w] (d, 0x80, img)) (\<lambda>(d, b, img). Inr (d, img)))
        [0..<n] (0, img) = Inr (n * w, img') \<and> length img' = length img
    \<and> (\<forall>j < length img. \<forall>i < 8. bit (img' ! j) i = (bit (img ! j) i \<or> (\<exists>y < n. marks hit data (y * bpl) (y * w) w j i)))"
  using assms(4)
proof (induction n)
  case 0
  then show ?case by simp
next
  case (Suc n)
  let ?f = "\<lambda>y (d, img). bindE (foldE (get_mono_step hit data (y * bpl)) [0..<w] (d, 0x80, img)) (\<lambda>(d, b, img). Inr (d, img))"
  from Suc.IH Suc.prems obtain img1 where i1: "foldE ?f [0..<n] (0, img) = Inr (n * w, img1)" "length img1 = length img"
    "\<And>j i. j < length img \<Longrightarrow> i < 8 \<Longrightarrow> bit (img1 ! j) i = (bit (img ! j) i \<or> (\<exists>y < n. marks hit data (y * bpl) (y * w) w j i))" by fastforce
  have "Suc n * w \<le> h * w" "Suc n * bpl \<le> h * bpl" using Suc.prems by (intro mult_le_mono1; simp)+
  then have "n * w + w \<le> length data" "n * bpl + (w + 7) div 8 \<le> length img1" using assms(1-3) i1(2) by (simp_all add: ac_simps)
  from get_row [OF this, of hit] obtain img2 where i2:
    "foldE (get_mono_step hit data (n * bpl)) [0..<w] (n * w, 0x80, img1) = Inr (n * w + w, bit_at w, img2)" "length img2 = length img"
    "\<And>j i. j < length img \<Longrightarrow> i < 8 \<Longrightarrow> bit (img2 ! j) i = (bit (img1 ! j) i \<or> marks hit data (n * bpl) (n * w) w j i)"
    using i1(2) by auto
  have "foldE ?f [0..<Suc n] (0, img) = Inr (Suc n * w, img2)" using i1(1) i2(1) by (simp add: foldE_snoc add.commute)
  moreover have "bit (img2 ! j) i = (bit (img ! j) i \<or> (\<exists>y < Suc n. marks hit data (y * bpl) (y * w) w j i))" if "j < length img" "i < 8" for j i
    using i1(3) i2(3) that by (auto simp: less_Suc_eq)
  ultimately show ?case using i2(2) by blast
qed

lemma pixel_place:
  assumes "x < w" "x' < w" "bpl = (w + 7) div 8" "y * bpl + x div 8 = y' * bpl + x' div 8" "7 - x mod 8 = 7 - x' mod (8 :: nat)"
  shows "x = x'" "y = y'"
proof -
  have b: "x div 8 < bpl" "x' div 8 < bpl" using assms(1-3) by auto
  have "y = (y * bpl + x div 8) div bpl" "y' = (y' * bpl + x' div 8) div bpl" using b by simp_all
  then show "y = y'" using assms(4) by simp
  then have "x div 8 = x' div 8" using assms(4) by simp
  moreover have "x mod 8 = x' mod 8" using assms(5) mod_less_divisor [of 8 x] mod_less_divisor [of 8 x'] by linarith
  ultimately show "x = x'" by (metis div_mult_mod_eq)
qed

lemma get_mono_spec:
  assumes "length (c_data c) = c_width c * c_height c" "length img = cursor_get_mono_bpl c * c_height c"
  shows "\<exists>img'. get_mono hit c img = Inr img' \<and> length img' = length img
    \<and> (\<forall>x < c_width c. \<forall>y < c_height c. mono_bit (cursor_get_mono_bpl c) img' x y = hit (c_data c ! (y * c_width c + x)))"
proof -
  let ?w = "c_width c" and ?h = "c_height c" and ?bpl = "cursor_get_mono_bpl c" and ?d = "c_data c"
  have bpl: "?bpl = (?w + 7) div 8" by (simp add: cursor_get_mono_bpl_def)
  from get_rows [OF assms(1) bpl, of "replicate (?bpl * ?h) 0" ?h hit] obtain img' where
    r: "foldE (\<lambda>y (d, img). bindE (foldE (get_mono_step hit ?d (y * ?bpl)) [0..<?w] (d, 0x80, img)) (\<lambda>(d, b, img). Inr (d, img)))
        [0..<?h] (0, replicate (?bpl * ?h) 0) = Inr (?h * ?w, img')" "length img' = ?bpl * ?h"
      "\<And>j i. j < ?bpl * ?h \<Longrightarrow> i < 8 \<Longrightarrow> bit (img' ! j) i = (\<exists>y < ?h. marks hit ?d (y * ?bpl) (y * ?w) ?w j i)" by auto
  have "get_mono hit c img = Inr img'" using r(1) assms(2) by (simp add: get_mono_def)
  moreover have "mono_bit ?bpl img' x y = hit (?d ! (y * ?w + x))" if "x < ?w" "y < ?h" for x y
  proof -
    have "x div 8 < ?bpl" using that(1) bpl by auto
    moreover have "Suc y * ?bpl \<le> ?h * ?bpl" using that(2) by (intro mult_le_mono1) simp
    ultimately have j: "y * ?bpl + x div 8 < ?bpl * ?h" by (simp add: ac_simps)
    have "mono_bit ?bpl img' x y = (\<exists>y' < ?h. marks hit ?d (y' * ?bpl) (y' * ?w) ?w (y * ?bpl + x div 8) (7 - x mod 8))"
      using r(3) [OF j, of "7 - x mod 8"] by (simp add: mono_bit_def)
    also have "\<dots> = hit (?d ! (y * ?w + x))"
      unfolding marks_def using that pixel_place [OF that(1) _ bpl] by metis
    finally show ?thesis .
  qed
  ultimately show ?thesis using r(2) assms(2) by auto
qed

subsection \<open>Setting the pixels\<close>

definition mono_pixel :: "u32 \<Rightarrow> u32 \<Rightarrow> bool \<Rightarrow> bool \<Rightarrow> bool \<Rightarrow> u32" where
  "mono_pixel foreground background transparent m p =
     (if m = transparent then 0 else if p then 0xff000000 OR foreground else 0xff000000 OR background)"

lemma set_row:
  assumes "d + k \<le> length data" "y * bpl + (k + 7) div 8 \<le> length msk" "length pic = length msk"
  shows "\<exists>data'. foldE (set_mono_step fg bg pic transparent msk (y * bpl)) [0..<k] (d, 0x80, data) = Inr (d + k, bit_at k, data') \<and> length data' = length data
    \<and> (\<forall>j < length data. data' ! j = (if d \<le> j \<and> j < d + k
         then mono_pixel fg bg transparent (mono_bit bpl msk (j - d) y) (mono_bit bpl pic (j - d) y) else data ! j))"
  using assms
proof (induction k)
  case (Suc k)
  have le: "d + k \<le> length data" "y * bpl + (k + 7) div 8 \<le> length msk" "y * bpl + k div 8 < length msk" using Suc.prems by auto
  from Suc.IH [OF le(1,2) Suc.prems(3)] obtain data1 where
    d1: "foldE (set_mono_step fg bg pic transparent msk (y * bpl)) [0..<k] (d, 0x80, data) = Inr (d + k, bit_at k, data1)" "length data1 = length data"
      "\<And>j. j < length data \<Longrightarrow> data1 ! j = (if d \<le> j \<and> j < d + k
         then mono_pixel fg bg transparent (mono_bit bpl msk (j - d) y) (mono_bit bpl pic (j - d) y) else data ! j)" by blast
  define data2 where "data2 = data1[d + k := mono_pixel fg bg transparent (mono_bit bpl msk k y) (mono_bit bpl pic k y)]"
  have "foldE (set_mono_step fg bg pic transparent msk (y * bpl)) [0..<Suc k] (d, 0x80, data) = Inr (d + Suc k, bit_at (Suc k), data2)"
    using d1(1,2) le Suc.prems(1,3)
    by (cases transparent) (auto simp: foldE_snoc set_mono_step_def data2_def Let_def test_bit_at mono_bit_def mono_pixel_def)
  moreover have "length data2 = length data" by (simp add: data2_def d1(2))
  moreover have "data2 ! j = (if d \<le> j \<and> j < d + Suc k
       then mono_pixel fg bg transparent (mono_bit bpl msk (j - d) y) (mono_bit bpl pic (j - d) y) else data ! j)" if "j < length data" for j
    using that d1(2,3) Suc.prems(1) by (auto simp: data2_def nth_list_update)
  ultimately show ?case by blast
qed auto

lemma set_rows:
  assumes "length data = w * h" "bpl = (w + 7) div 8" "length msk = bpl * h" "length pic = bpl * h" "n \<le> h"
  shows "\<exists>data'. foldE (\<lambda>y (d, data). bindE (foldE (set_mono_step fg bg pic transparent msk (y * bpl)) [0..<w] (d, 0x80, data))
        (\<lambda>(d, b, data). Inr (d, data))) [0..<n] (0, data) = Inr (n * w, data') \<and> length data' = length data
    \<and> (\<forall>y < n. \<forall>x < w. data' ! (y * w + x) = mono_pixel fg bg transparent (mono_bit bpl msk x y) (mono_bit bpl pic x y))"
  using assms(5)
proof (induction n)
  case 0
  then show ?case by simp
next
  case (Suc n)
  let ?f = "\<lambda>y (d, data). bindE (foldE (set_mono_step fg bg pic transparent msk (y * bpl)) [0..<w] (d, 0x80, data)) (\<lambda>(d, b, data). Inr (d, data))"
  from Suc.IH Suc.prems obtain data1 where d1: "foldE ?f [0..<n] (0, data) = Inr (n * w, data1)" "length data1 = length data"
    "\<And>y x. y < n \<Longrightarrow> x < w \<Longrightarrow> data1 ! (y * w + x) = mono_pixel fg bg transparent (mono_bit bpl msk x y) (mono_bit bpl pic x y)" by fastforce
  have "Suc n * w \<le> h * w" "Suc n * bpl \<le> h * bpl" using Suc.prems by (intro mult_le_mono1; simp)+
  then have le: "n * w + w \<le> length data1" "n * bpl + (w + 7) div 8 \<le> length msk" "length pic = length msk"
    using assms(1-4) d1(2) by (simp_all add: ac_simps)
  from set_row [OF le, of fg bg transparent] obtain data2 where d2:
    "foldE (set_mono_step fg bg pic transparent msk (n * bpl)) [0..<w] (n * w, 0x80, data1) = Inr (n * w + w, bit_at w, data2)" "length data2 = length data"
    "\<And>j. j < length data \<Longrightarrow> data2 ! j = (if n * w \<le> j \<and> j < n * w + w
       then mono_pixel fg bg transparent (mono_bit bpl msk (j - n * w) n) (mono_bit bpl pic (j - n * w) n) else data1 ! j)" using d1(2) by auto
  have "foldE ?f [0..<Suc n] (0, data) = Inr (Suc n * w, data2)" using d1(1) d2(1) by (simp add: foldE_snoc add.commute)
  moreover have "data2 ! (y * w + x) = mono_pixel fg bg transparent (mono_bit bpl msk x y) (mono_bit bpl pic x y)" if "y < Suc n" "x < w" for y x
  proof -
    have "Suc y * w \<le> h * w" using that(1) Suc.prems by (intro mult_le_mono1) simp
    then have j: "y * w + x < length data" using that(2) assms(1) by (simp add: ac_simps)
    have "y < n \<Longrightarrow> Suc y * w \<le> n * w" by (intro mult_le_mono1) simp
    then have "y < n \<Longrightarrow> y * w + x < n * w" using that(2) by simp
    then show ?thesis using d2(3) [OF j] d1(3) [of y x] that by (cases "y = n") auto
  qed
  ultimately show ?case using d2(2) by blast
qed

lemma opaque_pixel:
  assumes "fg < 0x1000000"
  shows "(0xff000000 OR fg) AND 0xff000000 = (0xff000000 :: u32)" "(0xff000000 OR fg) AND 0x00ffffff = fg"
proof -
  have m: "fg AND 0xff000000 = 0" "fg AND 0x00ffffff = fg"
  proof -
    have "uint fg < 2 ^ 24" using assms by (simp add: word_less_def)
    then have "uint (take_bit 24 fg) = uint fg" by (simp add: unsigned_take_bit_eq take_bit_int_eq_self)
    then have "take_bit 24 fg = fg" by (simp only: word_uint_eq_iff)
    then have "fg AND mask 24 = fg" by (simp add: take_bit_eq_mask)
    then show f: "fg AND 0x00ffffff = fg" by (simp add: mask_eq_exp_minus_1)
    have "fg AND 0xff000000 = fg AND (0x00ffffff AND 0xff000000)" using f by (metis and.assoc)
    then show "fg AND 0xff000000 = 0" by simp
  qed
  show "(0xff000000 OR fg) AND 0xff000000 = (0xff000000 :: u32)" by (simp add: bit.conj_disj_distrib2 m)
  show "(0xff000000 OR fg) AND 0x00ffffff = fg" by (simp add: bit.conj_disj_distrib2 m)
qed

text \<open>
  C34. A cursor that was made from a pair of bitmaps gives the bitmaps back: no access leaves an array, the mask is the one that was set, and
  the image is what was set wherever the mask shows it.
\<close>

theorem mono_cursor_roundtrip:
  assumes "length (c_data c) = c_width c * c_height c" "length pic = cursor_get_mono_bpl c * c_height c" "length msk = length pic"
    and "fg \<noteq> bg" "fg < 0x1000000" "bg < 0x1000000" "length buf1 = length pic" "length buf2 = length pic"
  shows "\<exists>c' pic' msk'. cursor_set_mono fg bg pic transparent msk c = Inr c'
    \<and> cursor_get_mono_image c' fg buf1 = Inr pic' \<and> cursor_get_mono_mask c' transparent buf2 = Inr msk'
    \<and> (\<forall>x < c_width c. \<forall>y < c_height c. mono_bit (cursor_get_mono_bpl c) msk' x y = mono_bit (cursor_get_mono_bpl c) msk x y
        \<and> mono_bit (cursor_get_mono_bpl c) pic' x y =
            (mono_bit (cursor_get_mono_bpl c) pic x y \<and> mono_bit (cursor_get_mono_bpl c) msk x y \<noteq> transparent))"
proof -
  let ?w = "c_width c" and ?h = "c_height c" and ?bpl = "cursor_get_mono_bpl c"
  have bpl: "?bpl = (?w + 7) div 8" by (simp add: cursor_get_mono_bpl_def)
  have "length msk = ?bpl * ?h" using assms(2,3) by simp
  from set_rows [OF assms(1) bpl this assms(2) order_refl, of fg bg transparent] obtain data where
    s: "foldE (\<lambda>y (d, data). bindE (foldE (set_mono_step fg bg pic transparent msk (y * ?bpl)) [0..<?w] (d, 0x80, data))
        (\<lambda>(d, b, data). Inr (d, data))) [0..<?h] (0, c_data c) = Inr (?h * ?w, data)" "length data = length (c_data c)"
      "\<And>y x. y < ?h \<Longrightarrow> x < ?w \<Longrightarrow> data ! (y * ?w + x) = mono_pixel fg bg transparent (mono_bit ?bpl msk x y) (mono_bit ?bpl pic x y)" by blast
  define c' where "c' = c\<lparr>c_data := data\<rparr>"
  have c': "cursor_set_mono fg bg pic transparent msk c = Inr c'" "c_width c' = ?w" "c_height c' = ?h" "c_data c' = data" "cursor_get_mono_bpl c' = ?bpl"
    using s(1) by (simp_all add: cursor_set_mono_def c'_def cursor_get_mono_bpl_def)
  have len: "length (c_data c') = c_width c' * c_height c'" "length buf1 = cursor_get_mono_bpl c' * c_height c'"
    "length buf2 = cursor_get_mono_bpl c' * c_height c'" using assms s(2) c' by simp_all
  note px = opaque_pixel [OF assms(5)] opaque_pixel [OF assms(6)]
  from get_mono_spec [OF len(1,2), of "\<lambda>p. p AND 0xff000000 = 0xff000000 \<and> p AND 0x00ffffff = fg"] obtain pic' where
    p: "cursor_get_mono_image c' fg buf1 = Inr pic'" "\<And>x y. x < ?w \<Longrightarrow> y < ?h \<Longrightarrow> mono_bit ?bpl pic' x y =
      (data ! (y * ?w + x) AND 0xff000000 = 0xff000000 \<and> data ! (y * ?w + x) AND 0x00ffffff = fg)"
    unfolding cursor_get_mono_image_def c'(2-5) by blast
  from get_mono_spec [OF len(1,3), of "\<lambda>p. if p AND 0xff000000 \<noteq> 0xff000000 then transparent else \<not> transparent"] obtain msk' where
    m: "cursor_get_mono_mask c' transparent buf2 = Inr msk'" "\<And>x y. x < ?w \<Longrightarrow> y < ?h \<Longrightarrow> mono_bit ?bpl msk' x y =
      (if data ! (y * ?w + x) AND 0xff000000 \<noteq> 0xff000000 then transparent else \<not> transparent)"
    unfolding cursor_get_mono_mask_def c'(2-5) by blast
  have "mono_bit ?bpl msk' x y = mono_bit ?bpl msk x y \<and> mono_bit ?bpl pic' x y = (mono_bit ?bpl pic x y \<and> mono_bit ?bpl msk x y \<noteq> transparent)"
    if "x < ?w" "y < ?h" for x y
    using p(2) [OF that] m(2) [OF that] s(3) [OF that(2,1)] px assms(4) by (auto simp: mono_pixel_def)
  then show ?thesis using c'(1) p(1) m(1) by blast
qed

subsection \<open>Built-in cursors\<close>

text \<open>
  The loop over a row of an XPM image runs to the image's height: an image that is taller than wide is written past its end.
\<close>

theorem tall_xpm_overruns:
  assumes "width < height"
  shows "xpm_pixels ctab rows width height = Inl Buffer_Overrun"
proof -
  have row: "p' = p + n \<and> p' \<le> length data' \<and> length data' = length data"
    if "foldE (xpm_step ctab row) [0..<n] (p, data) = Inr (p', data')" "p \<le> length data" for row n p data p' data'
    using that
  proof (induction n arbitrary: p' data')
    case (Suc n)
    then obtain p1 data1 where s: "foldE (xpm_step ctab row) [0..<n] (p, data) = Inr (p1, data1)" "xpm_step ctab row n (p1, data1) = Inr (p', data')"
      by (auto simp: foldE_snoc bindE_eq_Inr)
    show ?case using Suc.IH [OF s(1) Suc.prems(2)] s(2) by (simp add: xpm_step_def Let_def split: if_splits) auto
  qed simp
  let ?f = "\<lambda>y s. if y \<ge> length rows then Inl Buffer_Overrun else foldE (xpm_step ctab (rows ! y)) [0..<height] s"
  have rows: "p' = n * height \<and> p' \<le> length data' \<and> length data' = length data"
    if "foldE ?f [0..<n] (0, data) = Inr (p', data')" for n data p' data'
    using that
  proof (induction n arbitrary: p' data')
    case (Suc n)
    then obtain p1 data1 where "foldE ?f [0..<n] (0, data) = Inr (p1, data1)" "?f n (p1, data1) = Inr (p', data')"
      by (auto simp: foldE_snoc bindE_eq_Inr)
    then show ?case using Suc.IH [of p1 data1] row [of "rows ! n" height p1 data1 p' data'] by (auto split: if_splits)
  qed simp
  have only: "e = Buffer_Overrun" if "foldE ?f ys s = Inl e" for ys s e
  proof -
    have inner: "e = Buffer_Overrun" if "foldE (xpm_step ctab row) xs s = Inl e" for row xs s e
      using that by (induction xs arbitrary: s) (auto simp: bindE_def xpm_step_def Let_def split: sum.splits prod.splits if_splits)
    show ?thesis using that by (induction ys arbitrary: s) (auto simp: bindE_def split: sum.splits if_splits dest: inner)
  qed
  have "width * height < height * height" using assms by simp
  then show ?thesis
    using rows [of height "replicate (width * height) 0"] only [of "[0..<height]" "(0, replicate (width * height) 0)"]
    by (cases "foldE ?f [0..<height] (0, replicate (width * height) 0)") (auto simp: xpm_pixels_def cursor_alloc_def)
qed

subsection \<open>Examples\<close>

definition arrow :: QEMUCursor where
  "arrow = cursor_alloc 2 1"

theorem mono_cursor_roundtrip_witness:
  "\<exists>c' pic' msk'. cursor_set_mono 0xffffff 0 [0x40] True [0x80] arrow = Inr c' \<and> cursor_get_mono_image c' 0xffffff [0] = Inr pic'
    \<and> cursor_get_mono_mask c' True [0] = Inr msk' \<and> mono_bit 1 msk' 0 0 \<and> mono_bit 1 pic' 1 0"
proof -
  have a: "length (c_data arrow) = c_width arrow * c_height arrow" "c_width arrow = 2" "c_height arrow = 1" "cursor_get_mono_bpl arrow = 1"
    by (simp_all add: arrow_def cursor_alloc_def cursor_get_mono_bpl_def)
  have b: "mono_bit 1 [0x80] 0 0" "mono_bit 1 [0x40] 1 0" "\<not> mono_bit 1 [0x80] 1 0" by (simp_all add: mono_bit_def)
  from mono_cursor_roundtrip [OF a(1), of "[0x40]" "[0x80]" "0xffffff" 0 "[0]" "[0]" True] b
  show ?thesis unfolding a(2-4) by fastforce
qed

theorem tall_xpm_overruns_witness: "xpm_pixels [0] [''a'', ''b''] 1 2 = Inl Buffer_Overrun"
  using tall_xpm_overruns [of 1 2 "[0]" "[''a'', ''b'']"] by simp

end
