(* ===== verification/Sdl_Window.thy ===== *)
theory Sdl_Window
  imports Input_Core Frame_Buffer Cursor
begin

text \<open>
  The SDL window, src/Qemu-2.4.1/ui/sdl.c with the key tables of ui/x_keymap.c: keyboard and mouse
  events of the host become events of the input layer, the input grab follows the mouse mode and
  the key combinations, and the window is resized and switched to full screen.  SDL itself, the
  keyboard layout file and the consoles are the parameter \<open>sdl_env\<close>; calls that only have an effect
  outside are recorded in \<open>sdl_log\<close>.  Flags that the code keeps in an \<^verbatim>\<open>int\<close> are truth values.
\<close>

datatype cursor = Normal_Cursor | Guest_Sprite

datatype sdl_call =
    Grab_Input bool
  | Show_Cursor
  | Set_Cursor cursor
  | Warp_Mouse int int
  | Set_Caption string string
  | Hw_Invalidate
  | Hw_Update
  | Put_Keysym int
  | Refresh_Interval int
  | Shutdown_Request
  | Update_Rect int int int int
  | Create_Cursor "u8 list" "u8 list" nat nat int int
  | Free_Cursor
  | Quit_Video
  | Key_Repeat int int
  | Start_Thread

record sdl_env =
  has_focus :: bool
  mouse_state :: "int \<times> int \<times> u32"
  mod_state :: u32
  set_video_mode :: "bool \<Rightarrow> bool \<Rightarrow> int \<Rightarrow> int \<Rightarrow> int \<Rightarrow> (SDL_Surface \<times> int) option"
  has_evdev :: bool
  kbd_layout :: "(int \<Rightarrow> int) option"
  console_graphic :: "int \<Rightarrow> bool"
  running :: bool
  qemu_name :: "string option"
  blit :: "SDL_Surface \<Rightarrow> SDL_Surface option"
  fb_ok :: bool
  alt_grab :: bool
  ctrl_grab :: bool
  cursor_hide :: bool
  no_quit :: bool

text \<open>\<open>real_bpp\<close> is \<^verbatim>\<open>real_screen->format->BitsPerPixel\<close>, \<open>surf_\<close> the guest's display surface, \<open>graphic\<close>
  whether the selected console is graphic.  \<open>screen_open\<close> and \<open>guest_sprite\<close> say that the pointers \<^verbatim>\<open>real_screen\<close> and
  \<^verbatim>\<open>guest_sprite\<close> are set.\<close>

record 'd sdl =
  inp :: "'d input"
  con :: "console option"
  graphic :: bool
  screen_open :: bool
  real_screen :: SDL_Surface
  real_bpp :: int
  surf_w :: int
  surf_h :: int
  surf_bpp :: int
  gui_grab :: bool
  last_vm_running :: bool
  gui_saved_scaling :: bool
  gui_saved_width :: int
  gui_saved_height :: int
  gui_saved_grab :: bool
  gui_fullscreen :: bool
  gui_noframe :: bool
  gui_key_modifier_pressed :: bool
  gui_keysym :: bool
  modifiers_state :: "bool list"
  absolute_enabled :: bool
  guest_cursor :: bool
  guest_sprite :: bool
  guest_x :: int
  guest_y :: int
  scaling_active :: bool
  screen_mod :: bool
  prev_state :: u32
  play_test :: int
  fbuf :: frame
  sdl_log :: "sdl_call list"

record sdl_key =
  k_sym :: int
  k_scancode :: int
  k_mod :: u32
  k_unicode :: int

datatype sdl_event =
    SDL_VIDEOEXPOSE
  | SDL_KEYDOWN sdl_key
  | SDL_KEYUP sdl_key
  | SDL_QUIT
  | SDL_MOUSEMOTION int int int int u32
  | SDL_MOUSEBUTTONDOWN nat int int
  | SDL_MOUSEBUTTONUP nat int int
  | SDL_ACTIVEEVENT bool u32
  | SDL_VIDEORESIZE int int

definition KMOD_LSHIFT :: u32 where "KMOD_LSHIFT = 0x01"
definition KMOD_LCTRL :: u32 where "KMOD_LCTRL = 0x40"
definition KMOD_RCTRL :: u32 where "KMOD_RCTRL = 0x80"
definition KMOD_LALT :: u32 where "KMOD_LALT = 0x100"
definition gui_grab_code :: u32 where "gui_grab_code = KMOD_LALT OR KMOD_LCTRL"
definition SDL_APPACTIVE :: u32 where "SDL_APPACTIVE = 4"

definition log_call :: "sdl_call \<Rightarrow> 'd sdl \<Rightarrow> 'd sdl" where
  "log_call c st = st\<lparr>sdl_log := sdl_log st @ [c]\<rparr>"

definition with_inp :: "('d input \<Rightarrow> 'd input) \<Rightarrow> 'd sdl \<Rightarrow> 'd sdl" where
  "with_inp f st = st\<lparr>inp := f (inp st)\<rparr>"

subsection \<open>Video modes\<close>

definition do_sdl_resize :: "sdl_env \<Rightarrow> int \<Rightarrow> int \<Rightarrow> int \<Rightarrow> 'd sdl \<Rightarrow> c_fault + 'd sdl" where
  "do_sdl_resize env width height bpp st =
     (case set_video_mode env (gui_fullscreen st) (gui_noframe st) width height bpp of
        None \<Rightarrow> if screen_open st then Inr st else Inl Process_Exit
      | Some (scr, b) \<Rightarrow> Inr (st\<lparr>screen_open := True, real_screen := scr, real_bpp := b\<rparr>))"

text \<open>\<^verbatim>\<open>sdl_switch\<close> with the geometry of the new surface, or \<open>None\<close> for \<^verbatim>\<open>NULL\<close>.\<close>

definition sdl_switch :: "sdl_env \<Rightarrow> (int \<times> int \<times> int) option \<Rightarrow> 'd sdl \<Rightarrow> c_fault + 'd sdl" where
  "sdl_switch env new_surface st0 =
     (let st = (case new_surface of None \<Rightarrow> st0
                | Some (w, h, b) \<Rightarrow> st0\<lparr>surf_w := w, surf_h := h, surf_bpp := b\<rparr>)
      in if \<not> scaling_active st then do_sdl_resize env (surf_w st) (surf_h st) 0 st
         else if real_bpp st \<noteq> surf_bpp st
         then do_sdl_resize env (sf_w (real_screen st)) (sf_h (real_screen st)) (surf_bpp st) st
         else Inr st)"

datatype pixman_format = PIXMAN_x8r8g8b8 | PIXMAN_b8g8r8x8 | PIXMAN_x1r5g5b5 | PIXMAN_r5g6b5 | PIXMAN_other

definition sdl_check_format :: "pixman_format \<Rightarrow> bool" where
  "sdl_check_format f \<longleftrightarrow> f = PIXMAN_x8r8g8b8 \<or> f = PIXMAN_b8g8r8x8 \<or> f = PIXMAN_x1r5g5b5 \<or> f = PIXMAN_r5g6b5"

definition sdl_scale :: "sdl_env \<Rightarrow> int \<Rightarrow> int \<Rightarrow> 'd sdl \<Rightarrow> c_fault + 'd sdl" where
  "sdl_scale env width height st =
     (let bpp = (if real_bpp st \<noteq> 16 \<and> real_bpp st \<noteq> 32 then 32 else real_bpp st)
      in bindE (do_sdl_resize env width height bpp st) (\<lambda>st. Inr (st\<lparr>scaling_active := True\<rparr>)))"

subsection \<open>Keys\<close>

definition x_keycode_to_pc_keycode :: "int list" where
  "x_keycode_to_pc_keycode =
     [0xc7, 0xc8, 0xc9, 0xcb, 0x4c, 0xcd, 0xcf, 0xd0, 0xd1, 0xd2, 0xd3, 0x9c, 0x9d, 0x0, 0xb7, 0xb5,
      0xb8, 0xc6, 0x0, 0x0, 0x0, 0x0, 0x0, 0x0, 0x0, 0x0, 0x0, 0x0, 0x0, 0x0, 0x0, 0x0,
      0x79, 0x0, 0x7b, 0x0, 0x7d, 0x0, 0x0, 0x47, 0x48, 0x49, 0x4b, 0x4c, 0x4d, 0x4f, 0x50, 0x51,
      0x52, 0x53, 0x47, 0x48, 0x49, 0x4b, 0x4c, 0x4d, 0x4f, 0x50, 0x51, 0x52, 0x53] @ replicate 54 0"

definition evdev_keycode_to_pc_keycode :: "int list" where
  "evdev_keycode_to_pc_keycode =
     [0x73, 0, 0, 0x79, 0x70, 0x7b, 0, 0x9c, 0x9d, 0xb5, 0xb7, 0xb8, 0, 0xc7, 0xc8, 0xc9,
      0xcb, 0xcd, 0xcf, 0xd0, 0xd1, 0xd2, 0xd3, 0, 0, 0, 0, 0, 0, 0, 0, 0,
      0x7e, 0xf1, 0xf2, 0x7d, 0xdb, 0xdc, 0xdd, 0, 0, 0, 0, 0, 0, 0, 0, 0,
      0, 0, 0, 0, 0, 0, 0, 0, 0, 0, 0, 0, 0]"

definition translate_xfree86_keycode :: "int \<Rightarrow> int" where
  "translate_xfree86_keycode key = x_keycode_to_pc_keycode ! nat key"

definition translate_evdev_keycode :: "int \<Rightarrow> int" where
  "translate_evdev_keycode key = evdev_keycode_to_pc_keycode ! nat key"

definition sdl_keyevent_to_keycode :: "sdl_env \<Rightarrow> sdl_key \<Rightarrow> int" where
  "sdl_keyevent_to_keycode env ev =
     (let keycode = k_scancode ev
      in if keycode < 9 then 0
         else if keycode < 97 then keycode - 8
         else if keycode < 158 then
           (if has_evdev env then translate_evdev_keycode (keycode - 97) else translate_xfree86_keycode (keycode - 97))
         else if keycode = 208 then 0x70
         else if keycode = 211 then 0x73
         else 0)"

definition sdl_keyevent_to_keycode_generic :: "(int \<Rightarrow> int) \<Rightarrow> sdl_key \<Rightarrow> int" where
  "sdl_keyevent_to_keycode_generic keysym2scancode ev =
     (let keysym = k_sym ev;
          keysym = (if keysym = 0 \<and> k_scancode ev = 113 then 313 else keysym);
          keysym = (if keysym = 92 \<and> k_scancode ev = 133 then 0xa5 else keysym)
      in keysym2scancode keysym mod 256)"

definition send_key :: "int \<Rightarrow> bool \<Rightarrow> 'd sdl \<Rightarrow> 'd sdl" where
  "send_key keycode down st = with_inp (qemu_input_event_send_key_number (con st) keycode down) st"

definition reset_key :: "nat \<Rightarrow> 'd sdl \<Rightarrow> 'd sdl" where
  "reset_key i st =
     (if modifiers_state st ! i
      then let st = send_key (int i) False st in st\<lparr>modifiers_state := (modifiers_state st)[i := False]\<rparr>
      else st)"

definition reset_keys :: "'d sdl \<Rightarrow> 'd sdl" where
  "reset_keys st = fold reset_key [0..<256] st"

definition is_modifier :: "int \<Rightarrow> bool" where
  "is_modifier k \<longleftrightarrow> k \<in> {0x2a, 0x36, 0x1d, 0x9d, 0x38, 0xb8}"

definition sdl_process_key :: "sdl_env \<Rightarrow> bool \<Rightarrow> sdl_key \<Rightarrow> 'd sdl \<Rightarrow> 'd sdl" where
  "sdl_process_key env down ev st =
     (if k_sym ev = 19 then with_inp (qemu_input_event_send_key_qcode (con st) Q_KEY_CODE_PAUSE down) st
      else
        let keycode = (case kbd_layout env of
                         Some keysym2scancode \<Rightarrow> sdl_keyevent_to_keycode_generic keysym2scancode ev
                       | None \<Rightarrow> sdl_keyevent_to_keycode env ev)
        in if keycode = 0 then reset_keys st
           else let st = (if is_modifier keycode
                          then st\<lparr>modifiers_state := (modifiers_state st)[nat keycode := down]\<rparr> else st)
                in send_key keycode down st)"

subsection \<open>Caption, cursor and grab\<close>

definition sdl_update_caption :: "sdl_env \<Rightarrow> 'd sdl \<Rightarrow> 'd sdl" where
  "sdl_update_caption env st =
     (let status = (if \<not> running env then '' [Stopped]''
                    else if gui_grab st then
                      (if alt_grab env then '' - Press Ctrl-Alt-Shift to exit mouse grab''
                       else if ctrl_grab env then '' - Press Right-Ctrl to exit mouse grab''
                       else '' - Press Ctrl-Alt to exit mouse grab'')
                    else []);
          titles = (case qemu_name env of
                      Some name \<Rightarrow> (''QEMU ('' @ name @ '')'' @ status, ''QEMU ('' @ name @ '')'')
                    | None \<Rightarrow> (''QEMU'' @ status, ''QEMU''))
      in log_call (Set_Caption (take 1023 (fst titles)) (take 1023 (snd titles))) st)"

definition absolute :: "'d sdl \<Rightarrow> bool" where
  "absolute st = qemu_input_is_absolute (inp st)"

definition sdl_hide_cursor :: "sdl_env \<Rightarrow> 'd sdl \<Rightarrow> 'd sdl" where
  "sdl_hide_cursor env st =
     (if \<not> cursor_hide env then st
      else if absolute st then log_call (Set_Cursor Normal_Cursor) (log_call Show_Cursor st)
      else log_call Show_Cursor st)"

definition sdl_show_cursor :: "sdl_env \<Rightarrow> 'd sdl \<Rightarrow> 'd sdl" where
  "sdl_show_cursor env st =
     (if \<not> cursor_hide env then st
      else if \<not> absolute st \<or> \<not> graphic st then
        let st = log_call Show_Cursor st
        in if guest_cursor st \<and> (gui_grab st \<or> absolute st \<or> absolute_enabled st)
           then log_call (Set_Cursor Guest_Sprite) st else log_call (Set_Cursor Normal_Cursor) st
      else st)"

definition sdl_grab_start :: "sdl_env \<Rightarrow> 'd sdl \<Rightarrow> 'd sdl" where
  "sdl_grab_start env st0 =
     (if \<not> has_focus env then st0
      else
        let st = (if guest_cursor st0 then
                    let st = log_call (Set_Cursor Guest_Sprite) st0
                    in if \<not> absolute st \<and> \<not> absolute_enabled st
                       then log_call (Warp_Mouse (guest_x st) (guest_y st)) st else st
                  else sdl_hide_cursor env st0)
        in sdl_update_caption env ((log_call (Grab_Input True) st)\<lparr>gui_grab := True\<rparr>))"

definition sdl_grab_end :: "sdl_env \<Rightarrow> 'd sdl \<Rightarrow> 'd sdl" where
  "sdl_grab_end env st =
     sdl_update_caption env (sdl_show_cursor env ((log_call (Grab_Input False) st)\<lparr>gui_grab := False\<rparr>))"

definition absolute_mouse_grab :: "sdl_env \<Rightarrow> 'd sdl \<Rightarrow> 'd sdl" where
  "absolute_mouse_grab env st =
     (let (mouse_x, mouse_y, _) = mouse_state env
      in if mouse_x > 0 \<and> mouse_x < sf_w (real_screen st) - 1 \<and> mouse_y > 0 \<and> mouse_y < sf_h (real_screen st) - 1
         then sdl_grab_start env st else st)"

definition sdl_mouse_mode_change :: "sdl_env \<Rightarrow> 'd sdl \<Rightarrow> 'd sdl" where
  "sdl_mouse_mode_change env st =
     (if absolute st then
        if \<not> absolute_enabled st then
          let st = st\<lparr>absolute_enabled := True\<rparr>
          in if graphic st then absolute_mouse_grab env st else st
        else st
      else if absolute_enabled st then
        let st = (if \<not> gui_fullscreen st then sdl_grab_end env st else st)
        in st\<lparr>absolute_enabled := False\<rparr>
      else st)"

subsection \<open>Mouse\<close>

fun sdl_bmap :: "InputButton \<Rightarrow> u32" where
  "sdl_bmap INPUT_BUTTON_LEFT = push_bit 0 1"
| "sdl_bmap INPUT_BUTTON_MIDDLE = push_bit 1 1"
| "sdl_bmap INPUT_BUTTON_RIGHT = push_bit 2 1"
| "sdl_bmap INPUT_BUTTON_WHEEL_UP = push_bit 3 1"
| "sdl_bmap INPUT_BUTTON_WHEEL_DOWN = push_bit 4 1"

text \<open>\<^verbatim>\<open>state\<close> is an \<^verbatim>\<open>int\<close> that is compared with and stored in a \<^verbatim>\<open>uint32_t\<close>.\<close>

definition sdl_send_mouse_event :: "int \<Rightarrow> int \<Rightarrow> int \<Rightarrow> int \<Rightarrow> u32 \<Rightarrow> 'd sdl \<Rightarrow> 'd sdl" where
  "sdl_send_mouse_event dx dy x y state st0 =
     (let st1 = (if prev_state st0 \<noteq> state
                 then (with_inp (qemu_input_update_buttons (con st0) sdl_bmap (prev_state st0) state) st0)\<lparr>prev_state := state\<rparr>
                 else st0);
          st2 = (if absolute st1 then
                   with_inp (qemu_input_queue_abs (con st1) INPUT_AXIS_Y y (sf_h (real_screen st1)))
                     (with_inp (qemu_input_queue_abs (con st1) INPUT_AXIS_X x (sf_w (real_screen st1))) st1)
                 else
                   let (dx, dy, st) = (if guest_cursor st1
                         then (x - guest_x st1, y - guest_y st1, st1\<lparr>guest_x := x, guest_y := y\<rparr>)
                         else (dx, dy, st1))
                   in with_inp (qemu_input_queue_rel (con st) INPUT_AXIS_Y dy)
                        (with_inp (qemu_input_queue_rel (con st) INPUT_AXIS_X dx) st))
      in with_inp qemu_input_event_sync st2)"

definition sdl_mouse_warp :: "sdl_env \<Rightarrow> int \<Rightarrow> int \<Rightarrow> bool \<Rightarrow> 'd sdl \<Rightarrow> 'd sdl" where
  "sdl_mouse_warp env x y on st0 =
     (let st = (if on then
                  let st = (if \<not> guest_cursor st0 then sdl_show_cursor env st0 else st0)
                  in if gui_grab st \<or> absolute st \<or> absolute_enabled st then
                       let st = log_call (Set_Cursor Guest_Sprite) st
                       in if \<not> absolute st \<and> \<not> absolute_enabled st then log_call (Warp_Mouse x y) st else st
                     else st
                else if gui_grab st0 then sdl_hide_cursor env st0 else st0)
      in st\<lparr>guest_cursor := on, guest_x := x, guest_y := y\<rparr>)"

definition sdl_mouse_define :: "QEMUCursor \<Rightarrow> 'd sdl \<Rightarrow> c_fault + 'd sdl" where
  "sdl_mouse_define c st0 =
     (let st1 = (if guest_sprite st0 then log_call Free_Cursor st0 else st0);
          blank = replicate (cursor_get_mono_bpl c * c_height c) 0
      in bindE (cursor_get_mono_image c 0x000000 blank) (\<lambda>pic.
         bindE (cursor_get_mono_mask c False blank) (\<lambda>msk.
           let st2 = (log_call (Create_Cursor pic msk (c_width c) (c_height c) (c_hot_x c) (c_hot_y c)) st1)\<lparr>guest_sprite := True\<rparr>
           in Inr (if guest_cursor st2 \<and> (gui_grab st2 \<or> absolute st2 \<or> absolute_enabled st2)
                   then log_call (Set_Cursor Guest_Sprite) st2 else st2))))"

definition sdl_cleanup :: "'d sdl \<Rightarrow> 'd sdl" where
  "sdl_cleanup st = log_call Quit_Video (if guest_sprite st then log_call Free_Cursor st else st)"

text \<open>\<^verbatim>\<open>sdl_display_init\<close>; \<open>None\<close> is \<^verbatim>\<open>exit\<close>, when the keyboard layout cannot be read or SDL not be initialised.  The registrations
  with the display and the mouse mode are left to the steps below.\<close>

definition sdl_display_init :: "sdl_env \<Rightarrow> bool \<Rightarrow> bool \<Rightarrow> bool \<Rightarrow> bool \<Rightarrow> 'd sdl \<Rightarrow> 'd sdl option" where
  "sdl_display_init env layout_ok init_ok full_screen no_frame st0 =
     (let st1 = log_call Start_Thread st0
      in if \<not> layout_ok then None
         else
           let st2 = (if no_frame then st1\<lparr>gui_noframe := True\<rparr> else st1)
           in if \<not> init_ok then None
              else
                let st3 = (if full_screen then sdl_grab_start env (st2\<lparr>gui_fullscreen := True\<rparr>) else st2);
                    st4 = log_call (Key_Repeat 250 50) (sdl_update_caption env st3)
                in Some (st4\<lparr>gui_grab := False\<rparr>))"

definition handle_mousemotion :: "sdl_env \<Rightarrow> int \<Rightarrow> int \<Rightarrow> int \<Rightarrow> int \<Rightarrow> u32 \<Rightarrow> 'd sdl \<Rightarrow> 'd sdl" where
  "handle_mousemotion env x y xrel yrel state st0 =
     (let st = (if graphic st0 \<and> (absolute st0 \<or> absolute_enabled st0) then
                  let max_x = sf_w (real_screen st0) - 1; max_y = sf_h (real_screen st0) - 1;
                      st1 = (if gui_grab st0 \<and> (x = 0 \<or> y = 0 \<or> x = max_x \<or> y = max_y)
                             then sdl_grab_end env st0 else st0)
                  in if \<not> gui_grab st1 \<and> x > 0 \<and> x < max_x \<and> y > 0 \<and> y < max_y
                     then sdl_grab_start env st1 else st1
                else st0)
      in if gui_grab st \<or> absolute st \<or> absolute_enabled st
         then sdl_send_mouse_event xrel yrel x y state st else st)"

definition handle_mousebutton :: "sdl_env \<Rightarrow> bool \<Rightarrow> nat \<Rightarrow> int \<Rightarrow> int \<Rightarrow> 'd sdl \<Rightarrow> 'd sdl" where
  "handle_mousebutton env down button x y st =
     (let buttonstate = snd (snd (mouse_state env))
      in if \<not> graphic st then st
         else if \<not> gui_grab st \<and> \<not> absolute st then
           if \<not> down \<and> button = 1 then sdl_grab_start env st else st
         else
           let buttonstate = (if down then buttonstate OR push_bit (button - 1) 1
                              else buttonstate AND NOT (push_bit (button - 1) 1))
           in sdl_send_mouse_event 0 0 x y buttonstate st)"

definition handle_activation :: "sdl_env \<Rightarrow> bool \<Rightarrow> u32 \<Rightarrow> 'd sdl \<Rightarrow> 'd sdl" where
  "handle_activation env gain state st0 =
     (let st = (if \<not> gui_grab st0 \<and> gain \<and> graphic st0 \<and> (absolute st0 \<or> absolute_enabled st0)
                then absolute_mouse_grab env st0 else st0)
      in if state AND SDL_APPACTIVE \<noteq> 0
         then log_call (Refresh_Interval (if gain then 30 else 500)) st else st)"

subsection \<open>Full screen and key combinations\<close>

definition hw_refresh :: "'d sdl \<Rightarrow> 'd sdl" where
  "hw_refresh st = log_call Hw_Update (log_call Hw_Invalidate st)"

definition toggle_full_screen :: "sdl_env \<Rightarrow> 'd sdl \<Rightarrow> c_fault + 'd sdl" where
  "toggle_full_screen env st0 =
     (let st = st0\<lparr>gui_fullscreen := \<not> gui_fullscreen st0\<rparr>
      in if gui_fullscreen st then
           let st = st\<lparr>gui_saved_scaling := scaling_active st, gui_saved_width := sf_w (real_screen st),
                      gui_saved_height := sf_h (real_screen st)\<rparr>
           in bindE (do_sdl_resize env (surf_w st) (surf_h st) (surf_bpp st) st) (\<lambda>st.
                Inr (hw_refresh (sdl_grab_start env (st\<lparr>gui_saved_grab := gui_grab st, scaling_active := False\<rparr>))))
         else
           bindE (if gui_saved_scaling st then sdl_scale env (gui_saved_width st) (gui_saved_height st) st
                  else do_sdl_resize env (surf_w st) (surf_h st) 0 st) (\<lambda>st.
             Inr (hw_refresh (if \<not> gui_saved_grab st \<or> \<not> graphic st then sdl_grab_end env st else st))))"

definition console_select :: "sdl_env \<Rightarrow> int \<Rightarrow> 'd sdl \<Rightarrow> 'd sdl" where
  "console_select env n st = st\<lparr>graphic := console_graphic env n\<rparr>"

text \<open>The switch of \<^verbatim>\<open>handle_keydown\<close> for a key pressed together with the grab modifiers.\<close>

definition keydown_combination :: "sdl_env \<Rightarrow> int \<Rightarrow> 'd sdl \<Rightarrow> c_fault + 'd sdl" where
  "keydown_combination env keycode st =
     (if keycode = 0x21 then bindE (toggle_full_screen env st) (\<lambda>st. Inr (st\<lparr>gui_keysym := True\<rparr>))
      else if keycode = 0x16 then
        bindE (if scaling_active st
               then bindE (sdl_switch env None (st\<lparr>scaling_active := False\<rparr>)) (\<lambda>st. Inr (hw_refresh st))
               else Inr st) (\<lambda>st. Inr (st\<lparr>gui_keysym := True\<rparr>))
      else if 0x02 \<le> keycode \<and> keycode \<le> 0x0a then
        let st = (console_select env (keycode - 0x02) (reset_keys st))\<lparr>gui_keysym := True\<rparr>
        in Inr (if gui_fullscreen st then st
                else if \<not> graphic st then
                  (if gui_grab st then sdl_grab_end env st
                   else if absolute_enabled st then sdl_show_cursor env st else st)
                else if absolute_enabled st then absolute_mouse_grab env (sdl_hide_cursor env st)
                else st)
      else if keycode = 0x1b \<or> keycode = 0x35 then
        if \<not> gui_fullscreen st then
          let width = max (sf_w (real_screen st) + (if keycode = 0x1b then 50 else -50)) 160
          in bindE (c_divE (surf_h st * width) (surf_w st)) (\<lambda>height.
             bindE (sdl_scale env width height st) (\<lambda>st. Inr ((hw_refresh st)\<lparr>gui_keysym := True\<rparr>)))
        else Inr st
      else Inr st)"

definition console_keysym :: "sdl_key \<Rightarrow> int" where
  "console_keysym k =
     (let sym = k_sym k
      in if k_mod k AND (KMOD_LCTRL OR KMOD_RCTRL) \<noteq> 0 then
           (if sym = 273 then 0xe400 else if sym = 274 then 0xe401 else if sym = 276 then 0xe402
            else if sym = 275 then 0xe403 else if sym = 278 then 0xe404 else if sym = 279 then 0xe405
            else if sym = 280 then 0xe406 else if sym = 281 then 0xe407 else 0)
         else
           (if sym = 273 then 0xe141 else if sym = 274 then 0xe142 else if sym = 276 then 0xe144
            else if sym = 275 then 0xe143 else if sym = 278 then 0xe101 else if sym = 279 then 0xe104
            else if sym = 280 then 0xe105 else if sym = 281 then 0xe106 else if sym = 8 then 0x7f
            else if sym = 127 then 0xe103 else 0))"

definition handle_keydown :: "sdl_env \<Rightarrow> sdl_key \<Rightarrow> 'd sdl \<Rightarrow> c_fault + 'd sdl" where
  "handle_keydown env k st0 =
     (let pressed = (if alt_grab env then mod_state env AND (gui_grab_code OR KMOD_LSHIFT) = gui_grab_code OR KMOD_LSHIFT
                     else if ctrl_grab env then mod_state env AND KMOD_RCTRL = KMOD_RCTRL
                     else mod_state env AND gui_grab_code = gui_grab_code);
          st = st0\<lparr>gui_key_modifier_pressed := pressed\<rparr>
      in bindE (if pressed then keydown_combination env (sdl_keyevent_to_keycode env k) st
                else if \<not> graphic st then
                  Inr (if console_keysym k \<noteq> 0 then log_call (Put_Keysym (console_keysym k)) st
                       else if k_unicode k \<noteq> 0 then log_call (Put_Keysym (k_unicode k)) st else st)
                else Inr st) (\<lambda>st.
           Inr (if graphic st \<and> \<not> gui_keysym st then sdl_process_key env True k st else st)))"

definition handle_keyup :: "sdl_env \<Rightarrow> sdl_key \<Rightarrow> 'd sdl \<Rightarrow> 'd sdl" where
  "handle_keyup env k st00 =
     (let st0 = st00\<lparr>play_test := play_test st00 + 1\<rparr>;
          mods = (if \<not> alt_grab env then k_mod k AND gui_grab_code else k_mod k AND (gui_grab_code OR KMOD_LSHIFT));
          finish = (\<lambda>st. if graphic st \<and> \<not> gui_keysym st then sdl_process_key env False k st else st)
      in if mods = 0 \<and> gui_key_modifier_pressed st0 then
           let st = st0\<lparr>gui_key_modifier_pressed := False\<rparr>
           in if \<not> gui_keysym st then
                reset_keys (if \<not> gui_grab st then (if graphic st then sdl_grab_start env st else st)
                            else if \<not> gui_fullscreen st then sdl_grab_end env st else st)
              else finish (st\<lparr>gui_keysym := False\<rparr>)
         else finish st0)"

subsection \<open>The event loop\<close>

text \<open>\<^verbatim>\<open>sdl_update\<close> of the window, with the frame buffer behind it.\<close>

definition window_update :: "sdl_env \<Rightarrow> bool \<Rightarrow> int \<Rightarrow> int \<Rightarrow> int \<Rightarrow> int \<Rightarrow> 'd sdl \<Rightarrow> c_fault + 'd sdl" where
  "window_update env androidMode x y w h st =
     bindE (sdl_update (blit env) androidMode x y w h (real_screen st, fbuf st)) (\<lambda>(scr, fb).
       Inr (log_call (Update_Rect x y w h) (st\<lparr>real_screen := scr, fbuf := fb\<rparr>)))"

definition new_frame :: "sdl_env \<Rightarrow> bool \<Rightarrow> int \<Rightarrow> int \<Rightarrow> 'd sdl \<Rightarrow> c_fault + 'd sdl" where
  "new_frame env androidMode w h st =
     bindE (make_frameData (fb_ok env) androidMode (real_screen st) w h (fbuf st)) (\<lambda>fb. Inr (st\<lparr>fbuf := fb\<rparr>))"

definition first_event :: "sdl_env \<Rightarrow> bool \<Rightarrow> int \<Rightarrow> int \<Rightarrow> 'd sdl \<Rightarrow> c_fault + 'd sdl" where
  "first_event env androidMode img_width img_height st =
     (if screen_mod st then Inr st
      else bindE (sdl_scale env img_width img_height (st\<lparr>screen_mod := True\<rparr>)) (\<lambda>st.
           bindE (if androidMode then new_frame env True (sf_h (real_screen st)) (sf_w (real_screen st)) st
                  else new_frame env False (sf_w (real_screen st)) (sf_h (real_screen st)) st) (\<lambda>st.
             Inr (hw_refresh st))))"

fun handle_event :: "sdl_env \<Rightarrow> bool \<Rightarrow> sdl_event \<Rightarrow> 'd sdl \<Rightarrow> c_fault + 'd sdl" where
  "handle_event env a SDL_VIDEOEXPOSE st = window_update env a 0 0 (sf_w (real_screen st)) (sf_h (real_screen st)) st"
| "handle_event env a (SDL_KEYDOWN k) st = handle_keydown env k st"
| "handle_event env a (SDL_KEYUP k) st = Inr (handle_keyup env k st)"
| "handle_event env a SDL_QUIT st = Inr (if no_quit env then st else log_call Shutdown_Request st)"
| "handle_event env a (SDL_MOUSEMOTION x y xrel yrel s) st = Inr (handle_mousemotion env x y xrel yrel s st)"
| "handle_event env a (SDL_MOUSEBUTTONDOWN b x y) st = Inr (handle_mousebutton env True b x y st)"
| "handle_event env a (SDL_MOUSEBUTTONUP b x y) st = Inr (handle_mousebutton env False b x y st)"
| "handle_event env a (SDL_ACTIVEEVENT gain s) st = Inr (handle_activation env gain s st)"
| "handle_event env a (SDL_VIDEORESIZE w h) st =
     bindE (new_frame env a (sf_w (real_screen st)) (sf_h (real_screen st)) st) (\<lambda>st.
     bindE (sdl_scale env w h st) (\<lambda>st. Inr (hw_refresh st)))"

text \<open>\<^verbatim>\<open>sdl_refresh\<close> on the events that are waiting; the handlers follow \<^verbatim>\<open>real_screen\<close>.\<close>

definition sdl_refresh :: "sdl_env \<Rightarrow> bool \<Rightarrow> int \<Rightarrow> int \<Rightarrow> sdl_event list \<Rightarrow> 'd sdl \<Rightarrow> c_fault + 'd sdl" where
  "sdl_refresh env androidMode img_width img_height evs st0 =
     (let st = (if last_vm_running st0 \<noteq> running env
                then sdl_update_caption env (st0\<lparr>last_vm_running := running env\<rparr>) else st0)
      in if evs \<noteq> [] \<and> \<not> screen_open st then Inl Null_Pointer
         else foldE (\<lambda>ev st. bindE (first_event env androidMode img_width img_height st) (handle_event env androidMode ev))
                evs (log_call Hw_Update st))"

subsection \<open>The grab and the modifiers\<close>

text \<open>What SDL was told last about the grab.\<close>

definition grab_of :: "sdl_call list \<Rightarrow> bool" where
  "grab_of log = foldl (\<lambda>g c. case c of Grab_Input b \<Rightarrow> b | _ \<Rightarrow> g) False log"

lemma grab_of_snoc [simp]: "grab_of (log @ [c]) = (case c of Grab_Input b \<Rightarrow> b | _ \<Rightarrow> grab_of log)"
  by (simp add: grab_of_def split: sdl_call.split)

definition window_ok :: "'d sdl \<Rightarrow> bool" where
  "window_ok st \<longleftrightarrow> gui_grab st = grab_of (sdl_log st) \<and> length (modifiers_state st) = 256
     \<and> (\<forall>i < 256. modifiers_state st ! i \<longrightarrow> is_modifier (int i))"

named_theorems window_intros

lemma window_ok_log [window_intros]: "window_ok st \<Longrightarrow> \<not> (\<exists>b. c = Grab_Input b) \<Longrightarrow> window_ok (log_call c st)"
  by (cases c) (auto simp: window_ok_def log_call_def)

lemma window_ok_frame:
  "gui_grab st' = gui_grab st \<Longrightarrow> sdl_log st' = sdl_log st \<Longrightarrow> modifiers_state st' = modifiers_state st \<Longrightarrow>
    window_ok st \<Longrightarrow> window_ok st'"
  by (simp add: window_ok_def)

lemma window_ok_upd [window_intros]:
  "window_ok st \<Longrightarrow> window_ok (with_inp f st)"
  "window_ok st \<Longrightarrow> window_ok (st\<lparr>graphic := b\<rparr>)"
  "window_ok st \<Longrightarrow> window_ok (st\<lparr>gui_keysym := b\<rparr>)"
  "window_ok st \<Longrightarrow> window_ok (st\<lparr>guest_sprite := b\<rparr>)"
  "window_ok st \<Longrightarrow> window_ok (st\<lparr>gui_noframe := b\<rparr>)"
  "window_ok st \<Longrightarrow> window_ok (st\<lparr>gui_key_modifier_pressed := b\<rparr>)"
  "window_ok st \<Longrightarrow> window_ok (st\<lparr>gui_fullscreen := b\<rparr>)"
  "window_ok st \<Longrightarrow> window_ok (st\<lparr>absolute_enabled := b\<rparr>)"
  "window_ok st \<Longrightarrow> window_ok (st\<lparr>scaling_active := b\<rparr>)"
  "window_ok st \<Longrightarrow> window_ok (st\<lparr>screen_mod := b\<rparr>)"
  "window_ok st \<Longrightarrow> window_ok (st\<lparr>last_vm_running := b\<rparr>)"
  "window_ok st \<Longrightarrow> window_ok (st\<lparr>prev_state := s\<rparr>)"
  "window_ok st \<Longrightarrow> window_ok (st\<lparr>play_test := n\<rparr>)"
  "window_ok st \<Longrightarrow> window_ok (st\<lparr>fbuf := f'\<rparr>)"
  "window_ok st \<Longrightarrow> window_ok (st\<lparr>guest_x := x, guest_y := y\<rparr>)"
  "window_ok st \<Longrightarrow> window_ok (st\<lparr>guest_cursor := b, guest_x := x, guest_y := y\<rparr>)"
  "window_ok st \<Longrightarrow> window_ok (st\<lparr>real_screen := scr, fbuf := f'\<rparr>)"
  "window_ok st \<Longrightarrow> window_ok (st\<lparr>gui_saved_grab := b, scaling_active := b'\<rparr>)"
  "window_ok st \<Longrightarrow> window_ok (st\<lparr>gui_saved_scaling := b, gui_saved_width := x, gui_saved_height := y\<rparr>)"
  "window_ok st \<Longrightarrow> window_ok (st\<lparr>screen_open := b, real_screen := scr, real_bpp := n\<rparr>)"
  "window_ok st \<Longrightarrow> window_ok (st\<lparr>surf_w := x, surf_h := y, surf_bpp := n\<rparr>)"
  by (simp_all add: window_ok_def with_inp_def)

lemma window_ok_grab [window_intros]:
  "window_ok st \<Longrightarrow> window_ok ((log_call (Grab_Input b) st)\<lparr>gui_grab := b\<rparr>)"
  by (simp add: window_ok_def log_call_def)

lemma window_ok_cursor [window_intros]:
  "window_ok st \<Longrightarrow> window_ok (sdl_update_caption env st)"
  "window_ok st \<Longrightarrow> window_ok (sdl_hide_cursor env st)"
  "window_ok st \<Longrightarrow> window_ok (sdl_show_cursor env st)"
  by (auto simp: sdl_update_caption_def sdl_hide_cursor_def sdl_show_cursor_def Let_def intro!: window_intros)

lemma window_ok_grabbing [window_intros]:
  "window_ok st \<Longrightarrow> window_ok (sdl_grab_start env st)"
  "window_ok st \<Longrightarrow> window_ok (sdl_grab_end env st)"
  by (auto simp: sdl_grab_start_def sdl_grab_end_def Let_def intro!: window_intros)

lemma window_ok_absolute [window_intros]:
  "window_ok st \<Longrightarrow> window_ok (absolute_mouse_grab env st)"
  "window_ok st \<Longrightarrow> window_ok (sdl_mouse_mode_change env st)"
  by (auto simp: absolute_mouse_grab_def sdl_mouse_mode_change_def Let_def intro!: window_intros split: prod.split)

lemma window_ok_send [window_intros]:
  "window_ok st \<Longrightarrow> window_ok (sdl_send_mouse_event dx dy x y s st)"
  "window_ok st \<Longrightarrow> window_ok (send_key k d st)"
  "window_ok st \<Longrightarrow> window_ok (sdl_mouse_warp env x y b st)"
  by (auto simp: sdl_send_mouse_event_def send_key_def sdl_mouse_warp_def Let_def intro!: window_intros)

lemma window_ok_mouse [window_intros]:
  "window_ok st \<Longrightarrow> window_ok (handle_mousemotion env x y xrel yrel s st)"
  "window_ok st \<Longrightarrow> window_ok (handle_mousebutton env d b x y st)"
  "window_ok st \<Longrightarrow> window_ok (handle_activation env g s st)"
  unfolding handle_mousemotion_def handle_mousebutton_def handle_activation_def Let_def
  by (auto intro!: window_intros)

lemma window_ok_modifier:
  "window_ok st \<Longrightarrow> b \<longrightarrow> is_modifier (int i) \<Longrightarrow> window_ok (st\<lparr>modifiers_state := (modifiers_state st)[i := b]\<rparr>)"
  by (cases "i < 256") (auto simp: window_ok_def nth_list_update list_update_beyond split: if_splits)

lemma window_ok_reset [window_intros]: "window_ok st \<Longrightarrow> window_ok (reset_keys st)"
proof -
  have "window_ok (reset_key i st)" if "window_ok st" for i st
    using that by (auto simp: reset_key_def Let_def intro!: window_ok_modifier window_intros)
  then have "window_ok (fold reset_key is st)" if "window_ok st" for "is" st
    using that by (induction "is" arbitrary: st) auto
  then show "window_ok st \<Longrightarrow> window_ok (reset_keys st)" by (simp add: reset_keys_def)
qed

lemma window_ok_key [window_intros]: "window_ok st \<Longrightarrow> window_ok (sdl_process_key env d k st)"
proof -
  assume ok: "window_ok st"
  have "is_modifier n \<Longrightarrow> int (nat n) = n" for n by (auto simp: is_modifier_def)
  then show ?thesis
    using ok by (auto simp: sdl_process_key_def Let_def intro!: window_intros window_ok_modifier)
qed

lemma window_ok_resize:
  assumes "window_ok st"
  shows "do_sdl_resize env w h b st = Inr st' \<Longrightarrow> window_ok st'"
    "sdl_scale env w h st = Inr st' \<Longrightarrow> window_ok st'"
    "sdl_switch env sf st = Inr st' \<Longrightarrow> window_ok st'"
proof -
  have r: "window_ok st'" if "do_sdl_resize env w h b st = Inr st'" "window_ok st" for st st' :: "'a sdl" and w h b
    using that by (auto simp: do_sdl_resize_def intro!: window_intros split: option.splits if_splits)
  show "do_sdl_resize env w h b st = Inr st' \<Longrightarrow> window_ok st'" using r assms by blast
  show "sdl_scale env w h st = Inr st' \<Longrightarrow> window_ok st'"
    unfolding sdl_scale_def Let_def using assms by (auto simp: bindE_eq_Inr intro!: window_intros dest: r)
  show "sdl_switch env sf st = Inr st' \<Longrightarrow> window_ok st'"
    unfolding sdl_switch_def Let_def using assms
    by (auto intro: r [rotated] window_intros split: option.splits if_splits)
qed

lemma window_ok_hw_refresh [window_intros]: "window_ok st \<Longrightarrow> window_ok (hw_refresh st)"
  by (auto simp: hw_refresh_def intro!: window_intros)

lemma window_ok_toggle: "toggle_full_screen env st = Inr st' \<Longrightarrow> window_ok st \<Longrightarrow> window_ok st'"
  unfolding toggle_full_screen_def Let_def
  by (auto simp: bindE_eq_Inr intro!: window_intros intro: window_ok_resize [rotated] split: if_splits)

lemma window_ok_combination:
  assumes "keydown_combination env k st = Inr st'" "window_ok st" shows "window_ok st'"
  using assms unfolding keydown_combination_def Let_def console_select_def
  by (auto simp: bindE_eq_Inr intro!: window_intros intro: window_ok_resize [rotated] window_ok_toggle
      split: if_splits)

lemma window_ok_keys:
  assumes "window_ok st"
  shows "handle_keydown env k st = Inr st' \<Longrightarrow> window_ok st'" "window_ok (handle_keyup env k st)"
proof -
  show "handle_keydown env k st = Inr st' \<Longrightarrow> window_ok st'"
    using assms unfolding handle_keydown_def Let_def
    by (auto simp: bindE_eq_Inr intro!: window_intros intro: window_ok_combination split: if_splits)
  show "window_ok (handle_keyup env k st)"
    using assms unfolding handle_keyup_def Let_def by (auto intro!: window_intros)
qed

lemma window_ok_event:
  assumes "handle_event env a ev st = Inr st'" "window_ok st" shows "window_ok st'"
proof (cases ev)
  case SDL_VIDEOEXPOSE
  then show ?thesis using assms by (auto simp: window_update_def bindE_eq_Inr intro!: window_intros)
next
  case (SDL_KEYDOWN k)
  then show ?thesis using assms window_ok_keys(1) by auto
next
  case (SDL_VIDEORESIZE w h)
  then show ?thesis
    using assms by (auto simp: new_frame_def bindE_eq_Inr intro!: window_intros intro: window_ok_resize [rotated])
qed (use assms in \<open>auto intro!: window_intros window_ok_keys(2)\<close>)

lemma window_ok_first:
  "first_event env a w h st = Inr st' \<Longrightarrow> window_ok st \<Longrightarrow> window_ok st'"
  unfolding first_event_def new_frame_def
  by (auto simp: bindE_eq_Inr intro!: window_intros intro: window_ok_resize [rotated] window_intros split: if_splits)

lemma window_ok_refresh:
  assumes "sdl_refresh env a w h evs st = Inr st'" "window_ok st" shows "window_ok st'"
proof -
  let ?f = "\<lambda>ev st. bindE (first_event env a w h st) (handle_event env a ev)"
  have "window_ok st'" if "foldE ?f evs st = Inr st'" "window_ok st" for evs st
    using that
  proof (induction evs arbitrary: st)
    case (Cons ev evs)
    then obtain s1 s2 where "first_event env a w h st = Inr s1" "handle_event env a ev s1 = Inr s2" "foldE ?f evs s2 = Inr st'"
      by (auto simp: bindE_eq_Inr)
    then show ?case using Cons.IH Cons.prems(2) window_ok_first window_ok_event by blast
  qed simp
  then show ?thesis
    using assms unfolding sdl_refresh_def Let_def by (auto intro!: window_intros split: if_splits)
qed

lemma window_ok_init:
  assumes "window_ok st" "\<not> gui_grab st" "sdl_display_init env layout_ok init_ok False no_frame st = Some st'"
  shows "window_ok st'"
proof -
  define s2 where "s2 = (if no_frame then (log_call Start_Thread st)\<lparr>gui_noframe := True\<rparr> else log_call Start_Thread st)"
  define s4 where "s4 = log_call (Key_Repeat 250 50) (sdl_update_caption env s2)"
  have "window_ok s2" using assms(1) by (auto simp: s2_def intro!: window_intros)
  then have "window_ok s4" by (auto simp: s4_def intro!: window_intros)
  moreover have "\<not> gui_grab s4" using assms(2) by (simp add: s4_def s2_def sdl_update_caption_def log_call_def Let_def)
  moreover have "st' = s4\<lparr>gui_grab := False\<rparr>"
    using assms(3) by (auto simp: sdl_display_init_def s4_def s2_def Let_def split: if_splits)
  ultimately show ?thesis by (simp add: window_ok_def)
qed

text \<open>The calls the window gets: event polls, the listener's callbacks, and changes of the input layer.\<close>

inductive window_step :: "'d sdl \<Rightarrow> 'd sdl \<Rightarrow> bool" where
  Refresh: "sdl_refresh env a w h evs st = Inr st' \<Longrightarrow> window_step st st'"
| Mode: "window_step st (sdl_mouse_mode_change env st)"
| Warp: "window_step st (sdl_mouse_warp env x y on st)"
| Switch: "sdl_switch env sf st = Inr st' \<Longrightarrow> window_step st st'"
| Update: "window_update env a x y w h st = Inr st' \<Longrightarrow> window_step st st'"
| Define: "sdl_mouse_define c st = Inr st' \<Longrightarrow> window_step st st'"
| Input: "window_step st (with_inp f st)"

definition window_init :: "'d input \<Rightarrow> 'd sdl" where
  "window_init i = \<lparr>inp = i, con = None, graphic = True, screen_open = False,
     real_screen = \<lparr>sf_w = 0, sf_h = 0, sf_pitch = 0, sf_pixels = []\<rparr>, real_bpp = 0, surf_w = 0, surf_h = 0, surf_bpp = 0,
     gui_grab = False, last_vm_running = False, gui_saved_scaling = False, gui_saved_width = 0, gui_saved_height = 0,
     gui_saved_grab = False, gui_fullscreen = False, gui_noframe = False, gui_key_modifier_pressed = False,
     gui_keysym = False, modifiers_state = replicate 256 False, absolute_enabled = False, guest_cursor = False, guest_sprite = False,
     guest_x = 0, guest_y = 0, scaling_active = False, screen_mod = False, prev_state = 0, play_test = 0, fbuf = frame_init,
     sdl_log = []\<rparr>"

text \<open>
  C36. A window that is not started in full screen: in every state it can reach by event polls, the listener's
  callbacks and changes of the input layer, the flag \<^verbatim>\<open>gui_grab\<close> is what SDL was last told about the grab, and only the
  six modifier keys are recorded as held.  (A window that is started in full screen begins with the flag clear while SDL
  has the grab: \<open>full_screen_start_forgets_grab\<close>.)
\<close>

theorem grab_flag_follows_sdl:
  assumes "sdl_display_init env layout_ok init_ok False no_frame (window_init i) = Some st0" "window_step\<^sup>*\<^sup>* st0 st"
  shows "gui_grab st = grab_of (sdl_log st) \<and> length (modifiers_state st) = 256
    \<and> (\<forall>k < 256. modifiers_state st ! k \<longrightarrow> is_modifier (int k))"
proof -
  have step: "window_ok s'" if "window_step s s'" "window_ok s" for s s' :: "'a sdl"
    using that(1)
  proof cases
    case (Update env a x y w h)
    then show ?thesis using that(2) by (auto simp: window_update_def bindE_eq_Inr intro!: window_intros)
  next
    case (Define c)
    then show ?thesis using that(2) by (auto simp: sdl_mouse_define_def Let_def bindE_eq_Inr intro!: window_intros split: if_splits)
  qed (use that(2) in \<open>auto intro: window_intros window_ok_refresh window_ok_resize(3)\<close>)
  have "window_ok (window_init i)" "\<not> gui_grab (window_init i)" by (simp_all add: window_ok_def window_init_def grab_of_def)
  then have init: "window_ok st0" using assms(1) by (rule window_ok_init)
  from assms(2) have "window_ok st" by (induction rule: rtranclp_induct) (fact init, rule step)
  then show ?thesis by (simp add: window_ok_def)
qed

text \<open>
  Started in full screen, the window takes the grab and then clears the flag, which is not what SDL was told.
\<close>

theorem full_screen_start_forgets_grab:
  assumes "has_focus env" "sdl_display_init env layout_ok init_ok True no_frame st = Some st'"
  shows "\<not> gui_grab st' \<and> grab_of (sdl_log st')"
proof -
  have g: "grab_of (sdl_log (sdl_update_caption env s)) = grab_of (sdl_log s)" for s :: "'a sdl"
    by (simp add: sdl_update_caption_def log_call_def Let_def)
  have "grab_of (sdl_log (sdl_grab_start env s))" for s :: "'a sdl"
    using assms(1) by (simp add: sdl_grab_start_def g Let_def log_call_def [of "Grab_Input True"])
  then show ?thesis using assms(2) by (auto simp: sdl_display_init_def Let_def log_call_def g split: if_splits)
qed

text \<open>
  Leaving the window releases the held keys: one key-up event each, in the order of their numbers,
  and nothing is recorded as held afterwards.
\<close>

theorem reset_keys_releases_held:
  assumes "length (modifiers_state st) = 256"
  shows "reset_keys st = (fold (\<lambda>i. send_key (int i) False) (filter (\<lambda>i. modifiers_state st ! i) [0..<256]) st)
    \<lparr>modifiers_state := replicate 256 False\<rparr>"
proof -
  let ?send = "\<lambda>i. send_key (int i) False"
  have comm: "send_key k d (st\<lparr>modifiers_state := m\<rparr>) = (send_key k d st)\<lparr>modifiers_state := m\<rparr>"
    and keep: "modifiers_state (send_key k d st) = modifiers_state st" for k d m and st :: "'a sdl"
    by (simp_all add: send_key_def with_inp_def)
  have "fold reset_key [0..<n] st = (fold ?send (filter (\<lambda>i. modifiers_state st ! i) [0..<n]) st)
      \<lparr>modifiers_state := replicate n False @ drop n (modifiers_state st)\<rparr>" if "n \<le> 256" for n
    using that
  proof (induction n)
    case (Suc n)
    let ?m = "replicate n False @ drop n (modifiers_state st)"
    let ?st = "fold ?send (filter (\<lambda>i. modifiers_state st ! i) [0..<n]) st"
    have IH: "fold reset_key [0..<n] st = ?st\<lparr>modifiers_state := ?m\<rparr>" using Suc by simp
    have m: "?m ! n = modifiers_state st ! n" using Suc.prems assms by (simp add: nth_append)
    have d: "drop n (modifiers_state st) = modifiers_state st ! n # drop (Suc n) (modifiers_state st)"
      using Suc.prems assms by (simp add: Cons_nth_drop_Suc)
    have u: "?m[n := False] = replicate (Suc n) False @ drop (Suc n) (modifiers_state st)"
      unfolding d by (simp add: list_update_append replicate_append_same [symmetric])
    have u': "?m = replicate (Suc n) False @ drop (Suc n) (modifiers_state st)" if "\<not> modifiers_state st ! n"
      unfolding d using that by (simp add: replicate_append_same [symmetric])
    have st: "fold reset_key [0..<Suc n] st = reset_key n (?st\<lparr>modifiers_state := ?m\<rparr>)" using IH by simp
    show ?case
    proof (cases "modifiers_state st ! n")
      case True
      have "reset_key n (?st\<lparr>modifiers_state := ?m\<rparr>) = (?send n ?st)\<lparr>modifiers_state := ?m[n := False]\<rparr>"
        unfolding reset_key_def Let_def using True m by (simp add: comm)
      then show ?thesis unfolding st u using True by simp
    next
      case False
      have "reset_key n (?st\<lparr>modifiers_state := ?m\<rparr>) = ?st\<lparr>modifiers_state := ?m\<rparr>"
        unfolding reset_key_def using False m by simp
      then show ?thesis unfolding st u' [OF False] using False by simp
    qed
  qed simp
  from this [of 256] show ?thesis using assms by (simp add: reset_keys_def)
qed

text \<open>A host that grants every video mode.\<close>

definition grants_modes :: "sdl_env \<Rightarrow> bool" where
  "grants_modes env \<longleftrightarrow> (\<forall>f n w h b. case set_video_mode env f n w h b of
     None \<Rightarrow> False | Some (scr, _) \<Rightarrow> sf_w scr = w \<and> sf_h scr = h)"

lemma granted_resize:
  assumes "grants_modes env"
  obtains scr b' where "do_sdl_resize env w h b s = Inr (s\<lparr>screen_open := True, real_screen := scr, real_bpp := b'\<rparr>)"
    "sf_w scr = w" "sf_h scr = h"
proof -
  obtain scr b' where m: "set_video_mode env (gui_fullscreen s) (gui_noframe s) w h b = Some (scr, b')"
    "sf_w scr = w" "sf_h scr = h"
    using assms unfolding grants_modes_def by (auto split: option.splits prod.splits) (metis not_None_eq surj_pair)
  show ?thesis by (rule that [OF _ m(2,3)]) (simp add: do_sdl_resize_def m(1))
qed

lemmas window_calls = log_call_def hw_refresh_def sdl_grab_start_def sdl_grab_end_def sdl_update_caption_def
  sdl_hide_cursor_def sdl_show_cursor_def Let_def

lemma toggle_on:
  assumes "grants_modes env" "has_focus env" "\<not> gui_fullscreen st"
  shows "\<exists>t. toggle_full_screen env st = Inr t \<and> gui_fullscreen t \<and> gui_grab t \<and> gui_saved_grab t = gui_grab st
    \<and> gui_saved_scaling t = scaling_active st \<and> gui_saved_width t = sf_w (real_screen st)
    \<and> gui_saved_height t = sf_h (real_screen st) \<and> surf_w t = surf_w st \<and> surf_h t = surf_h st \<and> graphic t = graphic st
    \<and> \<not> scaling_active t"
proof -
  let ?s = "st\<lparr>gui_fullscreen := True, gui_saved_scaling := scaling_active st, gui_saved_width := sf_w (real_screen st),
      gui_saved_height := sf_h (real_screen st)\<rparr>"
  obtain scr b where r: "do_sdl_resize env (surf_w st) (surf_h st) (surf_bpp st) ?s
      = Inr (?s\<lparr>screen_open := True, real_screen := scr, real_bpp := b\<rparr>)" by (rule granted_resize [OF assms(1)])
  show ?thesis using assms(2,3) r by (simp add: toggle_full_screen_def window_calls)
qed

lemma toggle_off:
  assumes "grants_modes env" "gui_fullscreen t" "gui_grab t" "\<not> scaling_active t"
  shows "\<exists>t2. toggle_full_screen env t = Inr t2 \<and> \<not> gui_fullscreen t2 \<and> scaling_active t2 = gui_saved_scaling t
    \<and> sf_w (real_screen t2) = (if gui_saved_scaling t then gui_saved_width t else surf_w t)
    \<and> sf_h (real_screen t2) = (if gui_saved_scaling t then gui_saved_height t else surf_h t)
    \<and> gui_grab t2 = (gui_saved_grab t \<and> graphic t)"
proof -
  let ?u = "t\<lparr>gui_fullscreen := False\<rparr>"
  have "\<exists>v. (if gui_saved_scaling t then sdl_scale env (gui_saved_width t) (gui_saved_height t) ?u
         else do_sdl_resize env (surf_w t) (surf_h t) 0 ?u) = Inr v \<and> scaling_active v = gui_saved_scaling t
      \<and> sf_w (real_screen v) = (if gui_saved_scaling t then gui_saved_width t else surf_w t)
      \<and> sf_h (real_screen v) = (if gui_saved_scaling t then gui_saved_height t else surf_h t)
      \<and> \<not> gui_fullscreen v \<and> gui_grab v \<and> gui_saved_grab v = gui_saved_grab t \<and> graphic v = graphic t"
  proof (cases "gui_saved_scaling t")
    case True
    let ?b = "if real_bpp t \<noteq> 16 \<and> real_bpp t \<noteq> 32 then 32 else real_bpp t"
    obtain scr b where r: "do_sdl_resize env (gui_saved_width t) (gui_saved_height t) ?b ?u
      = Inr (?u\<lparr>screen_open := True, real_screen := scr, real_bpp := b\<rparr>)" "sf_w scr = gui_saved_width t" "sf_h scr = gui_saved_height t"
      by (rule granted_resize [OF assms(1)])
    have "real_bpp ?u = real_bpp t" by simp
    then have "sdl_scale env (gui_saved_width t) (gui_saved_height t) ?u
        = Inr (?u\<lparr>screen_open := True, real_screen := scr, real_bpp := b, scaling_active := True\<rparr>)"
      unfolding sdl_scale_def Let_def by (simp only: r(1)) simp
    then show ?thesis using r True assms(3) by simp
  next
    case False
    obtain scr b where "do_sdl_resize env (surf_w t) (surf_h t) 0 ?u
      = Inr (?u\<lparr>screen_open := True, real_screen := scr, real_bpp := b\<rparr>)" "sf_w scr = surf_w t" "sf_h scr = surf_h t"
      by (rule granted_resize [OF assms(1)])
    then show ?thesis using False assms(3,4) by simp
  qed
  then obtain v where v: "(if gui_saved_scaling t then sdl_scale env (gui_saved_width t) (gui_saved_height t) ?u
         else do_sdl_resize env (surf_w t) (surf_h t) 0 ?u) = Inr v" "scaling_active v = gui_saved_scaling t"
      "sf_w (real_screen v) = (if gui_saved_scaling t then gui_saved_width t else surf_w t)"
      "sf_h (real_screen v) = (if gui_saved_scaling t then gui_saved_height t else surf_h t)"
      "\<not> gui_fullscreen v" "gui_grab v" "gui_saved_grab v = gui_saved_grab t" "graphic v = graphic t" by blast
  let ?t2 = "hw_refresh (if \<not> gui_saved_grab v \<or> \<not> graphic v then sdl_grab_end env v else v)"
  have "toggle_full_screen env t = Inr ?t2"
    using assms(2) v(1) unfolding toggle_full_screen_def by (cases "gui_saved_scaling t") simp_all
  moreover have "scaling_active ?t2 = scaling_active v" "real_screen ?t2 = real_screen v" "gui_fullscreen ?t2 = gui_fullscreen v"
    "gui_grab ?t2 = (gui_saved_grab v \<and> graphic v)"
    using v(6) by (auto simp: window_calls)
  ultimately show ?thesis using v by (intro exI [of _ ?t2]) simp
qed

text \<open>
  Switching to full screen and back, with a host that grants every video mode, restores the mode of
  scaling, the size of a scaled window and, on a graphic console, the grab.
\<close>

theorem full_screen_roundtrip:
  assumes "grants_modes env" "has_focus env" "\<not> gui_fullscreen st"
  shows "\<exists>st1 st2. toggle_full_screen env st = Inr st1 \<and> gui_fullscreen st1 \<and> gui_grab st1
    \<and> toggle_full_screen env st1 = Inr st2 \<and> \<not> gui_fullscreen st2
    \<and> scaling_active st2 = scaling_active st
    \<and> sf_w (real_screen st2) = (if scaling_active st then sf_w (real_screen st) else surf_w st)
    \<and> sf_h (real_screen st2) = (if scaling_active st then sf_h (real_screen st) else surf_h st)
    \<and> gui_grab st2 = (gui_grab st \<and> graphic st)"
proof -
  from toggle_on [OF assms] obtain t where t: "toggle_full_screen env st = Inr t" "gui_fullscreen t" "gui_grab t"
    "\<not> scaling_active t" "gui_saved_grab t = gui_grab st" "gui_saved_scaling t = scaling_active st"
    "gui_saved_width t = sf_w (real_screen st)" "gui_saved_height t = sf_h (real_screen st)" "surf_w t = surf_w st"
    "surf_h t = surf_h st" "graphic t = graphic st" by blast
  from toggle_off [OF assms(1) t(2-4)] t show ?thesis by auto
qed

text \<open>
  A resize maps a frame of the old size before it changes the window: when the window grows, the next
  update of the whole window writes past the mapping.
\<close>

theorem resize_outgrows_frame:
  assumes "screen_ok 4 (real_screen st)" "real_bpp st = 32" "fb_ok env" "blit env scr = Some scr"
    and "set_video_mode env (gui_fullscreen st) (gui_noframe st) w h 32 = Some (scr, 32)" "screen_ok 4 scr"
    and "sf_w (real_screen st) * sf_h (real_screen st) < sf_w scr * sf_h scr"
  shows "\<exists>st'. handle_event env False (SDL_VIDEORESIZE w h) st = Inr st'
    \<and> handle_event env False SDL_VIDEOEXPOSE st' = Inl Buffer_Overrun"
proof -
  let ?W = "sf_w (real_screen st)" and ?H = "sf_h (real_screen st)" and ?w = "sf_w scr" and ?h = "sf_h scr"
  from make_frame_shows [OF assms(1), of "fbuf st"] obtain f where
    f: "make_frameData True False (real_screen st) ?W ?H (fbuf st) = Inr f" "image_ok ?W ?H f" by auto
  let ?st = "hw_refresh (st\<lparr>fbuf := f, screen_open := True, real_screen := scr, real_bpp := 32, scaling_active := True\<rparr>)"
  have 1: "handle_event env False (SDL_VIDEORESIZE w h) st = Inr ?st"
    using assms(2,3,5) f(1) by (simp add: new_frame_def sdl_scale_def do_sdl_resize_def)
  from f(2) obtain fb where fb: "fb_data f = Some fb" "0 \<le> header_len f" "int (length fb) = header_len f + 3 * (?W * ?H)"
    by (auto simp: image_ok_def Let_def split: option.splits)
  have dims: "0 < ?w" "0 < ?h" using assms(6) by (auto simp: screen_ok_def)
  let ?ps = "rect 0 0 ?w ?h" and ?p = "(?w - 1, ?h - 1)"
  let ?ws = "map (\<lambda>p. (update_target False scr ?w ?h p, screen_pixel 4 scr (fst p) (snd p))) ?ps"
  have idx: "update_target False scr ?w ?h ?p = ?w * ?h - 1"
    by (simp add: update_target_def get_pixel_index_def algebra_simps)
  have "?p \<in> set ?ps" using dims by (auto simp: set_rect)
  then have last: "(?w * ?h - 1, screen_pixel 4 scr (?w - 1) (?h - 1)) \<in> set ?ws" unfolding idx [symmetric] by force
  have "\<forall>(j, c) \<in> set ?ws. 0 \<le> j"
    using dims by (auto simp: set_rect update_target_def get_pixel_index_def)
  from put_all_overrun [OF fb(2) this last] have "put_all (header_len f) ?ws fb = Inl Buffer_Overrun"
    using assms(7) fb(3) by auto
  then have "Update_frameData False scr 0 0 ?w ?h f = Inl Buffer_Overrun"
    using update_frame_loop [OF assms(6), of False ?w 0 0 ?h f] update_loop [OF _ assms(6), of ?ps False "header_len f" ?h fb] fb(1)
    by (simp add: set_rect with_fb_def)
  then have "handle_event env False SDL_VIDEOEXPOSE ?st = Inl Buffer_Overrun"
    using assms(4) by (simp add: window_update_def sdl_update_def window_calls)
  then show ?thesis using 1 by blast
qed

subsection \<open>Examples\<close>

text \<open>A host that grants every mode with 32 bits per pixel.\<close>

definition easy_env :: sdl_env where
  "easy_env = \<lparr>has_focus = True, mouse_state = (0, 0, 0), mod_state = 0,
     set_video_mode = (\<lambda>_ _ w h _. Some (\<lparr>sf_w = w, sf_h = h, sf_pitch = 4 * w, sf_pixels = replicate (nat (4 * w * h)) 0\<rparr>, 32)),
     has_evdev = True, kbd_layout = None, console_graphic = (\<lambda>_. True), running = True, qemu_name = None,
     blit = Some, fb_ok = True, alt_grab = False, ctrl_grab = False, cursor_hide = False, no_quit = True\<rparr>"

definition easy_window :: "InputEvent list sdl" where
  "easy_window = (window_init recorder)\<lparr>screen_open := True,
     real_screen := \<lparr>sf_w = 2, sf_h = 1, sf_pitch = 8, sf_pixels = replicate 8 0\<rparr>, real_bpp := 32, surf_w := 2, surf_h := 1, surf_bpp := 32\<rparr>"

lemma easy_ok: "grants_modes easy_env" "has_focus easy_env" "\<not> gui_fullscreen easy_window"
  by (simp_all add: grants_modes_def easy_env_def easy_window_def window_init_def)

definition opened_window :: "InputEvent list sdl" where
  "opened_window = the (sdl_display_init easy_env True True False False (window_init recorder))"

lemma opened_window: "sdl_display_init easy_env True True False False (window_init recorder) = Some opened_window"
  by (simp add: opened_window_def sdl_display_init_def Let_def)

text \<open>The guest's screen of two pixels is shown; a click with the left button grabs the input.\<close>

definition shown_window :: "InputEvent list sdl" where
  "shown_window = projr (sdl_switch easy_env (Some (2, 1, 32)) opened_window)"

definition clicked_window :: "InputEvent list sdl" where
  "clicked_window = projr (sdl_refresh easy_env False 2 1 [SDL_MOUSEBUTTONUP 1 0 0] shown_window)"

theorem grab_flag_follows_sdl_witness:
  "window_step\<^sup>*\<^sup>* opened_window clicked_window \<and> gui_grab clicked_window \<and> grab_of (sdl_log clicked_window)"
proof -
  have i: "\<not> isl (sdl_switch easy_env (Some (2, 1, 32)) opened_window)"
    "\<not> isl (sdl_refresh easy_env False 2 1 [SDL_MOUSEBUTTONUP 1 0 0] shown_window)" "gui_grab clicked_window" by code_simp+
  have "sdl_switch easy_env (Some (2, 1, 32)) opened_window = Inr shown_window"
    "sdl_refresh easy_env False 2 1 [SDL_MOUSEBUTTONUP 1 0 0] shown_window = Inr clicked_window"
    using i by (simp_all add: shown_window_def clicked_window_def)
  then have "window_step\<^sup>*\<^sup>* opened_window clicked_window"
    by (meson window_step.Refresh window_step.Switch r_into_rtranclp rtranclp.rtrancl_into_rtrancl)
  with grab_flag_follows_sdl [OF opened_window this] i(3) show ?thesis by blast
qed

theorem reset_keys_releases_held_witness:
  "devs (inp (reset_keys (easy_window\<lparr>modifiers_state := (replicate 256 False)[42 := True]\<rparr>)))
     = [INPUT_EVENT_KIND_KEY (KEY_VALUE_KIND_NUMBER 42) False]"
proof -
  let ?w = "easy_window\<lparr>modifiers_state := (replicate 256 False)[42 := True]\<rparr>"
  have l: "length (modifiers_state ?w) = 256" by simp
  have f: "filter (\<lambda>i. modifiers_state ?w ! i) [0..<256] = [42]" by code_simp
  have "devs (inp (send_key (int 42) False ?w)) = [INPUT_EVENT_KIND_KEY (KEY_VALUE_KIND_NUMBER 42) False]" by code_simp
  then show ?thesis unfolding reset_keys_releases_held [OF l] f by simp
qed

theorem full_screen_roundtrip_witness:
  "\<exists>st1 st2. toggle_full_screen easy_env easy_window = Inr st1 \<and> toggle_full_screen easy_env st1 = Inr st2 \<and> \<not> gui_grab st2"
  using full_screen_roundtrip [OF easy_ok] by (auto simp: easy_window_def window_init_def)

theorem resize_outgrows_frame_witness:
  "\<exists>st'. handle_event easy_env False (SDL_VIDEORESIZE 3 1) easy_window = Inr st'
    \<and> handle_event easy_env False SDL_VIDEOEXPOSE st' = Inl Buffer_Overrun"
  by (rule resize_outgrows_frame
      [of _ _ "\<lparr>sf_w = 3, sf_h = 1, sf_pitch = 12, sf_pixels = replicate 12 0\<rparr>"])
    (simp_all add: screen_ok_def easy_window_def easy_env_def)

end
