(* ===== verification/Web_Input.thy ===== *)
theory Web_Input
  imports Sdl_Window Client_Ipc
begin

text \<open>
  The thread that feeds the browser's events into a virtual machine, the repository's addition to
  src/Qemu-2.4.1/ui/sdl.c from \<^verbatim>\<open>touch_down_handler\<close> to \<^verbatim>\<open>thread_sdl\<close>: it presses the keys that start
  the guest, connects to the event port and turns each message of the web server into a mouse or
  key event.  A message is a line of decimal numbers separated by blanks.  The receive array is a
  local variable without an initial value; it is taken to keep its contents from turn to turn.
\<close>

subsection \<open>Key and touch commands\<close>

definition touch_down_handler :: "int \<Rightarrow> int \<Rightarrow> 'd sdl \<Rightarrow> 'd sdl" where
  "touch_down_handler x y = sdl_send_mouse_event 0 0 x y 1"

definition touch_up_handler :: "int \<Rightarrow> int \<Rightarrow> 'd sdl \<Rightarrow> 'd sdl" where
  "touch_up_handler x y = sdl_send_mouse_event 0 0 x y 0"

definition ENTERKEY :: int where "ENTERKEY = 28"
definition ESCKEY :: int where "ESCKEY = 1"
definition F11KEY :: int where "F11KEY = 87"
definition KINPUT :: int where "KINPUT = 1"
definition MINPUT :: int where "MINPUT = 0"

definition key_down_command :: "int \<Rightarrow> 'd sdl \<Rightarrow> 'd sdl" where
  "key_down_command keycode st = with_inp (qemu_input_event_send_key_number (con st) keycode True) st"

definition key_up_command :: "int \<Rightarrow> 'd sdl \<Rightarrow> 'd sdl" where
  "key_up_command keycode st = with_inp (qemu_input_event_send_key_number (con st) keycode False) st"

definition back_button_down_handler :: "'d sdl \<Rightarrow> 'd sdl" where
  "back_button_down_handler = key_down_command ESCKEY"

definition back_button_up_handler :: "'d sdl \<Rightarrow> 'd sdl" where
  "back_button_up_handler = key_up_command ESCKEY"

text \<open>The assignments of \<^verbatim>\<open>Make_keymap\<close>, in their order.\<close>

definition keymap_entries :: "(nat \<times> int) list" where
  "keymap_entries =
     [(27, 1), (145, 70), (112, 59), (113, 60), (114, 61), (115, 62), (116, 63), (117, 64), (118, 65), (119, 66),
      (120, 67), (121, 68), (122, 87), (123, 88),
      (192, 41), (49, 2), (50, 3), (51, 4), (52, 5), (53, 6), (54, 7), (55, 8), (56, 9), (57, 10), (48, 11),
      (189, 12), (187, 13), (220, 43), (8, 14),
      (9, 15), (81, 16), (87, 17), (69, 18), (82, 19), (84, 20), (89, 21), (85, 22), (73, 23), (79, 24), (80, 25),
      (219, 26), (221, 27), (13, ENTERKEY),
      (20, 58), (65, 30), (83, 31), (68, 32), (70, 33), (71, 34), (72, 35), (74, 36), (75, 37), (76, 38),
      (186, 39), (222, 40),
      (16, 42), (90, 44), (88, 45), (67, 46), (86, 47), (66, 48), (78, 49), (77, 50), (188, 51), (190, 52),
      (191, 53), (16, 54),
      (17, 29), (91, 219), (18, 56), (25, 242), (32, 57), (21, 184), (92, 220), (93, 221), (25, 157),
      (37, 203), (40, 208), (39, 205), (38, 200),
      (144, 69), (111, 181), (106, 55), (109, 74), (103, 71), (104, 72), (105, 73), (107, 78), (100, 75), (101, 76),
      (102, 77), (97, 79), (98, 80), (99, 81), (96, 82), (110, 83),
      (45, 210), (36, 199), (33, 201), (46, 211), (35, 207), (34, 209)]"

definition Make_keymap :: "int list \<Rightarrow> int list" where
  "Make_keymap km = fold (\<lambda>(i, v) km. km[i := v]) keymap_entries km"

subsection \<open>The event thread\<close>

record 'd web =
  window :: "'d sdl"
  globals :: qemu_globals
  km :: "int list"
  rbuf :: string

definition web_mouse :: "int \<Rightarrow> int \<Rightarrow> int \<Rightarrow> 'd web \<Rightarrow> 'd web" where
  "web_mouse x0 y0 state w =
     (let x = x0 * g_scaleConstant_X (globals w);
          y = y0 * g_scaleConstant_Y (globals w);
          (x, y) = (if g_androidMode (globals w) then (y, sf_h (real_screen (window w)) - x) else (x, y))
      in w\<lparr>window := sdl_send_mouse_event 0 0 x y (word_of_int state) (window w)\<rparr>)"

definition web_key :: "int \<Rightarrow> int \<Rightarrow> 'd web \<Rightarrow> c_fault + 'd web" where
  "web_key state keycode w =
     (if 0 \<le> keycode \<and> keycode < int (length (km w)) then
        let k = km w ! nat keycode
        in Inr (if state = 0 then w\<lparr>window := key_up_command k (window w)\<rparr>
                else if state = 1 then w\<lparr>window := key_down_command k (window w)\<rparr>
                else w)
      else Inl Buffer_Overrun)"

text \<open>One turn of the loop; \<open>bytes\<close> is what \<^verbatim>\<open>read\<close> delivers, nothing at the end of the connection.\<close>

definition web_event :: "string \<Rightarrow> 'd web \<Rightarrow> c_fault + 'd web" where
  "web_event bytes w =
     (let buf = c_read 100 bytes (rbuf w)
      in if NUL \<notin> set buf then Inl Buffer_Overrun
         else bindE (tok_int (buf, 0)) (\<lambda>(type, st1).
           if type = MINPUT then
             bindE (tok_int st1) (\<lambda>(x, st2).
             bindE (tok_int st2) (\<lambda>(y, st3).
             bindE (tok_int st3) (\<lambda>(state, st4).
               Inr (web_mouse x y state (w\<lparr>rbuf := fst st4\<rparr>)))))
           else if type = KINPUT then
             bindE (tok_int st1) (\<lambda>(state, st2).
             bindE (tok_int st2) (\<lambda>(keycode, st3).
               web_key state keycode (w\<lparr>rbuf := fst st3\<rparr>)))
           else Inr (w\<lparr>rbuf := fst st1\<rparr>)))"

definition press :: "int \<Rightarrow> 'd sdl \<Rightarrow> 'd sdl" where
  "press k st = key_up_command k (key_down_command k st)"

definition web_start :: "'d web \<Rightarrow> 'd web" where
  "web_start w =
     (let w1 = w\<lparr>km := Make_keymap (km w), window := press ENTERKEY (window w)\<rparr>
      in if g_androidMode (globals w1) then w1\<lparr>window := press F11KEY (press F11KEY (window w1))\<rparr> else w1)"

text \<open>\<^verbatim>\<open>thread_sdl\<close> on the results of its reads; the loop does not run when \<^verbatim>\<open>socket\<close> fails.\<close>

definition thread_sdl :: "bool \<Rightarrow> string list \<Rightarrow> 'd web \<Rightarrow> c_fault + 'd web" where
  "thread_sdl socket_ok reads w =
     (let w1 = web_start w in if socket_ok then foldE web_event reads w1 else Inr w1)"

subsection \<open>Reading a message\<close>

text \<open>The last field of a message runs on to the next blank or NUL in the array.\<close>

lemma tok_ptr_run_on:
  assumes "is_token t" "NUL \<in> set rest"
  shows "\<exists>g buf p. tok_ptr (d @ t @ rest, length d) = Inr (length d, buf, p) \<and> take (length d) buf = d
    \<and> cstr_at buf (length d) = t @ g"
proof -
  define P where "P = (\<lambda>c. c \<noteq> CHR '' '' \<and> c \<noteq> NUL)"
  define g where "g = takeWhile P rest"
  have "dropWhile P rest \<noteq> []" using assms(2) by (auto simp: dropWhile_eq_Nil_conv P_def)
  moreover from hd_dropWhile [OF this] have "\<not> P (hd (dropWhile P rest))" .
  ultimately obtain c r where c: "dropWhile P rest = c # r" "\<not> P c" by (cases "dropWhile P rest") auto
  have rest: "rest = g @ c # r" using takeWhile_dropWhile_id [of P rest] c(1) by (simp add: g_def)
  have "\<forall>x \<in> set g. P x" by (auto simp: g_def dest: set_takeWhileD)
  then have tok: "is_token (t @ g)" using assms(1) by (auto simp: is_token_def P_def)
  let ?buf = "d @ (t @ g) @ NUL # r"
  have cut: "cstr_at ?buf (length d) = t @ g"
    by (rule cstr_at_token) (use tok in \<open>auto simp: is_token_def\<close>)
  have "\<exists>p. tok_ptr (d @ (t @ g) @ c # r, length d) = Inr (length d, ?buf, p)"
  proof (cases "c = NUL")
    case True
    then show ?thesis using tok_ptr_last(1) [OF tok, of d r] by auto
  next
    case False
    then have "c = CHR '' ''" using c(2) by (simp add: P_def)
    then show ?thesis
      using strtok_at_token [of "t @ g" "length d" d r] tok by (simp add: tok_ptr_def is_token_def)
  qed
  then obtain p where "tok_ptr (d @ (t @ g) @ c # r, length d) = Inr (length d, ?buf, p)" ..
  then show ?thesis using cut by (intro exI [of _ g] exI [of _ ?buf] exI [of _ p]) (simp add: rest)
qed

lemma tok_int_run_on:
  assumes "int n < 2 ^ 31" "NUL \<in> set rest"
  shows "\<exists>buf p. tok_int (d @ dec_of_nat n @ CHR 0x0A # rest, length d) = Inr (int n, buf, p) \<and> take (length d) buf = d"
proof -
  have n: "is_token (dec_of_nat n @ [CHR 0x0A])"
    using is_token_dec [of n] by (auto simp: is_token_def NUL_def)
  from tok_ptr_run_on [OF n assms(2), of d] obtain g buf p where
    "tok_ptr (d @ dec_of_nat n @ CHR 0x0A # rest, length d) = Inr (length d, buf, p)" "take (length d) buf = d"
    "cstr_at buf (length d) = dec_of_nat n @ CHR 0x0A # g" by auto
  moreover have "atoi (dec_of_nat n @ CHR 0x0A # g) = int n"
    by (rule atoi_dec_of_nat) (use assms(1) in \<open>auto simp: is_digit_def\<close>)
  ultimately show ?thesis by (simp add: tok_int_def)
qed

text \<open>The lines the web server sends: in a key message blanks separate the numbers, in a mouse message one
  follows each of them.\<close>

definition web_line :: "nat list \<Rightarrow> string" where
  "web_line ns = msg_fields (map dec_of_nat (butlast ns)) @ dec_of_nat (last ns) @ [CHR 0x0A]"

definition mouse_text :: "nat \<Rightarrow> nat \<Rightarrow> nat \<Rightarrow> string" where
  "mouse_text x y state = msg_fields (map dec_of_nat [0, x, y, state]) @ [CHR 0x0A]"

lemma tokst_line: "(msg_fields ts @ rest, 0) = tokst [] ts rest"
  by (simp add: tokst_def)

lemma key_line:
  assumes "int state < 2 ^ 31" "int code < 2 ^ 31" "length (web_line [1, state, code]) \<le> 100"
    and "NUL \<in> set (c_read 100 tail (drop (length (web_line [1, state, code])) (rbuf w)))"
    and "length (rbuf w) = 100" "length (web_line [1, state, code] @ tail) \<le> 100"
  shows "\<exists>buf. take 2 buf = [CHR ''1'', NUL] \<and>
    web_event (web_line [1, state, code] @ tail) w = web_key (int state) (int code) (w\<lparr>rbuf := buf\<rparr>)"
proof -
  let ?l = "web_line [1, state, code]"
  let ?rest = "c_read 100 tail (drop (length ?l) (rbuf w))"
  have buf: "c_read 100 (?l @ tail) (rbuf w) = ?l @ ?rest"
    using assms(6) by (simp add: c_read_def add.commute)
  have one: "dec_of_nat (Suc 0) = ''1''" by code_simp
  define R where "R = dec_of_nat code @ CHR 0x0A # ?rest"
  define d1 where "d1 = dec_of_nat 1 @ [NUL]"
  define d2 where "d2 = d1 @ dec_of_nat state @ [NUL]"
  have st0: "(?l @ ?rest, 0) = tokst [] [dec_of_nat 1, dec_of_nat state] R"
    by (simp add: web_line_def tokst_def R_def)
  have s1: "tok_int (tokst [] [dec_of_nat 1, dec_of_nat state] R) = Inr (1, tokst d1 [dec_of_nat state] R)"
    using tok_int_tokst [of 1 "[]"] by (simp add: d1_def)
  have s2: "tok_int (tokst d1 [dec_of_nat state] R) = Inr (int state, tokst d2 [] R)"
    using tok_int_tokst [OF assms(1), of d1] by (simp add: d2_def)
  from tok_int_run_on [OF assms(2,4), of d2] obtain b p where
    s3: "tok_int (tokst d2 [] R) = Inr (int code, b, p)" "take (length d2) b = d2" by (auto simp: tokst_def R_def)
  have "take 2 b = take 2 (take (length d2) b)" by (simp add: one min_def d1_def d2_def)
  then have "take 2 b = [CHR ''1'', NUL]" unfolding s3(2) by (simp add: one d1_def d2_def)
  moreover have "web_event (?l @ tail) w = web_key (int state) (int code) (w\<lparr>rbuf := b\<rparr>)"
    unfolding web_event_def buf Let_def st0 s1 bindE_simps prod.case
    using assms(4) by (simp add: s2 s3(1) MINPUT_def KINPUT_def)
  ultimately show ?thesis by blast
qed

text \<open>
  A key message is carried out as sent, whatever the array held before and even when the next
  message arrived with it: the key named by the table goes down or up.  A key code outside the
  table is an access outside the array.
\<close>

theorem key_message_carried_out:
  assumes "state < 2" "int code < 2 ^ 31" "length (km w) = 250" "length (rbuf w) = 100"
    and "length (web_line [1, state, code] @ tail) \<le> 100" "NUL \<in> set (c_read 100 tail (drop (length (web_line [1, state, code])) (rbuf w)))"
  shows "if code < 250
    then \<exists>w'. web_event (web_line [1, state, code] @ tail) w = Inr w'
           \<and> window w' = (if state = 0 then key_up_command else key_down_command) (km w ! code) (window w)
    else web_event (web_line [1, state, code] @ tail) w = Inl Buffer_Overrun"
proof -
  have "int state < 2 ^ 31" using assms(1) by simp
  from key_line [OF this assms(2) _ assms(6,4,5)] assms(5) obtain buf where
    "web_event (web_line [1, state, code] @ tail) w = web_key (int state) (int code) (w\<lparr>rbuf := buf\<rparr>)" by auto
  then show ?thesis using assms(1,3) by (auto simp: web_key_def less_2_cases_iff Let_def)
qed

text \<open>
  When the connection ends, \<^verbatim>\<open>read\<close> leaves the array as the tokenizer cut it up: the turn after a key
  message runs into a null pointer.
\<close>

lemma end_of_stream:
  assumes "state < 2" "code < 250" "length (km w) = 250" "length (rbuf w) = 100"
    and "length (web_line [1, state, code]) \<le> 100" "NUL \<in> set (drop (length (web_line [1, state, code])) (rbuf w))"
  shows "foldE web_event [web_line [1, state, code], []] w = Inl Null_Pointer"
proof -
  have b: "int state < 2 ^ 31" "int code < 2 ^ 31" using assms(1,2) by auto
  from key_line [OF b, of "[]" w] assms obtain buf where buf: "take 2 buf = [CHR ''1'', NUL]"
    "web_event (web_line [1, state, code]) w = web_key (int state) (int code) (w\<lparr>rbuf := buf\<rparr>)"
    by (auto simp: c_read_def)
  then obtain w' where w': "web_event (web_line [1, state, code]) w = Inr w'" "rbuf w' = buf"
    using assms(2,3) by (auto simp: web_key_def Let_def)
  obtain r where r: "buf = [CHR ''1''] @ NUL # r" using buf(1) by (metis append_Cons append_Nil append_take_drop_id)
  have t: "is_token [CHR ''1'']" by (simp add: is_token_def NUL_def)
  have "tok_int (buf, 0) = Inr (1, buf, 1)"
    using tok_ptr_last [OF t, of "[]" r] r by (simp add: tok_int_def) code_simp
  moreover have "tok_int (buf, 1) = Inl Null_Pointer"
    by (simp add: r tok_int_def tok_ptr_def strtok_at_def strtok_begin_def)
  moreover have "c_read 100 [] buf = buf" by (simp add: c_read_def)
  ultimately have "web_event [] w' = Inl Null_Pointer"
    using r by (simp add: web_event_def w'(2) MINPUT_def KINPUT_def)
  then show ?thesis using w'(1) by simp
qed

lemma mouse_line:
  assumes "int x < 2 ^ 31" "int y < 2 ^ 31" "int state < 2 ^ 31" "length (mouse_text x y state @ tail) \<le> 100"
    and "NUL \<in> set (c_read 100 tail (drop (length (mouse_text x y state)) (rbuf w)))"
  shows "\<exists>buf. web_event (mouse_text x y state @ tail) w = Inr (web_mouse (int x) (int y) (int state) (w\<lparr>rbuf := buf\<rparr>))
    \<and> drop (length (mouse_text x y state)) buf = c_read 100 tail (drop (length (mouse_text x y state)) (rbuf w))
    \<and> length (mouse_text x y state) \<le> length buf"
proof -
  let ?l = "mouse_text x y state"
  let ?rest = "c_read 100 tail (drop (length ?l) (rbuf w))"
  have buf: "c_read 100 (?l @ tail) (rbuf w) = ?l @ ?rest"
    using assms(4) by (simp add: c_read_def add.commute)
  define R where "R = CHR 0x0A # ?rest"
  define d1 where "d1 = dec_of_nat 0 @ [NUL]"
  define d2 where "d2 = d1 @ dec_of_nat x @ [NUL]"
  define d3 where "d3 = d2 @ dec_of_nat y @ [NUL]"
  have st0: "(?l @ ?rest, 0) = tokst [] [dec_of_nat 0, dec_of_nat x, dec_of_nat y, dec_of_nat state] R"
    by (simp add: mouse_text_def tokst_def R_def)
  have s1: "tok_int (tokst [] [dec_of_nat 0, dec_of_nat x, dec_of_nat y, dec_of_nat state] R) =
      Inr (0, tokst d1 [dec_of_nat x, dec_of_nat y, dec_of_nat state] R)"
    using tok_int_tokst [of 0 "[]"] by (simp add: d1_def)
  have s2: "tok_int (tokst d1 [dec_of_nat x, dec_of_nat y, dec_of_nat state] R) =
      Inr (int x, tokst d2 [dec_of_nat y, dec_of_nat state] R)"
    using tok_int_tokst [OF assms(1), of d1] by (simp add: d2_def)
  have s3: "tok_int (tokst d2 [dec_of_nat y, dec_of_nat state] R) = Inr (int y, tokst d3 [dec_of_nat state] R)"
    using tok_int_tokst [OF assms(2), of d2] by (simp add: d3_def)
  define b where "b = d3 @ dec_of_nat state @ NUL # R"
  have s4: "\<exists>p. tok_int (tokst d3 [dec_of_nat state] R) = Inr (int state, b, p)"
    using tok_int_tokst [OF assms(3), of d3 "[]" R] by (simp add: tokst_def b_def)
  then obtain p where s4: "tok_int (tokst d3 [dec_of_nat state] R) = Inr (int state, b, p)" by blast
  have "web_event (?l @ tail) w = Inr (web_mouse (int x) (int y) (int state) (w\<lparr>rbuf := b\<rparr>))"
    unfolding web_event_def buf Let_def st0 s1 bindE_simps prod.case
    using assms(5) by (simp add: s2 s3 s4 MINPUT_def)
  moreover define d4 where "d4 = d3 @ dec_of_nat state @ [NUL, CHR 0x0A]"
  have "b = d4 @ ?rest" "length d4 = length ?l" by (simp_all add: d4_def b_def R_def d1_def d2_def d3_def mouse_text_def)
  then have "drop (length ?l) b = ?rest" "length ?l \<le> length b" using append_eq_conv_conj [of d4 ?rest b] by auto
  ultimately show ?thesis by blast
qed

text \<open>A message on its own, in an array that ends with NUL, which it leaves as it is.\<close>

lemma mouse_at_image:
  assumes "x < 10000" "y < 10000" "state < 256" "length (rbuf w) = 100" "rbuf w ! 99 = NUL"
    and "g_scaleConstant_X (globals w) = 1" "g_scaleConstant_Y (globals w) = 1" "length (mouse_text x y state) < 100"
  shows "\<exists>w'. web_event (mouse_text x y state) w = Inr w'
    \<and> window w' = (if g_androidMode (globals w)
        then sdl_send_mouse_event 0 0 (int y) (sf_h (real_screen (window w)) - int x) (word_of_nat state) (window w)
        else sdl_send_mouse_event 0 0 (int x) (int y) (word_of_nat state) (window w))
    \<and> globals w' = globals w \<and> length (rbuf w') = 100 \<and> rbuf w' ! 99 = NUL"
proof -
  let ?l = "mouse_text x y state"
  have b: "int x < 2 ^ 31" "int y < 2 ^ 31" "int state < 2 ^ 31" using assms(1-3) by auto
  have rest: "c_read 100 [] (drop (length ?l) (rbuf w)) = drop (length ?l) (rbuf w)" by (simp add: c_read_def)
  have at: "drop (length ?l) (rbuf w) ! (99 - length ?l) = NUL" "99 - length ?l < length (drop (length ?l) (rbuf w))"
    using assms(4,5,8) by auto
  then have "NUL \<in> set (c_read 100 [] (drop (length ?l) (rbuf w)))" unfolding rest by (metis nth_mem)
  from mouse_line [OF b _ this] assms(8) obtain buf where
    m: "web_event ?l w = Inr (web_mouse (int x) (int y) (int state) (w\<lparr>rbuf := buf\<rparr>))"
      "drop (length ?l) buf = drop (length ?l) (rbuf w)" "length ?l \<le> length buf" by (auto simp: rest)
  have "length buf - length ?l = 100 - length ?l" using arg_cong [OF m(2), of length] assms(4) by simp
  then have "length buf = 100" using m(3) assms(8) by simp
  moreover have "buf ! 99 = NUL" using at(1) m(2,3) assms(8) unfolding m(2) [symmetric] by simp
  ultimately show ?thesis
    using m(1) assms(6,7) by (cases "g_androidMode (globals w)") (simp_all add: web_mouse_def Let_def)
qed

text \<open>
  A mouse message moves the pointer to the point it names and sets the buttons, whatever the array held
  before; in Android mode the coordinates are exchanged and the second one is counted from the bottom.
\<close>

theorem mouse_message_carried_out:
  assumes "int x < 2 ^ 31" "int y < 2 ^ 31" "int state < 2 ^ 31" "length (mouse_text x y state @ tail) \<le> 100"
    and "NUL \<in> set (c_read 100 tail (drop (length (mouse_text x y state)) (rbuf w)))"
    and "g_scaleConstant_X (globals w) = 1" "g_scaleConstant_Y (globals w) = 1"
  shows "\<exists>w'. web_event (mouse_text x y state @ tail) w = Inr w'
    \<and> window w' = (if g_androidMode (globals w)
        then sdl_send_mouse_event 0 0 (int y) (sf_h (real_screen (window w)) - int x) (word_of_nat state) (window w)
        else sdl_send_mouse_event 0 0 (int x) (int y) (word_of_nat state) (window w))"
proof -
  from mouse_line [OF assms(1-5)] obtain buf where
    "web_event (mouse_text x y state @ tail) w = Inr (web_mouse (int x) (int y) (int state) (w\<lparr>rbuf := buf\<rparr>))" by blast
  then show ?thesis using assms(6,7) by (simp add: web_mouse_def)
qed

text \<open>
  Only the first of two messages that one read delivers has an effect.
\<close>

theorem coalesced_message_is_lost:
  assumes "int x < 2 ^ 31" "int y < 2 ^ 31" "int state < 2 ^ 31" "length (rbuf w) = 100"
    and "length (mouse_text x y state @ second) < 100" "rbuf w ! 99 = NUL"
  shows "\<exists>w1 w2. web_event (mouse_text x y state) w = Inr w1 \<and> web_event (mouse_text x y state @ second) w = Inr w2
    \<and> window w1 = window w2"
proof -
  let ?l = "mouse_text x y state"
  have nul: "NUL \<in> set (c_read 100 t (drop (length ?l) (rbuf w)))" if "length (?l @ t) < 100" for t
  proof -
    have "drop (length ?l + length t) (rbuf w) ! (99 - (length ?l + length t)) = NUL"
      "99 - (length ?l + length t) < length (drop (length ?l + length t) (rbuf w))" using that assms(4,6) by auto
    then have "NUL \<in> set (drop (length ?l + length t) (rbuf w))" by (metis nth_mem)
    then show ?thesis using that by (simp add: c_read_def add.commute)
  qed
  from mouse_line [OF assms(1-3) _ nul [of second]] mouse_line [OF assms(1-3) _ nul [of "[]"]] assms(5)
  obtain b1 b2 where "web_event (?l @ second) w = Inr (web_mouse (int x) (int y) (int state) (w\<lparr>rbuf := b1\<rparr>))"
    "web_event ?l w = Inr (web_mouse (int x) (int y) (int state) (w\<lparr>rbuf := b2\<rparr>))" by auto
  then show ?thesis by (simp add: web_mouse_def Let_def)
qed

text \<open>
  The key table is unambiguous: all entries are PC key numbers, and no two browser keys share one
  (later assignments to the same browser key replace earlier ones).
\<close>

theorem keymap_unambiguous:
  "distinct (filter (\<lambda>k. k \<noteq> 0) (Make_keymap (replicate 250 0))) \<and> list_all (\<lambda>k. 0 \<le> k \<and> k < 256) (Make_keymap (replicate 250 0))
 \<and> Make_keymap (replicate 250 0) ! 16 = 54 \<and> Make_keymap (replicate 250 0) ! 25 = 157"
  by code_simp

subsection \<open>Examples\<close>

definition easy_web :: "InputEvent list web" where
  "easy_web = \<lparr>window = easy_window, globals = qemu_globals_init\<lparr>g_scaleConstant_X := 1, g_scaleConstant_Y := 1\<rparr>,
     km = Make_keymap (replicate 250 0), rbuf = replicate 100 NUL\<rparr>"

lemma easy_web_simps: "length (km easy_web) = 250" "length (rbuf easy_web) = 100" "rbuf easy_web ! 99 = NUL"
  "g_scaleConstant_X (globals easy_web) = 1" "g_scaleConstant_Y (globals easy_web) = 1"
  by code_simp+

lemma easy_web_window: "window easy_web = easy_window"
  by (simp add: easy_web_def)

lemma easy_lines: "length (web_line [Suc 0, Suc 0, 65]) = 7" "length (mouse_text 3 4 (Suc 0)) = 9"
  by code_simp+

theorem key_message_carried_out_witness:
  "\<exists>w'. web_event (web_line [1, 1, 65]) easy_web = Inr w'
    \<and> devs (inp (window w')) = [INPUT_EVENT_KIND_KEY (KEY_VALUE_KIND_NUMBER 30) True]"
proof -
  have nul: "NUL \<in> set (c_read 100 [] (drop (length (web_line [1, 1, 65])) (rbuf easy_web)))" by code_simp
  have d: "devs (inp (key_down_command (km easy_web ! 65) (window easy_web))) = [INPUT_EVENT_KIND_KEY (KEY_VALUE_KIND_NUMBER 30) True]"
    by code_simp
  show ?thesis
    using key_message_carried_out [OF _ _ easy_web_simps(1,2) _ nul] d by (auto simp: easy_lines)
qed

theorem mouse_message_carried_out_witness:
  "\<exists>w'. web_event (mouse_text 3 4 1) easy_web = Inr w' \<and> window w' = sdl_send_mouse_event 0 0 3 4 1 easy_window"
proof -
  have nul: "NUL \<in> set (c_read 100 [] (drop (length (mouse_text 3 4 1)) (rbuf easy_web)))" by code_simp
  have m: "\<not> g_androidMode (globals easy_web)" by code_simp
  show ?thesis
    using mouse_message_carried_out [OF _ _ _ _ nul easy_web_simps(4,5)] m by (auto simp: easy_lines easy_web_window)
qed

theorem coalesced_message_is_lost_witness:
  "\<exists>w1 w2. web_event (mouse_text 3 4 1) easy_web = Inr w1
    \<and> web_event (mouse_text 3 4 1 @ web_line [1, 1, 65]) easy_web = Inr w2 \<and> window w1 = window w2"
  by (rule coalesced_message_is_lost [OF _ _ _ easy_web_simps(2) _ easy_web_simps(3)]) (simp_all add: easy_lines)

end
