(* ===== verification/Web_Server.thy ===== *)
theory Web_Server
  imports Web_Input
begin

text \<open>
  The web server's worker, src/WebServer/bin/www: the relay of a virtual machine's image and audio streams to the
  browser and of the browser's events to the virtual machine; and the browser's event scripts,
  public/js/desktopEvent_stream.js and mobileEvent_stream.js.  A worker reacts to what its sockets report;
  \<open>worker_event\<close> gives its new variables and what it asks of the sockets.  Sockets are numbered.  Scaling of
  browser coordinates, which is done in floating point, is left out: events carry the scaled position, made
  a whole number by \<^verbatim>\<open>parseInt\<close>.
\<close>

subsection \<open>The worker\<close>

record worker =
  worker_id :: nat
  image_clients :: "(nat \<times> bool) list"
  Audio_stream :: "nat option"
  NET_SOCKET_TARGET :: "nat option"

definition IMAGE_STREAM_PORT :: "worker \<Rightarrow> nat" where "IMAGE_STREAM_PORT w = 8000 + worker_id w"
definition IMAGE_WEBSOCKET_PORT :: "worker \<Rightarrow> nat" where "IMAGE_WEBSOCKET_PORT w = 9000 + worker_id w"
definition AUDIO_STREAM_PORT :: "worker \<Rightarrow> nat" where "AUDIO_STREAM_PORT w = 8500 + worker_id w"
definition AUDIO_WEBSOCKET_PORT :: "worker \<Rightarrow> nat" where "AUDIO_WEBSOCKET_PORT w = 9500 + worker_id w"
definition NET_SOCKET_PORT :: "worker \<Rightarrow> nat" where "NET_SOCKET_PORT w = 7500 + worker_id w"
definition EVENT_WEBSOCKET_PORT :: "worker \<Rightarrow> nat" where "EVENT_WEBSOCKET_PORT w = 7000 + worker_id w"

definition worker_init :: "nat \<Rightarrow> worker" where
  "worker_init i = \<lparr>worker_id = i, image_clients = [], Audio_stream = None, NET_SOCKET_TARGET = None\<rparr>"

text \<open>The first component of a request's path, compared with the number 1234 by \<^verbatim>\<open>==\<close>; \<open>to_number\<close> is the conversion
  of a string to a number.\<close>

definition secret_ok :: "(string \<Rightarrow> int option) \<Rightarrow> string \<Rightarrow> bool" where
  "secret_ok to_number url \<longleftrightarrow> to_number (takeWhile (\<lambda>c. c \<noteq> CHR ''/'') (drop 1 url)) = Some 1234"

definition uint16_be :: "nat \<Rightarrow> u8 list" where
  "uint16_be n = [of_nat (n div 256), of_nat (n mod 256)]"

definition stream_header :: "u8 list" where
  "stream_header = map of_char ''jsmp'' @ uint16_be 768 @ uint16_be 1280"

datatype worker_input =
    Image_Connection nat
  | Image_Ready nat bool          \<comment> \<open>the library changes a client's ready state\<close>
  | Image_Close nat
  | Image_Data string "u8 list"   \<comment> \<open>a chunk of a request to this path\<close>
  | Audio_Connection nat
  | Audio_Close
  | Audio_Data string "u8 list"
  | Audio_Request_Close string
  | Audio_Request_Error string
  | Net_Connection nat
  | Net_Error nat
  | Net_End nat
  | Event_Message string
  | Event_Close

datatype worker_action =
    Image_Send nat "u8 list"
  | Audio_Write nat "u8 list"
  | Audio_End nat
  | Net_Write nat string
  | Net_Close nat
  | Free_Session nat              \<comment> \<open>\<^verbatim>\<open>setSession('sessionList2', 'port' + id, null)\<close>\<close>

definition broadcast :: "u8 list \<Rightarrow> worker \<Rightarrow> worker_action list" where
  "broadcast data w = map (\<lambda>(c, _). Image_Send c data) (filter snd (image_clients w))"

text \<open>The handlers of the image servers, of the audio servers and of the event servers.\<close>

definition image_connected :: "nat \<Rightarrow> worker \<Rightarrow> worker \<times> worker_action list" where
  "image_connected c w = (w\<lparr>image_clients := image_clients w @ [(c, True)]\<rparr>, [Image_Send c stream_header])"

definition image_disconnected :: "nat \<Rightarrow> worker \<Rightarrow> worker \<times> worker_action list" where
  "image_disconnected c w =
     (w\<lparr>image_clients := filter (\<lambda>(d, _). d \<noteq> c) (image_clients w)\<rparr>, [Free_Session (worker_id w)])"

definition ImageStreamServer :: "(string \<Rightarrow> int option) \<Rightarrow> string \<Rightarrow> u8 list \<Rightarrow> worker \<Rightarrow> worker \<times> worker_action list" where
  "ImageStreamServer num url data w = (w, if secret_ok num url then broadcast data w else [])"

definition audio_connected :: "nat \<Rightarrow> worker \<Rightarrow> worker \<times> worker_action list" where
  "audio_connected s w = (w\<lparr>Audio_stream := Some s\<rparr>, [])"

definition audio_disconnected :: "worker \<Rightarrow> worker \<times> worker_action list" where
  "audio_disconnected w = (w\<lparr>Audio_stream := None\<rparr>, [])"

definition AudioStreamServer_data :: "(string \<Rightarrow> int option) \<Rightarrow> string \<Rightarrow> u8 list \<Rightarrow> worker \<Rightarrow> worker \<times> worker_action list" where
  "AudioStreamServer_data num url data w =
     (w, if secret_ok num url then case Audio_stream w of None \<Rightarrow> [] | Some s \<Rightarrow> [Audio_Write s data] else [])"

definition AudioStreamServer_close :: "(string \<Rightarrow> int option) \<Rightarrow> string \<Rightarrow> worker \<Rightarrow> worker \<times> worker_action list" where
  "AudioStreamServer_close num url w =
     (w, if secret_ok num url then case Audio_stream w of None \<Rightarrow> [] | Some s \<Rightarrow> [Audio_End s] else [])"

definition AudioStreamServer_error :: "(string \<Rightarrow> int option) \<Rightarrow> string \<Rightarrow> worker \<Rightarrow> worker \<times> worker_action list" where
  "AudioStreamServer_error num url w = (if secret_ok num url then w\<lparr>Audio_stream := None\<rparr> else w, [])"

definition EventNetServer :: "nat \<Rightarrow> worker \<Rightarrow> worker \<times> worker_action list" where
  "EventNetServer s w = (w\<lparr>NET_SOCKET_TARGET := Some s\<rparr>, [])"

definition net_lost :: "worker \<Rightarrow> worker \<times> worker_action list" where
  "net_lost w = (w\<lparr>NET_SOCKET_TARGET := None\<rparr>, [])"

definition event_message :: "string \<Rightarrow> worker \<Rightarrow> worker \<times> worker_action list" where
  "event_message data w = (w, case NET_SOCKET_TARGET w of None \<Rightarrow> [] | Some s \<Rightarrow> [Net_Write s (data @ [CHR 0x0A])])"

definition event_closed :: "worker \<Rightarrow> worker \<times> worker_action list" where
  "event_closed w = (w, case NET_SOCKET_TARGET w of None \<Rightarrow> [] | Some s \<Rightarrow> [Net_Close s])"

lemmas worker_handlers [simp] = image_connected_def image_disconnected_def ImageStreamServer_def audio_connected_def
  audio_disconnected_def AudioStreamServer_data_def AudioStreamServer_close_def AudioStreamServer_error_def EventNetServer_def
  net_lost_def event_message_def event_closed_def

fun worker_event :: "(string \<Rightarrow> int option) \<Rightarrow> worker_input \<Rightarrow> worker \<Rightarrow> worker \<times> worker_action list" where
  "worker_event num (Image_Connection c) w = image_connected c w"
| "worker_event num (Image_Ready c b) w =
     (w\<lparr>image_clients := map (\<lambda>(d, r). (d, if d = c then b else r)) (image_clients w)\<rparr>, [])"
| "worker_event num (Image_Close c) w = image_disconnected c w"
| "worker_event num (Image_Data url data) w = ImageStreamServer num url data w"
| "worker_event num (Audio_Connection s) w = audio_connected s w"
| "worker_event num Audio_Close w = audio_disconnected w"
| "worker_event num (Audio_Data url data) w = AudioStreamServer_data num url data w"
| "worker_event num (Audio_Request_Close url) w = AudioStreamServer_close num url w"
| "worker_event num (Audio_Request_Error url) w = AudioStreamServer_error num url w"
| "worker_event num (Net_Connection s) w = EventNetServer s w"
| "worker_event num (Net_Error s) w = net_lost w"
| "worker_event num (Net_End s) w = net_lost w"
| "worker_event num (Event_Message data) w = event_message data w"
| "worker_event num Event_Close w = event_closed w"

fun worker_run :: "(string \<Rightarrow> int option) \<Rightarrow> worker_input list \<Rightarrow> worker \<Rightarrow> worker \<times> worker_action list" where
  "worker_run num [] w = (w, [])"
| "worker_run num (e # es) w =
     (let (w1, a) = worker_event num e w; (w2, as) = worker_run num es w1 in (w2, a @ as))"

subsection \<open>The browser\<close>

text \<open>\<open>check\<close> of the event scripts, and whether \<^verbatim>\<open>Event_client\<close> is set.\<close>

record page =
  page_check :: nat
  Event_client :: bool

datatype page_input =
    Mouse_Down nat int int        \<comment> \<open>\<^verbatim>\<open>event.which\<close> and the position\<close>
  | Mouse_Move int int
  | Mouse_Up int int
  | Mouse_Out int int
  | Key_Down nat
  | Key_Up nat
  | Touch_Start int int
  | Touch_Move int int
  | Touch_End int int

definition mouse_message :: "int \<Rightarrow> int \<Rightarrow> nat \<Rightarrow> string" where
  "mouse_message x y state = ''0 '' @ dec_of_int x @ '' '' @ dec_of_int y @ '' '' @ dec_of_nat state @ '' ''"

definition key_message :: "nat \<Rightarrow> nat \<Rightarrow> string" where
  "key_message state key = ''1 '' @ dec_of_nat state @ '' '' @ dec_of_nat key"

definition send_if :: "bool \<Rightarrow> string \<Rightarrow> string list" where
  "send_if b m = (if b then [m] else [])"

definition mouseEvent_down :: "nat \<Rightarrow> int \<Rightarrow> int \<Rightarrow> page \<Rightarrow> page \<times> string list" where
  "mouseEvent_down which x y p =
     (let (p1, m1) = (if which = 1 then (p\<lparr>page_check := 1\<rparr>, send_if (Event_client p) (mouse_message x y 1)) else (p, []));
          (p2, m2) = (if which = 3 then (p1\<lparr>page_check := 4\<rparr>, send_if (Event_client p1) (mouse_message x y 4)) else (p1, []))
      in (p2, m1 @ m2))"

definition mouseEvent_move :: "int \<Rightarrow> int \<Rightarrow> page \<Rightarrow> page \<times> string list" where
  "mouseEvent_move x y p = (p, send_if (page_check p = 1 \<and> Event_client p) (mouse_message x y 1))"

definition mouseEvent_up :: "int \<Rightarrow> int \<Rightarrow> page \<Rightarrow> page \<times> string list" where
  "mouseEvent_up x y p = (p\<lparr>page_check := 0\<rparr>, send_if (Event_client p) (mouse_message x y 0))"

definition mouseEvent_out :: "int \<Rightarrow> int \<Rightarrow> page \<Rightarrow> page \<times> string list" where
  "mouseEvent_out x y p =
     (p\<lparr>page_check := 0\<rparr>, send_if (Event_client p \<and> page_check p = 1) (mouse_message x y 0))"

definition keydown :: "nat \<Rightarrow> page \<Rightarrow> page \<times> string list" where
  "keydown key p = (p, send_if (Event_client p) (key_message 1 key))"

definition keyup :: "nat \<Rightarrow> page \<Rightarrow> page \<times> string list" where
  "keyup key p = (p, send_if (Event_client p) (key_message 0 key))"

definition touchEvent_start :: "int \<Rightarrow> int \<Rightarrow> page \<Rightarrow> page \<times> string list" where
  "touchEvent_start x y p = (p\<lparr>page_check := 1\<rparr>, send_if (Event_client p) (mouse_message x y 1))"

definition touchEvent_move :: "int \<Rightarrow> int \<Rightarrow> page \<Rightarrow> page \<times> string list" where
  "touchEvent_move x y p = (p, send_if (page_check p = 1 \<and> Event_client p) (mouse_message x y 1))"

definition touchEvent_end :: "int \<Rightarrow> int \<Rightarrow> page \<Rightarrow> page \<times> string list" where
  "touchEvent_end x y p = (p\<lparr>page_check := 0\<rparr>, send_if (Event_client p) (mouse_message x y 0))"

lemmas page_handlers [simp] = mouseEvent_down_def mouseEvent_move_def mouseEvent_up_def mouseEvent_out_def keydown_def keyup_def
  touchEvent_start_def touchEvent_move_def touchEvent_end_def

fun page_event :: "page_input \<Rightarrow> page \<Rightarrow> page \<times> string list" where
  "page_event (Mouse_Down which x y) p = mouseEvent_down which x y p"
| "page_event (Mouse_Move x y) p = mouseEvent_move x y p"
| "page_event (Mouse_Up x y) p = mouseEvent_up x y p"
| "page_event (Mouse_Out x y) p = mouseEvent_out x y p"
| "page_event (Key_Down key) p = keydown key p"
| "page_event (Key_Up key) p = keyup key p"
| "page_event (Touch_Start x y) p = touchEvent_start x y p"
| "page_event (Touch_Move x y) p = touchEvent_move x y p"
| "page_event (Touch_End x y) p = touchEvent_end x y p"

fun page_run :: "page_input list \<Rightarrow> page \<Rightarrow> page \<times> string list" where
  "page_run [] p = (p, [])"
| "page_run (e # es) p = (let (p1, m) = page_event e p; (p2, ms) = page_run es p1 in (p2, m @ ms))"

text \<open>The address of a stream: \<open>port_data\<close> arrives as a string, so that \<^verbatim>\<open>700 + port_data\<close> joins the digits.\<close>

definition stream_port :: "nat \<Rightarrow> string \<Rightarrow> string" where
  "stream_port base port_data = dec_of_nat base @ port_data"

text \<open>The browser's reading of the stream header, \<^verbatim>\<open>decodeSocketHeader\<close> of public/lib/jsmpg.js; a shorter message would
  give sizes that are no numbers.\<close>

definition decodeSocketHeader :: "u8 list \<Rightarrow> (nat \<times> nat) option" where
  "decodeSocketHeader data =
     (if length data \<ge> 8 \<and> take 4 data = map of_char ''jsmp''
      then Some (unat (data ! 4) * 256 + unat (data ! 5), unat (data ! 6) * 256 + unat (data ! 7)) else None)"

section \<open>Properties\<close>

subsection \<open>The mouse in the browser\<close>

text \<open>The button state the virtual machine was told last, the digit before a mouse message's last blank; 0 before
  the first message.\<close>

definition mouse_messages :: "string list \<Rightarrow> string list" where
  "mouse_messages ms = filter (\<lambda>m. take 1 m = ''0'') ms"

definition told :: "string list \<Rightarrow> nat" where
  "told ms = (let ks = mouse_messages ms in if ks = [] then 0 else digit_val (last ks ! (length (last ks) - 2)))"

lemma told_append: "told (ms @ ms') = (if mouse_messages ms' = [] then told ms else told ms')"
  by (simp add: told_def mouse_messages_def Let_def)

lemma mouse_messages_simps [simp]:
  "mouse_messages [] = []" "mouse_messages [mouse_message x y k] = [mouse_message x y k]" "mouse_messages [key_message k c] = []"
  by (simp_all add: mouse_messages_def mouse_message_def key_message_def)

lemma told_mouse: "k < 10 \<Longrightarrow> told [mouse_message x y k] = k"
proof -
  assume k: "k < 10"
  let ?pre = "''0 '' @ dec_of_int x @ '' '' @ dec_of_int y @ '' ''"
  have d: "dec_of_nat k = [char_of (48 + k)]" using k by (subst dec_of_nat.simps) simp
  have m: "mouse_message x y k = ?pre @ [char_of (48 + k), CHR '' '']" by (simp add: mouse_message_def d)
  have "mouse_message x y k ! (length (mouse_message x y k) - 2) = char_of (48 + k)" unfolding m by (simp add: nth_append)
  then show ?thesis using k by (simp add: told_def digit_val_def)
qed

lemma page_run_append:
  "page_run (es @ es') p = (let (p1, ms) = page_run es p; (p2, ms') = page_run es' p1 in (p2, ms @ ms'))"
  by (induction es arbitrary: p) (simp_all add: case_prod_unfold Let_def)

lemma page_client [simp]: "Event_client (fst (page_event e p)) = Event_client p"
  by (cases e) (simp_all add: Let_def)

definition page_ok :: "page \<times> string list \<Rightarrow> bool" where
  "page_ok pm \<longleftrightarrow> Event_client (fst pm) \<and> page_check (fst pm) \<in> {0, 1, 4} \<and> (told (snd pm) = 1 \<longleftrightarrow> page_check (fst pm) = 1)
     \<and> (page_check (fst pm) = 4 \<longrightarrow> told (snd pm) = 4) \<and> told (snd pm) \<in> {0, 1, 4}"

lemma page_event_ok:
  assumes "page_ok (p, ms)" "page_event e p = (p', m)"
  shows "page_ok (p', ms @ m)"
proof -
  have t: "told (ms @ [mouse_message x y k]) = k" if "k < 10" for x y k
    using that by (simp add: told_append told_mouse)
  have c: "told (ms @ [key_message k c]) = told ms" for k c
    by (simp add: told_append)
  have p': "p' = fst (page_event e p)" "m = snd (page_event e p)" using assms(2) by simp_all
  show ?thesis
    using assms(1) unfolding p' by (cases e; simp add: page_ok_def send_if_def Let_def t c; linarith)
qed

lemma page_run_ok: "page_ok (p, ms) \<Longrightarrow> page_run es p = (p', ms') \<Longrightarrow> page_ok (p', ms @ ms')"
proof (induction es arbitrary: p ms p' ms')
  case (Cons e es)
  obtain p1 m where e: "page_event e p = (p1, m)" by fastforce
  obtain p2 ms2 where r: "page_run es p1 = (p2, ms2)" by fastforce
  from Cons.IH [OF page_event_ok [OF Cons.prems(1) e] r] Cons.prems(2) e r show ?case by simp
qed simp

definition page_init :: page where
  "page_init = \<lparr>page_check = 0, Event_client = True\<rparr>"

text \<open>
  C37. Whatever the user does with mouse, keys and fingers, the virtual machine believes the left button to be
  pressed exactly while the page does: releasing it and leaving the canvas are always reported.
\<close>

theorem left_button_followed:
  assumes "page_run es page_init = (p, ms)"
  shows "told ms = 1 \<longleftrightarrow> page_check p = 1"
  using page_run_ok [of page_init "[]" es p ms] assms
  by (simp add: page_ok_def page_init_def told_def)

text \<open>
  Leaving the canvas with the right button pressed is not reported: the page takes the button for released,
  the virtual machine for pressed, and moving the mouse does not change that.
\<close>

theorem right_button_stuck:
  assumes "page_run (es @ [Mouse_Down 3 x y, Mouse_Out x' y'] @ map (\<lambda>(a, b). Mouse_Move a b) moves) page_init = (p, ms)"
  shows "told ms = 4 \<and> page_check p = 0"
proof -
  obtain p1 ms1 where r: "page_run es page_init = (p1, ms1)" by fastforce
  have "page_ok (p1, [] @ ms1)" by (rule page_run_ok [OF _ r]) (simp add: page_ok_def page_init_def told_def)
  then have c: "Event_client p1" by (simp add: page_ok_def)
  have still: "page_run (map (\<lambda>(a, b). Mouse_Move a b) moves) q = (q, [])" if "page_check q = 0" for q
    using that by (induction moves) (auto simp: send_if_def)
  have "page_run ([Mouse_Down 3 x y, Mouse_Out x' y'] @ map (\<lambda>(a, b). Mouse_Move a b) moves) p1 =
      (p1\<lparr>page_check := 0\<rparr>, [mouse_message x y 4])"
    using c by (simp add: still send_if_def Let_def)
  with assms r have "p = p1\<lparr>page_check := 0\<rparr>" "ms = ms1 @ [mouse_message x y 4]"
    by (simp_all add: page_run_append Let_def)
  then show ?thesis by (simp add: told_append told_mouse)
qed

subsection \<open>The relay\<close>

lemma worker_run_append:
  "worker_run num (es @ es') w = (let (w1, as) = worker_run num es w; (w2, as') = worker_run num es' w1 in (w2, as @ as'))"
  by (induction es arbitrary: w) (simp_all add: case_prod_unfold Let_def)

text \<open>What an event leaves of the connection to the virtual machine, and what is written to it.\<close>

definition net_event :: "worker_input \<Rightarrow> bool" where
  "net_event e \<longleftrightarrow> (case e of Net_Connection _ \<Rightarrow> True | Net_Error _ \<Rightarrow> True | Net_End _ \<Rightarrow> True | _ \<Rightarrow> False)"

definition written :: "worker_action list \<Rightarrow> (nat \<times> string) list" where
  "written as = concat (map (\<lambda>a. case a of Net_Write s d \<Rightarrow> [(s, d)] | _ \<Rightarrow> []) as)"

definition messages :: "worker_input list \<Rightarrow> string list" where
  "messages es = concat (map (\<lambda>e. case e of Event_Message d \<Rightarrow> [d] | _ \<Rightarrow> []) es)"

lemma written_append [simp]: "written (as @ bs) = written as @ written bs"
  by (simp add: written_def)

lemma relay_event:
  assumes "\<not> net_event e" "worker_event num e w = (w', as)"
  shows "NET_SOCKET_TARGET w' = NET_SOCKET_TARGET w"
    "written as = (case NET_SOCKET_TARGET w of None \<Rightarrow> [] | Some s \<Rightarrow> map (\<lambda>d. (s, d @ [CHR 0x0A])) (messages [e]))"
  using assms by (cases e; auto simp: net_event_def written_def messages_def broadcast_def split: if_splits option.splits)+

text \<open>
  C26. While a virtual machine stays connected, the worker passes it every event of the browser, in order and each
  ended with a newline, and nothing else, whatever happens on the other streams in between.
\<close>

theorem relay_in_order:
  assumes "list_all (\<lambda>e. \<not> net_event e) es" "worker_run num (Net_Connection s # es) w = (w', as)"
  shows "written as = map (\<lambda>d. (s, d @ [CHR 0x0A])) (messages es) \<and> NET_SOCKET_TARGET w' = Some s"
proof -
  have "written as = map (\<lambda>d. (s, d @ [CHR 0x0A])) (messages es) \<and> NET_SOCKET_TARGET w' = Some s"
    if "list_all (\<lambda>e. \<not> net_event e) es" "NET_SOCKET_TARGET w = Some s" "worker_run num es w = (w', as)" for es w as
    using that
  proof (induction es arbitrary: w as)
    case (Cons e es)
    obtain w1 a where e: "worker_event num e w = (w1, a)" by fastforce
    obtain w2 as2 where r: "worker_run num es w1 = (w2, as2)" by fastforce
    have n: "\<not> net_event e" using Cons.prems(1) by simp
    from relay_event [OF n e] Cons.prems(2)
    have t: "NET_SOCKET_TARGET w1 = Some s" "written a = map (\<lambda>d. (s, d @ [CHR 0x0A])) (messages [e])" by simp_all
    have wr: "w' = w2" "as = a @ as2" using Cons.prems(3) e r by simp_all
    have "written as2 = map (\<lambda>d. (s, d @ [CHR 0x0A])) (messages es) \<and> NET_SOCKET_TARGET w' = Some s"
      by (rule Cons.IH) (use Cons.prems(1) t(1) r wr(1) in auto)
    then show ?case using t(2) wr(2) by (simp add: messages_def)
  qed (simp add: written_def messages_def)
  note run = this
  obtain as1 where r: "worker_run num es (w\<lparr>NET_SOCKET_TARGET := Some s\<rparr>) = (w', as1)" "as = as1"
    using assms(2) by (simp split: prod.splits)
  show ?thesis unfolding r(2) by (rule run [OF assms(1) _ r(1)]) simp
qed

text \<open>
  When the connection of an earlier virtual machine ends, the worker forgets the one that has replaced
  it: from then on every event of the browser is dropped, although that machine is still connected.
\<close>

theorem stale_disconnect_silences:
  assumes "list_all (\<lambda>e. \<not> net_event e) es" "old \<noteq> s"
    and "worker_run num ([Net_Connection old, Net_Connection s, Net_End old] @ es) w = (w', as)"
  shows "written as = []"
proof -
  have "written as = []"
    if "list_all (\<lambda>e. \<not> net_event e) es" "NET_SOCKET_TARGET w = None" "worker_run num es w = (w', as)" for es w as
    using that
  proof (induction es arbitrary: w as)
    case (Cons e es)
    obtain w1 a where e: "worker_event num e w = (w1, a)" by fastforce
    obtain w2 as2 where r: "worker_run num es w1 = (w2, as2)" by fastforce
    have n: "\<not> net_event e" using Cons.prems(1) by simp
    from relay_event [OF n e] Cons.prems(2) have t: "NET_SOCKET_TARGET w1 = None" "written a = []" by simp_all
    have wr: "w' = w2" "as = a @ as2" using Cons.prems(3) e r by simp_all
    have "written as2 = []" by (rule Cons.IH) (use Cons.prems(1) t(1) r wr(1) in auto)
    then show ?case using t(2) wr(2) by simp
  qed (simp add: written_def)
  note run = this
  obtain as1 where r: "worker_run num es (w\<lparr>NET_SOCKET_TARGET := None\<rparr>) = (w', as1)" "as = as1"
    using assms(3) by (simp split: prod.splits)
  show ?thesis unfolding r(2) by (rule run [OF assms(1) _ r(1)]) simp
qed

text \<open>
  The browser decodes the stream header the worker sends it to the size the worker states.
\<close>

theorem stream_header_roundtrip: "decodeSocketHeader (stream_header @ rest) = Some (768, 1280)"
  by (simp add: decodeSocketHeader_def stream_header_def uint16_be_def)

text \<open>
  A chunk of the image stream goes to every client whose socket is open and to nobody else, and only
  when the request knows the secret.
\<close>

theorem image_stream_broadcast:
  "snd (worker_event num (Image_Data url data) w) =
     (if num (takeWhile (\<lambda>c. c \<noteq> CHR ''/'') (drop 1 url)) = Some 1234
      then map (\<lambda>c. Image_Send c data) (map fst (filter snd (image_clients w))) else [])"
  by (simp add: secret_ok_def broadcast_def case_prod_unfold comp_def)

subsection \<open>Examples\<close>

theorem left_button_followed_witness: "told (snd (page_run [Mouse_Down 1 5 6, Mouse_Move 7 8] page_init)) = 1"
proof -
  have "page_run [Mouse_Down 1 5 6, Mouse_Move 7 8] page_init = (page_init\<lparr>page_check := 1\<rparr>, [mouse_message 5 6 1, mouse_message 7 8 1])"
    by (simp add: page_init_def send_if_def)
  from left_button_followed [OF this] show ?thesis by (simp add: page_init_def send_if_def)
qed

theorem right_button_stuck_witness: "told (snd (page_run [Mouse_Down 3 5 6, Mouse_Out 0 6, Mouse_Move 7 8] page_init)) = 4"
proof -
  let ?es = "[Mouse_Down 3 5 6, Mouse_Out 0 6, Mouse_Move 7 8]"
  have "page_run ([] @ [Mouse_Down 3 5 6, Mouse_Out 0 6] @ map (\<lambda>(a, b). Mouse_Move a b) [(7, 8)]) page_init =
      (fst (page_run ?es page_init), snd (page_run ?es page_init))" by simp
  from right_button_stuck [OF this] show ?thesis by simp
qed

theorem relay_in_order_witness:
  "written (snd (worker_run (\<lambda>_. None) [Net_Connection 4, Event_Message ''a'', Audio_Close, Event_Message ''b''] (worker_init 1)))
     = [(4, ''a'' @ [CHR 0x0A]), (4, ''b'' @ [CHR 0x0A])]"
proof -
  let ?es = "[Event_Message ''a'', Audio_Close, Event_Message ''b'']"
  have "worker_run (\<lambda>_. None) (Net_Connection 4 # ?es) (worker_init 1) =
      (fst (worker_run (\<lambda>_. None) (Net_Connection 4 # ?es) (worker_init 1)), snd (worker_run (\<lambda>_. None) (Net_Connection 4 # ?es) (worker_init 1)))"
    by (simp only: prod.collapse)
  from relay_in_order [OF _ this] show ?thesis by (simp add: net_event_def messages_def)
qed

theorem stale_disconnect_silences_witness:
  "written (snd (worker_run (\<lambda>_. None) [Net_Connection 4, Net_Connection 5, Net_End 4, Event_Message ''a''] (worker_init 1))) = []"
proof -
  let ?es = "[Net_Connection 4, Net_Connection 5, Net_End 4] @ [Event_Message ''a'']"
  have "worker_run (\<lambda>_. None) ?es (worker_init 1) =
      (fst (worker_run (\<lambda>_. None) ?es (worker_init 1)), snd (worker_run (\<lambda>_. None) ?es (worker_init 1)))"
    by (simp only: prod.collapse)
  from stale_disconnect_silences [OF _ _ this] show ?thesis by (simp add: net_event_def)
qed

end
