(* ===== verification/Audio_Spool.thy ===== *)
theory Audio_Spool
  imports Client_Ipc
begin

text \<open>
  The sound path of a virtual machine.  \<^verbatim>\<open>alsa_run_out\<close> and \<^verbatim>\<open>alsa_write_pending\<close> of
  src/Qemu-2.4.1/audio/alsaaudio.c, with \<^verbatim>\<open>audio_pcm_hw_clip_out\<close> of audio/audio.c, move samples from
  the mixer through a ring of frames to the sound device, and the repository's addition copies the
  ring to the files \<^verbatim>\<open>test001.raw\<close> to \<^verbatim>\<open>test100.raw\<close>.  \<^verbatim>\<open>thread_fb\<close> of vl.c hands finished files to
  ffmpeg and deletes them, concurrently.  Loops that the device could keep running are partial
  functions to \<open>option\<close>.  The device's answers and the conversion \<^verbatim>\<open>hw->clip\<close> of one sample are
  parameters.
\<close>

subsection \<open>The ring of frames\<close>

record 's voice =
  samples :: int
  shift :: nat
  mix_buf :: "'s list"
  rpos :: int
  wpos :: int
  pending :: int
  pcm_buf :: "u8 list"

definition overwrite :: "nat \<Rightarrow> 'a list \<Rightarrow> 'a list \<Rightarrow> 'a list" where
  "overwrite p ys xs = take p xs @ ys @ drop (p + length ys) xs"

text \<open>The loop of \<^verbatim>\<open>audio_pcm_hw_clip_out\<close>; \<open>clip1\<close> converts one sample.\<close>

partial_function (option) clip_loop ::
  "('s \<Rightarrow> u8 list) \<Rightarrow> int \<Rightarrow> int \<Rightarrow> 's voice \<Rightarrow> ('s voice \<times> int) option" where
  "clip_loop clip1 len clipped v =
     (if len = 0 then Some (v, clipped)
      else let n = min len (samples v - rpos v);
               src = take (nat n) (drop (nat (rpos v)) (mix_buf v));
               buf = overwrite (nat (rpos v) * 2 ^ shift v) (concat (map clip1 src)) (pcm_buf v)
           in clip_loop clip1 (len - n) (clipped + n)
                (v\<lparr>rpos := (rpos v + n) mod samples v, pcm_buf := buf\<rparr>))"

definition audio_pcm_hw_clip_out :: "('s \<Rightarrow> u8 list) \<Rightarrow> int \<Rightarrow> 's voice \<Rightarrow> ('s voice \<times> int) option" where
  "audio_pcm_hw_clip_out clip1 live v = clip_loop clip1 (min (samples v - pending v) live) 0 v"

subsection \<open>The spool files\<close>

record spool =
  file_pos :: int
  pending_cnt :: int
  work_pos :: int
  files :: "string \<Rightarrow> u8 list option"

definition spool_init :: spool where
  "spool_init = \<lparr>file_pos = 1, pending_cnt = 0, work_pos = 1, files = (\<lambda>_. None)\<rparr>"

definition FINALPOS :: int where "FINALPOS = 100"
definition FINALCNT :: int where "FINALCNT = 2"

definition Next_cnt :: "int \<Rightarrow> int" where
  "Next_cnt n = (if n = FINALCNT then 0 else n + 1)"

definition Next_pos :: "int \<Rightarrow> int" where
  "Next_pos n = (if n = FINALPOS then 1 else n + 1)"

text \<open>\<^verbatim>\<open>"./test%03d.raw"\<close>\<close>

definition pad3 :: "string \<Rightarrow> string" where
  "pad3 s = replicate (3 - length s) CHR ''0'' @ s"

definition raw_name :: "int \<Rightarrow> string" where
  "raw_name n = ''./test'' @ pad3 (dec_of_int n) @ ''.raw''"

definition append_file :: "string \<Rightarrow> u8 list \<Rightarrow> (string \<Rightarrow> u8 list option) \<Rightarrow> string \<Rightarrow> u8 list option" where
  "append_file name bytes fs = fs(name := Some (case fs name of None \<Rightarrow> bytes | Some old \<Rightarrow> old @ bytes))"

text \<open>
  The part of \<^verbatim>\<open>alsa_write_pending\<close> before its loop.  The stream is closed with \<^verbatim>\<open>close\<close>, not
  \<^verbatim>\<open>fclose\<close>: \<open>flushed\<close> is the part of the data that stdio has written by then.
\<close>

definition spool_block :: "(u8 list \<Rightarrow> u8 list) \<Rightarrow> u8 list \<Rightarrow> spool \<Rightarrow> spool" where
  "spool_block flushed bytes sp =
     (let fs = append_file (raw_name (file_pos sp)) (flushed bytes) (files sp);
          cnt = pending_cnt sp + 1
      in if cnt = FINALCNT
         then sp\<lparr>file_pos := Next_pos (file_pos sp), pending_cnt := 0, files := fs\<rparr>
         else sp\<lparr>pending_cnt := cnt, files := fs\<rparr>)"

definition spool_write :: "bool \<Rightarrow> (u8 list \<Rightarrow> u8 list) \<Rightarrow> int \<Rightarrow> 's voice \<Rightarrow> spool \<Rightarrow> c_fault + spool" where
  "spool_write open_ok flushed play_test v sp =
     (if play_test > -1 \<and> (wpos v = 0 \<or> wpos v + pending v \<ge> samples v)
      then if open_ok then Inr (spool_block flushed (take (nat (samples v) * 2 ^ shift v) (pcm_buf v)) sp)
           else Inl Null_Pointer
      else Inr sp)"

subsection \<open>Writing to the device\<close>

definition EPIPE :: int where "EPIPE = 32"
definition ESTRPIPE :: int where "ESTRPIPE = 86"

text \<open>
  The nested loops of \<^verbatim>\<open>alsa_write_pending\<close>.  \<open>dev k len\<close> is the device's answer to the \<open>k\<close>-th call
  of \<^verbatim>\<open>snd_pcm_writei\<close>, asked for \<open>len\<close> frames, and whether a recovery after an error works.  \<open>cur\<close> holds
  \<^verbatim>\<open>src\<close>, as a frame number, and \<^verbatim>\<open>len\<close>; \<open>sent\<close> lists where the accepted frames started and their number.
\<close>

partial_function (option) alsa_loop ::
  "(nat \<Rightarrow> int \<Rightarrow> int \<times> bool) \<Rightarrow> nat \<Rightarrow> int \<times> int \<Rightarrow> (int \<times> int) list \<Rightarrow> 's voice
   \<Rightarrow> ('s voice \<times> (int \<times> int) list) option" where
  "alsa_loop dev k cur sent v =
     (if snd cur = 0
      then if pending v = 0 then Some (v, sent)
           else alsa_loop dev k (wpos v, min (pending v) (samples v - wpos v)) sent v
      else let (written, recovered) = dev k (snd cur)
           in if written \<le> 0
              then if (written = - EPIPE \<or> written = - ESTRPIPE) \<and> recovered
                   then alsa_loop dev (k + 1) cur sent v
                   else Some (v, sent)
              else alsa_loop dev (k + 1) (fst cur, snd cur - written) (sent @ [(fst cur, written)])
                     (v\<lparr>wpos := (wpos v + written) mod samples v, pending := pending v - written\<rparr>))"

definition alsa_write_pending ::
  "bool \<Rightarrow> (u8 list \<Rightarrow> u8 list) \<Rightarrow> int \<Rightarrow> (nat \<Rightarrow> int \<Rightarrow> int \<times> bool) \<Rightarrow> 's voice \<times> spool
   \<Rightarrow> (c_fault + ('s voice \<times> (int \<times> int) list) \<times> spool) option" where
  "alsa_write_pending open_ok flushed play_test dev s =
     (case spool_write open_ok flushed play_test (fst s) (snd s) of
        Inl e \<Rightarrow> Some (Inl e)
      | Inr sp \<Rightarrow> map_option (\<lambda>r. Inr (r, sp)) (alsa_loop dev 0 (0, 0) [] (fst s)))"

text \<open>\<open>avail\<close> is the answer of \<^verbatim>\<open>alsa_get_avail\<close>.\<close>

definition alsa_run_out ::
  "('s \<Rightarrow> u8 list) \<Rightarrow> bool \<Rightarrow> (u8 list \<Rightarrow> u8 list) \<Rightarrow> int \<Rightarrow> (nat \<Rightarrow> int \<Rightarrow> int \<times> bool) \<Rightarrow> int \<Rightarrow> int \<Rightarrow> 's voice \<times> spool
   \<Rightarrow> (c_fault + int \<times> ('s voice \<times> (int \<times> int) list) \<times> spool) option" where
  "alsa_run_out clip1 open_ok flushed play_test dev avail live s =
     (if avail < 0 then Some (Inr (0, (fst s, []), snd s))
      else case audio_pcm_hw_clip_out clip1 (min live avail) (fst s) of
             None \<Rightarrow> None
           | Some (v, decr) \<Rightarrow>
               map_option (map_sum id (\<lambda>r. (decr, r)))
                 (alsa_write_pending open_ok flushed play_test dev (v\<lparr>pending := pending v + decr\<rparr>, snd s)))"

subsection \<open>Handing the files to ffmpeg\<close>

datatype fb_command = Frame_Command string | Audio_Command string "u8 list option" | Remove_Command string

text \<open>One turn of the inner loop of \<^verbatim>\<open>thread_fb\<close>.\<close>

definition work_step :: "string \<Rightarrow> spool \<Rightarrow> c_fault + spool \<times> fb_command list" where
  "work_step audio_domain sp =
     bindE (sprintf_into 100 (raw_name (work_pos sp))) (\<lambda>name.
     bindE (sprintf_into 300 (''ffmpeg -f s16le -ar 44.1k -ac 2 -i '' @ name @ '' -acodec libmp3lame -f mp3 '' @ audio_domain)) (\<lambda>cmd.
     bindE (sprintf_into 300 (''rm '' @ name)) (\<lambda>rm.
       Inr (sp\<lparr>work_pos := Next_pos (work_pos sp), files := (files sp)(name := None)\<rparr>,
            [Audio_Command cmd (files sp name), Remove_Command rm]))))"

partial_function (option) work_loop ::
  "string \<Rightarrow> int \<Rightarrow> fb_command list \<Rightarrow> spool \<Rightarrow> (c_fault + spool \<times> fb_command list) option" where
  "work_loop audio_domain temp_pos acts sp =
     (if work_pos sp = temp_pos then Some (Inr (sp, acts))
      else case work_step audio_domain sp of
             Inl e \<Rightarrow> Some (Inl e)
           | Inr r \<Rightarrow> work_loop audio_domain temp_pos (acts @ snd r) (fst r))"

text \<open>One turn of \<^verbatim>\<open>thread_fb\<close>.\<close>

definition thread_fb :: "qemu_globals \<Rightarrow> spool \<Rightarrow> (c_fault + spool \<times> fb_command list) option" where
  "thread_fb gl sp =
     (case sprintf_into 300 (''ffmpeg -i ./fb_data.ppm -f mpeg1video '' @ g_frame_domain gl) of
        Inl e \<Rightarrow> Some (Inl e)
      | Inr cmd \<Rightarrow> work_loop (g_audio_domain gl) (file_pos sp) [Frame_Command cmd] sp)"

subsection \<open>Blocks of bytes\<close>

definition block :: "nat \<Rightarrow> nat \<Rightarrow> 'a list \<Rightarrow> 'a list" where
  "block F i xs = take F (drop (i * F) xs)"

lemma length_concat_blocks:
  "\<forall>x \<in> set xs. length (f x) = F \<Longrightarrow> length (concat (map f xs)) = length xs * F"
  by (induction xs) auto

lemma block_concat:
  "\<forall>x \<in> set xs. length (f x) = F \<Longrightarrow> j < length xs \<Longrightarrow> block F j (concat (map f xs)) = f (xs ! j)"
proof (induction xs arbitrary: j)
  case (Cons x xs)
  then show ?case by (cases j) (auto simp: block_def)
qed simp

lemma nth_overwrite:
  "p + length ys \<le> length xs \<Longrightarrow> k < length xs \<Longrightarrow>
    overwrite p ys xs ! k = (if p \<le> k \<and> k < p + length ys then ys ! (k - p) else xs ! k)"
  by (auto simp: overwrite_def nth_append min_def)

lemma length_overwrite: "p + length ys \<le> length xs \<Longrightarrow> length (overwrite p ys xs) = length xs"
  by (simp add: overwrite_def)

lemma block_overwrite:
  assumes "length ys = m * F" "length xs = S * F" "q + m \<le> S" "i < S"
  shows "block F i (overwrite (q * F) ys xs) = (if q \<le> i \<and> i < q + m then block F (i - q) ys else block F i xs)"
proof -
  have qm: "q * F + length ys \<le> length xs"
    using mult_right_mono [OF assms(3), of F] assms(1,2) by (simp add: add_mult_distrib)
  have blk: "j * F + F \<le> n * F" if "j < n" for j n :: nat
    using mult_right_mono [of "Suc j" n F] that by simp
  have iS: "i * F + F \<le> length xs" using blk [OF assms(4)] assms(2) by simp
  have rng: "q * F \<le> i * F + t \<and> i * F + t < q * F + length ys \<longleftrightarrow> q \<le> i \<and> i < q + m" if "t < F" for t
  proof -
    have "q * F \<le> i * F + t \<longleftrightarrow> q \<le> i"
    proof (cases "q \<le> i")
      case True
      from mult_le_mono1 [OF this, of F] show ?thesis using True by linarith
    next
      case False
      then show ?thesis using blk [of i q] that by linarith
    qed
    moreover have "i * F + t < q * F + length ys \<longleftrightarrow> i < q + m"
    proof (cases "i < q + m")
      case True
      then show ?thesis using blk [of i "q + m"] that assms(1) by (simp add: add_mult_distrib)
    next
      case False
      then show ?thesis using mult_le_mono1 [of "q + m" i F] assms(1) by (simp add: add_mult_distrib)
    qed
    ultimately show ?thesis by simp
  qed
  have y: "(i - q) * F + F \<le> length ys" if "q \<le> i" "i < q + m"
    using blk [of "i - q" m] that assms(1) by simp
  show ?thesis
  proof (rule nth_equalityI)
    show "length (block F i (overwrite (q * F) ys xs)) = length (if q \<le> i \<and> i < q + m then block F (i - q) ys else block F i xs)"
      using iS y by (auto simp: block_def length_overwrite [OF qm])
    fix t assume "t < length (block F i (overwrite (q * F) ys xs))"
    then have t: "t < F" "i * F + t < length xs" using iS by (auto simp: block_def length_overwrite [OF qm])
    have "i * F + t - q * F = (i - q) * F + t" if "q \<le> i"
      using mult_right_mono [OF that, of F] by (simp add: diff_mult_distrib)
    then show "block F i (overwrite (q * F) ys xs) ! t = (if q \<le> i \<and> i < q + m then block F (i - q) ys else block F i xs) ! t"
      using t y rng [OF t(1)] iS by (auto simp: block_def nth_overwrite [OF qm] length_overwrite [OF qm])
  qed
qed

subsection \<open>The ring\<close>

definition frame_at :: "'s voice \<Rightarrow> int \<Rightarrow> u8 list" where
  "frame_at v i = block (2 ^ shift v) (nat i) (pcm_buf v)"

text \<open>The mixer's read position is where the pending frames end.\<close>

definition voice_ok :: "'s voice \<Rightarrow> bool" where
  "voice_ok v \<longleftrightarrow> 0 < samples v \<and> 0 \<le> rpos v \<and> rpos v < samples v \<and> 0 \<le> wpos v \<and> wpos v < samples v
     \<and> 0 \<le> pending v \<and> pending v \<le> samples v \<and> rpos v = (wpos v + pending v) mod samples v
     \<and> int (length (mix_buf v)) = samples v \<and> length (pcm_buf v) = nat (samples v) * 2 ^ shift v"

lemma clip_chunk:
  assumes "0 \<le> rpos v" "0 < n" "rpos v + n \<le> samples v" "int (length (mix_buf v)) = samples v"
    and "length (pcm_buf v) = nat (samples v) * 2 ^ shift v" "\<And>s. length (clip1 s) = 2 ^ shift v"
    and v': "v' = v\<lparr>rpos := (rpos v + n) mod samples v, pcm_buf := overwrite (nat (rpos v) * 2 ^ shift v)
      (concat (map clip1 (take (nat n) (drop (nat (rpos v)) (mix_buf v))))) (pcm_buf v)\<rparr>"
  shows "length (pcm_buf v') = length (pcm_buf v)"
    and "0 \<le> i \<Longrightarrow> i < samples v \<Longrightarrow> frame_at v' i =
      (if rpos v \<le> i \<and> i < rpos v + n then clip1 (mix_buf v ! nat i) else frame_at v i)"
proof -
  let ?F = "2 ^ shift v" and ?src = "take (nat n) (drop (nat (rpos v)) (mix_buf v))"
  have src: "length ?src = nat n" using assms(1-4) by simp
  have len: "length (concat (map clip1 ?src)) = nat n * ?F"
    using length_concat_blocks [of ?src clip1 ?F] assms(6) src by simp
  have fit: "nat (rpos v) + nat n \<le> nat (samples v)" using assms(1-3) by simp
  have "nat (rpos v) * ?F + length (concat (map clip1 ?src)) \<le> length (pcm_buf v)"
    using mult_right_mono [OF fit, of ?F] by (simp only: len assms(5)) (simp add: add_mult_distrib)
  then show "length (pcm_buf v') = length (pcm_buf v)" by (simp add: v' length_overwrite)
  assume i: "0 \<le> i" "i < samples v"
  have "block ?F (nat i) (pcm_buf v') = (if nat (rpos v) \<le> nat i \<and> nat i < nat (rpos v) + nat n
      then block ?F (nat i - nat (rpos v)) (concat (map clip1 ?src)) else block ?F (nat i) (pcm_buf v))"
    unfolding v' using block_overwrite [OF len assms(5) fit, of "nat i"] i by simp
  moreover have "block ?F (nat i - nat (rpos v)) (concat (map clip1 ?src)) = clip1 (mix_buf v ! nat i)"
    if "rpos v \<le> i" "i < rpos v + n"
    using block_concat [of ?src clip1 ?F "nat i - nat (rpos v)"] assms(1-4,6) src that by simp
  moreover have "nat (rpos v) \<le> nat i \<and> nat i < nat (rpos v) + nat n \<longleftrightarrow> rpos v \<le> i \<and> i < rpos v + n"
    using assms(1,2) i by auto
  ultimately show "frame_at v' i = (if rpos v \<le> i \<and> i < rpos v + n then clip1 (mix_buf v ! nat i) else frame_at v i)"
    by (simp add: frame_at_def v')
qed

lemma ring_offset:
  fixes i r S :: int
  assumes "0 \<le> i" "i < S" "0 \<le> r" "r < S"
  shows "(i - r) mod S = (if r \<le> i then i - r else i - r + S)"
proof (cases "r \<le> i")
  case False
  then have "(i - r + S) mod S = i - r + S" using assms by (intro mod_pos_pos_trivial) auto
  then show ?thesis using False by simp
qed (use assms in auto)

lemma clip_loop_ok:
  assumes "0 \<le> len" "0 \<le> rpos v" "rpos v < samples v" "int (length (mix_buf v)) = samples v"
    and "length (pcm_buf v) = nat (samples v) * 2 ^ shift v" "\<And>s. length (clip1 s) = 2 ^ shift v"
  shows "\<exists>v'. clip_loop clip1 len c v = Some (v', c + len) \<and> rpos v' = (rpos v + len) mod samples v
    \<and> v' = v\<lparr>rpos := rpos v', pcm_buf := pcm_buf v'\<rparr> \<and> length (pcm_buf v') = length (pcm_buf v)
    \<and> (\<forall>i. 0 \<le> i \<and> i < samples v \<longrightarrow> frame_at v' i =
         (if (i - rpos v) mod samples v < len then clip1 (mix_buf v ! nat i) else frame_at v i))"
  using assms
proof (induction "nat len" arbitrary: len c v rule: less_induct)
  case less
  let ?S = "samples v" and ?r = "rpos v"
  show ?case
  proof (cases "len = 0")
    case True
    have "\<not> (i - ?r) mod ?S < 0" for i using less.prems by (simp add: not_less)
    then show ?thesis using True less.prems by (subst clip_loop.simps) auto
  next
    case False
    define n where "n = min len (?S - ?r)"
    define v1 where "v1 = v\<lparr>rpos := (rpos v + n) mod samples v, pcm_buf := overwrite (nat (rpos v) * 2 ^ shift v)
      (concat (map clip1 (take (nat n) (drop (nat (rpos v)) (mix_buf v))))) (pcm_buf v)\<rparr>"
    have n: "0 < n" "n \<le> len" "?r + n \<le> ?S" using False less.prems by (auto simp: n_def)
    note chunk = clip_chunk [OF less.prems(2) n(1,3) less.prems(4,5,6) v1_def]
    have "\<exists>v'. clip_loop clip1 (len - n) (c + n) v1 = Some (v', c + n + (len - n)) \<and> rpos v' = (rpos v1 + (len - n)) mod samples v1
    \<and> v' = v1\<lparr>rpos := rpos v', pcm_buf := pcm_buf v'\<rparr> \<and> length (pcm_buf v') = length (pcm_buf v1)
    \<and> (\<forall>i. 0 \<le> i \<and> i < samples v1 \<longrightarrow> frame_at v' i =
         (if (i - rpos v1) mod samples v1 < len - n then clip1 (mix_buf v1 ! nat i) else frame_at v1 i))"
      by (rule less.hyps) (use n less.prems chunk(1) in \<open>auto simp: v1_def\<close>)
    then obtain v' where v': "clip_loop clip1 (len - n) (c + n) v1 = Some (v', c + len)"
      "rpos v' = (rpos v1 + (len - n)) mod ?S" "v' = v1\<lparr>rpos := rpos v', pcm_buf := pcm_buf v'\<rparr>"
      "length (pcm_buf v') = length (pcm_buf v1)"
      "\<forall>i. 0 \<le> i \<and> i < ?S \<longrightarrow> frame_at v' i =
         (if (i - rpos v1) mod ?S < len - n then clip1 (mix_buf v ! nat i) else frame_at v1 i)"
      by (auto simp: v1_def)
    have run: "clip_loop clip1 len c v = Some (v', c + len)"
      using v'(1) False by (subst clip_loop.simps) (simp add: n_def [symmetric] v1_def Let_def)
    have pos: "rpos v' = (?r + len) mod ?S" using v'(2) by (simp add: v1_def mod_simps)
    have eqv: "v' = v\<lparr>rpos := rpos v', pcm_buf := pcm_buf v'\<rparr>" by (subst v'(3)) (simp add: v1_def)
    have r1: "rpos v1 = (if len < ?S - ?r then ?r + n else 0)"
      using n less.prems by (auto simp: v1_def n_def min_def)
    have nn: "\<not> x mod ?S < 0" for x using less.prems by (simp add: not_less)
    have written: "(i - rpos v1) mod ?S < len - n \<or> (?r \<le> i \<and> i < ?r + n) \<longleftrightarrow> (i - ?r) mod ?S < len"
      if "0 \<le> i" "i < ?S" for i
      using ring_offset [OF that less.prems(2,3)] that n less.prems(2,3) r1 mod_pos_pos_trivial [OF that]
      by (auto simp: n_def min_def nn)
    have "frame_at v' i = (if (i - ?r) mod ?S < len then clip1 (mix_buf v ! nat i) else frame_at v i)"
      if i: "0 \<le> i" "i < ?S" for i
      using v'(5) [rule_format, OF conjI [OF i]] chunk(2) [OF i] written [OF i] by (simp split: if_splits)
    then show ?thesis using run pos eqv v'(4) chunk(1) by auto
  qed
qed

subsection \<open>Device writes\<close>

definition sent_frames :: "(int \<times> int) list \<Rightarrow> int" where
  "sent_frames sent = sum_list (map snd sent)"

definition dev_bounded :: "(nat \<Rightarrow> int \<Rightarrow> int \<times> bool) \<Rightarrow> bool" where
  "dev_bounded dev \<longleftrightarrow> (\<forall>k len. 0 < len \<longrightarrow> fst (dev k len) \<le> len)"

definition dev_accepts :: "(nat \<Rightarrow> int \<Rightarrow> int \<times> bool) \<Rightarrow> bool" where
  "dev_accepts dev \<longleftrightarrow> (\<forall>k len. 0 < len \<longrightarrow> 0 < fst (dev k len) \<and> fst (dev k len) \<le> len)"

lemma voice_ok_written:
  assumes "voice_ok v" "0 < w" "w \<le> pending v"
  shows "voice_ok (v\<lparr>wpos := (wpos v + w) mod samples v, pending := pending v - w\<rparr>)"
  using assms by (simp add: voice_ok_def mod_simps)

definition drained :: "(int \<times> int) list \<Rightarrow> 's voice \<Rightarrow> 's voice \<times> (int \<times> int) list \<Rightarrow> bool" where
  "drained sent v r \<longleftrightarrow> voice_ok (fst r) \<and> fst r = v\<lparr>wpos := wpos (fst r), pending := pending (fst r)\<rparr>
    \<and> pending (fst r) + sent_frames (snd r) = pending v + sent_frames sent"

lemma alsa_loop_inv:
  assumes "alsa_loop dev k cur sent v = Some r" "dev_bounded dev"
    and "voice_ok v" "0 \<le> snd cur" "snd cur \<le> pending v"
  shows "drained sent v r"
proof -
  have "dev_bounded dev \<longrightarrow> voice_ok v \<longrightarrow> 0 \<le> snd cur \<longrightarrow> snd cur \<le> pending v \<longrightarrow> drained sent v r"
  proof (rule alsa_loop.raw_induct [OF _ assms(1)], intro impI)
    fix loop dev k cur sent and v :: "'a voice" and r
    assume IH: "\<And>dev k cur sent v r. loop dev k cur sent v = Some r \<Longrightarrow>
        dev_bounded dev \<longrightarrow> voice_ok v \<longrightarrow> 0 \<le> snd cur \<longrightarrow> snd cur \<le> pending v \<longrightarrow> drained sent v r"
      and eq: "(if snd cur = 0
        then if pending v = 0 then Some (v, sent)
             else loop dev k (wpos v, min (pending v) (samples v - wpos v)) sent v
        else let (written, recovered) = dev k (snd cur)
             in if written \<le> 0
                then if (written = - EPIPE \<or> written = - ESTRPIPE) \<and> recovered
                     then loop dev (k + 1) cur sent v else Some (v, sent)
                else loop dev (k + 1) (fst cur, snd cur - written) (sent @ [(fst cur, written)])
                      (v\<lparr>wpos := (wpos v + written) mod samples v, pending := pending v - written\<rparr>)) = Some r"
      and pre: "dev_bounded dev" "voice_ok v" "0 \<le> snd cur" "snd cur \<le> pending v"
    have stop: "drained sent v (v, sent)" using pre(2) by (simp add: drained_def)
    show "drained sent v r"
    proof (cases "snd cur = 0")
      case True
      have "0 \<le> min (pending v) (samples v - wpos v)" using pre(2) by (auto simp: voice_ok_def)
      then show ?thesis
        using eq True pre stop IH [of dev k "(wpos v, min (pending v) (samples v - wpos v))" sent v r]
        by (auto split: if_splits)
    next
      case False
      obtain w rec where d: "dev k (snd cur) = (w, rec)" by (cases "dev k (snd cur)")
      have "0 < snd cur" using pre(3) False by simp
      then have w: "w \<le> snd cur" using pre(1) d unfolding dev_bounded_def by (metis fst_conv)
      let ?v = "v\<lparr>wpos := (wpos v + w) mod samples v, pending := pending v - w\<rparr>"
      show ?thesis
      proof (cases "w \<le> 0")
        case True
        then show ?thesis using eq False d pre stop IH [of dev "k + 1" cur sent v r] by (auto split: if_splits)
      next
        case pos: False
        have "loop dev (k + 1) (fst cur, snd cur - w) (sent @ [(fst cur, w)]) ?v = Some r"
          using eq False pos d by simp
        then have "drained (sent @ [(fst cur, w)]) ?v r"
          using IH voice_ok_written [OF pre(2), of w] pre w pos by fastforce
        then show ?thesis by (simp add: drained_def sent_frames_def)
      qed
    qed
  qed
  then show ?thesis using assms(2-) by blast
qed

lemma alsa_loop_drains:
  assumes "dev_accepts dev" "voice_ok v" "0 \<le> snd cur" "snd cur \<le> pending v"
  shows "\<exists>r. alsa_loop dev k cur sent v = Some r \<and> pending (fst r) = 0"
  using assms(2-)
proof (induction "2 * nat (pending v) + (if snd cur = 0 then 1 else 0)" arbitrary: k cur sent v rule: less_induct)
  case less
  show ?case
  proof (cases "snd cur = 0")
    case True
    show ?thesis
    proof (cases "pending v = 0")
      case False
      let ?cur = "(wpos v, min (pending v) (samples v - wpos v))"
      have "0 < snd ?cur" "snd ?cur \<le> pending v" using less.prems False by (auto simp: voice_ok_def)
      then have "\<exists>r. alsa_loop dev k ?cur sent v = Some r \<and> pending (fst r) = 0"
        using True less.prems by (intro less.hyps) auto
      then show ?thesis using True False by (subst alsa_loop.simps) simp
    qed (use True in \<open>subst alsa_loop.simps, simp\<close>)
  next
    case False
    obtain w rec where d: "dev k (snd cur) = (w, rec)" by (cases "dev k (snd cur)")
    have "0 < snd cur" using less.prems(2) False by simp
    then have w: "0 < w" "w \<le> snd cur" using assms(1) d unfolding dev_accepts_def by (metis fst_conv)+
    let ?v = "v\<lparr>wpos := (wpos v + w) mod samples v, pending := pending v - w\<rparr>"
    have "\<exists>r. alsa_loop dev (k + 1) (fst cur, snd cur - w) (sent @ [(fst cur, w)]) ?v = Some r \<and> pending (fst r) = 0"
      using voice_ok_written [OF less.prems(1), of w] w less.prems by (intro less.hyps) auto
    then show ?thesis using False d w by (subst alsa_loop.simps) simp
  qed
qed

lemma clip_out_ok:
  assumes "voice_ok v" "0 \<le> live" "\<And>s. length (clip1 s) = 2 ^ shift v"
  shows "\<exists>v' decr. audio_pcm_hw_clip_out clip1 live v = Some (v', decr)
    \<and> decr = min (samples v - pending v) live \<and> voice_ok (v'\<lparr>pending := pending v' + decr\<rparr>)
    \<and> pending v' = pending v \<and> samples v' = samples v \<and> wpos v' = wpos v \<and> mix_buf v' = mix_buf v \<and> shift v' = shift v
    \<and> (\<forall>i. 0 \<le> i \<and> i < samples v \<longrightarrow> frame_at v' i =
         (if (i - rpos v) mod samples v < decr then clip1 (mix_buf v ! nat i) else frame_at v i))"
proof -
  let ?n = "min (samples v - pending v) live"
  have pre: "0 \<le> ?n" "0 \<le> rpos v" "rpos v < samples v" "int (length (mix_buf v)) = samples v"
    "length (pcm_buf v) = nat (samples v) * 2 ^ shift v" using assms(1,2) by (auto simp: voice_ok_def)
  from clip_loop_ok [OF pre, of clip1 0, OF assms(3), unfolded add_0] obtain v' where v': "clip_loop clip1 ?n 0 v = Some (v', ?n)"
    "rpos v' = (rpos v + ?n) mod samples v" "v' = v\<lparr>rpos := rpos v', pcm_buf := pcm_buf v'\<rparr>"
    "length (pcm_buf v') = length (pcm_buf v)"
    "\<forall>i. 0 \<le> i \<and> i < samples v \<longrightarrow> frame_at v' i =
         (if (i - rpos v) mod samples v < ?n then clip1 (mix_buf v ! nat i) else frame_at v i)" by blast
  have same: "pending v' = pending v" "samples v' = samples v" "wpos v' = wpos v" "mix_buf v' = mix_buf v" "shift v' = shift v"
    by (subst v'(3), simp)+
  have "rpos v = (wpos v + pending v) mod samples v" "0 < samples v" using assms(1) by (auto simp: voice_ok_def)
  then have "rpos v' = (wpos v + (pending v + ?n)) mod samples v" by (simp add: v'(2) mod_simps add.assoc)
  then have "voice_ok (v'\<lparr>pending := pending v' + ?n\<rparr>)"
    using assms(1) pre(1) v'(4) by (auto simp: voice_ok_def same)
  then show ?thesis using v'(1,5) same by (auto simp: audio_pcm_hw_clip_out_def)
qed

lemma frame_at_same: "shift v = shift w \<Longrightarrow> pcm_buf v = pcm_buf w \<Longrightarrow> frame_at v i = frame_at w i"
  by (simp add: frame_at_def)

text \<open>
  C30. Whatever a device that never accepts more than it was offered does, a call of the output routine that
  returns keeps the ring consistent, accounts for every frame, and puts exactly the newly mixed
  samples into the ring, behind the pending ones.
\<close>

theorem run_out_keeps_ring:
  assumes "voice_ok v" "dev_bounded dev" "0 \<le> live" "\<And>s. length (clip1 s) = 2 ^ shift v"
    and "alsa_run_out clip1 open_ok flushed play_test dev avail live (v, sp) = Some (Inr (decr, (v', sent), sp'))"
  shows "voice_ok v' \<and> 0 \<le> decr \<and> decr \<le> live \<and> pending v' + sent_frames sent = pending v + decr
    \<and> (\<forall>i. 0 \<le> i \<and> i < samples v \<longrightarrow> frame_at v' i =
         (if (i - rpos v) mod samples v < decr then clip1 (mix_buf v ! nat i) else frame_at v i))"
proof (cases "avail < 0")
  case True
  have "\<not> (i - rpos v) mod samples v < 0" for i using assms(1) by (simp add: voice_ok_def not_less)
  then show ?thesis using assms True by (auto simp: alsa_run_out_def sent_frames_def)
next
  case False
  have "0 \<le> min live avail" using False assms(3) by simp
  from clip_out_ok [OF assms(1) this, of clip1, OF assms(4)] obtain v1 d where
    v1: "audio_pcm_hw_clip_out clip1 (min live avail) v = Some (v1, d)" "d = min (samples v - pending v) (min live avail)"
    "voice_ok (v1\<lparr>pending := pending v1 + d\<rparr>)" "pending v1 = pending v" "shift v1 = shift v"
    "\<forall>i. 0 \<le> i \<and> i < samples v \<longrightarrow> frame_at v1 i =
         (if (i - rpos v) mod samples v < d then clip1 (mix_buf v ! nat i) else frame_at v i)" by blast
  let ?v = "v1\<lparr>pending := pending v1 + d\<rparr>"
  from assms(5) False v1(1) have "decr = d" and loop: "alsa_loop dev 0 (0, 0) [] ?v = Some (v', sent)"
    by (auto simp: alsa_run_out_def alsa_write_pending_def split: sum.splits option.splits)
  moreover have "0 \<le> pending ?v" using v1(3) by (auto simp: voice_ok_def)
  ultimately have dr: "drained [] ?v (v', sent)" using alsa_loop_inv [OF loop assms(2) v1(3)] by simp
  then have v': "v' = ?v\<lparr>wpos := wpos v', pending := pending v'\<rparr>" by (simp add: drained_def)
  have fr: "frame_at v' i = frame_at v1 i" for i
    by (rule frame_at_same) (subst v', simp)+
  have "0 \<le> d" "d \<le> live" using v1(2) False assms(1,3) by (auto simp: voice_ok_def)
  then show ?thesis using dr v1(4,6) \<open>decr = d\<close> fr by (simp add: drained_def sent_frames_def)
qed

text \<open>
  C31. When the device accepts at least one frame each time and the spool file can be opened, the call
  returns, takes as many frames from the mixer as fit, and leaves nothing pending.
\<close>

theorem run_out_returns:
  assumes "voice_ok v" "dev_accepts dev" "0 \<le> live" "0 \<le> avail" "\<And>s. length (clip1 s) = 2 ^ shift v"
  shows "\<exists>v' sent sp'. alsa_run_out clip1 True flushed play_test dev avail live (v, sp)
      = Some (Inr (min (samples v - pending v) (min live avail), (v', sent), sp')) \<and> pending v' = 0"
proof -
  have "0 \<le> min live avail" using assms(3,4) by simp
  from clip_out_ok [OF assms(1) this, of clip1, OF assms(5)] obtain v1 d where
    v1: "audio_pcm_hw_clip_out clip1 (min live avail) v = Some (v1, d)" "d = min (samples v - pending v) (min live avail)"
    "voice_ok (v1\<lparr>pending := pending v1 + d\<rparr>)" by blast
  let ?v = "v1\<lparr>pending := pending v1 + d\<rparr>"
  have "0 \<le> pending ?v" using v1(3) by (auto simp: voice_ok_def)
  with alsa_loop_drains [OF assms(2) v1(3), of "(0, 0)" 0 "[]"] obtain r where
    "alsa_loop dev 0 (0, 0) [] ?v = Some r" "pending (fst r) = 0" by auto
  moreover have "\<exists>sp1. spool_write True flushed play_test ?v sp = Inr sp1"
    by (simp add: spool_write_def)
  ultimately show ?thesis using assms(4) v1(1,2)
    by (cases r) (auto simp: alsa_run_out_def alsa_write_pending_def)
qed

text \<open>
  The source pointer does not move within the inner loop: when the device takes only some of the
  offered frames, the next call offers the same frames again and the last ones are never sent.
\<close>

theorem short_write_repeats_frames:
  assumes "voice_ok v" "0 < n" "n < pending v" "wpos v + pending v \<le> samples v"
    and "fst (dev 0 (pending v)) = n" "fst (dev 1 (pending v - n)) = pending v - n"
  shows "\<exists>v'. alsa_loop dev 0 (0, 0) [] v = Some (v', [(wpos v, n), (wpos v, pending v - n)]) \<and> pending v' = 0"
proof -
  obtain r0 r1 where d: "dev 0 (pending v) = (n, r0)" "dev (Suc 0) (pending v - n) = (pending v - n, r1)"
    using assms(5,6) by (metis One_nat_def prod.collapse)
  let ?v1 = "v\<lparr>wpos := (wpos v + n) mod samples v, pending := pending v - n\<rparr>"
  let ?v2 = "?v1\<lparr>wpos := (wpos ?v1 + (pending v - n)) mod samples v, pending := 0\<rparr>"
  have m: "min (pending v) (samples v - wpos v) = pending v" using assms(4) by simp
  have "alsa_loop dev 0 (0, 0) [] v = alsa_loop dev 0 (wpos v, pending v) [] v"
    using assms(2,3) m by (subst alsa_loop.simps) simp
  also have "\<dots> = alsa_loop dev 1 (wpos v, pending v - n) [(wpos v, n)] ?v1"
    using assms(2,3) d by (subst alsa_loop.simps) simp
  also have "\<dots> = alsa_loop dev 2 (wpos v, 0) [(wpos v, n), (wpos v, pending v - n)] ?v2"
    using assms(2,3) d by (subst alsa_loop.simps) (simp add: numeral_2_eq_2)
  also have "\<dots> = Some (?v2, [(wpos v, n), (wpos v, pending v - n)])"
    by (subst alsa_loop.simps) simp
  finally show ?thesis by auto
qed

subsection \<open>The spool\<close>

text \<open>The position \<open>n\<close> files behind position \<open>p\<close>.\<close>

definition pos_after :: "int \<Rightarrow> nat \<Rightarrow> int" where
  "pos_after p n = (p - 1 + int n) mod 100 + 1"

definition pos_ok :: "int \<Rightarrow> bool" where
  "pos_ok p \<longleftrightarrow> 1 \<le> p \<and> p \<le> 100"

lemma pos_after_simps [simp]: "pos_ok p \<Longrightarrow> pos_after p 0 = p" "pos_ok (pos_after p n)"
  by (auto simp: pos_ok_def pos_after_def)

lemma Next_pos_after: "Next_pos (pos_after p n) = pos_after p (Suc n)"
proof -
  let ?x = "(p - 1 + int n) mod 100"
  have "(?x + 1) mod 100 = (if ?x = 99 then 0 else ?x + 1)"
    using pos_mod_bound [of 100 "p - 1 + int n"] pos_mod_sign [of 100 "p - 1 + int n"] by (auto simp: mod_pos_pos_trivial)
  moreover have "(?x + 1) mod 100 = (p - 1 + int (Suc n)) mod 100" by (simp add: mod_simps add.commute add.left_commute)
  ultimately show ?thesis by (auto simp: Next_pos_def FINALPOS_def pos_after_def)
qed

lemma pos_after_Next: "pos_ok p \<Longrightarrow> pos_after (Next_pos p) n = pos_after p (Suc n)"
  by (cases "p = 100") (auto simp: Next_pos_def FINALPOS_def pos_after_def algebra_simps)

lemma pos_after_inj:
  assumes "pos_after p i = pos_after p j" "i < 100" "j < 100" shows "i = j"
proof -
  have "(p - 1 + int i) mod 100 = (p - 1 + int j) mod 100" using assms(1) by (simp add: pos_after_def)
  then have "(int i) mod 100 = (int j) mod 100"
    by (metis (no_types, opaque_lifting) add_diff_cancel_left' mod_diff_left_eq)
  then show ?thesis using assms(2,3) by simp
qed

lemma digits_val_zeros: "digits_val (replicate k CHR ''0'' @ ds) = digits_val ds"
proof (induction k)
  case (Suc k)
  then show ?case by (simp add: digits_val_def digit_val_def)
qed simp

lemma raw_name_inj: "0 \<le> p \<Longrightarrow> 0 \<le> q \<Longrightarrow> raw_name p = raw_name q \<Longrightarrow> p = q"
proof -
  assume "0 \<le> p" "0 \<le> q" "raw_name p = raw_name q"
  then have "pad3 (dec_of_nat (nat p)) = pad3 (dec_of_nat (nat q))" by (simp add: raw_name_def dec_of_int_def)
  then have "digits_val (dec_of_nat (nat p)) = digits_val (dec_of_nat (nat q))"
    unfolding pad3_def using digits_val_zeros by metis
  then show "p = q" using \<open>0 \<le> p\<close> \<open>0 \<le> q\<close> by simp
qed

lemma raw_name_pos: "i < 100 \<Longrightarrow> j < 100 \<Longrightarrow> raw_name (pos_after p i) = raw_name (pos_after p j) \<longleftrightarrow> i = j"
  using raw_name_inj [of "pos_after p i" "pos_after p j"] pos_after_inj [of p i j] by (auto simp: pos_after_def)

lemma length_raw_name: "pos_ok p \<Longrightarrow> length (raw_name p) = 13"
proof -
  assume p: "pos_ok p"
  then have "nat p < 10 ^ Suc 2" by (auto simp: pos_ok_def nat_less_iff)
  from length_dec_of_nat [OF this] p show ?thesis by (simp add: raw_name_def pad3_def dec_of_int_def pos_ok_def)
qed

text \<open>
  \<open>spooled L cur sp\<close>: the files waiting for ffmpeg hold \<open>L\<close>, oldest first; the file being filled
  holds \<open>cur\<close>; no other position has a file.
\<close>

definition spooled :: "u8 list list \<Rightarrow> u8 list \<Rightarrow> spool \<Rightarrow> bool" where
  "spooled L cur sp \<longleftrightarrow> pos_ok (work_pos sp) \<and> length L < 100 \<and> file_pos sp = pos_after (work_pos sp) (length L)
     \<and> (pending_cnt sp = 0 \<and> cur = [] \<or> pending_cnt sp = 1)
     \<and> (\<forall>i < length L. files sp (raw_name (pos_after (work_pos sp) i)) = Some (L ! i))
     \<and> files sp (raw_name (file_pos sp)) = (if pending_cnt sp = 0 then None else Some cur)
     \<and> (\<forall>i. length L < i \<and> i < 100 \<longrightarrow> files sp (raw_name (pos_after (work_pos sp) i)) = None)"

definition laps :: "spool \<Rightarrow> bool" where
  "laps sp \<longleftrightarrow> pending_cnt sp + 1 = FINALCNT \<and> Next_pos (file_pos sp) = work_pos sp"

lemma spool_block_spooled:
  assumes "spooled L cur sp" "\<not> laps sp"
  shows "\<exists>L' cur'. spooled L' cur' (spool_block flushed b sp) \<and> concat L' @ cur' = concat L @ cur @ flushed b
    \<and> (\<exists>M. L' = L @ M) \<and> work_pos (spool_block flushed b sp) = work_pos sp"
proof (cases "pending_cnt sp = 0")
  case True
  let ?sp = "spool_block flushed b sp"
  have "spooled L (flushed b) ?sp"
    using assms(1) True
    by (auto simp: spooled_def spool_block_def FINALCNT_def append_file_def Let_def raw_name_pos)
  moreover have "cur = []" using assms(1) True by (auto simp: spooled_def)
  ultimately show ?thesis using True by (intro exI [of _ L] exI [of _ "flushed b"]) (simp add: spool_block_def FINALCNT_def Let_def)
next
  case False
  let ?sp = "spool_block flushed b sp" and ?L = "L @ [cur @ flushed b]"
  have one: "pending_cnt sp = 1" using assms(1) False by (auto simp: spooled_def)
  have fp: "file_pos sp = pos_after (work_pos sp) (length L)" "pos_ok (work_pos sp)" using assms(1) by (auto simp: spooled_def)
  have ne: "pos_after (work_pos sp) (Suc (length L)) \<noteq> work_pos sp"
    using assms(2) one by (simp add: laps_def FINALCNT_def fp(1) Next_pos_after)
  have "length L < 100" using assms(1) by (simp add: spooled_def)
  moreover have "Suc (length L) \<noteq> 100"
  proof
    assume "Suc (length L) = 100"
    then have "pos_after (work_pos sp) (Suc (length L)) = pos_after (work_pos sp) 0"
      using mod_add_self2 [of "work_pos sp - 1" 100] by (simp add: pos_after_def)
    then show False using ne fp(2) by simp
  qed
  ultimately have len: "Suc (length L) < 100" by simp
  have "spooled ?L [] ?sp"
    using assms(1) one len
    by (auto simp: spooled_def spool_block_def FINALCNT_def append_file_def Let_def raw_name_pos Next_pos_after
        nth_append less_Suc_eq)
  then show ?thesis
    using one by (intro exI [of _ ?L] exI [of _ "[]"]) (simp add: spool_block_def FINALCNT_def Let_def)
qed

lemma work_step_spooled:
  assumes "spooled (x # L) cur sp" "length url < 100"
  shows "\<exists>sp' cmd rm. work_step url sp = Inr (sp', [Audio_Command cmd (Some x), Remove_Command rm])
    \<and> spooled L cur sp' \<and> work_pos sp' = Next_pos (work_pos sp) \<and> file_pos sp' = file_pos sp"
proof -
  let ?w = "work_pos sp" and ?sp = "sp\<lparr>work_pos := Next_pos (work_pos sp), files := (files sp)(raw_name (work_pos sp) := None)\<rparr>"
  have w: "pos_ok ?w" "length L < 99" using assms(1) by (auto simp: spooled_def)
  have nm: "raw_name ?w = raw_name (pos_after ?w 0)" using w by simp
  have x: "files sp (raw_name ?w) = Some x" using assms(1) w by (force simp: spooled_def)
  have run: "\<exists>cmd rm. work_step url sp = Inr (?sp, [Audio_Command cmd (Some x), Remove_Command rm])"
    using length_raw_name [OF w(1)] assms(2) x by (simp add: work_step_def sprintf_into_def)
  have other: "((files sp)(raw_name ?w := None)) (raw_name (pos_after ?w (Suc i)))
      = (if Suc i = 100 then None else files sp (raw_name (pos_after ?w (Suc i))))" if "i < 100" for i
  proof (cases "Suc i = 100")
    case True
    have "pos_after ?w 100 = pos_after ?w 0" using mod_add_self2 [of "?w - 1" 100] by (simp add: pos_after_def)
    then show ?thesis using True w by simp
  next
    case False
    then show ?thesis using raw_name_pos [of "Suc i" 0 ?w] that nm by auto
  qed
  have "pos_ok (Next_pos ?w)" using w(1) Next_pos_after [of ?w 0] by simp
  moreover have "\<forall>i < length L. files ?sp (raw_name (pos_after (Next_pos ?w) i)) = Some (L ! i)"
    using assms(1) w other by (auto simp: pos_after_Next spooled_def)
  moreover have "\<forall>i. length L < i \<and> i < 100 \<longrightarrow> files ?sp (raw_name (pos_after (Next_pos ?w) i)) = None"
    using assms(1) w other by (auto simp: pos_after_Next spooled_def)
  moreover have "files ?sp (raw_name (file_pos sp)) = files sp (raw_name (file_pos sp))"
    using assms(1) w other [of "length L"] by (auto simp: spooled_def)
  ultimately have "spooled L cur ?sp" using assms(1) w by (auto simp: spooled_def pos_after_Next)
  then show ?thesis using run by auto
qed

definition heard :: "fb_command list \<Rightarrow> u8 list list" where
  "heard acts = List.map_filter (\<lambda>a. case a of Audio_Command _ d \<Rightarrow> d | _ \<Rightarrow> None) acts"

lemma heard_simps [simp]: "heard [] = []" "heard (as @ bs) = heard as @ heard bs"
  "heard (Audio_Command c d # as) = (case d of None \<Rightarrow> heard as | Some x \<Rightarrow> x # heard as)"
  "heard (Frame_Command c # as) = heard as" "heard (Remove_Command c # as) = heard as"
  by (auto simp: heard_def List.map_filter_def split: option.split)

lemma work_loop_spooled:
  assumes "spooled L cur sp" "length url < 100"
  shows "\<exists>sp' acts'. work_loop url (file_pos sp) acts sp = Some (Inr (sp', acts')) \<and> spooled [] cur sp'
    \<and> heard acts' = heard acts @ L"
  using assms(1)
proof (induction L arbitrary: sp acts)
  case Nil
  then have "work_pos sp = file_pos sp" by (simp add: spooled_def)
  then show ?case using Nil by (subst work_loop.simps) simp
next
  case (Cons x L)
  from work_step_spooled [OF Cons.prems assms(2)] obtain sp1 cmd rm where
    st: "work_step url sp = Inr (sp1, [Audio_Command cmd (Some x), Remove_Command rm])" "spooled L cur sp1"
      "file_pos sp1 = file_pos sp" by auto
  have "pos_ok (work_pos sp)" "file_pos sp = pos_after (work_pos sp) (Suc (length L))" "Suc (length L) < 100"
    using Cons.prems by (auto simp: spooled_def)
  then have "work_pos sp \<noteq> file_pos sp" using pos_after_inj [of "work_pos sp" 0 "Suc (length L)"] by auto
  then have "work_loop url (file_pos sp) acts sp
      = work_loop url (file_pos sp1) (acts @ [Audio_Command cmd (Some x), Remove_Command rm]) sp1"
    using st by (subst work_loop.simps) simp
  then show ?case using Cons.IH [OF st(2), of "acts @ [Audio_Command cmd (Some x), Remove_Command rm]"] by auto
qed

text \<open>
  A turn of \<^verbatim>\<open>thread_fb\<close> ends; it hands the waiting sound files to ffmpeg, oldest first and each once,
  deletes them, and leaves the file being filled alone.
\<close>

theorem thread_fb_plays_backlog:
  assumes "spooled L cur sp" "length (g_audio_domain gl) < 100" "length (g_frame_domain gl) < 100"
  shows "\<exists>sp' acts. thread_fb gl sp = Some (Inr (sp', acts)) \<and> heard acts = L \<and> spooled [] cur sp'"
proof -
  let ?cmd = "''ffmpeg -i ./fb_data.ppm -f mpeg1video '' @ g_frame_domain gl"
  from work_loop_spooled [OF assms(1,2), of "[Frame_Command ?cmd]"] obtain sp' acts where
    "work_loop (g_audio_domain gl) (file_pos sp) [Frame_Command ?cmd] sp = Some (Inr (sp', acts))"
    "spooled [] cur sp'" "heard acts = L" by auto
  moreover have "sprintf_into 300 ?cmd = Inr ?cmd" using assms(3) by (simp add: sprintf_into_def)
  ultimately show ?thesis unfolding thread_fb_def by simp
qed

subsection \<open>Writer and reader together\<close>

text \<open>
  The two threads, interleaved: the sound thread writes blocks, \<^verbatim>\<open>thread_fb\<close> takes a snapshot of
  \<^verbatim>\<open>file_pos\<close> and then works off files up to it.  \<open>written\<close> and \<open>played\<close> record all bytes that
  went into and came out of the spool.
\<close>

record sound =
  snd_spool :: spool
  snd_temp :: "int option"
  written :: "u8 list"
  played :: "u8 list"

definition sound_init :: sound where
  "sound_init = \<lparr>snd_spool = spool_init, snd_temp = None, written = [], played = []\<rparr>"

inductive sound_step :: "(u8 list \<Rightarrow> u8 list) \<Rightarrow> string \<Rightarrow> sound \<Rightarrow> sound \<Rightarrow> bool"
  for flushed :: "u8 list \<Rightarrow> u8 list" and url :: string where
  Write: "\<not> laps (snd_spool s) \<Longrightarrow> sound_step flushed url s
    (s\<lparr>snd_spool := spool_block flushed b (snd_spool s), written := written s @ flushed b\<rparr>)"
| Snapshot: "snd_temp s = None \<Longrightarrow> sound_step flushed url s (s\<lparr>snd_temp := Some (file_pos (snd_spool s))\<rparr>)"
| Turn: "snd_temp s = Some t \<Longrightarrow> work_pos (snd_spool s) \<noteq> t \<Longrightarrow> work_step url (snd_spool s) = Inr (sp, acts) \<Longrightarrow>
    sound_step flushed url s (s\<lparr>snd_spool := sp, played := played s @ concat (heard acts)\<rparr>)"
| Pass_End: "snd_temp s = Some (work_pos (snd_spool s)) \<Longrightarrow> sound_step flushed url s (s\<lparr>snd_temp := None\<rparr>)"

definition sound_ok :: "sound \<Rightarrow> bool" where
  "sound_ok s \<longleftrightarrow> (\<exists>L cur. spooled L cur (snd_spool s) \<and> written s = played s @ concat L @ cur
     \<and> (\<forall>t. snd_temp s = Some t \<longrightarrow> (\<exists>n \<le> length L. t = pos_after (work_pos (snd_spool s)) n)))"

lemma sound_ok_init: "sound_ok sound_init"
proof -
  have "spooled [] [] spool_init"
    by (simp add: spooled_def spool_init_def pos_ok_def pos_after_def)
  then show ?thesis by (auto simp: sound_ok_def sound_init_def)
qed

lemma sound_ok_step:
  assumes "sound_step flushed url s s'" "length url < 100" "sound_ok s"
  shows "sound_ok s'"
proof -
  from assms(3) obtain L cur where I: "spooled L cur (snd_spool s)" "written s = played s @ concat L @ cur"
    "\<forall>t. snd_temp s = Some t \<longrightarrow> (\<exists>n \<le> length L. t = pos_after (work_pos (snd_spool s)) n)"
    by (auto simp: sound_ok_def)
  from assms(1) show ?thesis
  proof cases
    case (Write b)
    from spool_block_spooled [OF I(1) Write(2), of flushed b] obtain L' cur' M where
      "spooled L' cur' (spool_block flushed b (snd_spool s))" "concat L' @ cur' = concat L @ cur @ flushed b"
      "L' = L @ M" "work_pos (spool_block flushed b (snd_spool s)) = work_pos (snd_spool s)" by auto
    then show ?thesis
      unfolding sound_ok_def Write(1) using I(2,3)
      by (intro exI [of _ L'] exI [of _ cur']) (auto intro: trans_le_add1)
  next
    case Snapshot
    have "file_pos (snd_spool s) = pos_after (work_pos (snd_spool s)) (length L)" using I(1) by (simp add: spooled_def)
    then show ?thesis using I(1,2) Snapshot by (auto simp: sound_ok_def)
  next
    case (Turn t sp acts)
    from I(3) Turn(2) obtain n where n: "n \<le> length L" "t = pos_after (work_pos (snd_spool s)) n" by auto
    have wp: "pos_ok (work_pos (snd_spool s))" using I(1) by (simp add: spooled_def)
    obtain m where m: "n = Suc m" using Turn(3) n wp by (cases n) auto
    then obtain x K where L: "L = x # K" using n(1) by (cases L) auto
    from work_step_spooled [OF I(1) [unfolded L] assms(2)] Turn(4)
    have sp: "spooled K cur sp" "heard acts = [x]" "work_pos sp = Next_pos (work_pos (snd_spool s))" by auto
    have "t = pos_after (work_pos sp) m" using n(2) m sp(3) wp by (simp add: pos_after_Next)
    then show ?thesis
      unfolding sound_ok_def Turn(1) using sp I(2) Turn(2) n(1) m L
      by (intro exI [of _ K] exI [of _ cur]) auto
  next
    case Pass_End
    then show ?thesis using I(1,2) by (auto simp: sound_ok_def)
  qed
qed

text \<open>
  C22. However the two threads interleave, as long as the writer does not lap the reader the sound stream
  stays intact: everything written is what was played, followed by the waiting files in order and
  the file being filled.  Written is what stdio had handed to the files when their descriptors were closed (\<open>flushed\<close>); the
  streams themselves are never closed, and what stdio still held is lost.
\<close>

theorem sound_stream_intact:
  assumes "(sound_step flushed url)\<^sup>*\<^sup>* sound_init s" "length url < 100"
  shows "\<exists>L cur. spooled L cur (snd_spool s) \<and> written s = played s @ concat L @ cur"
proof -
  have "sound_ok s"
    using assms(1) by (induction rule: rtranclp_induct) (auto intro: sound_ok_init sound_ok_step assms(2))
  then show ?thesis by (auto simp: sound_ok_def)
qed

text \<open>
  When the writer finishes a file with 99 others waiting, its position meets the reader's and the next
  turn of \<^verbatim>\<open>thread_fb\<close> plays none of the hundred files.
\<close>

theorem lapped_spool_is_silent:
  assumes "spooled L cur sp" "length L = 99" "pending_cnt sp = 1" "length (g_frame_domain gl) < 100"
  shows "\<exists>acts. thread_fb gl (spool_block flushed b sp) = Some (Inr (spool_block flushed b sp, acts)) \<and> heard acts = []"
proof -
  have "file_pos sp = pos_after (work_pos sp) 99" "pos_ok (work_pos sp)" using assms(1,2) by (auto simp: spooled_def)
  moreover have "pos_after (work_pos sp) (Suc 99) = pos_after (work_pos sp) 0"
    using mod_add_self2 [of "work_pos sp - 1" 100] by (simp add: pos_after_def)
  ultimately have "Next_pos (file_pos sp) = work_pos sp" by (simp only: Next_pos_after pos_after_simps)
  then have "work_pos (spool_block flushed b sp) = file_pos (spool_block flushed b sp)"
    using assms(3) by (simp add: spool_block_def FINALCNT_def Let_def)
  then show ?thesis using assms(4) by (simp add: thread_fb_def sprintf_into_def work_loop.simps)
qed

subsection \<open>Examples\<close>

definition tiny_voice :: "int \<Rightarrow> int \<Rightarrow> u8 voice" where
  "tiny_voice wp p = \<lparr>samples = 4, shift = 0, mix_buf = [1, 2, 3, 4], rpos = (wp + p) mod 4, wpos = wp, pending = p,
     pcm_buf = [0, 0, 0, 0]\<rparr>"

definition all_dev :: "nat \<Rightarrow> int \<Rightarrow> int \<times> bool" where
  "all_dev k len = (len, False)"

definition half_dev :: "nat \<Rightarrow> int \<Rightarrow> int \<times> bool" where
  "half_dev k len = (if k = 0 then 1 else len, False)"

lemma tiny_voice_ok: "voice_ok (tiny_voice 3 0)" "voice_ok (tiny_voice 0 3)"
  by code_simp+

lemma all_dev_ok: "dev_accepts all_dev" "dev_bounded all_dev"
  by (simp_all add: dev_accepts_def dev_bounded_def all_dev_def)

declare clip_loop.simps [code] alsa_loop.simps [code]

theorem run_out_keeps_ring_witness:
  "\<exists>v' sent sp'. alsa_run_out (\<lambda>s. [s]) True id 0 all_dev 4 2 (tiny_voice 3 0, spool_init) = Some (Inr (2, (v', sent), sp'))
    \<and> voice_ok v' \<and> sent_frames sent = 2 \<and> frame_at v' 3 = [4] \<and> frame_at v' 0 = [1]"
proof -
  let ?r = "alsa_run_out (\<lambda>s. [s]) True id 0 all_dev 4 2 (tiny_voice 3 0, spool_init)"
  have "case ?r of Some (Inr (d, (v', _), _)) \<Rightarrow> d = 2 \<and> pending v' = 0 | _ \<Rightarrow> False" by code_simp
  then obtain v' sent sp' where r: "?r = Some (Inr (2, (v', sent), sp'))" "pending v' = 0"
    by (auto split: option.splits sum.splits)
  have len: "length [s] = 2 ^ shift (tiny_voice 3 0)" for s :: u8 by (simp add: tiny_voice_def)
  from run_out_keeps_ring [OF tiny_voice_ok(1) all_dev_ok(2) _ len r(1)]
  have k: "voice_ok v'" "pending v' + sent_frames sent = pending (tiny_voice 3 0) + 2"
    "\<forall>i. 0 \<le> i \<and> i < 4 \<longrightarrow> frame_at v' i = (if (i - 3) mod 4 < 2 then [[1, 2, 3, 4] ! nat i] else frame_at (tiny_voice 3 0) i)"
    by (auto simp: tiny_voice_def)
  then show ?thesis using r k(3) [rule_format, of 3] k(3) [rule_format, of 0] by (auto simp: tiny_voice_def)
qed

theorem run_out_returns_witness:
  "\<exists>v' sent sp'. alsa_run_out (\<lambda>s. [s]) True id 0 all_dev 4 2 (tiny_voice 3 0, spool_init)
     = Some (Inr (2, (v', sent), sp')) \<and> pending v' = 0"
  using run_out_returns [OF tiny_voice_ok(1) all_dev_ok(1), of 2 4 "\<lambda>s. [s]" id 0 spool_init] by (simp add: tiny_voice_def)

theorem short_write_repeats_frames_witness:
  "\<exists>v'. alsa_loop half_dev 0 (0, 0) [] (tiny_voice 0 3) = Some (v', [(0, 1), (0, 2)]) \<and> pending v' = 0"
  using short_write_repeats_frames [OF tiny_voice_ok(2), of 1 half_dev] by (simp add: tiny_voice_def half_dev_def)

definition sound_one :: sound where
  "sound_one = sound_init\<lparr>snd_spool := spool_block id [1] (spool_block id [2] spool_init), written := [2, 1]\<rparr>"

theorem thread_fb_plays_backlog_witness:
  "\<exists>sp' acts. thread_fb qemu_globals_init spool_init = Some (Inr (sp', acts)) \<and> heard acts = []"
  using thread_fb_plays_backlog [of "[]" "[]" spool_init qemu_globals_init]
  by (auto simp: spooled_def spool_init_def pos_ok_def pos_after_def qemu_globals_init_def)

theorem sound_stream_intact_witness:
  "\<exists>L cur. spooled L cur (snd_spool sound_one) \<and> [2, 1] = concat L @ cur"
proof -
  have 1: "sound_step id [] sound_init (sound_init\<lparr>snd_spool := spool_block id [2] (snd_spool sound_init), written := written sound_init @ id [2]\<rparr>)"
    by (rule sound_step.Write) code_simp
  have 2: "sound_step id [] (sound_init\<lparr>snd_spool := spool_block id [2] (snd_spool sound_init), written := written sound_init @ id [2]\<rparr>) sound_one"
    using sound_step.Write [of "sound_init\<lparr>snd_spool := spool_block id [2] (snd_spool sound_init), written := written sound_init @ id [2]\<rparr>" id "[]" "[1]"]
    by (simp add: laps_def sound_init_def sound_one_def spool_block_def spool_init_def FINALCNT_def Next_pos_def FINALPOS_def)
  have "(sound_step id [])\<^sup>*\<^sup>* sound_init sound_one" using 1 2 by (meson converse_rtranclp_into_rtranclp rtranclp.rtrancl_refl)
  from sound_stream_intact [OF this] show ?thesis by (simp add: sound_one_def sound_init_def)
qed

text \<open>A spool with 99 waiting empty files and one that is half full.\<close>

definition full_spool :: spool where
  "full_spool = \<lparr>file_pos = 100, pending_cnt = 1, work_pos = 1, files = (\<lambda>_. Some [])\<rparr>"

theorem lapped_spool_is_silent_witness:
  "\<exists>acts. thread_fb qemu_globals_init (spool_block id [1] full_spool) = Some (Inr (spool_block id [1] full_spool, acts)) \<and> heard acts = []"
  by (rule lapped_spool_is_silent [of "replicate 99 []" "[]"])
    (auto simp: spooled_def full_spool_def pos_ok_def pos_after_def qemu_globals_init_def)

end
