(* ===== verification/I8259.thy ===== *)
theory I8259
  imports Prelude
begin

text \<open>
  The 8259 interrupt controller, src/Qemu-2.4.1/hw/intc/i8259.c with the reset of i8259_common.c and the
  state of include/hw/isa/i8259_internal.h.  A chip is the record \<open>pic\<close>; its output
  \<^verbatim>\<open>int_out[0]\<close> is a handler argument, so every operation that may change the output works on the
  pair of the chip and the state behind that output.  The PC has two chips: the slave's output is
  line 2 of the master (\<open>cascade\<close>), the master's is the interrupt pin of the processor.
\<close>

record pic =
  last_irr :: u8
  irr :: u8
  imr :: u8
  isr :: u8
  priority_add :: u8
  irq_base :: u8
  read_reg_select :: u8
  poll :: u8
  special_mask :: u8
  init_state :: u8
  auto_eoi :: u8
  rotate_on_auto_eoi :: u8
  special_fully_nested_mode :: u8
  init4 :: u8
  single_mode :: u8
  elcr :: u8
  elcr_mask :: u8
  master :: bool

abbreviation line_mask :: "nat \<Rightarrow> u8" where
  "line_mask i \<equiv> push_bit i 1"

subsection \<open>Priorities\<close>

text \<open>The \<^verbatim>\<open>while\<close> loop of \<^verbatim>\<open>get_priority\<close>; it has no bound of its own.\<close>

partial_function (option) get_priority_while :: "u8 \<Rightarrow> u8 \<Rightarrow> nat \<Rightarrow> nat option" where
  "get_priority_while padd m priority =
     (if m AND line_mask ((priority + unat padd) mod 8) = 0
      then get_priority_while padd m (Suc priority)
      else Some priority)"

declare get_priority_while.simps [code]

definition get_priority :: "pic \<Rightarrow> u8 \<Rightarrow> nat" where
  "get_priority s m =
     (if m = 0 then 8
      else case get_priority_while (priority_add s) m 0 of Some p \<Rightarrow> p | None \<Rightarrow> 8)"

definition pic_get_irq :: "pic \<Rightarrow> int" where
  "pic_get_irq s =
     (let priority = get_priority s (irr s AND NOT (imr s))
      in if priority = 8 then - 1
         else let mask = isr s;
                  mask = (if special_mask s \<noteq> 0 then mask AND NOT (imr s) else mask);
                  mask = (if special_fully_nested_mode s \<noteq> 0 \<and> master s
                          then mask AND NOT (line_mask 2) else mask);
                  cur_priority = get_priority s mask
              in if priority < cur_priority
                 then int ((priority + unat (priority_add s)) mod 8)
                 else - 1)"

subsection \<open>Lines and acknowledgement\<close>

definition pic_update_irq :: "'w qemu_irq \<Rightarrow> pic \<times> 'w \<Rightarrow> pic \<times> 'w" where
  "pic_update_irq int_out sw =
     (let (s, w) = sw; irq = pic_get_irq s
      in if irq \<ge> 0 then (s, int_out w 1) else (s, int_out w 0))"

definition pic_latch :: "nat \<Rightarrow> int \<Rightarrow> pic \<Rightarrow> pic" where
  "pic_latch irq level s =
     (let mask = line_mask irq :: u8
      in if elcr s AND mask \<noteq> 0 then
           if level \<noteq> 0 then s\<lparr>irr := irr s OR mask, last_irr := last_irr s OR mask\<rparr>
           else s\<lparr>irr := irr s AND NOT mask, last_irr := last_irr s AND NOT mask\<rparr>
         else
           if level \<noteq> 0 then
             s\<lparr>irr := (if last_irr s AND mask = 0 then irr s OR mask else irr s),
               last_irr := last_irr s OR mask\<rparr>
           else s\<lparr>last_irr := last_irr s AND NOT mask\<rparr>)"

definition pic_set_irq :: "'w qemu_irq \<Rightarrow> nat \<Rightarrow> int \<Rightarrow> pic \<times> 'w \<Rightarrow> pic \<times> 'w" where
  "pic_set_irq int_out irq level sw =
     pic_update_irq int_out (pic_latch irq level (fst sw), snd sw)"

definition pic_ack :: "nat \<Rightarrow> pic \<Rightarrow> pic" where
  "pic_ack irq s =
     (let s1 = (if auto_eoi s \<noteq> 0 then
                  if rotate_on_auto_eoi s \<noteq> 0
                  then s\<lparr>priority_add := of_nat ((irq + 1) mod 8)\<rparr> else s
                else s\<lparr>isr := isr s OR line_mask irq\<rparr>)
      in if elcr s1 AND line_mask irq = 0
         then s1\<lparr>irr := irr s1 AND NOT (line_mask irq)\<rparr> else s1)"

definition pic_intack :: "'w qemu_irq \<Rightarrow> nat \<Rightarrow> pic \<times> 'w \<Rightarrow> pic \<times> 'w" where
  "pic_intack int_out irq sw = pic_update_irq int_out (pic_ack irq (fst sw), snd sw)"

subsection \<open>Reset\<close>

definition pic_reset_common :: "pic \<Rightarrow> pic" where
  "pic_reset_common s =
     s\<lparr>last_irr := 0, irr := irr s AND elcr s, imr := 0, isr := 0, priority_add := 0, irq_base := 0,
       read_reg_select := 0, poll := 0, special_mask := 0, init_state := 0, auto_eoi := 0,
       rotate_on_auto_eoi := 0, special_fully_nested_mode := 0, init4 := 0, single_mode := 0\<rparr>"

definition pic_init_reset :: "'w qemu_irq \<Rightarrow> pic \<times> 'w \<Rightarrow> pic \<times> 'w" where
  "pic_init_reset int_out sw = pic_update_irq int_out (pic_reset_common (fst sw), snd sw)"

definition pic_reset :: "'w qemu_irq \<Rightarrow> pic \<times> 'w \<Rightarrow> pic \<times> 'w" where
  "pic_reset int_out sw = pic_init_reset int_out ((fst sw)\<lparr>elcr := 0\<rparr>, snd sw)"

subsection \<open>Ports\<close>

text \<open>\<^verbatim>\<open>pic_ioport_write\<close>: the command words written to port 0, then the data words of port 1.\<close>

definition pic_write_ocw2 :: "'w qemu_irq \<Rightarrow> u8 \<Rightarrow> pic \<times> 'w \<Rightarrow> pic \<times> 'w" where
  "pic_write_ocw2 int_out val sw =
     (let (s, w) = sw; cmd = unat (drop_bit 5 val); irq = unat (val AND 7)
      in if cmd = 0 \<or> cmd = 4 then (s\<lparr>rotate_on_auto_eoi := of_nat (cmd div 4)\<rparr>, w)
         else if cmd = 1 \<or> cmd = 5 then
           let priority = get_priority s (isr s)
           in if priority \<noteq> 8 then
                let irq = (priority + unat (priority_add s)) mod 8;
                    s1 = s\<lparr>isr := isr s AND NOT (line_mask irq)\<rparr>;
                    s2 = (if cmd = 5 then s1\<lparr>priority_add := of_nat ((irq + 1) mod 8)\<rparr> else s1)
                in pic_update_irq int_out (s2, w)
              else (s, w)
         else if cmd = 3 then
           pic_update_irq int_out (s\<lparr>isr := isr s AND NOT (line_mask irq)\<rparr>, w)
         else if cmd = 6 then
           pic_update_irq int_out (s\<lparr>priority_add := (val + 1) AND 7\<rparr>, w)
         else if cmd = 7 then
           pic_update_irq int_out (s\<lparr>isr := isr s AND NOT (line_mask irq),
                                     priority_add := of_nat ((irq + 1) mod 8)\<rparr>, w)
         else (s, w))"

definition pic_write_command :: "'w qemu_irq \<Rightarrow> u8 \<Rightarrow> pic \<times> 'w \<Rightarrow> pic \<times> 'w" where
  "pic_write_command int_out val sw =
     (if val AND 0x10 \<noteq> 0 then
        let (s, w) = pic_init_reset int_out sw
        in (s\<lparr>init_state := 1, init4 := val AND 1, single_mode := val AND 2\<rparr>, w)
      else if val AND 0x08 \<noteq> 0 then
        let (s, w) = sw;
            s1 = (if val AND 0x04 \<noteq> 0 then s\<lparr>poll := 1\<rparr> else s);
            s2 = (if val AND 0x02 \<noteq> 0 then s1\<lparr>read_reg_select := val AND 1\<rparr> else s1);
            s3 = (if val AND 0x40 \<noteq> 0 then s2\<lparr>special_mask := drop_bit 5 val AND 1\<rparr> else s2)
        in (s3, w)
      else pic_write_ocw2 int_out val sw)"

definition pic_write_data :: "'w qemu_irq \<Rightarrow> u8 \<Rightarrow> pic \<times> 'w \<Rightarrow> pic \<times> 'w" where
  "pic_write_data int_out val sw =
     (let (s, w) = sw
      in if init_state s = 0 then pic_update_irq int_out (s\<lparr>imr := val\<rparr>, w)
         else if init_state s = 1 then
           (s\<lparr>irq_base := val AND 0xf8,
              init_state := (if single_mode s \<noteq> 0 then (if init4 s \<noteq> 0 then 3 else 0) else 2)\<rparr>, w)
         else if init_state s = 2 then
           (s\<lparr>init_state := (if init4 s \<noteq> 0 then 3 else 0)\<rparr>, w)
         else if init_state s = 3 then
           (s\<lparr>special_fully_nested_mode := drop_bit 4 val AND 1, auto_eoi := drop_bit 1 val AND 1,
              init_state := 0\<rparr>, w)
         else (s, w))"

definition pic_ioport_write :: "'w qemu_irq \<Rightarrow> nat \<Rightarrow> u8 \<Rightarrow> pic \<times> 'w \<Rightarrow> pic \<times> 'w" where
  "pic_ioport_write int_out addr val sw =
     (if addr = 0 then pic_write_command int_out val sw else pic_write_data int_out val sw)"

definition pic_ioport_read :: "'w qemu_irq \<Rightarrow> nat \<Rightarrow> pic \<times> 'w \<Rightarrow> int \<times> (pic \<times> 'w)" where
  "pic_ioport_read int_out addr sw =
     (let s = fst sw
      in if poll s \<noteq> 0 then
           let irq = pic_get_irq s;
               (ret, s1, w1) = (if irq \<ge> 0 then (irq OR 0x80, pic_intack int_out (nat irq) sw) else (0, sw))
           in (ret, s1\<lparr>poll := 0\<rparr>, w1)
         else (if addr = 0 then if read_reg_select s \<noteq> 0 then uint (isr s) else uint (irr s)
               else uint (imr s), sw))"

definition pic_get_output :: "pic \<Rightarrow> bool" where
  "pic_get_output s \<longleftrightarrow> pic_get_irq s \<ge> 0"

definition elcr_ioport_write :: "u8 \<Rightarrow> pic \<Rightarrow> pic" where
  "elcr_ioport_write val s = s\<lparr>elcr := val AND elcr_mask s\<rparr>"

definition elcr_ioport_read :: "pic \<Rightarrow> u8" where
  "elcr_ioport_read s = elcr s"

subsection \<open>The two chips of the PC\<close>

text \<open>The slave's output wired to line 2 of the master, as \<^verbatim>\<open>i8259_init\<close> connects it.\<close>

definition cascade :: "'c qemu_irq \<Rightarrow> (pic \<times> 'c) qemu_irq" where
  "cascade parent_irq mw level = pic_set_irq parent_irq 2 level mw"

definition i8259_init_chip :: "bool \<Rightarrow> pic" where
  "i8259_init_chip is_master =
     \<lparr>last_irr = 0, irr = 0, imr = 0, isr = 0, priority_add = 0, irq_base = 0, read_reg_select = 0,
      poll = 0, special_mask = 0, init_state = 0, auto_eoi = 0, rotate_on_auto_eoi = 0,
      special_fully_nested_mode = 0, init4 = 0, single_mode = 0, elcr = 0,
      elcr_mask = (if is_master then 0xf8 else 0xde), master = is_master\<rparr>"

text \<open>\<^verbatim>\<open>irq_set[n]\<close> of \<^verbatim>\<open>i8259_init\<close>: lines 0 to 7 are the master's, 8 to 15 the slave's.\<close>

definition i8259_set_irq ::
  "'c qemu_irq \<Rightarrow> nat \<Rightarrow> (pic \<times> pic \<times> 'c) qemu_irq" where
  "i8259_set_irq parent_irq n sys level =
     (if n < 8 then (fst sys, pic_set_irq parent_irq n level (snd sys))
      else pic_set_irq (cascade parent_irq) (n - 8) level sys)"

definition pic_read_irq :: "'c qemu_irq \<Rightarrow> pic \<times> pic \<times> 'c \<Rightarrow> int \<times> (pic \<times> pic \<times> 'c)" where
  "pic_read_irq parent_irq sys =
     (let s = fst (snd sys); irq = pic_get_irq s
      in if irq \<ge> 0 then
           if irq = 2 then
             let irq2 = pic_get_irq (fst sys);
                 (irq2', sys1) = (if irq2 \<ge> 0
                   then (irq2, pic_intack (cascade parent_irq) (nat irq2) sys) else (7, sys));
                 intno = uint (irq_base (fst sys1)) + irq2'
             in (intno, fst sys1, pic_intack parent_irq (nat irq) (snd sys1))
           else (uint (irq_base s) + irq, fst sys, pic_intack parent_irq (nat irq) (snd sys))
         else (uint (irq_base s) + 7, sys))"

section \<open>Priority resolution\<close>

text \<open>The line that holds priority \<open>p\<close> under the current rotation, and the priority a line has.\<close>

definition line_at :: "pic \<Rightarrow> nat \<Rightarrow> nat" where
  "line_at s p = (p + unat (priority_add s)) mod 8"

definition rank :: "pic \<Rightarrow> nat \<Rightarrow> nat" where
  "rank s i = (i + (8 - unat (priority_add s) mod 8)) mod 8"

lemma rank_less [simp]: "rank s i < 8" and line_at_less [simp]: "line_at s p < 8"
  by (simp_all add: rank_def line_at_def)

lemma rotate_cancel:
  fixes i a :: nat
  assumes "i < 8"
  shows "((i + (8 - a mod 8)) mod 8 + a) mod 8 = i" "((i + a) mod 8 + (8 - a mod 8)) mod 8 = i"
proof -
  obtain q r where "a = 8 * q + r" "r < 8"
    by (metis mod_less_divisor mult_div_mod_eq zero_less_numeral)
  then have "i + (8 - a mod 8) + a = i + 8 * Suc q" by simp
  then have *: "(i + (8 - a mod 8) + a) mod 8 = i"
    using assms by (simp only: mod_mult_self2 mod_less)
  then show "((i + (8 - a mod 8)) mod 8 + a) mod 8 = i" by (metis mod_add_left_eq)
  from * show "((i + a) mod 8 + (8 - a mod 8)) mod 8 = i"
    by (metis add.assoc add.commute mod_add_left_eq)
qed

lemma line_at_rank [simp]: "i < 8 \<Longrightarrow> line_at s (rank s i) = i"
  unfolding line_at_def rank_def by (rule rotate_cancel)

lemma rank_line_at [simp]: "p < 8 \<Longrightarrow> rank s (line_at s p) = p"
  unfolding line_at_def rank_def by (rule rotate_cancel)

lemma rank_inj: "i < 8 \<Longrightarrow> j < 8 \<Longrightarrow> rank s i = rank s j \<Longrightarrow> i = j"
  by (metis line_at_rank)

lemma u8_nonzero_bit: "(m :: u8) \<noteq> 0 \<Longrightarrow> \<exists>i<8. bit m i"
  using bit_word_eqI [of m 0] by auto

lemma get_priority_while_first:
  assumes "bit m ((p + k + unat padd) mod 8)" "\<forall>j<k. \<not> bit m ((p + j + unat padd) mod 8)"
  shows "get_priority_while padd m p = Some (p + k)"
  using assms
proof (induction k arbitrary: p)
  case 0
  then show ?case by (subst get_priority_while.simps) (simp add: flag_simps)
next
  case (Suc k)
  have "\<not> bit m ((p + unat padd) mod 8)" using Suc.prems(2) by force
  moreover have "get_priority_while padd m (Suc p) = Some (Suc p + k)"
    by (rule Suc.IH) (use Suc.prems in \<open>auto simp: add.assoc dest: spec [where x = "Suc _"]\<close>)
  ultimately show ?case by (subst get_priority_while.simps) (simp add: flag_simps)
qed

lemma get_priority_zero [simp]: "get_priority s 0 = 8"
  by (simp add: get_priority_def)

lemma get_priority_nonzero:
  assumes "m \<noteq> 0"
  obtains p where "get_priority_while (priority_add s) m 0 = Some p" "get_priority s m = p" "p < 8"
    "bit m (line_at s p)" "\<And>i. i < 8 \<Longrightarrow> bit m i \<Longrightarrow> p \<le> rank s i"
proof -
  let ?P = "\<lambda>p. bit m (line_at s p)"
  obtain i where i: "i < 8" "bit m i" using u8_nonzero_bit [OF assms] by blast
  define p where "p = (LEAST p. ?P p)"
  have ex: "?P (rank s i)" using i by simp
  then have p: "?P p" unfolding p_def by (rule LeastI)
  have le: "p \<le> q" if "?P q" for q using that unfolding p_def by (rule Least_le)
  have "get_priority_while (priority_add s) m 0 = Some (0 + p)"
    using p le by (intro get_priority_while_first) (auto simp: line_at_def simp flip: not_le)
  moreover have "p < 8" using le [OF ex] rank_less [of s i] by linarith
  ultimately show thesis
    using assms p le by (intro that) (auto simp: get_priority_def)
qed

lemma get_priority_le: "bit m i \<Longrightarrow> i < 8 \<Longrightarrow> get_priority s m \<le> rank s i"
  by (cases "m = 0") (auto elim: get_priority_nonzero [of m s])

lemma get_priority_line: "get_priority s m \<noteq> 8 \<Longrightarrow> bit m (line_at s (get_priority s m)) \<and> get_priority s m < 8"
  by (cases "m = 0") (auto elim: get_priority_nonzero [of m s])

lemma get_priority_eq_8: "get_priority s m = 8 \<longleftrightarrow> m = 0"
  using get_priority_nonzero [of m s] by fastforce

lemma get_priority_less_iff:
  "p < 8 \<Longrightarrow> p < get_priority s m \<longleftrightarrow> (\<forall>i<8. bit m i \<longrightarrow> p < rank s i)"
proof (cases "m = 0")
  case False
  assume "p < 8"
  from False obtain q where "get_priority s m = q" "q < 8" "bit m (line_at s q)"
    "\<And>i. i < 8 \<Longrightarrow> bit m i \<Longrightarrow> q \<le> rank s i" by (rule get_priority_nonzero [of m s]) blast
  then show ?thesis by (metis line_at_less order_less_le_trans rank_line_at)
qed simp

text \<open>A line requests service when it is in the request register and not masked; a line blocks
  others while it is in service, except as special mask mode and special fully nested mode say.\<close>

definition requests :: "pic \<Rightarrow> nat \<Rightarrow> bool" where
  "requests s i \<longleftrightarrow> i < 8 \<and> bit (irr s) i \<and> \<not> bit (imr s) i"

definition blocks :: "pic \<Rightarrow> nat \<Rightarrow> bool" where
  "blocks s i \<longleftrightarrow> i < 8 \<and> bit (isr s) i \<and> (special_mask s \<noteq> 0 \<longrightarrow> \<not> bit (imr s) i)
     \<and> (special_fully_nested_mode s \<noteq> 0 \<and> master s \<longrightarrow> i \<noteq> 2)"

definition wins :: "pic \<Rightarrow> nat \<Rightarrow> bool" where
  "wins s i \<longleftrightarrow> requests s i \<and> (\<forall>j. requests s j \<longrightarrow> rank s i \<le> rank s j)
     \<and> (\<forall>j. blocks s j \<longrightarrow> rank s i < rank s j)"

lemma wins_unique: "wins s i \<Longrightarrow> wins s j \<Longrightarrow> i = j"
  unfolding wins_def requests_def by (metis le_antisym rank_inj)

lemma pic_get_irq_cases:
  "(\<exists>i<8. pic_get_irq s = int i \<and> wins s i) \<or> (pic_get_irq s = - 1 \<and> \<not> (\<exists>i. wins s i))"
proof -
  let ?r = "irr s AND NOT (imr s)" and ?p = "get_priority s (irr s AND NOT (imr s))"
  let ?b = "if special_mask s \<noteq> 0 then isr s AND NOT (imr s) else isr s"
  let ?c = "if special_fully_nested_mode s \<noteq> 0 \<and> master s then ?b AND NOT (line_mask 2) else ?b"
  have req: "bit ?r i \<and> i < 8 \<longleftrightarrow> requests s i" for i
    by (auto simp: requests_def bit_simps)
  have blk: "bit ?c i \<and> i < 8 \<longleftrightarrow> blocks s i" for i
    using bit_line_mask [of 2 i, where ?'a = 8] by (auto simp: blocks_def bit_simps)
  have def: "pic_get_irq s = (if ?p = 8 then - 1 else
      if ?p < get_priority s ?c then int (line_at s ?p) else - 1)"
    unfolding pic_get_irq_def Let_def line_at_def by (rule refl)
  show ?thesis
  proof (cases "?p = 8")
    case True
    then have "\<not> requests s i" for i using req [of i] by (simp add: get_priority_eq_8)
    then show ?thesis by (simp add: def True wins_def)
  next
    case False
    then have line: "bit ?r (line_at s ?p)" "?p < 8" using get_priority_line by blast+
    then have r: "requests s (line_at s ?p)" using req line_at_less by blast
    have least: "requests s j \<Longrightarrow> ?p \<le> rank s j" for j
      using req [of j] get_priority_le by blast
    have lt: "?p < get_priority s ?c \<longleftrightarrow> (\<forall>j. blocks s j \<longrightarrow> ?p < rank s j)"
      using get_priority_less_iff [OF line(2), of s ?c] blk by meson
    have "wins s i \<Longrightarrow> rank s i = ?p" for i
      using r least unfolding wins_def by (metis le_antisym line(2) rank_line_at)
    moreover have "wins s (line_at s ?p) \<longleftrightarrow> ?p < get_priority s ?c"
      using r least lt line(2) unfolding wins_def by simp
    moreover have "wins s i \<Longrightarrow> ?p < get_priority s ?c" for i
      using calculation(1) lt unfolding wins_def by metis
    ultimately show ?thesis using False by (auto simp: def)
  qed
qed

lemma pic_get_irq_iff: "pic_get_irq s = int i \<longleftrightarrow> wins s i"
  using pic_get_irq_cases [of s] wins_unique [of s] by auto

lemma pic_get_irq_nonneg: "pic_get_irq s \<ge> 0 \<longleftrightarrow> (\<exists>i. wins s i)"
  using pic_get_irq_cases [of s] by auto

lemma pic_get_irq_less: "pic_get_irq s < 8"
  using pic_get_irq_cases [of s] by auto

section \<open>The output follows the registers\<close>

text \<open>The registers \<open>pic_get_irq\<close> reads.\<close>

definition pic_view :: "pic \<Rightarrow> u8 \<times> u8 \<times> u8 \<times> bool \<times> bool \<times> bool \<times> u8" where
  "pic_view s = (irr s, imr s, isr s, special_mask s \<noteq> 0, special_fully_nested_mode s \<noteq> 0, master s,
     priority_add s)"

lemma pic_view_irq: "pic_view s = pic_view t \<Longrightarrow> pic_get_irq s = pic_get_irq t"
  unfolding pic_get_irq_def pic_view_def get_priority_def Let_def by simp

definition driven :: "('w \<Rightarrow> bool) \<Rightarrow> pic \<times> 'w \<Rightarrow> bool" where
  "driven lev sw \<longleftrightarrow> (lev (snd sw) \<longleftrightarrow> pic_get_irq (fst sw) \<ge> 0)"

text \<open>Two command words are not followed by an update of the output: the operation command word that sets or clears
  special mask mode, and the fourth initialisation word, which sets special fully nested mode.  They matter while a line is in
  service that the mode treats differently: a masked one, or the master's cascade line.\<close>

definition stale_write :: "nat \<Rightarrow> u8 \<Rightarrow> pic \<Rightarrow> bool" where
  "stale_write addr val s \<longleftrightarrow>
     addr = 0 \<and> \<not> bit val 4 \<and> bit val 3 \<and> bit val 6 \<and> isr s AND imr s \<noteq> 0
     \<or> addr \<noteq> 0 \<and> init_state s = 3 \<and> master s \<and> bit (isr s) 2"

lemma fst_pic_update_irq [simp]: "fst (pic_update_irq out sw) = fst sw"
  by (simp add: pic_update_irq_def Let_def split: prod.splits)

lemma driven_view: "driven lev sw \<Longrightarrow> pic_view t = pic_view (fst sw) \<Longrightarrow> driven lev (t, snd sw)"
  by (auto simp: driven_def dest: pic_view_irq)

lemma driven_same:
  assumes "driven lev sw" "\<And>i. requests t i = requests (fst sw) i" "\<And>i. blocks t i = blocks (fst sw) i"
    "priority_add t = priority_add (fst sw)"
  shows "driven lev (t, snd sw)"
proof -
  have "rank t i = rank (fst sw) i" for i by (simp add: rank_def assms(4))
  then have "wins t i = wins (fst sw) i" for i by (simp add: wins_def assms(2,3))
  then show ?thesis using assms(1) by (simp add: driven_def pic_get_irq_nonneg)
qed

context wire
begin

lemma update_drives: "driven lev (pic_update_irq out sw)"
  by (simp add: driven_def pic_update_irq_def Let_def split: prod.splits)

lemma set_irq_drives: "driven lev (pic_set_irq out i l sw)"
  and intack_drives: "driven lev (pic_intack out i sw)"
  and init_reset_drives: "driven lev (pic_init_reset out sw)"
  and reset_drives: "driven lev (pic_reset out sw)"
  by (simp_all add: pic_set_irq_def pic_intack_def pic_reset_def pic_init_reset_def update_drives)

lemma ocw2_drives:
  assumes "driven lev sw"
  shows "driven lev (pic_write_ocw2 out val sw)"
proof (cases sw)
  case (Pair s w)
  have "driven lev (s\<lparr>rotate_on_auto_eoi := x\<rparr>, w)" for x
    using driven_view [OF assms] by (simp add: Pair pic_view_def)
  then show ?thesis
    using assms by (simp add: Pair pic_write_ocw2_def Let_def update_drives)
qed

lemma command_drives:
  assumes "driven lev sw" "\<not> stale_write 0 val (fst sw)"
  shows "driven lev (pic_write_command out val sw)"
proof (cases "bit val 4")
  case True
  obtain s w where i: "pic_init_reset out sw = (s, w)" by (cases "pic_init_reset out sw")
  have "driven lev (s\<lparr>init_state := 1, init4 := val AND 1, single_mode := val AND 2\<rparr>, w)"
    using driven_view [OF init_reset_drives [of sw]] by (simp add: i pic_view_def)
  then show ?thesis using True by (simp add: pic_write_command_def flag_simps i)
next
  case False
  show ?thesis
  proof (cases "bit val 3")
    case True
    let ?t = "fst (pic_write_command out val sw)" and ?s = "fst sw"
    have t: "irr ?t = irr ?s" "imr ?t = imr ?s" "isr ?t = isr ?s" "priority_add ?t = priority_add ?s" "master ?t = master ?s"
      "special_fully_nested_mode ?t = special_fully_nested_mode ?s" "bit val 6 \<or> special_mask ?t = special_mask ?s"
      "snd (pic_write_command out val sw) = snd sw"
      using False True by (auto simp: pic_write_command_def flag_simps Let_def split: prod.splits)
    have "blocks ?t i = blocks ?s i" for i
    proof (cases "bit val 6")
      case 6: True
      then have "isr ?s AND imr ?s = 0" using False True assms(2) by (simp add: stale_write_def)
      then have "\<not> (bit (isr ?s) i \<and> bit (imr ?s) i)" by (metis bit_0_eq bit_and_iff bot_apply bot_bool_def)
      then show ?thesis by (auto simp: blocks_def t)
    qed (use t in \<open>simp add: blocks_def\<close>)
    then have "driven lev (?t, snd sw)" using driven_same [OF assms(1), of ?t] t by (simp add: requests_def)
    then show ?thesis using t by (metis prod.collapse)
  qed (use False assms(1) in \<open>simp add: pic_write_command_def flag_simps ocw2_drives\<close>)
qed

lemma data_drives:
  assumes "driven lev sw" "\<not> stale_write 1 val (fst sw)"
  shows "driven lev (pic_write_data out val sw)"
proof (cases "init_state (fst sw) = 0")
  case True
  then show ?thesis by (simp add: pic_write_data_def Let_def update_drives case_prod_unfold)
next
  case False
  let ?t = "fst (pic_write_data out val sw)" and ?s = "fst sw"
  have t: "irr ?t = irr ?s" "imr ?t = imr ?s" "isr ?t = isr ?s" "priority_add ?t = priority_add ?s" "master ?t = master ?s"
    "special_mask ?t = special_mask ?s" "snd (pic_write_data out val sw) = snd sw"
    "special_fully_nested_mode ?t = special_fully_nested_mode ?s \<or> init_state ?s = 3"
    using False by (auto simp: pic_write_data_def split: prod.splits)
  moreover have "blocks ?t i = blocks ?s i" for i
    using t assms(2) by (cases "i = 2") (auto simp: blocks_def stale_write_def)
  ultimately have "driven lev (?t, snd sw)" using driven_same [OF assms(1), of ?t] by (simp add: requests_def)
  then show ?thesis using t by (metis prod.collapse)
qed

lemma write_drives:
  "driven lev sw \<Longrightarrow> \<not> stale_write addr val (fst sw) \<Longrightarrow> driven lev (pic_ioport_write out addr val sw)"
  by (cases "addr = 0") (auto simp: pic_ioport_write_def stale_write_def intro!: command_drives data_drives)

lemma read_drives:
  assumes "driven lev sw"
  shows "driven lev (snd (pic_ioport_read out addr sw))"
proof -
  obtain s w where sw: "sw = (s, w)" by (cases sw)
  obtain s' w' where i: "pic_intack out (nat (pic_get_irq s)) (s, w) = (s', w')"
    by (cases "pic_intack out (nat (pic_get_irq s)) (s, w)")
  have "driven lev (s\<lparr>poll := 0\<rparr>, w)"
    using driven_view [OF assms] by (simp add: sw pic_view_def)
  moreover have "driven lev (s'\<lparr>poll := 0\<rparr>, w')"
    using driven_view [OF intack_drives [of "nat (pic_get_irq s)" "(s, w)"]]
    by (simp add: i pic_view_def)
  ultimately show ?thesis using assms by (simp add: pic_ioport_read_def Let_def sw i)
qed

lemma elcr_drives: "driven lev (s, w) \<Longrightarrow> driven lev (elcr_ioport_write val s, w)"
  using driven_view [of lev "(s, w)"] by (simp add: elcr_ioport_write_def pic_view_def)

end

section \<open>The pair of chips\<close>

lemma last_irr_latch:
  "bit (last_irr (pic_latch i l s)) j \<longleftrightarrow> (if j = i \<and> i < 8 then l \<noteq> 0 else bit (last_irr s) j)"
  by (auto simp: pic_latch_def Let_def bit_simps dest: bit_imp_le_length)

lemma last_irr_ack [simp]: "last_irr (pic_ack i s) = last_irr s"
  by (simp add: pic_ack_def Let_def)

interpretation cascade_wire: wire "cascade parent_irq" "\<lambda>mw. bit (last_irr (fst mw)) 2" for parent_irq
  by unfold_locales (simp add: cascade_def pic_set_irq_def last_irr_latch)

text \<open>Both outputs agree with the registers behind them: the master's line 2 carries the slave's
  request and the processor pin the master's.\<close>

definition pics_ok :: "('c \<Rightarrow> bool) \<Rightarrow> pic \<times> pic \<times> 'c \<Rightarrow> bool" where
  "pics_ok lev sys \<longleftrightarrow> driven (\<lambda>mw. bit (last_irr (fst mw)) 2) sys \<and> driven lev (snd sys)"

text \<open>What can happen to the pair: a device drives a line, the processor acknowledges, the guest
  accesses a port of either chip.  Left out are the writes that \<open>stale_write\<close> names and a first initialisation word
  for the master while its line 2 is high, which makes it forget that level.\<close>

inductive pics_step :: "'c qemu_irq \<Rightarrow> pic \<times> pic \<times> 'c \<Rightarrow> pic \<times> pic \<times> 'c \<Rightarrow> bool" for parent where
  step_line: "n < 16 \<Longrightarrow> n \<noteq> 2 \<Longrightarrow> pics_step parent sys (i8259_set_irq parent n sys l)"
| step_ack: "pics_step parent sys (snd (pic_read_irq parent sys))"
| step_write_master: "\<not> stale_write addr val (fst mc) \<Longrightarrow> \<not> (addr = 0 \<and> bit val 4 \<and> bit (last_irr (fst mc)) 2)
    \<Longrightarrow> pics_step parent (sl, mc) (sl, pic_ioport_write parent addr val mc)"
| step_write_slave: "\<not> stale_write addr val (fst sys)
    \<Longrightarrow> pics_step parent sys (pic_ioport_write (cascade parent) addr val sys)"
| step_read_master: "pics_step parent (sl, mc) (sl, snd (pic_ioport_read parent addr mc))"
| step_read_slave: "pics_step parent sys (snd (pic_ioport_read (cascade parent) addr sys))"
| step_elcr_master: "pics_step parent (sl, m, c) (sl, elcr_ioport_write val m, c)"
| step_elcr_slave: "pics_step parent (sl, mc) (elcr_ioport_write val sl, mc)"

text \<open>What the slave leaves of the master: whatever it drives, the master's output is recomputed.\<close>

context wire
begin

lemma cascade_keeps: "driven lev (cascade out mw l)"
  by (simp add: cascade_def set_irq_drives)

lemma update_slave_keeps: "driven lev (snd (pic_update_irq (cascade out) sw))"
  by (simp add: pic_update_irq_def Let_def cascade_keeps split: prod.splits)

lemmas slave_keeps = update_slave_keeps cascade_keeps

lemma set_irq_slave_keeps: "driven lev (snd (pic_set_irq (cascade out) i l sys))"
  and intack_slave_keeps: "driven lev (snd (pic_intack (cascade out) i sys))"
  and init_slave_keeps: "driven lev (snd (pic_init_reset (cascade out) sys))"
  by (simp_all add: pic_set_irq_def pic_intack_def pic_init_reset_def slave_keeps)

lemma ocw2_slave_keeps:
  "driven lev (snd sys) \<Longrightarrow> driven lev (snd (pic_write_ocw2 (cascade out) val sys))"
  by (cases sys) (simp add: pic_write_ocw2_def Let_def slave_keeps)

lemma command_slave_keeps:
  "driven lev (snd sys) \<Longrightarrow> driven lev (snd (pic_write_command (cascade out) val sys))"
  using init_slave_keeps [of sys]
  by (simp add: pic_write_command_def Let_def ocw2_slave_keeps case_prod_unfold)

lemma data_slave_keeps:
  "driven lev (snd sys) \<Longrightarrow> driven lev (snd (pic_write_data (cascade out) val sys))"
  by (cases sys) (simp add: pic_write_data_def Let_def slave_keeps)

lemma write_slave_keeps:
  "driven lev (snd sys) \<Longrightarrow> driven lev (snd (pic_ioport_write (cascade out) addr val sys))"
  by (simp add: pic_ioport_write_def command_slave_keeps data_slave_keeps)

lemma read_slave_keeps:
  "driven lev (snd sys) \<Longrightarrow> driven lev (snd (snd (pic_ioport_read (cascade out) addr sys)))"
  using intack_slave_keeps [of "nat (pic_get_irq (fst sys))" sys]
  by (auto simp: pic_ioport_read_def Let_def split: prod.splits)

end

text \<open>What the master's own operations leave of the slave's request on line 2.\<close>

abbreviation line2 :: "pic \<times> 'c \<Rightarrow> bool" where
  "line2 mc \<equiv> bit (last_irr (fst mc)) 2"

lemma last_irr_init: "last_irr (fst (pic_ioport_write out 0 val mc)) = 0" if "bit val 4"
  using that by (simp add: pic_ioport_write_def pic_write_command_def pic_init_reset_def pic_reset_common_def flag_simps
      Let_def case_prod_unfold)

lemma last_irr_write:
  assumes "\<not> (addr = 0 \<and> bit val 4)"
  shows "last_irr (fst (pic_ioport_write out addr val mc)) = last_irr (fst mc)"
proof -
  have "last_irr (fst (pic_write_ocw2 out val mc)) = last_irr (fst mc)"
    by (simp add: pic_write_ocw2_def Let_def case_prod_unfold)
  moreover have "last_irr (fst (pic_write_data out val mc)) = last_irr (fst mc)"
    by (simp add: pic_write_data_def Let_def case_prod_unfold)
  ultimately show ?thesis using assms
    by (auto simp add: pic_ioport_write_def pic_write_command_def Let_def flag_simps case_prod_unfold)
qed

lemma fst_intack: "fst (pic_intack out i sw) = pic_ack i (fst sw)"
  by (simp add: pic_intack_def)

lemma snd_intack: "snd (pic_intack out i sw) = out (snd sw) (if \<exists>k. wins (pic_ack i (fst sw)) k then 1 else 0)"
  by (auto simp: pic_intack_def pic_update_irq_def pic_get_irq_nonneg)

lemma line2_set_irq: "n \<noteq> 2 \<Longrightarrow> driven line2 (sl, pic_set_irq out n l mc) = driven line2 (sl, mc)"
  by (simp add: driven_def pic_set_irq_def last_irr_latch)

lemma line2_intack: "driven line2 (sl, pic_intack out i mc) = driven line2 (sl, mc)"
  by (simp add: driven_def fst_intack)

lemma line2_write:
  "\<not> (addr = 0 \<and> bit val 4 \<and> line2 mc) \<Longrightarrow> driven line2 (sl, pic_ioport_write out addr val mc) = driven line2 (sl, mc)"
  by (cases "addr = 0 \<and> bit val 4") (auto simp: driven_def last_irr_write last_irr_init)

lemma line2_read: "driven line2 (sl, snd (pic_ioport_read out addr mc)) = driven line2 (sl, mc)"
  by (simp add: driven_def pic_ioport_read_def Let_def fst_intack case_prod_unfold)

lemma line2_elcr: "driven line2 (sl, elcr_ioport_write val m, c) = driven line2 (sl, m, c)"
  by (simp add: driven_def elcr_ioport_write_def)

lemmas line2_keeps = line2_set_irq line2_intack line2_write line2_read line2_elcr

context wire
begin

lemma read_irq_ok:
  assumes "pics_ok lev sys"
  shows "pics_ok lev (snd (pic_read_irq out sys))"
proof (cases "pic_get_irq (fst (snd sys)) = 2 \<and> pic_get_irq (fst sys) \<ge> 0")
  case True
  let ?sys1 = "pic_intack (cascade out) (nat (pic_get_irq (fst sys))) sys"
  have "driven line2 ?sys1" by (rule cascade_wire.intack_drives)
  then show ?thesis using True
    by (cases ?sys1)
      (simp add: pic_read_irq_def Let_def pics_ok_def intack_drives line2_keeps)
next
  case False
  then show ?thesis using assms
    by (cases sys)
      (auto simp: pic_read_irq_def Let_def pics_ok_def intack_drives line2_keeps)
qed

lemma pics_step_ok: "pics_step out sys sys' \<Longrightarrow> pics_ok lev sys \<Longrightarrow> pics_ok lev sys'"
proof (induction rule: pics_step.induct)
  case (step_line n sys l)
  then show ?case
    by (cases sys) (auto simp: pics_ok_def i8259_set_irq_def set_irq_drives line2_keeps
        cascade_wire.set_irq_drives set_irq_slave_keeps)
next
  case (step_write_master addr val mc sl)
  then show ?case by (simp add: pics_ok_def write_drives line2_keeps)
next
  case (step_write_slave addr val sys)
  then show ?case
    by (simp add: pics_ok_def write_slave_keeps cascade_wire.write_drives)
next
  case (step_read_master sl mc addr)
  then show ?case by (simp add: pics_ok_def read_drives line2_keeps)
next
  case (step_read_slave sys addr)
  then show ?case by (simp add: pics_ok_def read_slave_keeps cascade_wire.read_drives)
next
  case (step_elcr_master sl m c val)
  then show ?case
    by (simp add: pics_ok_def elcr_drives line2_keeps)
next
  case (step_elcr_slave sl mc val)
  then show ?case by (simp add: pics_ok_def cascade_wire.elcr_drives)
qed (simp add: read_irq_ok)

lemma pics_run_ok: "(pics_step out)\<^sup>*\<^sup>* sys sys' \<Longrightarrow> pics_ok lev sys \<Longrightarrow> pics_ok lev sys'"
  by (induction rule: rtranclp_induct) (auto intro: pics_step_ok)

end

section \<open>Properties\<close>

lemma get_priority_while_zero: "get_priority_while padd m p = Some q \<Longrightarrow> m \<noteq> 0"
  apply (erule get_priority_while.raw_induct [rotated])
  apply (auto split: if_splits)
  done

text \<open>
  The search loop of \<^verbatim>\<open>get_priority\<close> ends exactly on a non-empty mask, and then after fewer than
  eight iterations; the test for an empty mask in front of it is what keeps it from running forever.
\<close>

theorem get_priority_terminates:
  "(\<exists>p<8. get_priority_while padd m 0 = Some p) \<longleftrightarrow> m \<noteq> 0"
proof -
  have "\<exists>p<8. get_priority_while padd m 0 = Some p" if "m \<noteq> 0"
    using get_priority_nonzero [OF that, of "i8259_init_chip True\<lparr>priority_add := padd\<rparr>"] by auto
  then show ?thesis using get_priority_while_zero by blast
qed

text \<open>
  C23. \<^verbatim>\<open>pic_get_irq\<close> resolves priorities correctly: it returns line \<open>i\<close> exactly when \<open>i\<close> is requested and
  unmasked, no requested unmasked line comes before it in the rotated priority order, and it comes
  strictly before every line in service that still blocks (special mask mode discounts masked lines,
  special fully nested mode discounts the cascade line of the master); it returns -1 exactly when no
  line qualifies.
\<close>

theorem pic_get_irq_correct:
  "(pic_get_irq s = int i \<longleftrightarrow> wins s i) \<and> (pic_get_irq s = - 1 \<longleftrightarrow> (\<nexists>j. wins s j))"
  using pic_get_irq_iff [of s] pic_get_irq_cases [of s] by auto

text \<open>
  From reset, whatever devices, processor and guest do (apart from the writes that \<open>stale_write\<close> names, and an
  initialisation of the master while its line 2 is high), the interrupt
  pin of the processor is high exactly when the master has an interrupt to deliver, and line 2 of the
  master is high exactly when the slave has one.
\<close>

theorem pics_outputs_track:
  assumes "(pics_step pin)\<^sup>*\<^sup>* (i8259_init_chip False, i8259_init_chip True, False) (sl, m, cpu)"
  shows "(cpu \<longleftrightarrow> pic_get_output m) \<and> (bit (last_irr m) 2 \<longleftrightarrow> pic_get_output sl)"
proof -
  have "pic_get_irq (i8259_init_chip b) = - 1" for b
    by (simp add: pic_get_irq_def i8259_init_chip_def)
  then have "pics_ok (\<lambda>b. b) (i8259_init_chip False, i8259_init_chip True, False)"
    by (simp add: pics_ok_def driven_def) (simp add: i8259_init_chip_def)
  from pin_wire.pics_run_ok [OF assms this] show ?thesis
    by (simp add: pics_ok_def driven_def pic_get_output_def)
qed

theorem pics_outputs_track_witness:
  "case i8259_set_irq pin 12 (i8259_init_chip False, i8259_init_chip True, False) 1 of (sl, m, cpu) \<Rightarrow>
     (cpu \<longleftrightarrow> pic_get_output m) \<and> (bit (last_irr m) 2 \<longleftrightarrow> pic_get_output sl)"
proof -
  let ?i = "(i8259_init_chip False, i8259_init_chip True, False)"
  obtain sl m cpu where e: "i8259_set_irq pin 12 ?i 1 = (sl, m, cpu)"
    by (cases "i8259_set_irq pin 12 ?i 1")
  have "pics_step pin ?i (i8259_set_irq pin 12 ?i 1)" by (rule step_line) simp_all
  then have "(pics_step pin)\<^sup>*\<^sup>* ?i (sl, m, cpu)" unfolding e by (rule r_into_rtranclp)
  from pics_outputs_track [OF this] show ?thesis by (simp add: e)
qed

text \<open>
  C28. An acknowledge cycle returns the vector of the line that wins: the master's base plus the line,
  or, when that is the cascade line, the slave's base plus the slave's winner, and 7 in place of the
  winner when a chip has none (a spurious interrupt, which changes nothing on that chip).  The winning line is
  acknowledged on its chip; a line of the slave is acknowledged on both chips, and in between the master's line 2 takes
  the level that the slave's remaining requests give it.  Whenever the master had a winner its output is driven to the
  level of what remains.
\<close>

theorem acknowledge_vector:
  assumes "(v, sl', m', c') = pic_read_irq parent (sl, m, c)"
  shows "(wins m i \<and> i \<noteq> 2 \<longrightarrow> v = uint (irq_base m) + int i \<and> sl' = sl \<and> m' = pic_ack i m)
    \<and> (wins m 2 \<and> wins sl j \<longrightarrow> v = uint (irq_base sl) + int j \<and> sl' = pic_ack j sl
        \<and> m' = pic_ack 2 (pic_latch 2 (if \<exists>k. wins sl' k then 1 else 0) m))
    \<and> (wins m 2 \<and> (\<nexists>j. wins sl j) \<longrightarrow> v = uint (irq_base sl) + 7 \<and> sl' = sl \<and> m' = pic_ack 2 m)
    \<and> ((\<nexists>i. wins m i) \<longrightarrow> v = uint (irq_base m) + 7 \<and> (sl', m', c') = (sl, m, c))
    \<and> (wins m i \<longrightarrow> (\<exists>c1. c' = parent c1 (if \<exists>k. wins m' k then 1 else 0)))"
    (is "?A \<and> ?B \<and> ?C \<and> ?D \<and> ?E")
proof (intro conjI)
  have base: "irq_base (pic_ack k s) = irq_base s" for k s by (simp add: pic_ack_def Let_def)
  note defs = pic_read_irq_def Let_def fst_intack base
  have irq: "pic_get_irq s = int k" if "wins s k" for s k using that pic_get_irq_iff by blast
  have none: "pic_get_irq s = - 1" if "\<nexists>k. wins s k" for s using that pic_get_irq_cases by blast
  show ?A using assms
    by (cases "pic_intack parent i (m, c)") (use fst_intack [of parent i "(m, c)"] in \<open>auto simp: defs irq\<close>)
  show ?B
  proof
    assume w: "wins m 2 \<and> wins sl j"
    obtain s1 mc1 where i: "pic_intack (cascade parent) j (sl, m, c) = (s1, mc1)" by (cases "pic_intack (cascade parent) j (sl, m, c)")
    have s1: "s1 = pic_ack j sl" using fst_intack [of "cascade parent" j "(sl, m, c)"] by (simp add: i)
    have "mc1 = cascade parent (m, c) (if \<exists>k. wins s1 k then 1 else 0)"
      using snd_intack [of "cascade parent" j "(sl, m, c)"] unfolding i s1 by simp
    then have mc1: "fst mc1 = pic_latch 2 (if \<exists>k. wins s1 k then 1 else 0) m" by (simp add: cascade_def pic_set_irq_def)
    have "pic_read_irq parent (sl, m, c) = (uint (irq_base s1) + int j, s1, pic_intack parent 2 mc1)"
      using w irq [of m 2] irq [of sl j] by (simp add: pic_read_irq_def Let_def i)
    with assms have "v = uint (irq_base s1) + int j" "sl' = s1" "m' = fst (pic_intack parent 2 mc1)" by (simp, simp, metis fst_conv prod.inject)
    then show "v = uint (irq_base sl) + int j \<and> sl' = pic_ack j sl
        \<and> m' = pic_ack 2 (pic_latch 2 (if \<exists>k. wins sl' k then 1 else 0) m)"
      unfolding fst_intack mc1 by (simp add: s1 base)
  qed
  show ?C using assms irq [of m 2] none [of sl]
    by (cases "pic_intack parent 2 (m, c)") (use fst_intack [of parent 2 "(m, c)"] in \<open>auto simp: defs\<close>)
  show ?D using assms none [of m] by (auto simp: defs)
  show ?E
  proof
    assume w: "wins m i"
    have "\<exists>mc. snd (snd (pic_read_irq parent (sl, m, c))) = pic_intack parent i mc"
      using irq [OF w] by (auto simp: pic_read_irq_def Let_def split: prod.splits) (metis surj_pair)
    then obtain mc where "(m', c') = pic_intack parent i mc" using assms by (metis snd_conv)
    then have "m' = pic_ack i (fst mc)" "c' = snd (pic_intack parent i mc)" using fst_intack [of parent i mc] by (metis fst_conv, metis snd_conv)
    then show "\<exists>c1. c' = parent c1 (if \<exists>k. wins m' k then 1 else 0)" unfolding snd_intack by blast
  qed
qed

text \<open>A chip with base 8 and one unmasked request, and with base 0x70.\<close>

definition sample_pic :: "bool \<Rightarrow> u8 \<Rightarrow> pic" where
  "sample_pic is_master requested =
     (i8259_init_chip is_master)\<lparr>irr := requested, last_irr := requested,
       irq_base := (if is_master then 8 else 0x70)\<rparr>"

lemma sample_wins: "wins (sample_pic True 4) 2" "wins (sample_pic False 16) 4" "wins (sample_pic True 2) 1"
proof -
  have "pic_get_irq (sample_pic True 4) = int 2" "pic_get_irq (sample_pic False 16) = int 4"
    "pic_get_irq (sample_pic True 2) = int 1" by code_simp+
  then show "wins (sample_pic True 4) 2" "wins (sample_pic False 16) 4" "wins (sample_pic True 2) 1"
    by (simp_all only: pic_get_irq_iff)
qed

theorem acknowledge_vector_witness:
  "case pic_read_irq pin (sample_pic False 16, sample_pic True 4, True) of (v, sl, m, c) \<Rightarrow>
     v = 0x74 \<and> sl = pic_ack 4 (sample_pic False 16) \<and> m = pic_ack 2 (pic_latch 2 0 (sample_pic True 4)) \<and> \<not> c"
proof -
  obtain v sl m c where e: "(v, sl, m, c) = pic_read_irq pin (sample_pic False 16, sample_pic True 4, True)"
    by (metis prod_cases4)
  have a: "v = uint (irq_base (sample_pic False 16)) + int 4" "sl = pic_ack 4 (sample_pic False 16)"
    "m = pic_ack 2 (pic_latch 2 (if \<exists>k. wins sl k then 1 else 0) (sample_pic True 4))"
    "\<exists>c1. c = pin c1 (if \<exists>k. wins m k then 1 else 0)"
    using acknowledge_vector [OF e, of 2 4] sample_wins by blast+
  have "\<not> pic_get_irq (pic_ack 4 (sample_pic False 16)) \<ge> 0" by code_simp
  with a(2,3) have m: "m = pic_ack 2 (pic_latch 2 0 (sample_pic True 4))" by (simp add: pic_get_irq_nonneg)
  have "\<not> pic_get_irq (pic_ack 2 (pic_latch 2 0 (sample_pic True 4))) \<ge> 0" by code_simp
  with a(4) have "\<not> c" by (simp add: m pic_get_irq_nonneg pin_def)
  moreover have "uint (irq_base (sample_pic False 16)) + int 4 = 0x74" by code_simp
  ultimately show ?thesis using a(1,2) m by (simp flip: e)
qed

text \<open>
  An edge-triggered request is taken exactly once: after the acknowledge the line is not
  requested any more, holding it high does not request it again, and a falling and a rising edge do.
  A level-triggered request stays until the device lowers its line.
\<close>

theorem edge_taken_once:
  assumes "i < 8" and "bit (last_irr s) i" and "bit (irr s) i"
    and "a = pic_intack out i (s, w)"
  shows "if bit (elcr s) i
    then bit (irr (fst a)) i \<and> \<not> bit (irr (fst (pic_set_irq out i 0 a))) i
    else \<not> bit (irr (fst a)) i \<and> \<not> bit (irr (fst (pic_set_irq out i 1 a))) i
      \<and> bit (irr (fst (pic_set_irq out i 1 (pic_set_irq out i 0 a)))) i"
proof -
  have elcr: "elcr (pic_ack i s) = elcr s" by (simp add: pic_ack_def Let_def)
  have "bit (irr (pic_ack i s)) i = bit (elcr s) i"
    using assms(1,3) by (auto simp: pic_ack_def Let_def flag_simps bit_simps)
  then show ?thesis using assms(1,2) elcr
    by (simp add: assms(4) fst_intack pic_set_irq_def pic_latch_def Let_def flag_simps bit_simps)
qed

theorem edge_taken_once_witness:
  "\<not> bit (irr (fst (pic_intack pin 4 ((i8259_init_chip True)\<lparr>irr := 16, last_irr := 16\<rparr>, True)))) 4"
  using edge_taken_once [of 4 "(i8259_init_chip True)\<lparr>irr := 16, last_irr := 16\<rparr>" _ pin True]
  by (simp add: i8259_init_chip_def)

text \<open>
  Without the special modes, acknowledging the winning interrupt and then issuing a non-specific
  end of interrupt restores the in-service register: the command retires the interrupt that was
  acknowledged and no other.
\<close>

theorem eoi_retires_acknowledged:
  assumes "wins s i" "\<not> bit (isr s) i" "auto_eoi s = 0" "special_mask s = 0"
    "special_fully_nested_mode s = 0"
  shows "isr (fst (pic_ioport_write out 0 0x20 (pic_intack out i (s, w)))) = isr s"
proof -
  let ?a = "pic_ack i s"
  let ?p = "get_priority ?a (isr ?a)"
  have i: "i < 8" using assms(1) by (simp add: wins_def requests_def)
  have isr: "isr ?a = isr s OR line_mask i" "priority_add ?a = priority_add s"
    using assms(3) by (simp_all add: pic_ack_def Let_def)
  have rank: "rank ?a j = rank s j" "line_at ?a p = line_at s p" for j p
    by (simp_all add: rank_def line_at_def isr)
  have lt: "rank s i < rank s j" if "bit (isr s) j" "j < 8" for j
    using assms that by (auto simp: wins_def blocks_def)
  have "?p = rank s i"
  proof (rule antisym)
    show "?p \<le> rank s i"
      using get_priority_le [of "isr ?a" i ?a] i by (simp add: isr rank bit_simps)
    then have "?p < 8" using rank_less [of s i] by linarith
    then have p: "bit (isr ?a) (line_at s ?p)" "?p < 8"
      using get_priority_line [of ?a "isr ?a"] by (simp_all add: rank)
    then have "line_at s ?p = i \<or> bit (isr s) (line_at s ?p)" by (auto simp: isr bit_simps)
    then show "rank s i \<le> ?p" using lt [of "line_at s ?p"] rank_line_at [OF p(2), of s] by auto
  qed
  then have p: "?p \<noteq> 8" "(?p + unat (priority_add ?a)) mod 8 = i"
    using less_imp_neq [OF rank_less, of s i] line_at_rank [OF i, of s]
    by (simp_all add: line_at_def isr)
  have "isr ?a AND NOT (line_mask i) = isr s"
    using assms(2) by (intro bit_word_eqI) (auto simp: isr bit_simps)
  then show ?thesis
    by (simp add: pic_ioport_write_def pic_write_command_def pic_write_ocw2_def Let_def
        fst_intack case_prod_unfold p)
qed

theorem eoi_retires_acknowledged_witness:
  "isr (fst (pic_ioport_write pin 0 0x20 (pic_intack pin 1 (sample_pic True 2, True)))) = 0"
  using eoi_retires_acknowledged [OF sample_wins(3), of pin True]
  by (simp add: sample_pic_def i8259_init_chip_def)

text \<open>
  Setting special mask mode can make a masked-out block disappear, so that an interrupt becomes
  deliverable, and the source leaves the output low: the comment on \<^verbatim>\<open>pic_update_irq\<close> (it must be
  called every time the output may have changed) is not honoured by this branch.
\<close>

theorem special_mask_leaves_output_stale:
  "let s = (i8259_init_chip True)\<lparr>irr := 2, isr := 1, imr := 1\<rparr>;
       (s', cpu') = pic_ioport_write pin 0 0x68 (s, False)
   in pic_get_output s = False \<and> pic_get_output s' \<and> \<not> cpu'"
  by code_simp

end
