(* ===== verification/I8254.thy ===== *)
theory I8254
  imports Prelude
begin

text \<open>
  The interval timer, src/Qemu-2.4.1/hw/timer/i8254.c and i8254_common.c.  The virtual clock, in
  nanoseconds, is the argument \<open>now\<close> of the operations that read it.  \<open>irq_timer\<close> is \<open>None\<close> for a
  channel without a timer and otherwise holds the deadline if the timer is pending.  Tick counts
  are 64-bit words.  \<open>out\<close> is the handler behind channel 0's interrupt line.
\<close>

abbreviation PIT_FREQ :: int where "PIT_FREQ \<equiv> 1193182"
abbreviation ticks_per_sec :: int where "ticks_per_sec \<equiv> 1000000000"

abbreviation RW_STATE_LSB :: u8 where "RW_STATE_LSB \<equiv> 1"
abbreviation RW_STATE_MSB :: u8 where "RW_STATE_MSB \<equiv> 2"
abbreviation RW_STATE_WORD0 :: u8 where "RW_STATE_WORD0 \<equiv> 3"
abbreviation RW_STATE_WORD1 :: u8 where "RW_STATE_WORD1 \<equiv> 4"

record PITChannelState =
  ch_count :: int
  latched_count :: u16
  count_latched :: u8
  status_latched :: u8
  ch_status :: u8
  read_state :: u8
  write_state :: u8
  write_latch :: u8
  rw_mode :: u8
  ch_mode :: u8
  bcd :: u8
  gate :: u8
  count_load_time :: int
  next_transition_time :: int
  irq_timer :: "int option option"
  irq_disabled :: bool

type_synonym pit = "PITChannelState list"

definition muldiv64 :: "u64 \<Rightarrow> int \<Rightarrow> int \<Rightarrow> u64" where
  "muldiv64 a b c = word_of_int (uint a * b div c)"

subsection \<open>The output of a channel\<close>

definition pit_ticks :: "PITChannelState \<Rightarrow> int \<Rightarrow> u64" where
  "pit_ticks s t = muldiv64 (word_of_int (t - count_load_time s)) PIT_FREQ ticks_per_sec"

definition pit_get_out :: "PITChannelState \<Rightarrow> int \<Rightarrow> int" where
  "pit_get_out s t =
     (let d = pit_ticks s t; c = word_of_int (ch_count s) :: u64; m = ch_mode s
      in if m = 1 then of_bool (d < c)
         else if m = 2 then of_bool (d mod c = 0 \<and> d \<noteq> 0)
         else if m = 3 then of_bool (d mod c < word_of_int ((ch_count s + 1) div 2))
         else if m = 4 \<or> m = 5 then of_bool (d = c)
         else of_bool (d \<ge> c))"

text \<open>The tick of the next transition, \<open>None\<close> when there is none.\<close>

definition next_tick :: "PITChannelState \<Rightarrow> u64 \<Rightarrow> u64 option" where
  "next_tick s d =
     (let c = word_of_int (ch_count s) :: u64; m = ch_mode s; base = (d div c) * c
      in if m = 2 then
           Some (if d - base = 0 \<and> d \<noteq> 0 then base + c else base + c + 1)
         else if m = 3 then
           let period2 = word_of_int ((ch_count s + 1) div 2)
           in Some (if d - base < period2 then base + period2 else base + c)
         else if m = 4 \<or> m = 5 then
           (if d < c then Some c else if d = c then Some (c + 1) else None)
         else (if d < c then Some c else None))"

definition pit_get_next_transition_time :: "PITChannelState \<Rightarrow> int \<Rightarrow> int" where
  "pit_get_next_transition_time s t =
     (case next_tick s (pit_ticks s t) of
        None \<Rightarrow> -1
      | Some n \<Rightarrow>
          let next_time = word_of_int (count_load_time s) + muldiv64 n ticks_per_sec PIT_FREQ;
              cur = word_of_int t
          in sint (if next_time \<le> cur then cur + 1 else next_time))"

definition pit_get_count :: "int \<Rightarrow> PITChannelState \<Rightarrow> int" where
  "pit_get_count now s =
     (let d = pit_ticks s now; c = word_of_int (ch_count s) :: u64; m = ch_mode s
      in if m = 0 \<or> m = 1 \<or> m = 4 \<or> m = 5 then uint ((c - d) AND 0xffff)
         else if m = 3 then uint (c - (2 * d) mod c)
         else uint (c - d mod c))"

record PITChannelInfo =
  info_gate :: u8
  info_mode :: u8
  info_initial_count :: int
  info_out :: int

definition pit_get_channel_info_common :: "int \<Rightarrow> PITChannelState \<Rightarrow> PITChannelInfo" where
  "pit_get_channel_info_common now sc =
     \<lparr>info_gate = gate sc, info_mode = ch_mode sc, info_initial_count = ch_count sc, info_out = pit_get_out sc now\<rparr>"

subsection \<open>The interrupt timer\<close>

definition pit_irq_timer_update :: "'w qemu_irq \<Rightarrow> int \<Rightarrow> PITChannelState \<times> 'w \<Rightarrow> PITChannelState \<times> 'w" where
  "pit_irq_timer_update out current_time cw =
     (let (s, w) = cw
      in if irq_timer s = None \<or> irq_disabled s then (s, w)
         else
           let expire_time = pit_get_next_transition_time s current_time;
               irq_level = pit_get_out s current_time
           in (s\<lparr>next_transition_time := expire_time,
                irq_timer := Some (if expire_time \<noteq> -1 then Some expire_time else None)\<rparr>, out w irq_level))"

definition pit_irq_timer :: "'w qemu_irq \<Rightarrow> PITChannelState \<times> 'w \<Rightarrow> PITChannelState \<times> 'w" where
  "pit_irq_timer out cw = pit_irq_timer_update out (next_transition_time (fst cw)) cw"

definition pit_load_count :: "'w qemu_irq \<Rightarrow> int \<Rightarrow> int \<Rightarrow> PITChannelState \<times> 'w \<Rightarrow> PITChannelState \<times> 'w" where
  "pit_load_count out now val cw =
     (let (s, w) = cw; val = (if val = 0 then 0x10000 else val)
      in pit_irq_timer_update out now (s\<lparr>ch_count := val, count_load_time := now\<rparr>, w))"

definition pit_set_channel_gate :: "'w qemu_irq \<Rightarrow> int \<Rightarrow> u8 \<Rightarrow> PITChannelState \<times> 'w \<Rightarrow> PITChannelState \<times> 'w" where
  "pit_set_channel_gate out now val cw =
     (let (s, w) = cw;
          (s, w) = (if (ch_mode s = 1 \<or> ch_mode s = 5 \<or> ch_mode s = 2 \<or> ch_mode s = 3) \<and> gate s < val
                    then pit_irq_timer_update out now (s\<lparr>count_load_time := now\<rparr>, w) else (s, w))
      in (s\<lparr>gate := val\<rparr>, w))"

definition pit_latch_count :: "int \<Rightarrow> PITChannelState \<Rightarrow> PITChannelState" where
  "pit_latch_count now s =
     (if count_latched s = 0
      then s\<lparr>latched_count := word_of_int (pit_get_count now s), count_latched := rw_mode s\<rparr> else s)"

subsection \<open>Ports\<close>

definition pit_read_back :: "int \<Rightarrow> u8 \<Rightarrow> nat \<Rightarrow> PITChannelState \<Rightarrow> PITChannelState" where
  "pit_read_back now val channel s0 =
     (if val AND push_bit channel 2 \<noteq> 0 then
        let s = (if val AND 0x20 = 0 then pit_latch_count now s0 else s0)
        in if val AND 0x10 = 0 \<and> status_latched s = 0 then
             s\<lparr>status_latched := 1,
               ch_status := word_of_int (pit_get_out s now * 128) OR push_bit 4 (rw_mode s) OR push_bit 1 (ch_mode s) OR bcd s\<rparr>
           else s
      else s0)"

definition pit_control :: "int \<Rightarrow> u8 \<Rightarrow> PITChannelState \<Rightarrow> PITChannelState" where
  "pit_control now val s =
     (let access = drop_bit 4 val AND 3
      in if access = 0 then pit_latch_count now s
         else s\<lparr>read_state := access, write_state := access, rw_mode := access,
                ch_mode := drop_bit 1 val AND 7, bcd := val AND 1\<rparr>)"

definition pit_write_counter :: "'w qemu_irq \<Rightarrow> int \<Rightarrow> u8 \<Rightarrow> PITChannelState \<times> 'w \<Rightarrow> PITChannelState \<times> 'w" where
  "pit_write_counter out now val cw =
     (let (s, w) = cw; ws = write_state s
      in if ws = RW_STATE_MSB then pit_load_count out now (uint val * 256) (s, w)
         else if ws = RW_STATE_WORD0 then (s\<lparr>write_state := RW_STATE_WORD1, write_latch := val\<rparr>, w)
         else if ws = RW_STATE_WORD1 then
           (let (s, w) = pit_load_count out now (uint (write_latch s) + uint val * 256) (s, w)
            in (s\<lparr>write_state := RW_STATE_WORD0\<rparr>, w))
         else pit_load_count out now (uint val) (s, w))"

definition on_channel :: "nat \<Rightarrow> (PITChannelState \<times> 'w \<Rightarrow> PITChannelState \<times> 'w) \<Rightarrow> pit \<times> 'w \<Rightarrow> pit \<times> 'w" where
  "on_channel i f pw = (let (p, w) = pw; (s, w') = f (p ! i, w) in (p[i := s], w'))"

definition pit_ioport_write :: "'w qemu_irq \<Rightarrow> int \<Rightarrow> u64 \<Rightarrow> u8 \<Rightarrow> pit \<times> 'w \<Rightarrow> pit \<times> 'w" where
  "pit_ioport_write out now addr val pw =
     (let a = unat (addr AND 3)
      in if a = 3 then
           let channel = unat (drop_bit 6 val)
           in if channel = 3 then
                fold (\<lambda>i. on_channel i (\<lambda>(s, w). (pit_read_back now val i s, w))) [0, 1, 2] pw
              else on_channel channel (\<lambda>(s, w). (pit_control now val s, w)) pw
         else on_channel a (pit_write_counter out now val) pw)"

definition pit_read_counter :: "int \<Rightarrow> PITChannelState \<Rightarrow> int \<times> PITChannelState" where
  "pit_read_counter now s =
     (if status_latched s \<noteq> 0 then (uint (ch_status s), s\<lparr>status_latched := 0\<rparr>)
      else if count_latched s \<noteq> 0 then
        (if count_latched s = RW_STATE_MSB then (uint (latched_count s) div 256, s\<lparr>count_latched := 0\<rparr>)
         else if count_latched s = RW_STATE_WORD0 then (uint (latched_count s) mod 256, s\<lparr>count_latched := RW_STATE_MSB\<rparr>)
         else (uint (latched_count s) mod 256, s\<lparr>count_latched := 0\<rparr>))
      else
        let count = pit_get_count now s; rs = read_state s
        in if rs = RW_STATE_MSB then (count div 256 mod 256, s)
           else if rs = RW_STATE_WORD0 then (count mod 256, s\<lparr>read_state := RW_STATE_WORD1\<rparr>)
           else if rs = RW_STATE_WORD1 then (count div 256 mod 256, s\<lparr>read_state := RW_STATE_WORD0\<rparr>)
           else (count mod 256, s))"

definition pit_ioport_read :: "int \<Rightarrow> u64 \<Rightarrow> pit \<Rightarrow> int \<times> pit" where
  "pit_ioport_read now addr p =
     (let a = unat (addr AND 3)
      in if a = 3 then (0, p) else let (r, s) = pit_read_counter now (p ! a) in (r, p[a := s]))"

definition pit_set_gate :: "'w qemu_irq \<Rightarrow> int \<Rightarrow> nat \<Rightarrow> u8 \<Rightarrow> pit \<times> 'w \<Rightarrow> pit \<times> 'w" where
  "pit_set_gate out now channel val = on_channel channel (pit_set_channel_gate out now val)"

subsection \<open>Reset, HPET and migration\<close>

definition pit_reset_channel :: "int \<Rightarrow> nat \<Rightarrow> PITChannelState \<Rightarrow> PITChannelState" where
  "pit_reset_channel now i s0 =
     (let s = s0\<lparr>ch_count := 0x10000, ch_mode := 3, gate := (if i \<noteq> 2 then 1 else 0), count_load_time := now\<rparr>
      in if i = 0 \<and> \<not> irq_disabled s
         then s\<lparr>next_transition_time := pit_get_next_transition_time s (count_load_time s)\<rparr> else s)"

definition pit_reset_common :: "int \<Rightarrow> pit \<Rightarrow> pit" where
  "pit_reset_common now p = fold (\<lambda>i p. p[i := pit_reset_channel now i (p ! i)]) [0, 1, 2] p"

definition pit_reset :: "int \<Rightarrow> pit \<Rightarrow> pit" where
  "pit_reset now p0 =
     (let p = pit_reset_common now p0; s = p ! 0
      in if \<not> irq_disabled s then p[0 := s\<lparr>irq_timer := Some (Some (next_transition_time s))\<rparr>] else p)"

definition pit_irq_control :: "'w qemu_irq \<Rightarrow> int \<Rightarrow> bool \<Rightarrow> pit \<times> 'w \<Rightarrow> pit \<times> 'w" where
  "pit_irq_control out now enable =
     on_channel 0 (\<lambda>(s, w). if enable then pit_irq_timer_update out now (s\<lparr>irq_disabled := False\<rparr>, w)
                            else (s\<lparr>irq_timer := Some None, irq_disabled := True\<rparr>, w))"

definition pit_post_load :: "pit \<Rightarrow> pit" where
  "pit_post_load p =
     (let sc = p ! 0
      in p[0 := sc\<lparr>irq_timer := Some (if next_transition_time sc \<noteq> -1 then Some (next_transition_time sc) else None)\<rparr>])"

definition pit_realizefn :: "pit \<Rightarrow> pit" where
  "pit_realizefn p = p[0 := (p ! 0)\<lparr>irq_timer := Some None\<rparr>]"

definition pit_channel_zero :: PITChannelState where
  "pit_channel_zero = \<lparr>ch_count = 0, latched_count = 0, count_latched = 0, status_latched = 0, ch_status = 0,
     read_state = 0, write_state = 0, write_latch = 0, rw_mode = 0, ch_mode = 0, bcd = 0, gate = 0,
     count_load_time = 0, next_transition_time = 0, irq_timer = None, irq_disabled = False\<rparr>"

text \<open>The device as it is created: zeroed, realized and reset.\<close>

definition pit_init :: "int \<Rightarrow> pit" where
  "pit_init now = pit_reset now (pit_realizefn (replicate 3 pit_channel_zero))"

subsection \<open>Ticks and times\<close>

definition ticks :: "int \<Rightarrow> int" where
  "ticks t = t * PIT_FREQ div ticks_per_sec"

definition tick_time :: "int \<Rightarrow> int" where
  "tick_time n = n * ticks_per_sec div PIT_FREQ"

lemma ticks_mono: "a \<le> b \<Longrightarrow> ticks a \<le> ticks b"
  unfolding ticks_def by (intro zdiv_mono1) auto

lemma ticks_le: assumes "0 \<le> t" shows "0 \<le> ticks t \<and> 800 * ticks t \<le> t"
proof -
  have "ticks t * ticks_per_sec \<le> t * PIT_FREQ"
    using minus_mod_eq_div_mult [of "t * PIT_FREQ" ticks_per_sec] pos_mod_sign [of ticks_per_sec "t * PIT_FREQ"]
    unfolding ticks_def by linarith
  then show ?thesis using assms by (auto simp: ticks_def pos_imp_zdiv_nonneg_iff)
qed

lemma tick_time_le: assumes "0 \<le> n" shows "0 \<le> tick_time n \<and> tick_time n \<le> 839 * n"
proof -
  have "tick_time n * PIT_FREQ \<le> n * ticks_per_sec"
    using minus_mod_eq_div_mult [of "n * ticks_per_sec" PIT_FREQ] pos_mod_sign [of PIT_FREQ "n * ticks_per_sec"]
    unfolding tick_time_def by linarith
  then show ?thesis using assms by (auto simp: tick_time_def pos_imp_zdiv_nonneg_iff)
qed

lemma ticks_before:
  assumes "t < tick_time n" shows "ticks t < n"
proof -
  have "tick_time n * PIT_FREQ \<le> n * ticks_per_sec"
    unfolding tick_time_def by (simp add: minus_mod_eq_div_mult [symmetric])
  moreover have "t * PIT_FREQ \<le> (tick_time n - 1) * PIT_FREQ" using assms by (intro mult_right_mono) auto
  ultimately have "t * PIT_FREQ < n * ticks_per_sec" by (simp add: algebra_simps)
  then show ?thesis unfolding ticks_def by (simp add: div_less_iff_less_mult)
qed

lemma ticks_tick_time:
  "ticks (tick_time n) = (if 596591 dvd n then n else n - 1)"
proof -
  let ?r = "n * ticks_per_sec mod PIT_FREQ"
  have q: "tick_time n * PIT_FREQ = n * ticks_per_sec - ?r"
    using minus_mod_eq_div_mult [of "n * ticks_per_sec" PIT_FREQ] by (simp only: tick_time_def)
  have r: "0 \<le> ?r" "?r < PIT_FREQ" by simp_all
  have "coprime (596591 :: int) 500000000" by code_simp
  then have "596591 dvd n \<longleftrightarrow> 596591 dvd n * 500000000" by (simp add: coprime_dvd_mult_left_iff)
  also have "\<dots> \<longleftrightarrow> 2 * 596591 dvd 2 * (n * 500000000)" by (simp only: dvd_mult_cancel_left) simp
  also have "\<dots> \<longleftrightarrow> ?r = 0" by (simp add: dvd_eq_mod_eq_0 mult.commute mult.left_commute)
  finally have d: "596591 dvd n \<longleftrightarrow> ?r = 0" .
  show ?thesis
  proof (cases "?r = 0")
    case True
    then show ?thesis using d q by (simp add: ticks_def)
  next
    case False
    have "(n * ticks_per_sec - ?r) div ticks_per_sec = n - 1"
      using div_pos_pos_trivial [of "ticks_per_sec - ?r" ticks_per_sec] r False
        div_mult_self1 [of ticks_per_sec "ticks_per_sec - ?r" "n - 1"] by (simp add: algebra_simps)
    then show ?thesis using d q False by (simp add: ticks_def)
  qed
qed

text \<open>Words that hold small numbers.\<close>

lemma w64_uint: "0 \<le> a \<Longrightarrow> a < 2 ^ 63 \<Longrightarrow> uint (word_of_int a :: u64) = a"
  by (simp add: uint_word_of_int)

lemma w64_simps:
  assumes "0 \<le> a" "a < 2 ^ 63" "0 \<le> b" "b < 2 ^ 63"
  shows "(word_of_int a :: u64) < word_of_int b \<longleftrightarrow> a < b"
    "(word_of_int a :: u64) \<le> word_of_int b \<longleftrightarrow> a \<le> b"
    "(word_of_int a :: u64) = word_of_int b \<longleftrightarrow> a = b"
    "(word_of_int a :: u64) mod word_of_int b = word_of_int (a mod b)"
    "(word_of_int a :: u64) div word_of_int b = word_of_int (a div b)"
proof -
  note u = w64_uint [OF assms(1,2)] w64_uint [OF assms(3,4)]
  show "(word_of_int a :: u64) < word_of_int b \<longleftrightarrow> a < b" "(word_of_int a :: u64) \<le> word_of_int b \<longleftrightarrow> a \<le> b"
    by (simp_all only: word_less_def word_le_def u)
  show "(word_of_int a :: u64) = word_of_int b \<longleftrightarrow> a = b" using u by metis
  show "(word_of_int a :: u64) mod word_of_int b = word_of_int (a mod b)"
    "(word_of_int a :: u64) div word_of_int b = word_of_int (a div b)"
    by (simp_all only: word_mod_def word_div_def u)
qed

lemma sint_u64: "0 \<le> a \<Longrightarrow> a < 2 ^ 63 \<Longrightarrow> sint (word_of_int a :: u64) = a"
  by (simp add: sint_sbintrunc' signed_take_bit_int_eq_self)

definition times_ok :: "PITChannelState \<Rightarrow> int \<Rightarrow> bool" where
  "times_ok s t \<longleftrightarrow> 0 \<le> count_load_time s \<and> count_load_time s \<le> t \<and> t < 2 ^ 60"

definition chan_ok :: "PITChannelState \<Rightarrow> bool" where
  "chan_ok s \<longleftrightarrow> 1 \<le> ch_count s \<and> ch_count s \<le> 65536"

abbreviation elapsed :: "PITChannelState \<Rightarrow> int \<Rightarrow> int" where
  "elapsed s t \<equiv> ticks (t - count_load_time s)"

lemma elapsed_bounds: "times_ok s t \<Longrightarrow> 0 \<le> elapsed s t \<and> elapsed s t < 2 ^ 51"
  using ticks_le [of "t - count_load_time s"] by (auto simp: times_ok_def)

lemma pit_ticks_elapsed: "times_ok s t \<Longrightarrow> pit_ticks s t = word_of_int (elapsed s t)"
proof -
  assume "times_ok s t"
  then have "uint (word_of_int (t - count_load_time s) :: u64) = t - count_load_time s"
    by (intro w64_uint) (auto simp: times_ok_def)
  then show ?thesis by (simp only: pit_ticks_def muldiv64_def ticks_def)
qed

text \<open>The output as a function of the number of ticks.\<close>

definition tick_out :: "u8 \<Rightarrow> int \<Rightarrow> int \<Rightarrow> bool" where
  "tick_out m c d =
     (if m = 1 then d < c else if m = 2 then d mod c = 0 \<and> d \<noteq> 0 else if m = 3 then d mod c < (c + 1) div 2
      else if m = 4 \<or> m = 5 then d = c else c \<le> d)"

lemma pit_get_out_ticks:
  assumes "times_ok s t" "chan_ok s"
  shows "pit_get_out s t = of_bool (tick_out (ch_mode s) (ch_count s) (elapsed s t))"
proof -
  let ?d = "elapsed s t" and ?c = "ch_count s"
  have d: "0 \<le> ?d" "?d < 2 ^ 63" using elapsed_bounds [OF assms(1)] by auto
  have c: "0 \<le> ?c" "?c < 2 ^ 63" "0 \<le> (?c + 1) div 2" "(?c + 1) div 2 < 2 ^ 63"
    using assms(2) by (auto simp: chan_ok_def)
  have "0 \<le> ?d mod ?c" "?d mod ?c < ?c" using assms(2) by (simp_all add: chan_ok_def)
  then have m: "0 \<le> ?d mod ?c" "?d mod ?c < 2 ^ 63" using c(2) by linarith+
  have z: "(word_of_int x :: u64) = 0 \<longleftrightarrow> x = 0" if "0 \<le> x" "x < 2 ^ 63" for x
    using w64_simps(3) [of x 0] that by simp
  show ?thesis
    unfolding pit_get_out_def Let_def pit_ticks_elapsed [OF assms(1)] tick_out_def
    using w64_simps [OF d c(1,2)] w64_simps(2) [OF c(1,2) d] w64_simps(1) [OF m c(3,4)] z [OF m] z [OF d] by auto
qed

definition tick_next :: "u8 \<Rightarrow> int \<Rightarrow> int \<Rightarrow> int option" where
  "tick_next m c d =
     (let base = d div c * c
      in if m = 2 then Some (if d = base \<and> d \<noteq> 0 then base + c else base + c + 1)
         else if m = 3 then Some (if d - base < (c + 1) div 2 then base + (c + 1) div 2 else base + c)
         else if m = 4 \<or> m = 5 then (if d < c then Some c else if d = c then Some (c + 1) else None)
         else (if d < c then Some c else None))"

lemma tick_next_bounds:
  assumes "0 \<le> d" "1 \<le> c" "tick_next m c d = Some n"
  shows "d < n \<and> n \<le> d + c + 1"
proof -
  have b: "d div c * c = d - d mod c" by (simp add: minus_mod_eq_div_mult)
  have r: "0 \<le> d mod c" "d mod c < c" using assms(2) by simp_all
  show ?thesis
    using assms b r by (auto simp: tick_next_def Let_def split: if_splits)
qed

lemma next_tick_ticks:
  assumes "times_ok s t" "chan_ok s"
  shows "next_tick s (pit_ticks s t) = map_option word_of_int (tick_next (ch_mode s) (ch_count s) (elapsed s t))"
proof -
  let ?d = "elapsed s t" and ?c = "ch_count s"
  have d: "0 \<le> ?d" "?d < 2 ^ 63" using elapsed_bounds [OF assms(1)] by auto
  have c: "0 \<le> ?c" "?c < 2 ^ 63" "0 \<le> (?c + 1) div 2" "(?c + 1) div 2 < 2 ^ 63" "0 < ?c"
    using assms(2) by (auto simp: chan_ok_def)
  have b: "?d - ?d div ?c * ?c = ?d mod ?c" by (simp add: minus_div_mult_eq_mod)
  have r: "0 \<le> ?d mod ?c" "?d mod ?c < ?c" using c by simp_all
  have base: "(word_of_int ?d :: u64) div word_of_int ?c * word_of_int ?c = word_of_int (?d div ?c * ?c)"
    using w64_simps(5) [OF d c(1,2)] by simp
  have off: "(word_of_int ?d :: u64) - word_of_int (?d div ?c * ?c) = word_of_int (?d mod ?c)"
    by (simp only: b [symmetric] wi_hom_sub)
  have z: "(word_of_int x :: u64) = 0 \<longleftrightarrow> x = 0" if "0 \<le> x" "x < 2 ^ 63" for x
    using w64_simps(3) [of x 0] that by simp
  have rr: "?d mod ?c < 2 ^ 63" using r c by linarith
  have cmp: "(word_of_int (?d mod ?c) :: u64) < word_of_int ((?c + 1) div 2) \<longleftrightarrow> ?d - ?d div ?c * ?c < (?c + 1) div 2"
    using w64_simps(1) [OF r(1) rr c(3,4)] b by simp
  have eq: "?d = ?d div ?c * ?c \<longleftrightarrow> ?d mod ?c = 0" using b by linarith
  show ?thesis
    unfolding next_tick_def tick_next_def Let_def pit_ticks_elapsed [OF assms(1)] base off z [OF r(1) rr] z [OF d] cmp eq
    using w64_simps [OF d c(1,2)] by auto
qed

lemma pit_next_time:
  assumes "times_ok s t" "chan_ok s"
  shows "pit_get_next_transition_time s t =
    (case tick_next (ch_mode s) (ch_count s) (elapsed s t) of None \<Rightarrow> -1
     | Some n \<Rightarrow> max (t + 1) (count_load_time s + tick_time n))"
proof (cases "tick_next (ch_mode s) (ch_count s) (elapsed s t)")
  case (Some n)
  let ?l = "count_load_time s"
  have n: "0 \<le> n" "n < 2 ^ 52"
    using tick_next_bounds [OF _ _ Some] elapsed_bounds [OF assms(1)] assms(2) by (auto simp: chan_ok_def)
  have tt: "0 \<le> tick_time n" "tick_time n < 2 ^ 62" using tick_time_le [OF n(1)] n(2) by auto
  have l: "0 \<le> ?l" "?l < 2 ^ 60" "0 \<le> t" "t < 2 ^ 60" using assms(1) by (auto simp: times_ok_def)
  have nt: "word_of_int ?l + muldiv64 (word_of_int n) ticks_per_sec PIT_FREQ = (word_of_int (?l + tick_time n) :: u64)"
    using n w64_uint [of n] by (simp add: muldiv64_def tick_time_def)
  have cur: "(word_of_int t :: u64) + 1 = word_of_int (t + 1)" by simp
  have lt: "0 \<le> ?l + tick_time n" "?l + tick_time n < 2 ^ 63" using tt l by auto
  have "pit_get_next_transition_time s t
      = sint (if word_of_int (?l + tick_time n) \<le> (word_of_int t :: u64) then word_of_int (t + 1) else word_of_int (?l + tick_time n) :: u64)"
    unfolding pit_get_next_transition_time_def next_tick_ticks [OF assms] Some Let_def option.map option.case nt cur ..
  also have "\<dots> = max (t + 1) (?l + tick_time n)"
    using w64_simps(2) [OF lt, of t] sint_u64 [OF lt] sint_u64 [of "t + 1"] l by (auto simp del: of_int_add)
  finally show ?thesis using Some by simp
qed (simp add: pit_get_next_transition_time_def next_tick_ticks [OF assms])

subsection \<open>The timer follows the output\<close>

lemma tick_out_steady:
  assumes "m \<noteq> 2" "1 \<le> c" "0 \<le> d" "d \<le> d'" "\<And>n. tick_next m c d = Some n \<Longrightarrow> d' < n"
  shows "tick_out m c d' = tick_out m c d"
proof (cases "m = 3")
  case True
  let ?b = "d div c * c" and ?p = "(c + 1) div 2"
  have b: "d mod c = d - ?b" by (simp add: minus_div_mult_eq_mod)
  have r: "0 \<le> d mod c" "d mod c < c" using assms(2) by simp_all
  have n: "d' < (if d - ?b < ?p then ?b + ?p else ?b + c)" using assms(5) True by (auto simp: tick_next_def Let_def)
  moreover have "?p \<le> c" using assms(2) by simp
  ultimately have "d' < ?b + c" by (auto split: if_splits)
  then have "(d' - ?b) mod c = d' - ?b" using assms(4) b r by (intro mod_pos_pos_trivial) auto
  then have "d' mod c = d' - ?b" by (simp add: mod_diff_right_eq [symmetric])
  then show ?thesis using True b n assms(4) by (auto simp: tick_out_def split: if_splits)
next
  case False
  then show ?thesis
    using assms(1-4) assms(5) [of c] assms(5) [of "c + 1"]
    by (cases "d < c"; cases "d = c") (auto simp: tick_out_def tick_next_def Let_def)
qed

text \<open>
  C24. In every mode but the rate generator's, the time computed for the next transition lies in the future
  and the output does not change before it; the answer -1 means that it never changes again (for
  clocks below 2^60 nanoseconds, some 36 years).
\<close>

theorem next_transition_misses_no_edge:
  assumes "chan_ok s" "ch_mode s \<noteq> 2" "times_ok s t" "times_ok s t'" "t \<le> t'"
    and "pit_get_next_transition_time s t = -1 \<or> t' < pit_get_next_transition_time s t"
  shows "pit_get_out s t' = pit_get_out s t
    \<and> (pit_get_next_transition_time s t = -1 \<or> t < pit_get_next_transition_time s t)"
proof -
  let ?d = "elapsed s t" and ?d' = "elapsed s t'" and ?next = "tick_next (ch_mode s) (ch_count s) (elapsed s t)"
  note nt = pit_next_time [OF assms(3,1)]
  have dd: "0 \<le> ?d" "?d \<le> ?d'" using elapsed_bounds [OF assms(3)] assms(5) by (auto intro: ticks_mono)
  have t: "0 \<le> t" using assms(3) by (simp add: times_ok_def)
  have c1: "1 \<le> ch_count s" using assms(1) by (simp add: chan_ok_def)
  have bef: "?d' < n" if "?next = Some n" for n
  proof (cases "t' = t")
    case True
    then show ?thesis using tick_next_bounds [OF dd(1) _ that] assms(1) by (simp add: chan_ok_def)
  next
    case False
    then have "t' < count_load_time s + tick_time n" using assms(5,6) nt that t by auto
    then show ?thesis by (intro ticks_before) simp
  qed
  have "tick_out (ch_mode s) (ch_count s) ?d' = tick_out (ch_mode s) (ch_count s) ?d"
    by (rule tick_out_steady [OF assms(2) c1 dd bef])
  moreover have "pit_get_next_transition_time s t = -1 \<or> t < pit_get_next_transition_time s t"
    using nt by (auto split: option.splits)
  ultimately show ?thesis by (simp add: pit_get_out_ticks [OF assms(3,1)] pit_get_out_ticks [OF assms(4,1)])
qed

lemma rate_toggles:
  assumes "chan_ok s" "ch_mode s = 2" "2 \<le> ch_count s" "times_ok s t"
    and "tick_next 2 (ch_count s) (elapsed s t) = Some n" "t < count_load_time s + tick_time n"
    and "times_ok s (pit_get_next_transition_time s t)" "\<not> 596591 dvd n"
  shows "pit_get_out s (pit_get_next_transition_time s t) = 1 - pit_get_out s t"
proof -
  let ?d = "elapsed s t" and ?c = "ch_count s" and ?nt = "pit_get_next_transition_time s t"
  let ?b = "?d div ?c * ?c"
  have nt: "?nt = count_load_time s + tick_time n"
    using pit_next_time [OF assms(4,1)] assms(2,5,6) by simp
  then have d': "elapsed s ?nt = n - 1" using ticks_tick_time [of n] assms(8) by simp
  have bm: "?d mod ?c = ?d - ?b" by (simp add: minus_div_mult_eq_mod)
  have d0: "0 \<le> ?d" using elapsed_bounds [OF assms(4)] by simp
  have b0: "0 \<le> ?b" using d0 assms(3) by (simp add: pos_imp_zdiv_nonneg_iff)
  have "tick_out 2 ?c (n - 1) = (\<not> tick_out 2 ?c ?d)"
  proof (cases "?d = ?b \<and> ?d \<noteq> 0")
    case True
    then have n: "n - 1 = (?c - 1) + ?d div ?c * ?c" using assms(5) by (simp add: tick_next_def)
    have "(n - 1) mod ?c = (?c - 1) mod ?c" unfolding n by (rule mod_mult_self1)
    also have "\<dots> = ?c - 1" using assms(3) by (intro mod_pos_pos_trivial) auto
    finally show ?thesis using True bm assms(3) by (simp add: tick_out_def)
  next
    case False
    then have n: "n - 1 = (?d div ?c + 1) * ?c" using assms(5) by (auto simp: tick_next_def algebra_simps)
    have "(n - 1) mod ?c = 0" unfolding n by simp
    moreover have "0 < n - 1" unfolding n using b0 assms(3) by (simp add: algebra_simps)
    ultimately show ?thesis using False bm by (auto simp: tick_out_def)
  qed
  then show ?thesis
    using pit_get_out_ticks [OF assms(4,1)] pit_get_out_ticks [OF assms(7,1)] d' assms(2) by simp
qed

text \<open>
  The rate generator with a count of at least two toggles the interrupt line at each firing of its timer,
  once up and once down per period, unless the tick the timer was set for is a multiple of 596591.
\<close>

theorem rate_generator_toggles:
  assumes "chan_ok s" "ch_mode s = 2" "2 \<le> ch_count s" "times_ok s t"
    and "tick_next 2 (ch_count s) (elapsed s t) = Some n" "t < count_load_time s + tick_time n"
    and "times_ok s (pit_get_next_transition_time s t)" "\<not> 596591 dvd n"
  shows "pit_get_out s (pit_get_next_transition_time s t) = 1 - pit_get_out s t"
  by (rule rate_toggles [OF assms])

text \<open>
  When the tick of the next firing is a multiple of 596591, the conversion to nanoseconds and back is
  exact and the rate generator's timer fires one tick late: the line stays low and the interrupt
  of that period is lost.
\<close>

theorem rate_generator_loses_tick:
  assumes "chan_ok s" "ch_mode s = 2" "2 \<le> ch_count s" "times_ok s t" "pit_get_out s t = 0"
    and "tick_next 2 (ch_count s) (elapsed s t) = Some n" "t < count_load_time s + tick_time n"
    and "times_ok s (pit_get_next_transition_time s t)" "596591 dvd n"
  shows "pit_get_out s (pit_get_next_transition_time s t) = 0"
proof -
  let ?d = "elapsed s t" and ?c = "ch_count s" and ?nt = "pit_get_next_transition_time s t"
  have nt: "?nt = count_load_time s + tick_time n"
    using pit_next_time [OF assms(4,1)] assms(2,6,7) by simp
  then have d': "elapsed s ?nt = n" using ticks_tick_time [of n] assms(9) by simp
  have bm: "?d mod ?c = ?d - ?d div ?c * ?c" by (simp add: minus_div_mult_eq_mod)
  have "\<not> (?d = ?d div ?c * ?c \<and> ?d \<noteq> 0)"
    using assms(2,5) pit_get_out_ticks [OF assms(4,1)] bm by (auto simp: tick_out_def)
  then have n: "n = 1 + (?d div ?c + 1) * ?c" using assms(6) by (auto simp: tick_next_def algebra_simps)
  have "n mod ?c = 1 mod ?c" unfolding n by (rule mod_mult_self1)
  also have "\<dots> = 1" using assms(3) by (intro mod_pos_pos_trivial) auto
  finally show ?thesis using pit_get_out_ticks [OF assms(8,1)] d' assms(2) by (simp add: tick_out_def)
qed

subsection \<open>Counts\<close>

text \<open>
  The count a guest reads lies between one and the programmed count in the periodic modes and below
  65536 in the others.
\<close>

theorem pit_count_bounds:
  assumes "chan_ok s" "times_ok s now"
  shows "if ch_mode s \<in> {0, 1, 4, 5} then 0 \<le> pit_get_count now s \<and> pit_get_count now s < 65536
    else 1 \<le> pit_get_count now s \<and> pit_get_count now s \<le> ch_count s"
proof -
  let ?c = "ch_count s" and ?d = "elapsed s now"
  have c: "0 \<le> ?c" "?c < 2 ^ 63" "0 < ?c" using assms(1) by (auto simp: chan_ok_def)
  have d: "0 \<le> ?d" "?d < 2 ^ 51" using elapsed_bounds [OF assms(2)] by auto
  have sub: "uint (word_of_int ?c - word_of_int x mod word_of_int ?c :: u64) = ?c - x mod ?c" if "0 \<le> x" "x < 2 ^ 63" for x
  proof -
    have "0 \<le> x mod ?c" "x mod ?c < ?c" using c by simp_all
    then have "0 \<le> ?c - x mod ?c" "?c - x mod ?c < 2 ^ 63" using c by linarith+
    then show ?thesis by (simp only: w64_simps(4) [OF that c(1,2)] wi_hom_sub w64_uint)
  qed
  have two: "(2 :: u64) * word_of_int ?d = word_of_int (2 * ?d)" by simp
  have "0 \<le> 2 * ?d" "2 * ?d < 2 ^ 63" using d by auto
  then have m3: "uint (word_of_int ?c - 2 * word_of_int ?d mod word_of_int ?c :: u64) = ?c - 2 * ?d mod ?c"
    unfolding two by (rule sub)
  have mk: "uint ((x :: u64) AND 0xffff) < 65536" for x
    using AND_upper2 [of "0xffff" "uint x"] by (simp add: unsigned_and_eq)
  have r: "0 \<le> y mod ?c \<and> y mod ?c < ?c" for y using c by simp
  show ?thesis
  proof (cases "ch_mode s \<in> {0, 1, 4, 5}")
    case True
    then have "pit_get_count now s = uint ((word_of_int ?c - word_of_int ?d :: u64) AND 0xffff)"
      unfolding pit_get_count_def Let_def pit_ticks_elapsed [OF assms(2)] by auto
    then show ?thesis using True mk by simp
  next
    case False
    then have "pit_get_count now s = (if ch_mode s = 3 then ?c - 2 * ?d mod ?c else ?c - ?d mod ?c)"
      unfolding pit_get_count_def Let_def pit_ticks_elapsed [OF assms(2)] using m3 sub [of ?d] d by auto
    moreover have "1 \<le> ?c - y mod ?c \<and> ?c - y mod ?c \<le> ?c" for y using r [of y] by linarith
    ultimately show ?thesis using False by simp
  qed
qed

subsection \<open>Reachable states\<close>

inductive pit_step :: "'w qemu_irq \<Rightarrow> pit \<times> 'w \<Rightarrow> pit \<times> 'w \<Rightarrow> bool" for out :: "'w qemu_irq" where
  Write: "pit_step out pw (pit_ioport_write out now addr val pw)"
| Read: "pit_step out (p, w) (snd (pit_ioport_read now addr p), w)"
| Gate: "channel < 3 \<Longrightarrow> pit_step out pw (pit_set_gate out now channel val pw)"
| Expire: "irq_timer (fst pw ! 0) = Some (Some t) \<Longrightarrow> pit_step out pw (on_channel 0 (pit_irq_timer out) pw)"
| Control: "pit_step out pw (pit_irq_control out now enable pw)"
| Reset: "0 \<le> now \<Longrightarrow> now < 2 ^ 60 \<Longrightarrow> pit_step out (p, w) (pit_reset now p, w)"

text \<open>What holds of one channel: \<open>armed\<close> says whether it is the one with the timer.\<close>

definition channel_inv :: "bool \<Rightarrow> PITChannelState \<Rightarrow> bool" where
  "channel_inv armed s \<longleftrightarrow> chan_ok s \<and> irq_timer s = (if \<not> armed then None
     else Some (if irq_disabled s \<or> next_transition_time s = -1 then None else Some (next_transition_time s)))"

lemma channel_inv_update: "channel_inv a s \<Longrightarrow> channel_inv a (fst (pit_irq_timer_update out t (s, w)))"
  by (auto simp: channel_inv_def pit_irq_timer_update_def chan_ok_def Let_def split: if_splits)

lemma channel_inv_upd [intro]:
  "channel_inv a s \<Longrightarrow> channel_inv a (s\<lparr>latched_count := v0\<rparr>)"
  "channel_inv a s \<Longrightarrow> channel_inv a (s\<lparr>count_latched := v1\<rparr>)"
  "channel_inv a s \<Longrightarrow> channel_inv a (s\<lparr>status_latched := v2\<rparr>)"
  "channel_inv a s \<Longrightarrow> channel_inv a (s\<lparr>ch_status := v3\<rparr>)"
  "channel_inv a s \<Longrightarrow> channel_inv a (s\<lparr>read_state := v4\<rparr>)"
  "channel_inv a s \<Longrightarrow> channel_inv a (s\<lparr>write_state := v5\<rparr>)"
  "channel_inv a s \<Longrightarrow> channel_inv a (s\<lparr>write_latch := v6\<rparr>)"
  "channel_inv a s \<Longrightarrow> channel_inv a (s\<lparr>rw_mode := v7\<rparr>)"
  "channel_inv a s \<Longrightarrow> channel_inv a (s\<lparr>ch_mode := v8\<rparr>)"
  "channel_inv a s \<Longrightarrow> channel_inv a (s\<lparr>bcd := v9\<rparr>)"
  "channel_inv a s \<Longrightarrow> channel_inv a (s\<lparr>gate := v10\<rparr>)"
  "channel_inv a s \<Longrightarrow> channel_inv a (s\<lparr>count_load_time := v11\<rparr>)"
  "channel_inv a s \<Longrightarrow> 1 \<le> c \<Longrightarrow> c \<le> 65536 \<Longrightarrow> channel_inv a (s\<lparr>ch_count := c\<rparr>)"
  by (simp_all add: channel_inv_def chan_ok_def)

lemma channel_inv_load:
  assumes "channel_inv a s" "0 \<le> v" "v < 65536"
  shows "channel_inv a (fst (pit_load_count out now v (s, w)))"
  using assms by (auto simp: pit_load_count_def Let_def intro!: channel_inv_update channel_inv_upd)

lemma channel_inv_ops:
  assumes "channel_inv a s"
  shows "channel_inv a (fst (pit_write_counter out now v (s, w)))"
    "channel_inv a (pit_control now v s)" "channel_inv a (pit_read_back now v i s)"
    "channel_inv a (snd (pit_read_counter now s))" "channel_inv a (fst (pit_set_channel_gate out now g (s, w)))"
proof -
  have latch: "channel_inv a (pit_latch_count now s)"
    using assms by (auto simp: pit_latch_count_def intro!: channel_inv_upd)
  have u: "0 \<le> uint x \<and> uint x < 256" for x :: u8 using unsigned_less [of x, where ?'a = int] by simp
  have "0 \<le> uint v * 256" "uint v * 256 < 65536" "0 \<le> uint (write_latch s) + uint v * 256"
    "uint (write_latch s) + uint v * 256 < 65536" "0 \<le> uint v" "uint v < 65536" using u [of v] u [of "write_latch s"] by auto
  note loads = channel_inv_load [OF assms this(1,2)] channel_inv_load [OF assms this(3,4)] channel_inv_load [OF assms this(5,6)]
  show "channel_inv a (fst (pit_write_counter out now v (s, w)))"
    using loads [of out now w] assms by (auto simp: pit_write_counter_def Let_def split: prod.split intro!: channel_inv_upd)
  show "channel_inv a (pit_control now v s)"
    using assms latch by (auto simp: pit_control_def Let_def intro!: channel_inv_upd)
  show "channel_inv a (pit_read_back now v i s)"
    using assms latch by (auto simp: pit_read_back_def Let_def intro!: channel_inv_upd)
  show "channel_inv a (snd (pit_read_counter now s))"
    using assms by (auto simp: pit_read_counter_def Let_def intro!: channel_inv_upd)
  show "channel_inv a (fst (pit_set_channel_gate out now g (s, w)))"
    using assms channel_inv_update [OF channel_inv_upd(12) [OF assms], of out now now w]
    by (auto simp: pit_set_channel_gate_def Let_def split: prod.split intro!: channel_inv_upd)
qed

definition pit_inv :: "pit \<times> 'w \<Rightarrow> bool" where
  "pit_inv pw \<longleftrightarrow> length (fst pw) = 3 \<and> (\<forall>i < 3. channel_inv (i = 0) (fst pw ! i))"

lemma pit_inv_channel:
  assumes "pit_inv pw" "i < 3" "\<And>s w. channel_inv (i = 0) s \<Longrightarrow> channel_inv (i = 0) (fst (f (s, w)))"
  shows "pit_inv (on_channel i f pw)"
proof -
  have "channel_inv (i = 0) (fst (f (fst pw ! i, snd pw)))" using assms by (simp add: pit_inv_def)
  moreover have "fst (on_channel i f pw) = (fst pw)[i := fst (f (fst pw ! i, snd pw))]"
    by (simp add: on_channel_def split: prod.split)
  ultimately show ?thesis using assms(1,2) by (auto simp: pit_inv_def nth_list_update)
qed

lemma port_addr: "unat (addr AND 3 :: u64) < 4"
proof -
  have "uint (addr AND 3) < 4" using AND_upper2 [of 3 "uint addr"] by (simp add: unsigned_and_eq)
  then have "int (unat (addr AND 3)) < 4" by simp
  then show ?thesis by linarith
qed

lemma pit_inv_write: assumes "pit_inv pw" shows "pit_inv (pit_ioport_write out now addr val pw)"
proof -
  let ?f = "\<lambda>i. on_channel i (\<lambda>(s, w). (pit_read_back now val i s, w))"
  have rb: "pit_inv (?f i pw)" if "pit_inv pw" "i < 3" for i pw
    by (rule pit_inv_channel [OF that]) (simp add: channel_inv_ops)
  have "unat (drop_bit 6 val) = unat val div 64" by (subst unat_drop_bit_eq) (simp add: drop_bit_eq_div)
  moreover have "unat val div 64 < 4"
    by (rule less_mult_imp_div_less) (use unsigned_less [of val, where ?'a = nat] in simp)
  ultimately have "unat (drop_bit 6 val) < 4" by simp
  then show ?thesis
    using assms port_addr [of addr] rb by (auto simp: pit_ioport_write_def Let_def intro!: pit_inv_channel channel_inv_ops)
qed

lemma reset_channel_inv:
  assumes "0 \<le> now" "now < 2 ^ 60"
  shows "chan_ok (pit_reset_channel now i s)" "irq_timer (pit_reset_channel now i s) = irq_timer s"
    "irq_disabled (pit_reset_channel now i s) = irq_disabled s"
    "\<not> irq_disabled s \<Longrightarrow> next_transition_time (pit_reset_channel now 0 s) \<noteq> -1"
    "irq_disabled s \<or> i \<noteq> 0 \<Longrightarrow> next_transition_time (pit_reset_channel now i s) = next_transition_time s"
proof -
  let ?s = "s\<lparr>ch_count := 0x10000, ch_mode := 3, gate := 1, count_load_time := now\<rparr>"
  have "times_ok ?s now" "chan_ok ?s" using assms by (auto simp: times_ok_def chan_ok_def)
  from pit_next_time [OF this] assms have "pit_get_next_transition_time ?s now \<noteq> -1"
    by (auto simp: tick_next_def Let_def split: option.splits)
  then show "\<not> irq_disabled s \<Longrightarrow> next_transition_time (pit_reset_channel now 0 s) \<noteq> -1"
    by (simp add: pit_reset_channel_def Let_def)
qed (auto simp: pit_reset_channel_def chan_ok_def Let_def)

lemma pit_reset_inv:
  assumes "length p = 3" "\<And>i. i < 3 \<Longrightarrow> irq_timer (p ! i) = None \<longleftrightarrow> i \<noteq> 0"
    and "irq_disabled (p ! 0) \<Longrightarrow> irq_timer (p ! 0) = Some None" "0 \<le> now" "now < 2 ^ 60"
  shows "pit_inv (pit_reset now p, w)"
proof -
  note ch = reset_channel_inv [OF assms(4,5)]
  obtain a b c where p: "p = [a, b, c]" using assms(1) by (auto simp: length_Suc_conv numeral_3_eq_3)
  have common: "pit_reset_common now [a, b, c] = [pit_reset_channel now 0 a, pit_reset_channel now 1 b, pit_reset_channel now 2 c]"
    by (simp add: pit_reset_common_def)
  have none: "irq_timer b = None" "irq_timer c = None" "irq_timer a \<noteq> None"
    using assms(2) [of 0] assms(2) [of 1] assms(2) [of 2] by (auto simp: p)
  have i: "i < 3 \<longleftrightarrow> i = 0 \<or> i = 1 \<or> i = 2" for i :: nat by auto
  show ?thesis
  proof (cases "irq_disabled a")
    case True
    then have "irq_timer a = Some None" using assms(3) by (simp add: p)
    then show ?thesis using True none
      by (auto simp: pit_inv_def pit_reset_def common p Let_def channel_inv_def i ch)
  next
    case False
    have "chan_ok ((pit_reset_channel now 0 a)\<lparr>irq_timer := x\<rparr>)" for x using ch(1) [of 0 a] by (simp add: chan_ok_def)
    then show ?thesis using False none
      by (auto simp: pit_inv_def pit_reset_def common p Let_def channel_inv_def i ch)
  qed
qed

lemma pit_inv_init: "0 \<le> now \<Longrightarrow> now < 2 ^ 60 \<Longrightarrow> pit_inv (pit_init now, w)"
  unfolding pit_init_def
  by (rule pit_reset_inv) (auto simp: pit_realizefn_def pit_channel_zero_def nth_list_update nth_replicate)

text \<open>
  In every state the timer can reach, the counts lie between 1 and 65536, so that no remainder is taken
  by zero, and channel 0's timer is pending exactly for the transition computed last, unless the
  HPET has disabled it or there is none.
\<close>

theorem pit_counts_never_zero:
  assumes "(pit_step out)\<^sup>*\<^sup>* (pit_init t0, w0) (p, w)" "0 \<le> t0" "t0 < 2 ^ 60"
  shows "length p = 3 \<and> (\<forall>s \<in> set p. 1 \<le> ch_count s \<and> ch_count s \<le> 65536)
    \<and> irq_timer (p ! 0) = Some (if irq_disabled (p ! 0) \<or> next_transition_time (p ! 0) = -1 then None
                                else Some (next_transition_time (p ! 0)))"
proof -
  have step: "pit_inv pw'" if "pit_step out pw pw'" "pit_inv pw" for pw pw'
    using that(1)
  proof cases
    case (Write now addr val)
    then show ?thesis using pit_inv_write [OF that(2)] by simp
  next
    case (Read p w now addr)
    have "pit_inv (on_channel (unat (addr AND 3)) (\<lambda>(s, w). (snd (pit_read_counter now s), w)) pw)" if "unat (addr AND 3) < 3"
      by (rule pit_inv_channel [OF \<open>pit_inv pw\<close> that]) (simp add: channel_inv_ops)
    then show ?thesis
      using that(2) Read port_addr [of addr] by (auto simp: pit_ioport_read_def on_channel_def Let_def split: prod.splits)
  next
    case (Gate channel now val)
    then show ?thesis using that(2) by (auto simp: pit_set_gate_def intro!: pit_inv_channel channel_inv_ops)
  next
    case (Expire t)
    then show ?thesis using that(2) by (auto simp: pit_irq_timer_def intro!: pit_inv_channel channel_inv_update)
  next
    case (Control now enable)
    have "channel_inv True (fst (if enable then pit_irq_timer_update out now (s\<lparr>irq_disabled := False\<rparr>, w)
        else (s\<lparr>irq_timer := Some None, irq_disabled := True\<rparr>, w)))" if "channel_inv True s" for s w
      using that by (auto simp: channel_inv_def chan_ok_def pit_irq_timer_update_def Let_def split: if_splits)
    then show ?thesis using that(2) Control by (auto simp: pit_irq_control_def intro!: pit_inv_channel)
  next
    case (Reset now p w)
    then show ?thesis using that(2) pit_reset_inv [of p now w] by (auto simp: pit_inv_def channel_inv_def split: if_splits)
  qed
  from assms(1) have "pit_inv (p, w)"
    by (induction "(p, w)" arbitrary: p w rule: rtranclp_induct) (use pit_inv_init assms step in auto)
  then show ?thesis
    by (auto simp: pit_inv_def channel_inv_def chan_ok_def in_set_conv_nth)
qed

subsection \<open>Latched counts\<close>

definition latch_of :: "PITChannelState \<Rightarrow> u16 \<times> u8 \<times> u8" where
  "latch_of s = (latched_count s, count_latched s, status_latched s)"

lemma latch_kept:
  "latch_of (fst (pit_irq_timer_update out t (s, w))) = latch_of s"
  "latch_of (fst (pit_write_counter out t v (s, w))) = latch_of s"
  "latch_of (fst (pit_set_channel_gate out t g (s, w))) = latch_of s"
  "latch_of (pit_reset_channel t i s) = latch_of s"
  "count_latched s \<noteq> 0 \<Longrightarrow> latch_of (pit_control t v s) = latch_of s"
  "count_latched s \<noteq> 0 \<Longrightarrow> \<not> (v AND 0x10 = 0 \<and> v AND push_bit i 2 \<noteq> 0) \<Longrightarrow> latch_of (pit_read_back t v i s) = latch_of s"
proof -
  have upd: "latch_of (fst (pit_irq_timer_update out t (s, w))) = latch_of s" for s w
    by (simp add: pit_irq_timer_update_def latch_of_def Let_def)
  have load: "latch_of (fst (pit_load_count out t v (s, w))) = latch_of s" for v
    by (simp add: pit_load_count_def Let_def upd) (simp add: latch_of_def)
  have frame: "latch_of (s\<lparr>write_state := x\<rparr>) = latch_of s" "latch_of (s\<lparr>write_latch := y\<rparr>) = latch_of s"
    "latch_of (s\<lparr>gate := z\<rparr>) = latch_of s" "latch_of (s\<lparr>count_load_time := q\<rparr>) = latch_of s" for s x y z q
    by (simp_all add: latch_of_def)
  show "latch_of (fst (pit_irq_timer_update out t (s, w))) = latch_of s" by (rule upd)
  show "latch_of (fst (pit_write_counter out t v (s, w))) = latch_of s"
    by (simp add: pit_write_counter_def Let_def load case_prod_unfold frame)
  show "latch_of (fst (pit_set_channel_gate out t g (s, w))) = latch_of s"
    by (simp add: pit_set_channel_gate_def Let_def case_prod_unfold frame upd)
  show "latch_of (pit_reset_channel t i s) = latch_of s" by (simp add: pit_reset_channel_def latch_of_def Let_def)
  show "count_latched s \<noteq> 0 \<Longrightarrow> latch_of (pit_control t v s) = latch_of s"
    by (simp add: pit_control_def pit_latch_count_def latch_of_def Let_def)
  show "count_latched s \<noteq> 0 \<Longrightarrow> \<not> (v AND 0x10 = 0 \<and> v AND push_bit i 2 \<noteq> 0) \<Longrightarrow> latch_of (pit_read_back t v i s) = latch_of s"
    by (auto simp: pit_read_back_def pit_latch_count_def latch_of_def Let_def)
qed

text \<open>
  Everything that can happen to the timer while channel \<open>c\<close> holds a latched count, apart from reading
  that channel's counter and from a read-back command that latches its status.
\<close>

inductive latch_step :: "nat \<Rightarrow> 'w qemu_irq \<Rightarrow> pit \<times> 'w \<Rightarrow> pit \<times> 'w \<Rightarrow> bool" for c and out :: "'w qemu_irq" where
  latch_write: "\<not> (unat (addr AND 3) = 3 \<and> unat (drop_bit 6 val) = 3 \<and> val AND 0x10 = 0 \<and> val AND push_bit c 2 \<noteq> 0)
    \<Longrightarrow> latch_step c out pw (pit_ioport_write out now addr val pw)"
| latch_read: "unat (addr AND 3) \<noteq> c \<Longrightarrow> latch_step c out (p, w) (snd (pit_ioport_read now addr p), w)"
| latch_gate: "latch_step c out pw (pit_set_gate out now channel val pw)"
| latch_expire: "latch_step c out pw (on_channel 0 (pit_irq_timer out) pw)"
| latch_control: "latch_step c out pw (pit_irq_control out now enable pw)"
| latch_reset: "latch_step c out (p, w) (pit_reset now p, w)"

definition holds_latch :: "nat \<Rightarrow> u16 \<times> u8 \<times> u8 \<Rightarrow> pit \<Rightarrow> bool" where
  "holds_latch c l p \<longleftrightarrow> length p = 3 \<and> c < 3 \<and> latch_of (p ! c) = l \<and> fst (snd l) \<noteq> 0"

lemma holds_latch_channel:
  assumes "holds_latch c l (fst pw)" "\<And>s w. i = c \<Longrightarrow> count_latched s \<noteq> 0 \<Longrightarrow> latch_of (fst (f (s, w))) = latch_of s"
  shows "holds_latch c l (fst (on_channel i f pw))"
proof -
  have "count_latched (fst pw ! c) \<noteq> 0" using assms(1) by (auto simp: holds_latch_def latch_of_def)
  with assms(2) have "i = c \<Longrightarrow> latch_of (fst (f (fst pw ! c, snd pw))) = l" using assms(1) by (simp add: holds_latch_def)
  moreover have "fst (on_channel i f pw) = (fst pw)[i := fst (f (fst pw ! i, snd pw))]"
    by (simp add: on_channel_def split: prod.split)
  ultimately show ?thesis using assms(1) by (cases "i = c") (auto simp: holds_latch_def)
qed

lemma holds_latch_write:
  assumes "holds_latch c l (fst pw)"
    and "\<not> (unat (addr AND 3) = 3 \<and> unat (drop_bit 6 val) = 3 \<and> val AND 0x10 = 0 \<and> val AND push_bit c 2 \<noteq> 0)"
  shows "holds_latch c l (fst (pit_ioport_write out now addr val pw))"
proof -
  have rb: "holds_latch c l (fst (on_channel i (\<lambda>(s, w). (pit_read_back now val i s, w)) pw))"
    if "holds_latch c l (fst pw)" "unat (addr AND 3) = 3" "unat (drop_bit 6 val) = 3" for i pw
    by (rule holds_latch_channel [OF that(1)]) (use assms(2) that(2,3) in \<open>auto simp: latch_kept\<close>)
  show ?thesis
  proof (cases "unat (addr AND 3) = 3 \<and> unat (drop_bit 6 val) = 3")
    case True
    then have port: "unat (addr AND 3) = 3" "unat (drop_bit 6 val) = 3" by auto
    show ?thesis unfolding pit_ioport_write_def Let_def port
      by (simp only: if_True fold.simps id_apply comp_apply rb [OF _ port] assms(1) refl)
  next
    case False
    then show ?thesis using assms(1)
      by (auto simp: pit_ioport_write_def Let_def latch_kept intro!: holds_latch_channel)
  qed
qed

lemma holds_latch_reset:
  assumes "holds_latch c l p"
  shows "holds_latch c l (pit_reset now p)"
proof -
  obtain x y z where p: "p = [x, y, z]" using assms by (auto simp: holds_latch_def length_Suc_conv numeral_3_eq_3)
  have common: "pit_reset_common now [x, y, z] = [pit_reset_channel now 0 x, pit_reset_channel now 1 y, pit_reset_channel now 2 z]"
    by (simp add: pit_reset_common_def)
  have "latch_of (s\<lparr>irq_timer := t\<rparr>) = latch_of s" for s t by (simp add: latch_of_def)
  moreover have "c < 3 \<longleftrightarrow> c = 0 \<or> c = 1 \<or> c = 2" by auto
  ultimately show ?thesis using assms by (auto simp: holds_latch_def pit_reset_def common p Let_def latch_kept)
qed

lemma holds_latch_step: "latch_step c out pw pw' \<Longrightarrow> holds_latch c l (fst pw) \<Longrightarrow> holds_latch c l (fst pw')"
proof (induction rule: latch_step.induct)
  case (latch_write addr val pw now)
  then show ?case by (intro holds_latch_write)
next
  case (latch_read addr p w now)
  then show ?case by (auto simp: pit_ioport_read_def holds_latch_def Let_def split: prod.splits)
next
  case (latch_control pw now enable)
  have "latch_of (s\<lparr>irq_timer := t, irq_disabled := b\<rparr>) = latch_of s" "latch_of (s\<lparr>irq_disabled := b\<rparr>) = latch_of s" for s t b
    by (simp_all add: latch_of_def)
  then show ?case using latch_control by (auto simp: pit_irq_control_def latch_kept intro!: holds_latch_channel)
qed (auto simp: pit_set_gate_def pit_irq_timer_def latch_kept holds_latch_reset intro!: holds_latch_channel)

lemma holds_latch_run: "(latch_step c out)\<^sup>*\<^sup>* pw pw' \<Longrightarrow> holds_latch c l (fst pw) \<Longrightarrow> holds_latch c l (fst pw')"
  by (induction rule: rtranclp_induct) (auto intro: holds_latch_step)

lemma channel_port: "c < 3 \<Longrightarrow> unat ((word_of_nat c :: u64) AND 3) = c"
  and channel_command: "c < 3 \<Longrightarrow> unat (drop_bit 6 (push_bit 6 (word_of_nat c) :: u8)) = c"
    "c < 3 \<Longrightarrow> drop_bit 4 (push_bit 6 (word_of_nat c) :: u8) AND 3 = 0"
proof -
  have c: "c < 3 \<Longrightarrow> c = 0 \<or> c = 1 \<or> c = 2" by auto
  show "c < 3 \<Longrightarrow> unat ((word_of_nat c :: u64) AND 3) = c" by (drule c) auto
  show "c < 3 \<Longrightarrow> unat (drop_bit 6 (push_bit 6 (word_of_nat c) :: u8)) = c" by (drule c) auto
  show "c < 3 \<Longrightarrow> drop_bit 4 (push_bit 6 (word_of_nat c) :: u8) AND 3 = 0" by (drule c) auto
qed

text \<open>
  C33. A guest that latches the counter of a channel reads that count back.  Let the channel be in word mode with neither a count nor
  a status latched already, and let the guest write the latch command to port 3 at time \<open>t0\<close> and later read the
  channel's port twice.  Before the first and between the two reads anything may happen to the timer: time passes, counts are loaded and modes set, this
  channel's included, further latch commands are given, other channels are read, gates change, the interrupt timer
  expires, the HPET takes over, the timer is reset; only the channel's status is not latched.  Then the two bytes are the low
  and the high byte of the count at \<open>t0\<close>, and the latch is free again.
\<close>

theorem latched_count_read_back:
  assumes "length p = 3" "c < 3" "rw_mode (p ! c) = RW_STATE_WORD0" "count_latched (p ! c) = 0" "status_latched (p ! c) = 0"
    and "(latch_step c out)\<^sup>*\<^sup>* (pit_ioport_write out t0 3 (push_bit 6 (word_of_nat c)) (p, w)) (p1, w1)"
    and "pit_ioport_read t1 (word_of_nat c) p1 = (lo, p2)" "(latch_step c out)\<^sup>*\<^sup>* (p2, w1) (p3, w3)"
    and "pit_ioport_read t2 (word_of_nat c) p3 = (hi, p4)"
  shows "lo + 256 * hi = pit_get_count t0 (p ! c) mod 65536 \<and> 0 \<le> lo \<and> lo < 256 \<and> count_latched (p4 ! c) = 0"
proof -
  let ?v = "word_of_int (pit_get_count t0 (p ! c)) :: u16"
  have a: "unat ((3 :: u64) AND 3) = 3" by simp
  have "holds_latch c (?v, RW_STATE_WORD0, 0) (fst (pit_ioport_write out t0 3 (push_bit 6 (word_of_nat c)) (p, w)))"
    using assms(1-5) channel_command [OF assms(2)]
    by (simp add: pit_ioport_write_def on_channel_def pit_control_def pit_latch_count_def holds_latch_def latch_of_def Let_def)
  from holds_latch_run [OF assms(6) this]
  have l1: "length p1 = 3" "latched_count (p1 ! c) = ?v" "count_latched (p1 ! c) = RW_STATE_WORD0" "status_latched (p1 ! c) = 0"
    by (auto simp: holds_latch_def latch_of_def)
  then have lo: "lo = uint ?v mod 256" "p2 = p1[c := (p1 ! c)\<lparr>count_latched := RW_STATE_MSB\<rparr>]"
    using assms(2,7) channel_port [OF assms(2)] by (auto simp: pit_ioport_read_def pit_read_counter_def Let_def)
  then have "holds_latch c (?v, RW_STATE_MSB, 0) p2" using l1 assms(2) by (simp add: holds_latch_def latch_of_def)
  with holds_latch_run [OF assms(8), of "(?v, RW_STATE_MSB, 0)"]
  have l3: "length p3 = 3" "latched_count (p3 ! c) = ?v" "count_latched (p3 ! c) = RW_STATE_MSB" "status_latched (p3 ! c) = 0"
    by (auto simp: holds_latch_def latch_of_def)
  then have hi: "hi = uint ?v div 256" "count_latched (p4 ! c) = 0"
    using assms(2,9) channel_port [OF assms(2)] by (auto simp: pit_ioport_read_def pit_read_counter_def Let_def)
  have "uint ?v = pit_get_count t0 (p ! c) mod 65536" by (simp add: uint_word_of_int)
  then show ?thesis using lo(1) hi by simp
qed

subsection \<open>Examples\<close>

definition rate2 :: PITChannelState where
  "rate2 = pit_channel_zero\<lparr>ch_count := 2, ch_mode := 2\<rparr>"

definition square :: PITChannelState where
  "square = pit_channel_zero\<lparr>ch_count := 65536, rw_mode := 3, ch_mode := 3\<rparr>"

lemma sample_channels: "chan_ok rate2" "chan_ok square" "ch_mode rate2 = 2" "ch_count rate2 = 2" "ch_mode square = 3"
  "times_ok rate2 0" "times_ok square 0" "times_ok square 1" "count_load_time rate2 = 0"
  by (simp_all add: rate2_def square_def pit_channel_zero_def chan_ok_def times_ok_def)

theorem next_transition_misses_no_edge_witness: "pit_get_out square 1 = pit_get_out square 0"
proof -
  have "1 < pit_get_next_transition_time square 0" by code_simp
  then show ?thesis
    using next_transition_misses_no_edge [OF sample_channels(2) _ sample_channels(7,8)] by (simp add: sample_channels)
qed

theorem rate_generator_toggles_witness: "pit_get_out rate2 (pit_get_next_transition_time rate2 0) = 1 - pit_get_out rate2 0"
proof (rule rate_generator_toggles [OF sample_channels(1,3) _ sample_channels(6), of 3])
  show "2 \<le> ch_count rate2" by (simp add: sample_channels)
  show "tick_next 2 (ch_count rate2) (elapsed rate2 0) = Some 3" by code_simp
  show "0 < count_load_time rate2 + tick_time 3" by code_simp
  show "times_ok rate2 (pit_get_next_transition_time rate2 0)" by code_simp
  show "\<not> 596591 dvd (3 :: int)" by simp
qed

theorem rate_generator_loses_tick_witness:
  "pit_get_out rate2 (pit_get_next_transition_time rate2 499998324) = 0"
proof (rule rate_generator_loses_tick [OF sample_channels(1,3), of _ 596591])
  show "2 \<le> ch_count rate2" by (simp add: sample_channels)
  show "times_ok rate2 499998324" "pit_get_out rate2 499998324 = 0" by code_simp+
  show "tick_next 2 (ch_count rate2) (elapsed rate2 499998324) = Some 596591" by code_simp
  show "499998324 < count_load_time rate2 + tick_time 596591" by code_simp
  show "times_ok rate2 (pit_get_next_transition_time rate2 499998324)" by code_simp
  show "596591 dvd (596591 :: int)" by simp
qed

theorem pit_count_bounds_witness: "1 \<le> pit_get_count 1 square \<and> pit_get_count 1 square \<le> 65536"
  using pit_count_bounds [OF sample_channels(2,8)] by (simp add: sample_channels square_def)

text \<open>Channel 2 is latched at time 1, its counter is loaded anew before the guest reads the latch.\<close>

theorem latched_count_read_back_witness:
  "\<exists>p1 p2 lo hi p4. pit_ioport_write pin 7 2 0x34 (pit_ioport_write pin 1 3 0x80 ([square, square, square], False)) = (p1, False)
    \<and> pit_ioport_read 500 2 p1 = (lo, p2) \<and> pit_ioport_read 900 2 p2 = (hi, p4)
    \<and> lo + 256 * hi = pit_get_count 1 square mod 65536 \<and> count_latched (p4 ! 2) = 0"
proof -
  let ?p = "[square, square, square]"
  have sq: "rw_mode square = 3" "count_latched square = 0" "status_latched square = 0"
    by (simp_all add: square_def pit_channel_zero_def)
  have cmd: "push_bit 6 (word_of_nat 2) = (0x80 :: u8)" "(word_of_nat 2 :: u64) = 2" by simp_all
  define pw where "pw = pit_ioport_write pin 7 2 0x34 (pit_ioport_write pin 1 3 0x80 (?p, False))"
  have off: "\<not> snd pw"
    by (simp add: pw_def pit_ioport_write_def on_channel_def pit_control_def pit_latch_count_def pit_write_counter_def pit_load_count_def
        pit_irq_timer_update_def Let_def sq) (simp add: square_def pit_channel_zero_def)
  obtain p1 where p1: "pw = (p1, False)" using off by (cases pw) auto
  have "latch_step 2 pin (pit_ioport_write pin 1 3 0x80 (?p, False)) pw" unfolding pw_def by (rule latch_write) simp
  then have run: "(latch_step 2 pin)\<^sup>*\<^sup>* (pit_ioport_write pin 1 3 (push_bit 6 (word_of_nat 2)) (?p, False)) (p1, False)"
    unfolding cmd p1 by (rule r_into_rtranclp)
  obtain lo p2 where lo: "pit_ioport_read 500 2 p1 = (lo, p2)" by (cases "pit_ioport_read 500 2 p1")
  obtain hi p4 where hi: "pit_ioport_read 900 2 p2 = (hi, p4)" by (cases "pit_ioport_read 900 2 p2")
  have "lo + 256 * hi = pit_get_count 1 square mod 65536 \<and> count_latched (p4 ! 2) = 0"
    using latched_count_read_back [OF _ _ _ _ _ run lo [folded cmd(2)] rtranclp.rtrancl_refl hi [folded cmd(2)]] sq by simp
  with p1 lo hi show ?thesis unfolding pw_def by blast
qed

theorem pit_counts_never_zero_witness:
  "list_all (\<lambda>s. 1 \<le> ch_count s \<and> ch_count s \<le> 65536) (pit_reset 7 (pit_init 0))"
proof -
  have "(pit_step pin)\<^sup>*\<^sup>* (pit_init 0, False) (pit_reset 7 (pit_init 0), False)"
    by (rule r_into_rtranclp) (rule pit_step.Reset, simp_all)
  from pit_counts_never_zero [OF this] show ?thesis by (simp add: list_all_iff)
qed

end
