(* ===== verification/Ps2.thy ===== *)
theory Ps2
  imports Input_Core
begin

text \<open>
  The PS/2 keyboard and mouse, src/Qemu-2.4.1/hw/input/ps2.c.  Each device has a ring of bytes for the
  host; \<^verbatim>\<open>update_irq\<close> with its argument is the handler \<open>upd\<close> with the state \<open>'w\<close> behind it, so an operation
  works on the pair of the device and that state.  The calls that only wake a suspended machine or
  light the LEDs of a display client are left out; \<open>ledstate\<close> keeps the value they are given.
\<close>

abbreviation PS2_QUEUE_SIZE :: int where "PS2_QUEUE_SIZE \<equiv> 16"

record PS2Queue =
  data :: "u8 list"
  rptr :: int
  wptr :: int
  count :: int

record PS2State =
  queue :: PS2Queue
  write_cmd :: int

record PS2KbdState =
  k_common :: PS2State
  scan_enabled :: bool
  translate :: bool
  scancode_set :: int
  ledstate :: int

record PS2MouseState =
  m_common :: PS2State
  mouse_status :: u8
  mouse_resolution :: u8
  mouse_sample_rate :: u8
  mouse_wrap :: u8
  mouse_type :: u8
  mouse_detect_state :: u8
  mouse_dx :: int
  mouse_dy :: int
  mouse_dz :: int
  mouse_buttons :: u8

definition ps2_raw_keycode :: "int list" where
  "ps2_raw_keycode = [
     0, 118, 22, 30, 38, 37, 46, 54, 61, 62, 70, 69, 78, 85, 102, 13,
     21, 29, 36, 45, 44, 53, 60, 67, 68, 77, 84, 91, 90, 20, 28, 27,
     35, 43, 52, 51, 59, 66, 75, 76, 82, 14, 18, 93, 26, 34, 33, 42,
     50, 49, 58, 65, 73, 74, 89, 124, 17, 41, 88, 5, 6, 4, 12, 3,
     11, 2, 10, 1, 9, 119, 126, 108, 117, 125, 123, 107, 115, 116, 121, 105,
     114, 122, 112, 113, 127, 96, 97, 120, 7, 15, 23, 31, 39, 47, 55, 63,
     71, 79, 86, 94, 8, 16, 24, 32, 40, 48, 56, 64, 72, 80, 87, 111,
     19, 25, 57, 81, 83, 92, 95, 98, 99, 100, 101, 103, 104, 106, 109, 110]"

definition ps2_raw_keycode_set3 :: "int list" where
  "ps2_raw_keycode_set3 = [
     0, 8, 22, 30, 38, 37, 46, 54, 61, 62, 70, 69, 78, 85, 102, 13,
     21, 29, 36, 45, 44, 53, 60, 67, 68, 77, 84, 91, 90, 17, 28, 27,
     35, 43, 52, 51, 59, 66, 75, 76, 82, 14, 18, 92, 26, 34, 33, 42,
     50, 49, 58, 65, 73, 74, 89, 126, 25, 41, 20, 7, 15, 23, 31, 39,
     47, 2, 63, 71, 79, 118, 95, 108, 117, 125, 132, 107, 115, 116, 124, 105,
     114, 122, 112, 113, 127, 96, 97, 86, 94, 15, 23, 31, 39, 47, 55, 63,
     71, 79, 86, 94, 8, 16, 24, 32, 40, 48, 56, 64, 72, 80, 87, 111,
     19, 25, 57, 81, 83, 92, 95, 98, 99, 100, 101, 103, 104, 106, 109, 110]"

subsection \<open>The byte queue\<close>

text \<open>Outside \<open>0 \<le> rptr, wptr < 16\<close> the C code reads and writes other memory; every operation keeps
  the pointers in that range, which is proved below.\<close>

definition ps2_queue :: "'w qemu_irq \<Rightarrow> int \<Rightarrow> PS2State \<times> 'w \<Rightarrow> PS2State \<times> 'w" where
  "ps2_queue upd b sw =
     (let (s, w) = sw; q = queue s
      in if count q \<ge> PS2_QUEUE_SIZE - 1 then (s, w)
         else let q1 = q\<lparr>data := (data q)[nat (wptr q) := word_of_int b]\<rparr>;
                  q2 = q1\<lparr>wptr := (if wptr q1 + 1 = PS2_QUEUE_SIZE then 0 else wptr q1 + 1)\<rparr>;
                  q3 = q2\<lparr>count := count q2 + 1\<rparr>
              in (s\<lparr>queue := q3\<rparr>, upd w 1))"

definition ps2_read_data :: "'w qemu_irq \<Rightarrow> PS2State \<times> 'w \<Rightarrow> u8 \<times> (PS2State \<times> 'w)" where
  "ps2_read_data upd sw =
     (let (s, w) = sw; q = queue s
      in if count q = 0 then
           let index = (if rptr q - 1 < 0 then PS2_QUEUE_SIZE - 1 else rptr q - 1)
           in (data q ! nat index, s, w)
         else
           let val = data q ! nat (rptr q);
               q1 = q\<lparr>rptr := (if rptr q + 1 = PS2_QUEUE_SIZE then 0 else rptr q + 1)\<rparr>;
               q2 = q1\<lparr>count := count q1 - 1\<rparr>
           in (val, s\<lparr>queue := q2\<rparr>, upd (upd w 0) (if count q2 \<noteq> 0 then 1 else 0)))"

definition ps2_common_reset :: "'w qemu_irq \<Rightarrow> PS2State \<times> 'w \<Rightarrow> PS2State \<times> 'w" where
  "ps2_common_reset upd sw =
     (let (s, w) = sw
      in (s\<lparr>write_cmd := - 1, queue := (queue s)\<lparr>rptr := 0, wptr := 0, count := 0\<rparr>\<rparr>, upd w 0))"

text \<open>
  \<^verbatim>\<open>ps2_common_post_load\<close>.  \<open>gather\<close> is its loop: \<open>n\<close> more elements go to the temporary array, the read
  pointer wraps at 256.  \<^verbatim>\<open>tmp_data\<close> is an array of 32-bit integers, and \<^verbatim>\<open>memcpy\<close> copies the first \<open>size\<close>
  bytes of it (\<open>int_bytes\<close>, little-endian).  A read pointer outside the array is a fault.
\<close>

fun gather :: "nat \<Rightarrow> u8 list \<Rightarrow> int \<Rightarrow> c_fault + int list" where
  "gather 0 d r = Inr []"
| "gather (Suc n) d r =
     (if 0 \<le> r \<and> r < 256
      then bindE (gather n d (if r + 1 = 256 then 0 else r + 1)) (\<lambda>tmp. Inr (uint (d ! nat r) # tmp))
      else Inl Buffer_Overrun)"

definition int_bytes :: "int \<Rightarrow> u8 list" where
  "int_bytes i = map (\<lambda>k. word_of_int (drop_bit (8 * k) i)) [0..<4]"

definition ps2_common_post_load :: "'w qemu_irq \<Rightarrow> PS2State \<times> 'w \<Rightarrow> c_fault + (PS2State \<times> 'w)" where
  "ps2_common_post_load upd sw =
     (let (s, w) = sw; q = queue s;
          sz = (if count q > PS2_QUEUE_SIZE then 0 else count q)
      in bindE (if sz > 0 then
                  bindE (gather (nat sz) (data q) (rptr q)) (\<lambda>tmp_data.
                    Inr (take (nat sz) (concat (map int_bytes tmp_data)) @ drop (nat sz) (data q)))
                else Inr (data q)) (\<lambda>d.
           let q' = q\<lparr>data := d, rptr := 0, wptr := sz, count := sz\<rparr>
           in Inr (s\<lparr>queue := q'\<rparr>, upd w (if count q' \<noteq> 0 then 1 else 0))))"

subsection \<open>The keyboard\<close>

definition on_kbd :: "(PS2State \<times> 'w \<Rightarrow> PS2State \<times> 'w) \<Rightarrow> PS2KbdState \<times> 'w \<Rightarrow> PS2KbdState \<times> 'w" where
  "on_kbd f kw = (let (c, w) = f (k_common (fst kw), snd kw) in ((fst kw)\<lparr>k_common := c\<rparr>, w))"

abbreviation kbd_reply :: "'w qemu_irq \<Rightarrow> int \<Rightarrow> PS2KbdState \<times> 'w \<Rightarrow> PS2KbdState \<times> 'w" where
  "kbd_reply upd b \<equiv> on_kbd (ps2_queue upd b)"

definition ps2_put_keycode :: "'w qemu_irq \<Rightarrow> int \<Rightarrow> PS2KbdState \<times> 'w \<Rightarrow> PS2KbdState \<times> 'w" where
  "ps2_put_keycode upd keycode kw =
     (let s = fst kw
      in if \<not> translate s \<and> keycode < 0xe0 \<and> scancode_set s > 1 then
           let kw1 = (if keycode AND 0x80 \<noteq> 0 then kbd_reply upd 0xf0 kw else kw);
               keycode1 = (if scancode_set s = 2 then ps2_raw_keycode ! nat (keycode AND 0x7f)
                           else if scancode_set s = 3 then ps2_raw_keycode_set3 ! nat (keycode AND 0x7f)
                           else keycode)
           in kbd_reply upd keycode1 kw1
         else kbd_reply upd keycode kw)"

fun ps2_keyboard_event :: "'w qemu_irq \<Rightarrow> InputEvent \<Rightarrow> PS2KbdState \<times> 'w \<Rightarrow> PS2KbdState \<times> 'w" where
  "ps2_keyboard_event upd (INPUT_EVENT_KIND_KEY key down) kw =
     fold (ps2_put_keycode upd) (qemu_input_key_value_to_scancode key down) kw"
| "ps2_keyboard_event upd _ kw = kw"

definition ps2_set_ledstate :: "int \<Rightarrow> PS2KbdState \<Rightarrow> PS2KbdState" where
  "ps2_set_ledstate l s = s\<lparr>ledstate := l\<rparr>"

definition ps2_reset_keyboard :: "PS2KbdState \<Rightarrow> PS2KbdState" where
  "ps2_reset_keyboard s = ps2_set_ledstate 0 (s\<lparr>scan_enabled := True, scancode_set := 2\<rparr>)"

definition set_write_cmd :: "int \<Rightarrow> PS2KbdState \<times> 'w \<Rightarrow> PS2KbdState \<times> 'w" where
  "set_write_cmd c kw = (let (s, w) = kw in (s\<lparr>k_common := (k_common s)\<lparr>write_cmd := c\<rparr>\<rparr>, w))"

text \<open>The first byte of a command, when no argument is awaited.\<close>

definition ps2_kbd_command :: "'w qemu_irq \<Rightarrow> int \<Rightarrow> PS2KbdState \<times> 'w \<Rightarrow> PS2KbdState \<times> 'w" where
  "ps2_kbd_command upd val kw =
     (let (s, w) = kw
      in if val = 0x00 then kbd_reply upd 0xfa kw
         else if val = 0x05 then kbd_reply upd 0xfe kw
         else if val = 0xf2 then
           kbd_reply upd (if translate s then 0x41 else 0x83) (kbd_reply upd 0xab (kbd_reply upd 0xfa kw))
         else if val = 0xee then kbd_reply upd 0xee kw
         else if val = 0xf4 then kbd_reply upd 0xfa (s\<lparr>scan_enabled := True\<rparr>, w)
         else if val = 0xf0 \<or> val = 0xed \<or> val = 0xf3 then kbd_reply upd 0xfa (set_write_cmd val kw)
         else if val = 0xf5 then
           kbd_reply upd 0xfa ((ps2_reset_keyboard s)\<lparr>scan_enabled := False\<rparr>, w)
         else if val = 0xf6 then
           kbd_reply upd 0xfa ((ps2_reset_keyboard s)\<lparr>scan_enabled := True\<rparr>, w)
         else if val = 0xff then
           kbd_reply upd 0xaa (kbd_reply upd 0xfa (ps2_reset_keyboard s, w))
         else kbd_reply upd 0xfa kw)"

definition ps2_write_keyboard :: "'w qemu_irq \<Rightarrow> int \<Rightarrow> PS2KbdState \<times> 'w \<Rightarrow> PS2KbdState \<times> 'w" where
  "ps2_write_keyboard upd val kw =
     (let (s, w) = kw; cmd = write_cmd (k_common s)
      in if cmd = 0xf0 then
           set_write_cmd (- 1)
             (if val = 0 then
                if scancode_set s = 1 then ps2_put_keycode upd 0x43 kw
                else if scancode_set s = 2 then ps2_put_keycode upd 0x41 kw
                else if scancode_set s = 3 then ps2_put_keycode upd 0x3f kw
                else kw
              else kbd_reply upd 0xfa
                     (if val \<ge> 1 \<and> val \<le> 3 then s\<lparr>scancode_set := val\<rparr> else s, w))
         else if cmd = 0xed then
           set_write_cmd (- 1) (kbd_reply upd 0xfa (ps2_set_ledstate val s, w))
         else if cmd = 0xf3 then set_write_cmd (- 1) (kbd_reply upd 0xfa kw)
         else ps2_kbd_command upd val kw)"

definition ps2_keyboard_set_translation :: "bool \<Rightarrow> PS2KbdState \<Rightarrow> PS2KbdState" where
  "ps2_keyboard_set_translation mode s = s\<lparr>translate := mode\<rparr>"

definition ps2_kbd_reset :: "'w qemu_irq \<Rightarrow> PS2KbdState \<times> 'w \<Rightarrow> PS2KbdState \<times> 'w" where
  "ps2_kbd_reset upd kw =
     (let (s, w) = on_kbd (ps2_common_reset upd) kw
      in (s\<lparr>scan_enabled := False, translate := False, scancode_set := 0\<rparr>, w))"

definition ps2_keyboard_ledstate_needed :: "PS2KbdState \<Rightarrow> bool" where
  "ps2_keyboard_ledstate_needed s \<longleftrightarrow> ledstate s \<noteq> 0"

definition ps2_kbd_post_load ::
  "'w qemu_irq \<Rightarrow> int \<Rightarrow> PS2KbdState \<times> 'w \<Rightarrow> c_fault + (PS2KbdState \<times> 'w)" where
  "ps2_kbd_post_load upd version_id kw =
     (let (s, w) = kw; s1 = (if version_id = 2 then s\<lparr>scancode_set := 2\<rparr> else s)
      in bindE (ps2_common_post_load upd (k_common s1, w)) (\<lambda>(c, w'). Inr (s1\<lparr>k_common := c\<rparr>, w')))"

definition ps2_kbd_pre_save :: "'w qemu_irq \<Rightarrow> PS2KbdState \<times> 'w \<Rightarrow> c_fault + (PS2KbdState \<times> 'w)" where
  "ps2_kbd_pre_save upd kw =
     (let (s, w) = kw
      in bindE (ps2_common_post_load upd (k_common s, w)) (\<lambda>(c, w'). Inr (s\<lparr>k_common := c\<rparr>, w')))"

definition empty_queue :: PS2Queue where
  "empty_queue = \<lparr>data = replicate 256 0, rptr = 0, wptr = 0, count = 0\<rparr>"

definition ps2_kbd_init :: PS2KbdState where
  "ps2_kbd_init = \<lparr>k_common = \<lparr>queue = empty_queue, write_cmd = 0\<rparr>, scan_enabled = False,
     translate = False, scancode_set = 2, ledstate = 0\<rparr>"

subsection \<open>The mouse\<close>

abbreviation MOUSE_STATUS_REMOTE :: u8 where "MOUSE_STATUS_REMOTE \<equiv> 0x40"
abbreviation MOUSE_STATUS_ENABLED :: u8 where "MOUSE_STATUS_ENABLED \<equiv> 0x20"
abbreviation MOUSE_STATUS_SCALE21 :: u8 where "MOUSE_STATUS_SCALE21 \<equiv> 0x10"

definition on_mouse :: "(PS2State \<times> 'w \<Rightarrow> PS2State \<times> 'w) \<Rightarrow> PS2MouseState \<times> 'w \<Rightarrow> PS2MouseState \<times> 'w" where
  "on_mouse f mw = (let (c, w) = f (m_common (fst mw), snd mw) in ((fst mw)\<lparr>m_common := c\<rparr>, w))"

abbreviation mouse_reply :: "'w qemu_irq \<Rightarrow> int \<Rightarrow> PS2MouseState \<times> 'w \<Rightarrow> PS2MouseState \<times> 'w" where
  "mouse_reply upd b \<equiv> on_mouse (ps2_queue upd b)"

definition clamp :: "int \<Rightarrow> int \<Rightarrow> int" where
  "clamp lim d = (if d > lim then lim else if d < - lim then - lim else d)"

text \<open>The deltas one packet carries; a plain PS/2 mouse has no wheel byte and drops \<open>dz\<close>.\<close>

definition packet_dz :: "PS2MouseState \<Rightarrow> int" where
  "packet_dz s = (if mouse_type s = 3 then clamp 127 (mouse_dz s)
                  else if mouse_type s = 4 then clamp 7 (mouse_dz s) else mouse_dz s)"

definition ps2_mouse_send_packet :: "'w qemu_irq \<Rightarrow> PS2MouseState \<times> 'w \<Rightarrow> PS2MouseState \<times> 'w" where
  "ps2_mouse_send_packet upd mw =
     (let s = fst mw;
          dx1 = clamp 127 (mouse_dx s);
          dy1 = clamp 127 (mouse_dy s);
          dz1 = packet_dz s;
          b = 0x08 OR (if dx1 < 0 then 0x10 else 0) OR (if dy1 < 0 then 0x20 else 0)
                OR uint (mouse_buttons s AND 0x07);
          mw1 = mouse_reply upd (dy1 AND 0xff) (mouse_reply upd (dx1 AND 0xff) (mouse_reply upd b mw));
          mw2 = (if mouse_type s = 3 then mouse_reply upd (dz1 AND 0xff) mw1
                 else if mouse_type s = 4
                 then mouse_reply upd ((dz1 AND 0x0f) OR push_bit 1 (uint (mouse_buttons s AND 0x18))) mw1
                 else mw1);
          (s2, w2) = mw2
      in (s2\<lparr>mouse_dx := mouse_dx s2 - dx1, mouse_dy := mouse_dy s2 - dy1,
             mouse_dz := mouse_dz s2 - dz1\<rparr>, w2))"

definition bmap :: "InputButton \<Rightarrow> u8" where
  "bmap btn = (case btn of INPUT_BUTTON_LEFT \<Rightarrow> 0x01 | INPUT_BUTTON_MIDDLE \<Rightarrow> 0x04
               | INPUT_BUTTON_RIGHT \<Rightarrow> 0x02 | _ \<Rightarrow> 0)"

fun ps2_mouse_event :: "InputEvent \<Rightarrow> PS2MouseState \<Rightarrow> PS2MouseState" where
  "ps2_mouse_event evt s =
     (if mouse_status s AND MOUSE_STATUS_ENABLED = 0 then s
      else case evt of
        INPUT_EVENT_KIND_REL axis val \<Rightarrow>
          (if axis = INPUT_AXIS_X then s\<lparr>mouse_dx := mouse_dx s + val\<rparr>
           else s\<lparr>mouse_dy := mouse_dy s - val\<rparr>)
      | INPUT_EVENT_KIND_BTN btn down \<Rightarrow>
          (if down then
             let s1 = s\<lparr>mouse_buttons := mouse_buttons s OR bmap btn\<rparr>
             in if btn = INPUT_BUTTON_WHEEL_UP then s1\<lparr>mouse_dz := mouse_dz s1 - 1\<rparr>
                else if btn = INPUT_BUTTON_WHEEL_DOWN then s1\<lparr>mouse_dz := mouse_dz s1 + 1\<rparr>
                else s1
           else s\<lparr>mouse_buttons := mouse_buttons s AND NOT (bmap btn)\<rparr>)
      | _ \<Rightarrow> s)"

definition mouse_count :: "PS2MouseState \<Rightarrow> int" where
  "mouse_count s = count (queue (m_common s))"

definition queue_count :: "PS2State \<times> 'w \<Rightarrow> int" where
  "queue_count sw = count (queue (fst sw))"

lemma count_ps2_queue:
  "queue_count (ps2_queue upd b sw) = (if queue_count sw \<ge> 15 then queue_count sw else queue_count sw + 1)"
  by (simp add: ps2_queue_def queue_count_def Let_def split: prod.split)

lemma count_mouse_reply:
  "mouse_count (fst (mouse_reply upd b mw)) =
     (if mouse_count (fst mw) \<ge> 15 then mouse_count (fst mw) else mouse_count (fst mw) + 1)"
  using count_ps2_queue [of upd b "(m_common (fst mw), snd mw)"]
  by (auto simp add: on_mouse_def mouse_count_def queue_count_def case_prod_unfold Let_def)

lemma mouse_reply_keeps [simp]:
  "mouse_type (fst (mouse_reply upd b mw)) = mouse_type (fst mw)"
  "mouse_dx (fst (mouse_reply upd b mw)) = mouse_dx (fst mw)"
  "mouse_dy (fst (mouse_reply upd b mw)) = mouse_dy (fst mw)"
  "mouse_dz (fst (mouse_reply upd b mw)) = mouse_dz (fst mw)"
  "mouse_status (fst (mouse_reply upd b mw)) = mouse_status (fst mw)"
  "mouse_buttons (fst (mouse_reply upd b mw)) = mouse_buttons (fst mw)"
  by (simp_all add: on_mouse_def split: prod.split)

lemma count_send_packet:
  assumes "mouse_count (fst mw) < 12"
  shows "mouse_count (fst (ps2_mouse_send_packet upd mw)) =
    mouse_count (fst mw) + (if mouse_type (fst mw) = 3 \<or> mouse_type (fst mw) = 4 then 4 else 3)"
proof -
  have "mouse_count (s\<lparr>mouse_dx := x, mouse_dy := y, mouse_dz := z\<rparr>) = mouse_count s" for s x y z
    by (simp add: mouse_count_def)
  then show ?thesis
    using assms by (simp add: ps2_mouse_send_packet_def Let_def case_prod_unfold count_mouse_reply)
qed

text \<open>The \<^verbatim>\<open>while\<close> loop of \<^verbatim>\<open>ps2_mouse_sync\<close>; every packet fills the queue further.\<close>

function mouse_sync_loop :: "'w qemu_irq \<Rightarrow> PS2MouseState \<times> 'w \<Rightarrow> PS2MouseState \<times> 'w" where
  "mouse_sync_loop upd mw =
     (if mouse_count (fst mw) < PS2_QUEUE_SIZE - 4 then
        let mw1 = ps2_mouse_send_packet upd mw; s = fst mw1
        in if mouse_dx s = 0 \<and> mouse_dy s = 0 \<and> mouse_dz s = 0 then mw1
           else mouse_sync_loop upd mw1
      else mw)"
  by pat_completeness auto
termination
  by (relation "measure (\<lambda>(upd, mw). nat (12 - mouse_count (fst mw)))") (auto simp: count_send_packet)

declare mouse_sync_loop.simps [simp del]

definition ps2_mouse_sync :: "'w qemu_irq \<Rightarrow> PS2MouseState \<times> 'w \<Rightarrow> PS2MouseState \<times> 'w" where
  "ps2_mouse_sync upd mw =
     (if mouse_status (fst mw) AND MOUSE_STATUS_REMOTE = 0 then mouse_sync_loop upd mw else mw)"

definition ps2_mouse_fake_event :: "'w qemu_irq \<Rightarrow> PS2MouseState \<times> 'w \<Rightarrow> PS2MouseState \<times> 'w" where
  "ps2_mouse_fake_event upd mw =
     ps2_mouse_sync upd ((fst mw)\<lparr>mouse_dx := mouse_dx (fst mw) + 1\<rparr>, snd mw)"

text \<open>A command byte, when no argument is awaited and wrap mode does not apply.\<close>

definition ps2_mouse_command :: "'w qemu_irq \<Rightarrow> int \<Rightarrow> PS2MouseState \<times> 'w \<Rightarrow> PS2MouseState \<times> 'w" where
  "ps2_mouse_command upd val mw =
     (let (s, w) = mw; ack = mouse_reply upd 0xfa
      in if val = 0xe6 then ack (s\<lparr>mouse_status := mouse_status s AND NOT MOUSE_STATUS_SCALE21\<rparr>, w)
         else if val = 0xe7 then ack (s\<lparr>mouse_status := mouse_status s OR MOUSE_STATUS_SCALE21\<rparr>, w)
         else if val = 0xea then ack (s\<lparr>mouse_status := mouse_status s AND NOT MOUSE_STATUS_REMOTE\<rparr>, w)
         else if val = 0xee then ack (s\<lparr>mouse_wrap := 1\<rparr>, w)
         else if val = 0xf0 then ack (s\<lparr>mouse_status := mouse_status s OR MOUSE_STATUS_REMOTE\<rparr>, w)
         else if val = 0xf2 then mouse_reply upd (uint (mouse_type s)) (ack mw)
         else if val = 0xe8 \<or> val = 0xf3 then
           ack (s\<lparr>m_common := (m_common s)\<lparr>write_cmd := val\<rparr>\<rparr>, w)
         else if val = 0xe9 then
           mouse_reply upd (uint (mouse_sample_rate s)) (mouse_reply upd (uint (mouse_resolution s))
             (mouse_reply upd (uint (mouse_status s)) (ack mw)))
         else if val = 0xeb then ps2_mouse_send_packet upd (ack mw)
         else if val = 0xf4 then ack (s\<lparr>mouse_status := mouse_status s OR MOUSE_STATUS_ENABLED\<rparr>, w)
         else if val = 0xf5 then ack (s\<lparr>mouse_status := mouse_status s AND NOT MOUSE_STATUS_ENABLED\<rparr>, w)
         else if val = 0xf6 then
           ack (s\<lparr>mouse_sample_rate := 100, mouse_resolution := 2, mouse_status := 0\<rparr>, w)
         else if val = 0xff then
           mouse_reply upd 0 (mouse_reply upd 0xaa
             (ack (s\<lparr>mouse_sample_rate := 100, mouse_resolution := 2, mouse_status := 0, mouse_type := 0\<rparr>, w)))
         else mw)"

definition mouse_detect :: "int \<Rightarrow> PS2MouseState \<Rightarrow> PS2MouseState" where
  "mouse_detect val s =
     (if mouse_detect_state s = 1 then
        s\<lparr>mouse_detect_state := (if val = 100 then 2 else if val = 200 then 3 else 0)\<rparr>
      else if mouse_detect_state s = 2 then
        s\<lparr>mouse_type := (if val = 80 then 3 else mouse_type s), mouse_detect_state := 0\<rparr>
      else if mouse_detect_state s = 3 then
        s\<lparr>mouse_type := (if val = 80 then 4 else mouse_type s), mouse_detect_state := 0\<rparr>
      else s\<lparr>mouse_detect_state := (if val = 200 then 1 else mouse_detect_state s)\<rparr>)"

definition end_mouse_cmd :: "PS2MouseState \<times> 'w \<Rightarrow> PS2MouseState \<times> 'w" where
  "end_mouse_cmd mw = (let (s, w) = mw in (s\<lparr>m_common := (m_common s)\<lparr>write_cmd := - 1\<rparr>\<rparr>, w))"

definition ps2_write_mouse :: "'w qemu_irq \<Rightarrow> int \<Rightarrow> PS2MouseState \<times> 'w \<Rightarrow> PS2MouseState \<times> 'w" where
  "ps2_write_mouse upd val mw =
     (let (s, w) = mw; cmd = write_cmd (m_common s)
      in if cmd = 0xf3 then
           end_mouse_cmd (mouse_reply upd 0xfa (mouse_detect val (s\<lparr>mouse_sample_rate := word_of_int val\<rparr>), w))
         else if cmd = 0xe8 then
           end_mouse_cmd (mouse_reply upd 0xfa (s\<lparr>mouse_resolution := word_of_int val\<rparr>, w))
         else if mouse_wrap s \<noteq> 0 \<and> val = 0xec then mouse_reply upd 0xfa (s\<lparr>mouse_wrap := 0\<rparr>, w)
         else if mouse_wrap s \<noteq> 0 \<and> val \<noteq> 0xff then mouse_reply upd val mw
         else ps2_mouse_command upd val mw)"

definition ps2_mouse_reset :: "'w qemu_irq \<Rightarrow> PS2MouseState \<times> 'w \<Rightarrow> PS2MouseState \<times> 'w" where
  "ps2_mouse_reset upd mw =
     (let (s, w) = on_mouse (ps2_common_reset upd) mw
      in (s\<lparr>mouse_status := 0, mouse_resolution := 0, mouse_sample_rate := 0, mouse_wrap := 0,
            mouse_type := 0, mouse_detect_state := 0, mouse_dx := 0, mouse_dy := 0, mouse_dz := 0,
            mouse_buttons := 0\<rparr>, w))"

definition ps2_mouse_post_load :: "'w qemu_irq \<Rightarrow> PS2MouseState \<times> 'w \<Rightarrow> c_fault + (PS2MouseState \<times> 'w)" where
  "ps2_mouse_post_load upd mw =
     (let (s, w) = mw
      in bindE (ps2_common_post_load upd (m_common s, w)) (\<lambda>(c, w'). Inr (s\<lparr>m_common := c\<rparr>, w')))"

definition ps2_mouse_pre_save :: "'w qemu_irq \<Rightarrow> PS2MouseState \<times> 'w \<Rightarrow> c_fault + (PS2MouseState \<times> 'w)" where
  "ps2_mouse_pre_save upd mw =
     (let (s, w) = mw
      in bindE (ps2_common_post_load upd (m_common s, w)) (\<lambda>(c, w'). Inr (s\<lparr>m_common := c\<rparr>, w')))"

definition ps2_mouse_init :: PS2MouseState where
  "ps2_mouse_init = \<lparr>m_common = \<lparr>queue = empty_queue, write_cmd = 0\<rparr>, mouse_status = 0,
     mouse_resolution = 0, mouse_sample_rate = 0, mouse_wrap = 0, mouse_type = 0,
     mouse_detect_state = 0, mouse_dx = 0, mouse_dy = 0, mouse_dz = 0, mouse_buttons = 0\<rparr>"

section \<open>The ring is a bounded queue\<close>

definition queue_ok :: "PS2Queue \<Rightarrow> bool" where
  "queue_ok q \<longleftrightarrow> length (data q) = 256 \<and> 0 \<le> rptr q \<and> rptr q < 16 \<and> 0 \<le> count q \<and> count q \<le> 15
     \<and> wptr q = (rptr q + count q) mod 16"

definition contents :: "PS2Queue \<Rightarrow> u8 list" where
  "contents q = map (\<lambda>i. data q ! nat ((rptr q + int i) mod 16)) [0..<nat (count q)]"

lemma length_contents [simp]: "length (contents q) = nat (count q)"
  by (simp add: contents_def)

lemma queue_ok_empty [simp]: "queue_ok empty_queue" "contents empty_queue = []"
  by (simp_all add: queue_ok_def empty_queue_def contents_def)

text \<open>The slot written next is none of the occupied ones.\<close>

lemma slot_free:
  fixes r c :: int
  assumes "0 \<le> i" "i < c" "c \<le> 15"
  shows "(r + i) mod 16 \<noteq> (r + c) mod 16"
proof
  assume "(r + i) mod 16 = (r + c) mod 16"
  then have "(16 :: int) dvd (r + c) - (r + i)" by (metis mod_eq_dvd_iff)
  then have "16 dvd c - i" by simp
  then show False using assms zdvd_imp_le [of 16 "c - i"] by auto
qed

definition queue_put :: "int \<Rightarrow> PS2Queue \<Rightarrow> PS2Queue" where
  "queue_put b q =
     (if count q \<ge> 15 then q
      else q\<lparr>data := (data q)[nat (wptr q) := word_of_int b],
             wptr := (if wptr q = 15 then 0 else wptr q + 1), count := count q + 1\<rparr>)"

lemma queue_put_step: "queue (fst (ps2_queue upd b sw)) = queue_put b (queue (fst sw))"
  by (cases sw) (simp add: ps2_queue_def queue_put_def Let_def)

lemma mod16_succ: "((x :: int) + 1) mod 16 = (if x mod 16 = 15 then 0 else x mod 16 + 1)"
proof -
  have "(x + 1) mod 16 = (x mod 16 + 1) mod 16" by (simp add: mod_add_left_eq)
  moreover have "0 \<le> x mod 16" "x mod 16 < 16" by simp_all
  ultimately show ?thesis by (auto intro: mod_pos_pos_trivial)
qed

lemma queue_ok_put: "queue_ok q \<Longrightarrow> queue_ok (queue_put b q)"
  using mod16_succ [of "rptr q + count q"] by (auto simp: queue_ok_def queue_put_def add.assoc)

lemma contents_put:
  assumes "queue_ok q"
  shows "contents (queue_put b q) = (if count q < 15 then contents q @ [word_of_int b] else contents q)"
proof (cases "count q < 15")
  case True
  let ?q = "queue_put b q" and ?d = "(data q)[nat (wptr q) := word_of_int b]"
  have w: "wptr q = (rptr q + count q) mod 16" "0 \<le> count q" "length (data q) = 256"
    using assms by (auto simp: queue_ok_def)
  have b: "nat ((rptr q + count q) mod 16) < 256"
    using pos_mod_bound [of 16 "rptr q + count q"] by simp
  have "?d ! nat ((rptr q + int i) mod 16) = data q ! nat ((rptr q + int i) mod 16)" if "i < nat (count q)" for i
  proof -
    have "(rptr q + int i) mod 16 \<noteq> (rptr q + count q) mod 16" using that True by (intro slot_free) auto
    then have "nat ((rptr q + int i) mod 16) \<noteq> nat ((rptr q + count q) mod 16)" by (simp add: eq_nat_nat_iff)
    then show ?thesis using w(1) by simp
  qed
  moreover have "?d ! nat ((rptr q + count q) mod 16) = word_of_int b" using w b by simp
  moreover have "nat (count q + 1) = Suc (nat (count q))" using w(2) by simp
  ultimately show ?thesis using True w(2) by (simp add: contents_def queue_put_def)
next
  case False
  then show ?thesis by (simp add: queue_put_def)
qed

definition queue_get :: "PS2Queue \<Rightarrow> PS2Queue" where
  "queue_get q = q\<lparr>rptr := (if rptr q = 15 then 0 else rptr q + 1), count := count q - 1\<rparr>"

lemma queue_get_step:
  "queue (fst (snd (ps2_read_data upd sw))) =
     (if count (queue (fst sw)) = 0 then queue (fst sw) else queue_get (queue (fst sw)))"
  by (cases sw) (simp add: ps2_read_data_def queue_get_def Let_def)

lemma mod16_wrap: "1 \<le> (c :: int) \<Longrightarrow> c \<le> 15 \<Longrightarrow> (15 + c) mod 16 = c - 1"
  using mod_add_self2 [of "c - 1" 16] by (simp add: algebra_simps)

lemma queue_ok_get: "queue_ok q \<Longrightarrow> count q \<noteq> 0 \<Longrightarrow> queue_ok (queue_get q)"
  by (auto simp: queue_ok_def queue_get_def mod16_wrap)

lemma contents_get:
  assumes "queue_ok q" "count q \<noteq> 0"
  shows "contents q = data q ! nat (rptr q) # contents (queue_get q)"
proof -
  have q: "0 \<le> rptr q" "rptr q < 16" "0 < count q" using assms by (auto simp: queue_ok_def)
  then have n: "nat (count q) = Suc (nat (count q - 1))" by simp
  have "(rptr q + int (Suc i)) mod 16 = (rptr (queue_get q) + int i) mod 16" for i
    using q by (simp add: queue_get_def algebra_simps)
  then show ?thesis
    using q by (simp add: contents_def n upt_conv_Cons map_Suc_upt [symmetric] del: upt_Suc map_Suc_upt)
      (simp add: queue_get_def)
qed

text \<open>The queue operations of a device, as a bounded queue of bytes; keyboard and mouse lift them.\<close>

abbreviation state_ok :: "PS2State \<times> 'w \<Rightarrow> bool" where
  "state_ok sw \<equiv> queue_ok (queue (fst sw))"

abbreviation state_items :: "PS2State \<times> 'w \<Rightarrow> u8 list" where
  "state_items sw \<equiv> contents (queue (fst sw))"

lemma fst_read_data: "queue_ok (queue (fst sw)) \<Longrightarrow> contents (queue (fst sw)) = b # bs \<Longrightarrow> fst (ps2_read_data upd sw) = b"
  using contents_get [of "queue (fst sw)"] length_contents [of "queue (fst sw)"]
  by (cases sw) (auto simp: ps2_read_data_def Let_def)

interpretation ps2_fifo: bounded_fifo state_ok state_items "\<lambda>b. ps2_queue upd (uint b)"
  "ps2_read_data upd" 15 for upd :: "'w qemu_irq"
proof
  fix s :: "PS2State \<times> 'w" and b :: u8 and bs
  assume ok: "state_ok s"
  show "state_ok (ps2_queue upd (uint b) s)" using ok by (simp add: queue_put_step queue_ok_put)
  show "state_ok (snd (ps2_read_data upd s))" using ok by (simp add: queue_get_step queue_ok_get)
  show "state_items (ps2_queue upd (uint b) s) =
      (if length (state_items s) < 15 then state_items s @ [b] else state_items s)"
    using ok by (auto simp: queue_put_step contents_put queue_ok_def)
  show "length (state_items s) \<le> 15" using ok by (auto simp: queue_ok_def)
  assume i: "state_items s = b # bs"
  then have "count (queue (fst s)) \<noteq> 0" by (auto simp: contents_def)
  then show "fst (ps2_read_data upd s) = b \<and> state_items (snd (ps2_read_data upd s)) = bs"
    using ok i fst_read_data [OF ok i] contents_get [OF ok] by (simp add: queue_get_step)
qed

abbreviation kbd_ok :: "PS2KbdState \<times> 'w \<Rightarrow> bool" where
  "kbd_ok kw \<equiv> queue_ok (queue (k_common (fst kw)))"

abbreviation kbd_items :: "PS2KbdState \<times> 'w \<Rightarrow> u8 list" where
  "kbd_items kw \<equiv> contents (queue (k_common (fst kw)))"

abbreviation mouse_ok :: "PS2MouseState \<times> 'w \<Rightarrow> bool" where
  "mouse_ok mw \<equiv> queue_ok (queue (m_common (fst mw)))"

abbreviation mouse_items :: "PS2MouseState \<times> 'w \<Rightarrow> u8 list" where
  "mouse_items mw \<equiv> contents (queue (m_common (fst mw)))"

lemma reply_word: "ps2_queue upd b = ps2_queue upd (uint (word_of_int b :: u8))"
  by (simp add: ps2_queue_def fun_eq_iff Let_def)

lemma on_kbd_common: "k_common (fst (on_kbd f kw)) = fst (f (k_common (fst kw), snd kw))"
  and on_mouse_common: "m_common (fst (on_mouse g mw)) = fst (g (m_common (fst mw), snd mw))"
  by (simp_all add: on_kbd_def on_mouse_def Let_def case_prod_unfold)

definition ps2_kbd_read :: "'w qemu_irq \<Rightarrow> PS2KbdState \<times> 'w \<Rightarrow> u8 \<times> (PS2KbdState \<times> 'w)" where
  "ps2_kbd_read upd kw =
     (let (b, c, w) = ps2_read_data upd (k_common (fst kw), snd kw) in (b, (fst kw)\<lparr>k_common := c\<rparr>, w))"

definition ps2_mouse_read :: "'w qemu_irq \<Rightarrow> PS2MouseState \<times> 'w \<Rightarrow> u8 \<times> (PS2MouseState \<times> 'w)" where
  "ps2_mouse_read upd mw =
     (let (b, c, w) = ps2_read_data upd (m_common (fst mw), snd mw) in (b, (fst mw)\<lparr>m_common := c\<rparr>, w))"

lemma kbd_read_common:
  "fst (ps2_kbd_read upd kw) = fst (ps2_read_data upd (k_common (fst kw), snd kw))"
  "k_common (fst (snd (ps2_kbd_read upd kw))) = fst (snd (ps2_read_data upd (k_common (fst kw), snd kw)))"
  by (simp_all add: ps2_kbd_read_def Let_def case_prod_unfold)

lemma mouse_read_common:
  "fst (ps2_mouse_read upd mw) = fst (ps2_read_data upd (m_common (fst mw), snd mw))"
  "m_common (fst (snd (ps2_mouse_read upd mw))) = fst (snd (ps2_read_data upd (m_common (fst mw), snd mw)))"
  by (simp_all add: ps2_mouse_read_def Let_def case_prod_unfold)

interpretation kbd_fifo: bounded_fifo kbd_ok kbd_items "\<lambda>b. kbd_reply upd (uint b)"
  "ps2_kbd_read upd" 15 for upd :: "'w qemu_irq"
proof
  fix s :: "PS2KbdState \<times> 'w" and b :: u8 and bs
  assume ok: "kbd_ok s"
  then have ok': "state_ok (k_common (fst s), snd s)" by simp
  show "kbd_ok (kbd_reply upd (uint b) s)" "kbd_ok (snd (ps2_kbd_read upd s))"
    using ps2_fifo.ok_put [OF ok'] ps2_fifo.ok_get [OF ok'] by (simp_all add: on_kbd_common kbd_read_common)
  show "kbd_items (kbd_reply upd (uint b) s) =
      (if length (kbd_items s) < 15 then kbd_items s @ [b] else kbd_items s)"
    using ps2_fifo.items_put [OF ok'] by (simp add: on_kbd_common)
  show "length (kbd_items s) \<le> 15" using ps2_fifo.items_cap [OF ok'] by simp
  show "kbd_items s = b # bs \<Longrightarrow> fst (ps2_kbd_read upd s) = b \<and> kbd_items (snd (ps2_kbd_read upd s)) = bs"
    using ps2_fifo.items_get [OF ok'] by (simp add: kbd_read_common)
qed

interpretation mouse_fifo: bounded_fifo mouse_ok mouse_items "\<lambda>b. mouse_reply upd (uint b)"
  "ps2_mouse_read upd" 15 for upd :: "'w qemu_irq"
proof
  fix s :: "PS2MouseState \<times> 'w" and b :: u8 and bs
  assume ok: "mouse_ok s"
  then have ok': "state_ok (m_common (fst s), snd s)" by simp
  show "mouse_ok (mouse_reply upd (uint b) s)" "mouse_ok (snd (ps2_mouse_read upd s))"
    using ps2_fifo.ok_put [OF ok'] ps2_fifo.ok_get [OF ok'] by (simp_all add: on_mouse_common mouse_read_common)
  show "mouse_items (mouse_reply upd (uint b) s) =
      (if length (mouse_items s) < 15 then mouse_items s @ [b] else mouse_items s)"
    using ps2_fifo.items_put [OF ok'] by (simp add: on_mouse_common)
  show "length (mouse_items s) \<le> 15" using ps2_fifo.items_cap [OF ok'] by simp
  show "mouse_items s = b # bs \<Longrightarrow> fst (ps2_mouse_read upd s) = b \<and> mouse_items (snd (ps2_mouse_read upd s)) = bs"
    using ps2_fifo.items_get [OF ok'] by (simp add: mouse_read_common)
qed

section \<open>The interrupt line follows the queue\<close>

definition dev_ok :: "('w \<Rightarrow> bool) \<Rightarrow> PS2State \<times> 'w \<Rightarrow> bool" where
  "dev_ok lev sw \<longleftrightarrow> queue_ok (queue (fst sw)) \<and> (lev (snd sw) \<longleftrightarrow> count (queue (fst sw)) \<noteq> 0)"

abbreviation kbd_dev :: "PS2KbdState \<times> 'w \<Rightarrow> PS2State \<times> 'w" where
  "kbd_dev kw \<equiv> (k_common (fst kw), snd kw)"

abbreviation mouse_dev :: "PS2MouseState \<times> 'w \<Rightarrow> PS2State \<times> 'w" where
  "mouse_dev mw \<equiv> (m_common (fst mw), snd mw)"

lemma gather_run:
  assumes "0 \<le> r" "r + int n \<le> 256"
  shows "gather n d r = Inr (map (\<lambda>i. uint (d ! nat (r + int i))) [0..<n])"
  using assms
proof (induction n arbitrary: r)
  case (Suc n)
  have "map f [0..<Suc n] = f 0 # map (\<lambda>i. f (Suc i)) [0..<n]" for f :: "nat \<Rightarrow> int"
    by (simp add: upt_conv_Cons map_Suc_upt [symmetric] del: upt_Suc map_Suc_upt)
  moreover have "gather n d (if r + 1 = 256 then 0 else r + 1) =
      Inr (map (\<lambda>i. uint (d ! nat (r + 1 + int i))) [0..<n])"
    using Suc.prems Suc.IH [of "r + 1"] Suc.IH [of 0] by (cases "r + 1 = 256") auto
  ultimately show ?case using Suc.prems by (simp add: add.assoc del: upt_Suc)
qed simp

lemma length_int_bytes [simp]: "length (int_bytes i) = 4"
  by (simp add: int_bytes_def)

lemma length_concat_int_bytes [simp]: "length (concat (map int_bytes is)) = 4 * length is"
  by (induction "is") simp_all

text \<open>What loading or saving a well-formed queue makes of it.\<close>

lemma post_load_run:
  assumes "queue_ok (queue s)"
  defines "n \<equiv> nat (count (queue s))"
    and "tmp \<equiv> map (\<lambda>i. uint (data (queue s) ! nat (rptr (queue s) + int i))) [0..<nat (count (queue s))]"
  shows "ps2_common_post_load upd (s, w) =
    Inr (s\<lparr>queue := (queue s)\<lparr>data := take n (concat (map int_bytes tmp)) @ drop n (data (queue s)),
           rptr := 0, wptr := count (queue s), count := count (queue s)\<rparr>\<rparr>,
         upd w (if count (queue s) \<noteq> 0 then 1 else 0))"
proof -
  have q: "0 \<le> rptr (queue s)" "rptr (queue s) < 16" "0 \<le> count (queue s)" "count (queue s) \<le> 15"
    using assms(1) by (auto simp: queue_ok_def)
  then have "gather n (data (queue s)) (rptr (queue s)) = Inr tmp"
    unfolding n_def tmp_def by (intro gather_run) auto
  then show ?thesis using q by (auto simp: ps2_common_post_load_def Let_def n_def tmp_def)
qed

text \<open>
  The queue fields of a saved stream that loading can take: the read pointer lies in the array of 256 bytes, as older
  versions of the device used all of it, and the count is neither negative nor exactly 16.
\<close>

definition stream_ok :: "PS2Queue \<Rightarrow> bool" where
  "stream_ok q \<longleftrightarrow> length (data q) = 256 \<and> 0 \<le> rptr q \<and> rptr q < 256 \<and> 0 \<le> count q \<and> count q \<noteq> 16"

lemma queue_ok_stream: "queue_ok q \<Longrightarrow> stream_ok q"
  by (auto simp: queue_ok_def stream_ok_def)

lemma gather_total: "0 \<le> r \<Longrightarrow> r < 256 \<Longrightarrow> \<exists>tmp. gather n d r = Inr tmp \<and> length tmp = n"
proof (induction n arbitrary: r)
  case (Suc n)
  have "0 \<le> (if r + 1 = 256 then 0 else r + 1)" "(if r + 1 = 256 then 0 else r + 1) < 256" using Suc.prems by auto
  from Suc.IH [OF this] obtain tmp where "gather n d (if r + 1 = 256 then 0 else r + 1) = Inr tmp" "length tmp = n" by blast
  then show ?case using Suc.prems by auto
qed simp

lemma post_load_general:
  assumes "length (data (queue s)) = 256" "0 \<le> rptr (queue s)" "rptr (queue s) < 256"
  defines "c \<equiv> if count (queue s) > 16 then 0 else count (queue s)"
  shows "\<exists>d. length d = 256 \<and> ps2_common_post_load upd (s, w) =
    Inr (s\<lparr>queue := (queue s)\<lparr>data := d, rptr := 0, wptr := c, count := c\<rparr>\<rparr>, upd w (if c \<noteq> 0 then 1 else 0))"
proof -
  have c: "c \<le> 16" by (simp add: c_def)
  obtain tmp where tmp: "gather (nat c) (data (queue s)) (rptr (queue s)) = Inr tmp" "length tmp = nat c"
    using gather_total [OF assms(2,3)] by blast
  let ?d = "if c > 0 then take (nat c) (concat (map int_bytes tmp)) @ drop (nat c) (data (queue s)) else data (queue s)"
  have "length ?d = 256" using assms(1) c tmp(2) by (auto simp: min_def)
  moreover have "ps2_common_post_load upd (s, w) =
      Inr (s\<lparr>queue := (queue s)\<lparr>data := ?d, rptr := 0, wptr := c, count := c\<rparr>\<rparr>, upd w (if c \<noteq> 0 then 1 else 0))"
    unfolding ps2_common_post_load_def Let_def prod.case c_def [symmetric] using tmp(1) by simp
  ultimately show ?thesis by blast
qed

lemma post_load_stream:
  assumes "stream_ok (queue s)"
  shows "\<exists>s'. ps2_common_post_load upd (s, w) = Inr (s', upd w (if count (queue s') \<noteq> 0 then 1 else 0)) \<and> queue_ok (queue s')"
proof -
  have "0 \<le> (if count (queue s) > 16 then 0 else count (queue s))" "(if count (queue s) > 16 then 0 else count (queue s)) \<le> 15"
    using assms by (auto simp: stream_ok_def)
  then show ?thesis using assms post_load_general [of s upd w] by (fastforce simp: stream_ok_def queue_ok_def)
qed

context wire
begin

lemma dev_queue: "dev_ok lev sw \<Longrightarrow> dev_ok lev (ps2_queue out b sw)"
  using queue_ok_put [of "queue (fst sw)" b] count_ps2_queue [of out b sw]
  by (cases sw) (auto simp: dev_ok_def queue_put_step queue_count_def,
      auto simp: ps2_queue_def Let_def queue_ok_def)

lemma dev_read: "dev_ok lev sw \<Longrightarrow> dev_ok lev (snd (ps2_read_data out sw))"
  using queue_ok_get [of "queue (fst sw)"]
  by (cases sw) (auto simp: dev_ok_def queue_get_step, auto simp: ps2_read_data_def queue_get_def Let_def)

lemma dev_reset: "dev_ok lev sw \<Longrightarrow> dev_ok lev (ps2_common_reset out sw)"
  by (cases sw) (auto simp: dev_ok_def ps2_common_reset_def queue_ok_def)

lemma dev_post_load: "stream_ok (queue s) \<Longrightarrow> \<exists>s' w'. ps2_common_post_load out (s, w) = Inr (s', w') \<and> dev_ok lev (s', w')"
  using post_load_stream [of s out w] by (auto simp: dev_ok_def)

lemma kbd_lift: "(\<And>sw. dev_ok lev sw \<Longrightarrow> dev_ok lev (f sw)) \<Longrightarrow> dev_ok lev (kbd_dev kw) \<Longrightarrow> dev_ok lev (kbd_dev (on_kbd f kw))"
  by (simp add: on_kbd_def Let_def case_prod_unfold)

lemma mouse_lift: "(\<And>sw. dev_ok lev sw \<Longrightarrow> dev_ok lev (f sw)) \<Longrightarrow> dev_ok lev (mouse_dev mw) \<Longrightarrow> dev_ok lev (mouse_dev (on_mouse f mw))"
  by (simp add: on_mouse_def Let_def case_prod_unfold)

lemma kbd_reply_ok: "dev_ok lev (kbd_dev kw) \<Longrightarrow> dev_ok lev (kbd_dev (kbd_reply out b kw))"
  and mouse_reply_ok: "dev_ok lev (mouse_dev mw) \<Longrightarrow> dev_ok lev (mouse_dev (mouse_reply out b mw))"
  by (simp_all add: kbd_lift mouse_lift dev_queue)

lemma put_keycode_ok: "dev_ok lev (kbd_dev kw) \<Longrightarrow> dev_ok lev (kbd_dev (ps2_put_keycode out c kw))"
  by (simp add: ps2_put_keycode_def Let_def kbd_reply_ok)

lemma keyboard_event_ok: "dev_ok lev (kbd_dev kw) \<Longrightarrow> dev_ok lev (kbd_dev (ps2_keyboard_event out evt kw))"
proof (cases evt)
  case (INPUT_EVENT_KIND_KEY key down)
  have "dev_ok lev (kbd_dev kw) \<Longrightarrow> dev_ok lev (kbd_dev (fold (ps2_put_keycode out) cs kw))" for cs
    by (induction cs arbitrary: kw) (simp_all add: put_keycode_ok)
  then show "dev_ok lev (kbd_dev kw) \<Longrightarrow> ?thesis" using INPUT_EVENT_KIND_KEY by simp
qed simp_all

lemma set_write_cmd_ok: "dev_ok lev (kbd_dev kw) \<Longrightarrow> dev_ok lev (kbd_dev (set_write_cmd c kw))"
  by (cases kw) (simp add: set_write_cmd_def dev_ok_def)

lemma kbd_command_ok: "dev_ok lev (kbd_dev kw) \<Longrightarrow> dev_ok lev (kbd_dev (ps2_kbd_command out val kw))"
  by (cases kw) (simp add: ps2_kbd_command_def Let_def kbd_reply_ok set_write_cmd_ok ps2_reset_keyboard_def
      ps2_set_ledstate_def)

lemma write_keyboard_ok: "dev_ok lev (kbd_dev kw) \<Longrightarrow> dev_ok lev (kbd_dev (ps2_write_keyboard out val kw))"
  by (cases kw) (simp add: ps2_write_keyboard_def Let_def kbd_reply_ok set_write_cmd_ok put_keycode_ok
      kbd_command_ok ps2_set_ledstate_def)

lemma kbd_reset_ok: "dev_ok lev (kbd_dev kw) \<Longrightarrow> dev_ok lev (kbd_dev (ps2_kbd_reset out kw))"
  using kbd_lift [of "ps2_common_reset out" kw] dev_reset
  by (simp add: ps2_kbd_reset_def Let_def case_prod_unfold)

lemma kbd_read_ok: "dev_ok lev (kbd_dev kw) \<Longrightarrow> dev_ok lev (kbd_dev (snd (ps2_kbd_read out kw)))"
  using dev_read [of "kbd_dev kw"] by (simp add: ps2_kbd_read_def Let_def case_prod_unfold)

lemma send_packet_ok: "dev_ok lev (mouse_dev mw) \<Longrightarrow> dev_ok lev (mouse_dev (ps2_mouse_send_packet out mw))"
  by (simp add: ps2_mouse_send_packet_def Let_def case_prod_unfold mouse_reply_ok)

lemma mouse_sync_loop_ok: "dev_ok lev (mouse_dev mw) \<Longrightarrow> dev_ok lev (mouse_dev (mouse_sync_loop out mw))"
proof (induction upd \<equiv> out mw rule: mouse_sync_loop.induct)
  case (1 mw)
  then show ?case by (auto simp: mouse_sync_loop.simps [of out mw] Let_def send_packet_ok)
qed

lemma mouse_sync_ok: "dev_ok lev (mouse_dev mw) \<Longrightarrow> dev_ok lev (mouse_dev (ps2_mouse_sync out mw))"
  by (simp add: ps2_mouse_sync_def mouse_sync_loop_ok)

lemma mouse_fake_ok: "dev_ok lev (mouse_dev mw) \<Longrightarrow> dev_ok lev (mouse_dev (ps2_mouse_fake_event out mw))"
  unfolding ps2_mouse_fake_event_def by (rule mouse_sync_ok) simp

lemma mouse_event_common: "m_common (ps2_mouse_event evt s) = m_common s"
  by (simp add: Let_def split: InputEvent.split)

lemma end_mouse_cmd_ok: "dev_ok lev (mouse_dev mw) \<Longrightarrow> dev_ok lev (mouse_dev (end_mouse_cmd mw))"
  by (cases mw) (simp add: end_mouse_cmd_def dev_ok_def)

lemma mouse_detect_common: "m_common (mouse_detect val s) = m_common s"
  by (simp add: mouse_detect_def)

lemma mouse_command_ok: "dev_ok lev (mouse_dev mw) \<Longrightarrow> dev_ok lev (mouse_dev (ps2_mouse_command out val mw))"
proof (cases mw)
  case (Pair s w)
  assume "dev_ok lev (mouse_dev mw)"
  moreover from this have "dev_ok lev ((m_common s)\<lparr>write_cmd := val\<rparr>, w)" by (simp add: dev_ok_def Pair)
  ultimately show ?thesis
    by (simp add: Pair ps2_mouse_command_def Let_def mouse_reply_ok send_packet_ok)
qed

lemma write_mouse_ok: "dev_ok lev (mouse_dev mw) \<Longrightarrow> dev_ok lev (mouse_dev (ps2_write_mouse out val mw))"
  by (cases mw) (simp add: ps2_write_mouse_def Let_def mouse_reply_ok mouse_command_ok end_mouse_cmd_ok
      mouse_detect_common)

lemma mouse_reset_ok: "dev_ok lev (mouse_dev mw) \<Longrightarrow> dev_ok lev (mouse_dev (ps2_mouse_reset out mw))"
  using mouse_lift [of "ps2_common_reset out" mw] dev_reset
  by (simp add: ps2_mouse_reset_def Let_def case_prod_unfold)

lemma mouse_read_ok: "dev_ok lev (mouse_dev mw) \<Longrightarrow> dev_ok lev (mouse_dev (snd (ps2_mouse_read out mw)))"
  using dev_read [of "mouse_dev mw"] by (simp add: ps2_mouse_read_def Let_def case_prod_unfold)

lemma kbd_load_ok:
  assumes "stream_ok (queue (k_common (fst kw)))"
  shows "\<exists>kw'. ps2_kbd_post_load out v kw = Inr kw' \<and> dev_ok lev (kbd_dev kw')"
    "\<exists>kw'. ps2_kbd_pre_save out kw = Inr kw' \<and> dev_ok lev (kbd_dev kw')"
proof -
  obtain s w where kw: "kw = (s, w)" by (cases kw)
  from assms dev_post_load [of "k_common s" w] obtain c w' where
    c: "ps2_common_post_load out (k_common s, w) = Inr (c, w')" "dev_ok lev (c, w')" by (auto simp: kw)
  have k: "k_common (if v = 2 then s\<lparr>scancode_set := 2\<rparr> else s) = k_common s" by simp
  show "\<exists>kw'. ps2_kbd_post_load out v kw = Inr kw' \<and> dev_ok lev (kbd_dev kw')"
    "\<exists>kw'. ps2_kbd_pre_save out kw = Inr kw' \<and> dev_ok lev (kbd_dev kw')"
    unfolding ps2_kbd_post_load_def ps2_kbd_pre_save_def kw Let_def prod.case k using c by simp_all
qed

lemma mouse_load_ok:
  assumes "stream_ok (queue (m_common (fst mw)))"
  shows "\<exists>mw'. ps2_mouse_post_load out mw = Inr mw' \<and> dev_ok lev (mouse_dev mw')"
    "\<exists>mw'. ps2_mouse_pre_save out mw = Inr mw' \<and> dev_ok lev (mouse_dev mw')"
proof -
  obtain s w where mw: "mw = (s, w)" by (cases mw)
  from assms dev_post_load [of "m_common s" w] obtain c w' where
    c: "ps2_common_post_load out (m_common s, w) = Inr (c, w')" "dev_ok lev (c, w')" by (auto simp: mw)
  then show "\<exists>mw'. ps2_mouse_post_load out mw = Inr mw' \<and> dev_ok lev (mouse_dev mw')"
    "\<exists>mw'. ps2_mouse_pre_save out mw = Inr mw' \<and> dev_ok lev (mouse_dev mw')"
    unfolding ps2_mouse_post_load_def ps2_mouse_pre_save_def mw Let_def prod.case by simp_all
qed

end

text \<open>
  Everything that can happen to the two devices.  Loading puts the fields of a stream, which need not come from
  this device, in place of the device's own before \<^verbatim>\<open>post_load\<close> runs.  A save or load that fails has no step; that
  none fails is part of what is proved.
\<close>

inductive kbd_step :: "'w qemu_irq \<Rightarrow> PS2KbdState \<times> 'w \<Rightarrow> PS2KbdState \<times> 'w \<Rightarrow> bool" for upd where
  kbd_step_event: "kbd_step upd kw (ps2_keyboard_event upd evt kw)"
| kbd_step_read: "kbd_step upd kw (snd (ps2_kbd_read upd kw))"
| kbd_step_write: "kbd_step upd kw (ps2_write_keyboard upd val kw)"
| kbd_step_translation: "kbd_step upd (s, w) (ps2_keyboard_set_translation mode s, w)"
| kbd_step_reset: "kbd_step upd kw (ps2_kbd_reset upd kw)"
| kbd_step_save: "ps2_kbd_pre_save upd kw = Inr kw' \<Longrightarrow> kbd_step upd kw kw'"
| kbd_step_load: "stream_ok (queue (k_common stream)) \<Longrightarrow> ps2_kbd_post_load upd version_id (stream, w) = Inr kw'
    \<Longrightarrow> kbd_step upd (s, w) kw'"

inductive mouse_step :: "'w qemu_irq \<Rightarrow> PS2MouseState \<times> 'w \<Rightarrow> PS2MouseState \<times> 'w \<Rightarrow> bool" for upd where
  mouse_step_event: "mouse_step upd (s, w) (ps2_mouse_event evt s, w)"
| mouse_step_sync: "mouse_step upd mw (ps2_mouse_sync upd mw)"
| mouse_step_fake: "mouse_step upd mw (ps2_mouse_fake_event upd mw)"
| mouse_step_read: "mouse_step upd mw (snd (ps2_mouse_read upd mw))"
| mouse_step_write: "mouse_step upd mw (ps2_write_mouse upd val mw)"
| mouse_step_reset: "mouse_step upd mw (ps2_mouse_reset upd mw)"
| mouse_step_save: "ps2_mouse_pre_save upd mw = Inr mw' \<Longrightarrow> mouse_step upd mw mw'"
| mouse_step_load: "stream_ok (queue (m_common stream)) \<Longrightarrow> ps2_mouse_post_load upd (stream, w) = Inr mw'
    \<Longrightarrow> mouse_step upd (s, w) mw'"

context wire
begin

lemma kbd_step_ok: "kbd_step out kw kw' \<Longrightarrow> dev_ok lev (kbd_dev kw) \<Longrightarrow> dev_ok lev (kbd_dev kw')"
proof (induction rule: kbd_step.induct)
  case (kbd_step_translation s w mode)
  then show ?case by (simp add: ps2_keyboard_set_translation_def)
next
  case (kbd_step_save kw kw')
  then show ?case using kbd_load_ok(2) [of kw] by (auto simp: dev_ok_def queue_ok_stream)
next
  case (kbd_step_load stream v w kw' s)
  then show ?case using kbd_load_ok(1) [of "(stream, w)" v] by auto
qed (fact keyboard_event_ok kbd_read_ok write_keyboard_ok kbd_reset_ok)+

lemma mouse_step_ok: "mouse_step out mw mw' \<Longrightarrow> dev_ok lev (mouse_dev mw) \<Longrightarrow> dev_ok lev (mouse_dev mw')"
proof (induction rule: mouse_step.induct)
  case (mouse_step_event s w evt)
  then show ?case by (simp add: mouse_event_common del: ps2_mouse_event.simps)
next
  case (mouse_step_save mw mw')
  then show ?case using mouse_load_ok(2) [of mw] by (auto simp: dev_ok_def queue_ok_stream)
next
  case (mouse_step_load stream w mw' s)
  then show ?case using mouse_load_ok(1) [of "(stream, w)"] by auto
qed (fact mouse_sync_ok mouse_fake_ok mouse_read_ok write_mouse_ok mouse_reset_ok)+

lemma kbd_run_ok: "(kbd_step out)\<^sup>*\<^sup>* kw kw' \<Longrightarrow> dev_ok lev (kbd_dev kw) \<Longrightarrow> dev_ok lev (kbd_dev kw')"
  by (induction rule: rtranclp_induct) (auto intro: kbd_step_ok)

lemma mouse_run_ok: "(mouse_step out)\<^sup>*\<^sup>* mw mw' \<Longrightarrow> dev_ok lev (mouse_dev mw) \<Longrightarrow> dev_ok lev (mouse_dev mw')"
  by (induction rule: rtranclp_induct) (auto intro: mouse_step_ok)

end

section \<open>What the devices send\<close>

lemma kbd_reply_fields [simp]:
  "translate (fst (kbd_reply upd b kw)) = translate (fst kw)"
  "scancode_set (fst (kbd_reply upd b kw)) = scancode_set (fst kw)"
  by (simp_all add: on_kbd_def Let_def case_prod_unfold)

text \<open>The bytes of one scan code in the mode of the keyboard.\<close>

definition keycode_bytes :: "bool \<Rightarrow> int \<Rightarrow> int \<Rightarrow> u8 list" where
  "keycode_bytes tr st keycode =
     (if \<not> tr \<and> keycode < 0xe0 \<and> st > 1
      then (if keycode AND 0x80 \<noteq> 0 then [0xf0] else [])
         @ [word_of_int (if st = 2 then ps2_raw_keycode ! nat (keycode AND 0x7f)
                         else if st = 3 then ps2_raw_keycode_set3 ! nat (keycode AND 0x7f)
                         else keycode)]
      else [word_of_int keycode])"

lemma put_keycode_puts:
  "ps2_put_keycode upd c kw =
     fold (\<lambda>b. kbd_reply upd (uint b)) (keycode_bytes (translate (fst kw)) (scancode_set (fst kw)) c) kw"
  by (simp add: ps2_put_keycode_def keycode_bytes_def Let_def flip: reply_word)

lemma puts_keep_mode:
  "translate (fst (fold (\<lambda>b. kbd_reply upd (f b)) bs kw)) = translate (fst kw)"
  "scancode_set (fst (fold (\<lambda>b. kbd_reply upd (f b)) bs kw)) = scancode_set (fst kw)"
  by (induction bs arbitrary: kw) simp_all

lemma put_keycodes_puts:
  "fold (ps2_put_keycode upd) cs kw =
     fold (\<lambda>b. kbd_reply upd (uint b))
       (concat (map (keycode_bytes (translate (fst kw)) (scancode_set (fst kw))) cs)) kw"
  by (induction cs arbitrary: kw) (simp_all add: put_keycode_puts puts_keep_mode)

text \<open>The bytes of the next mouse packet.\<close>

definition packet_bytes :: "PS2MouseState \<Rightarrow> u8 list" where
  "packet_bytes s =
     (let dx1 = clamp 127 (mouse_dx s); dy1 = clamp 127 (mouse_dy s); dz1 = packet_dz s
      in map word_of_int
           ([0x08 OR (if dx1 < 0 then 0x10 else 0) OR (if dy1 < 0 then 0x20 else 0)
               OR uint (mouse_buttons s AND 0x07), dx1 AND 0xff, dy1 AND 0xff]
            @ (if mouse_type s = 3 then [dz1 AND 0xff]
               else if mouse_type s = 4
               then [(dz1 AND 0x0f) OR push_bit 1 (uint (mouse_buttons s AND 0x18))] else [])))"

definition packet_size :: "PS2MouseState \<Rightarrow> nat" where
  "packet_size s = (if mouse_type s = 3 \<or> mouse_type s = 4 then 4 else 3)"

lemma length_packet_bytes: "length (packet_bytes s) = packet_size s"
  by (simp add: packet_bytes_def packet_size_def Let_def)

lemma send_packet_effect:
  fixes upd :: "'w qemu_irq" and mw
  assumes "mouse_ok mw" "mouse_count (fst mw) < 12"
  defines "mw' \<equiv> ps2_mouse_send_packet upd mw" and "s \<equiv> fst mw"
  shows "mouse_items mw' = mouse_items mw @ packet_bytes s"
    "mouse_ok mw'"
    "mouse_dx (fst mw') = mouse_dx s - clamp 127 (mouse_dx s)"
    "mouse_dy (fst mw') = mouse_dy s - clamp 127 (mouse_dy s)"
    "mouse_dz (fst mw') = mouse_dz s - packet_dz s"
    "mouse_type (fst mw') = mouse_type s" "mouse_buttons (fst mw') = mouse_buttons s"
proof -
  let ?puts = "fold (\<lambda>b. mouse_reply upd (uint b)) (packet_bytes s) mw"
  have common: "m_common (fst mw') = m_common (fst ?puts)"
    by (simp add: mw'_def s_def ps2_mouse_send_packet_def packet_bytes_def Let_def case_prod_unfold
        flip: reply_word)
  have "length (mouse_items mw) + length (packet_bytes s) \<le> 15"
    using assms(1,2) by (auto simp: length_packet_bytes packet_size_def mouse_count_def queue_ok_def)
  then show "mouse_items mw' = mouse_items mw @ packet_bytes s" "mouse_ok mw'"
    using mouse_fifo.items_puts_fit [OF assms(1)] mouse_fifo.ok_puts [OF assms(1)] common by auto
qed (simp_all add: mw'_def s_def ps2_mouse_send_packet_def Let_def case_prod_unfold)

text \<open>The host is sent the packets \<open>ps\<close>, whole and in order: the deltas in them plus the deltas left
  over are the deltas there were.\<close>

definition packets_sent :: "PS2MouseState list \<Rightarrow> PS2MouseState \<times> 'w \<Rightarrow> PS2MouseState \<times> 'w \<Rightarrow> bool" where
  "packets_sent ps mw mw' \<longleftrightarrow>
     mouse_items mw' = mouse_items mw @ concat (map packet_bytes ps)
     \<and> list_all (\<lambda>p. mouse_type p = mouse_type (fst mw) \<and> mouse_buttons p = mouse_buttons (fst mw)) ps
     \<and> sum_list (map (\<lambda>p. clamp 127 (mouse_dx p)) ps) + mouse_dx (fst mw') = mouse_dx (fst mw)
     \<and> sum_list (map (\<lambda>p. clamp 127 (mouse_dy p)) ps) + mouse_dy (fst mw') = mouse_dy (fst mw)
     \<and> sum_list (map packet_dz ps) + mouse_dz (fst mw') = mouse_dz (fst mw)"

lemma packets_sent_Cons:
  assumes "mouse_ok mw" "mouse_count (fst mw) < 12" "packets_sent ps (ps2_mouse_send_packet upd mw) mw'"
  shows "packets_sent (fst mw # ps) mw mw'"
  using assms(3) by (simp add: packets_sent_def send_packet_effect [OF assms(1,2)])

lemma mouse_sync_loop_effect:
  "mouse_ok mw \<Longrightarrow> (\<exists>ps. packets_sent ps mw (mouse_sync_loop upd mw))
     \<and> (12 \<le> mouse_count (fst (mouse_sync_loop upd mw)) \<or>
        mouse_dx (fst (mouse_sync_loop upd mw)) = 0 \<and> mouse_dy (fst (mouse_sync_loop upd mw)) = 0
          \<and> mouse_dz (fst (mouse_sync_loop upd mw)) = 0)"
proof (induction upd mw rule: mouse_sync_loop.induct)
  case (1 upd mw)
  let ?m = "ps2_mouse_send_packet upd mw"
  show ?case
  proof (cases "mouse_count (fst mw) < 12")
    case False
    then have "mouse_sync_loop upd mw = mw" by (simp add: mouse_sync_loop.simps [of upd mw])
    moreover have "packets_sent [] mw mw" by (simp add: packets_sent_def)
    ultimately show ?thesis using False by (metis not_le)
  next
    case True
    note step = packets_sent_Cons [OF 1(2) True, of _ upd]
    show ?thesis
    proof (cases "mouse_dx (fst ?m) = 0 \<and> mouse_dy (fst ?m) = 0 \<and> mouse_dz (fst ?m) = 0")
      case zero: True
      then have "mouse_sync_loop upd mw = ?m" using True by (simp add: mouse_sync_loop.simps [of upd mw])
      moreover have "packets_sent [] ?m ?m" by (simp add: packets_sent_def)
      ultimately show ?thesis using zero step by metis
    next
      case False
      then have l: "mouse_sync_loop upd mw = mouse_sync_loop upd ?m"
        using True by (subst mouse_sync_loop.simps) (auto simp: Let_def)
      have "mouse_ok ?m" by (rule send_packet_effect(2) [OF 1(2) True])
      moreover have "mouse_count (fst mw) < PS2_QUEUE_SIZE - 4" using True by simp
      ultimately show ?thesis using 1(1) [OF _ refl refl False] step unfolding l by blast
    qed
  qed
qed

section \<open>Properties\<close>

text \<open>
  C6. The ring of bytes is a queue that holds fifteen: a byte sent is appended, or dropped when the
  queue is full, and a read returns and removes the oldest byte.
\<close>

theorem ps2_ring_is_bounded_queue:
  assumes "queue_ok (queue s)"
  shows "contents (queue (fst (ps2_queue upd b (s, w)))) =
      (if length (contents (queue s)) < 15 then contents (queue s) @ [word_of_int b] else contents (queue s))
    \<and> (contents (queue s) = v # vs \<longrightarrow> fst (ps2_read_data upd (s, w)) = v
        \<and> contents (queue (fst (snd (ps2_read_data upd (s, w))))) = vs)"
proof -
  have ok: "state_ok (s, w)" using assms by simp
  show ?thesis
    using ps2_fifo.items_put [OF ok, of upd "word_of_int b"] ps2_fifo.items_get [OF ok, of v vs upd]
    by (simp flip: reply_word)
qed

theorem ps2_ring_is_bounded_queue_witness:
  "contents (queue (fst (ps2_queue pin 0x1e (\<lparr>queue = empty_queue, write_cmd = 0\<rparr>, False)))) = [0x1e]"
  using ps2_ring_is_bounded_queue [of "\<lparr>queue = empty_queue, write_cmd = 0\<rparr>" pin 30 False] by simp

text \<open>
  C25. Whatever is done to the keyboard and the mouse (events, reads, writes, resets, saving, and loading a stream whose
  read pointer is an index of the 256 byte array and whose count is not negative and not 16), their rings stay
  well formed, so that the pointers they read and write at lie among the first 16 bytes, and each interrupt line is high exactly
  while its device has data to read.  In every such state saving succeeds, and so does loading any such stream: no
  access leaves the array.
\<close>

theorem ps2_interrupt_iff_data:
  assumes "(kbd_step pin)\<^sup>*\<^sup>* (ps2_kbd_init, False) (k, kbd_irq)"
    and "(mouse_step pin)\<^sup>*\<^sup>* (ps2_mouse_init, False) (m, mouse_irq)"
  shows "queue_ok (queue (k_common k)) \<and> (kbd_irq \<longleftrightarrow> contents (queue (k_common k)) \<noteq> [])
    \<and> queue_ok (queue (m_common m)) \<and> (mouse_irq \<longleftrightarrow> contents (queue (m_common m)) \<noteq> [])
    \<and> (\<exists>kw. ps2_kbd_pre_save pin (k, kbd_irq) = Inr kw) \<and> (\<exists>mw. ps2_mouse_pre_save pin (m, mouse_irq) = Inr mw)
    \<and> (\<forall>stream v. stream_ok (queue (k_common stream)) \<longrightarrow> (\<exists>kw. ps2_kbd_post_load pin v (stream, kbd_irq) = Inr kw))
    \<and> (\<forall>stream. stream_ok (queue (m_common stream)) \<longrightarrow> (\<exists>mw. ps2_mouse_post_load pin (stream, mouse_irq) = Inr mw))"
proof -
  have init: "dev_ok (\<lambda>b. b) (kbd_dev (ps2_kbd_init, False))" "dev_ok (\<lambda>b. b) (mouse_dev (ps2_mouse_init, False))"
    using queue_ok_empty(1) by (simp_all add: dev_ok_def ps2_kbd_init_def ps2_mouse_init_def)
      (simp_all add: empty_queue_def)
  have empty: "contents q = [] \<longleftrightarrow> count q = 0" if "queue_ok q" for q
    using that length_contents [of q] by (auto simp: queue_ok_def simp flip: length_0_conv)
  have k: "dev_ok (\<lambda>b. b) (kbd_dev (k, kbd_irq))" by (rule pin_wire.kbd_run_ok [OF assms(1) init(1)])
  have m: "dev_ok (\<lambda>b. b) (mouse_dev (m, mouse_irq))" by (rule pin_wire.mouse_run_ok [OF assms(2) init(2)])
  have save: "\<exists>kw. ps2_kbd_pre_save pin (k, kbd_irq) = Inr kw" "\<exists>mw. ps2_mouse_pre_save pin (m, mouse_irq) = Inr mw"
    using pin_wire.kbd_load_ok(2) [of "(k, kbd_irq)"] pin_wire.mouse_load_ok(2) [of "(m, mouse_irq)"] k m
    by (auto simp: dev_ok_def queue_ok_stream)
  have load: "\<exists>kw. ps2_kbd_post_load pin v (stream, w) = Inr kw" if "stream_ok (queue (k_common stream))" for stream v w
    using pin_wire.kbd_load_ok(1) [of "(stream, w)" v] that by fastforce
  have load': "\<exists>mw. ps2_mouse_post_load pin (stream, w) = Inr mw" if "stream_ok (queue (m_common stream))" for stream w
    using pin_wire.mouse_load_ok(1) [of "(stream, w)"] that by fastforce
  show ?thesis using k m save load load' by (simp add: dev_ok_def empty)
qed

text \<open>A stream of an older version, whose queue lies beyond the first 16 bytes.\<close>

definition old_stream :: PS2KbdState where
  "old_stream = ps2_kbd_init\<lparr>k_common := \<lparr>queue = empty_queue\<lparr>rptr := 254, wptr := 1, count := 3\<rparr>, write_cmd = - 1\<rparr>\<rparr>"

theorem ps2_interrupt_iff_data_witness:
  "\<exists>k irq. (kbd_step pin)\<^sup>*\<^sup>* (ps2_kbd_init, False) (k, irq) \<and> ps2_kbd_post_load pin 2 (old_stream, False) = Inr (k, irq)
    \<and> irq \<and> length (contents (queue (k_common k))) = 3 \<and> queue_ok (queue (k_common k))"
proof -
  have ok: "stream_ok (queue (k_common old_stream))" by (simp add: stream_ok_def old_stream_def empty_queue_def)
  from ps2_interrupt_iff_data [OF rtranclp.rtrancl_refl rtranclp.rtrancl_refl] ok obtain k irq where
    l: "ps2_kbd_post_load pin 2 (old_stream, False) = Inr (k, irq)" by fast
  from kbd_step_load [OF ok l, of ps2_kbd_init] have r: "(kbd_step pin)\<^sup>*\<^sup>* (ps2_kbd_init, False) (k, irq)" ..
  have "count (queue (k_common k)) = 3"
    using l post_load_general [of "k_common old_stream" pin False]
    by (auto simp: ps2_kbd_post_load_def old_stream_def empty_queue_def)
  then have "length (contents (queue (k_common k))) = 3" by simp
  moreover from this have "contents (queue (k_common k)) \<noteq> []" by (metis list.size(3) zero_neq_numeral)
  ultimately show ?thesis using ps2_interrupt_iff_data [OF r rtranclp.rtrancl_refl] r l by blast
qed

text \<open>
  A stream with a count of 16, or a negative one, is taken as it is: the write pointer becomes the count, where
  the ring never wraps it, and bytes queued later are stored outside the ring.
\<close>

theorem load_escapes_ring:
  assumes "length (data (queue s)) = 256" "0 \<le> rptr (queue s)" "rptr (queue s) < 256"
    and "count (queue s) = 16 \<or> count (queue s) < 0"
  shows "\<exists>s' w'. ps2_common_post_load upd (s, w) = Inr (s', w') \<and> wptr (queue s') = count (queue s)
    \<and> wptr (queue s') \<notin> {0..<16}"
  using post_load_general [OF assms(1-3), of upd w] assms(4) by auto

theorem load_escapes_ring_witness:
  "\<exists>s' w'. ps2_common_post_load pin (\<lparr>queue = empty_queue\<lparr>count := 16\<rparr>, write_cmd = - 1\<rparr>, False) = Inr (s', w')
    \<and> wptr (queue s') = 16"
  using load_escapes_ring [of "\<lparr>queue = empty_queue\<lparr>count := 16\<rparr>, write_cmd = - 1\<rparr>" pin False]
  by (auto simp: empty_queue_def)

text \<open>
  A key event puts the bytes of its scan codes, in the current translation mode and scan code
  set, at the end of the queue; what does not fit is cut off at the end, even in the middle of a key's
  sequence.
\<close>

theorem keyboard_event_queues_scancodes:
  assumes "queue_ok (queue (k_common k))"
  shows "kbd_items (ps2_keyboard_event upd (INPUT_EVENT_KIND_KEY key down) (k, w)) =
    kbd_items (k, w) @ take (15 - length (kbd_items (k, w)))
      (concat (map (keycode_bytes (translate k) (scancode_set k)) (qemu_input_key_value_to_scancode key down)))"
proof -
  have "kbd_ok (k, w)" using assms by simp
  from kbd_fifo.items_puts [OF this] show ?thesis by (simp add: put_keycodes_puts)
qed

theorem keyboard_event_queues_scancodes_witness:
  "kbd_items (ps2_keyboard_event pin (INPUT_EVENT_KIND_KEY (KEY_VALUE_KIND_NUMBER 0xc8) False) (ps2_kbd_init, False))
    = [0xe0, 0xf0, 0x75]"
proof -
  have "queue_ok (queue (k_common ps2_kbd_init))" by (simp add: ps2_kbd_init_def)
  note * = keyboard_event_queues_scancodes [OF this, of pin "KEY_VALUE_KIND_NUMBER 0xc8" False False]
  have codes: "qemu_input_key_value_to_scancode (KEY_VALUE_KIND_NUMBER 0xc8) False = [0xe0, 0xc8]"
    and bytes: "keycode_bytes False 2 0xe0 = [0xe0]" "keycode_bytes False 2 0xc8 = [0xf0, 0x75]" by code_simp+
  show ?thesis unfolding * codes by (simp add: ps2_kbd_init_def bytes)
qed

text \<open>
  C35. Reporting motion sends whole packets only, and no motion is lost: the deltas in the packets and
  the deltas kept for later add up to the deltas accumulated; unless motion is kept because the queue
  has no room for another packet, none is kept.  (Wheel motion counts as sent with a plain PS/2 packet,
  which has no byte for it.)
\<close>

theorem mouse_sync_conserves_motion:
  assumes "queue_ok (queue (m_common m))" "mouse_status m AND MOUSE_STATUS_REMOTE = 0"
  shows "(\<exists>ps. packets_sent ps (m, w) (ps2_mouse_sync upd (m, w)))
    \<and> (12 \<le> mouse_count (fst (ps2_mouse_sync upd (m, w)))
       \<or> (mouse_dx (fst (ps2_mouse_sync upd (m, w))) = 0 \<and> mouse_dy (fst (ps2_mouse_sync upd (m, w))) = 0
          \<and> mouse_dz (fst (ps2_mouse_sync upd (m, w))) = 0))"
proof -
  have "mouse_ok (m, w)" using assms(1) by simp
  from mouse_sync_loop_effect [OF this, of upd] assms(2) show ?thesis by (simp add: ps2_mouse_sync_def)
qed

theorem mouse_sync_conserves_motion_witness:
  "\<exists>ps. packets_sent ps (ps2_mouse_init\<lparr>mouse_dx := 300\<rparr>, False)
     (ps2_mouse_sync pin (ps2_mouse_init\<lparr>mouse_dx := 300\<rparr>, False))"
  using mouse_sync_conserves_motion [of "ps2_mouse_init\<lparr>mouse_dx := 300\<rparr>" False pin]
  by (simp add: ps2_mouse_init_def)

lemma int_bytes_byte: "int_bytes (uint (b :: u8)) = [b, 0, 0, 0]"
proof -
  have "drop_bit k (uint b) = 0" if "8 \<le> k" for k
    using that uint_lt2p [of b] by (simp add: drop_bit_eq_div div_pos_pos_trivial
        order_less_le_trans [OF _ power_increasing [of 8 k "2 :: int"]])
  then show ?thesis by (simp add: int_bytes_def upt_rec)
qed

text \<open>
  Saving (and loading) the device state damages the queue: the elements are gathered in an array
  of integers, of which as many bytes as there are elements are copied back, so that of a queue that
  does not wrap only every fourth byte is one of the bytes that were queued, and the rest are zero.
\<close>

theorem save_corrupts_queue:
  assumes "queue_ok (queue s)" "rptr (queue s) + count (queue s) \<le> 16"
  shows "\<exists>s' w'. ps2_common_post_load upd (s, w) = Inr (s', w')
    \<and> contents (queue s') = take (length (contents (queue s)))
        (concat (map (\<lambda>b. [b, 0, 0, 0]) (contents (queue s))))"
proof -
  let ?q = "queue s" and ?n = "nat (count (queue s))"
  have q: "0 \<le> rptr ?q" "0 \<le> count ?q" "count ?q \<le> 15" using assms(1) by (auto simp: queue_ok_def)
  let ?bytes = "concat (map (\<lambda>b. [b, 0, 0, 0]) (contents ?q)) :: u8 list"
  have tmp: "map int_bytes (map (\<lambda>i. uint (data ?q ! nat (rptr ?q + int i))) [0..<?n])
      = map (\<lambda>b. [b, 0, 0, 0]) (contents ?q)"
    using q assms(2) by (auto simp: contents_def int_bytes_byte)
  have len: "length ?bytes = 4 * ?n"
    using length_concat_int_bytes [of "map (\<lambda>i. uint (data ?q ! nat (rptr ?q + int i))) [0..<?n]"]
    unfolding tmp by simp
  have "contents (?q\<lparr>data := take ?n ?bytes @ d, rptr := 0, wptr := c, count := count ?q\<rparr>) = take ?n ?bytes"
    for d c using q(3) len by (auto simp: contents_def nth_append intro!: nth_equalityI)
  then show ?thesis unfolding post_load_run [OF assms(1)] tmp by simp
qed

theorem save_corrupts_queue_witness:
  "\<exists>s' w'. ps2_common_post_load pin
      (fst (ps2_queue pin 0x9e (ps2_queue pin 0x1e (\<lparr>queue = empty_queue, write_cmd = 0\<rparr>, False))), True) = Inr (s', w')
    \<and> contents (queue s') = [0x1e, 0]"
proof -
  let ?s = "ps2_queue pin 0x9e (ps2_queue pin 0x1e (\<lparr>queue = empty_queue, write_cmd = 0\<rparr>, False))"
  have q: "queue (fst ?s) = queue_put 0x9e (queue_put 0x1e empty_queue)" by (simp add: queue_put_step)
  have ok: "queue_ok (queue (fst ?s))" unfolding q by (intro queue_ok_put queue_ok_empty)
  have c: "contents (queue (fst ?s)) = [0x1e, 0x9e]" and r: "rptr (queue (fst ?s)) + count (queue (fst ?s)) \<le> 16"
    unfolding q by (simp_all add: contents_put queue_ok_put) (simp_all add: queue_put_def empty_queue_def)
  show ?thesis using save_corrupts_queue [OF ok r, of pin True] unfolding c by simp
qed

text \<open>
  The command that disables scanning (0xf5) clears \<^verbatim>\<open>scan_enabled\<close>, which nothing reads: key events
  are queued as if scanning were enabled.
\<close>

theorem scanning_cannot_be_disabled:
  "kbd_items (ps2_keyboard_event upd evt (k\<lparr>scan_enabled := False\<rparr>, w)) =
   kbd_items (ps2_keyboard_event upd evt (k\<lparr>scan_enabled := True\<rparr>, w))"
proof (cases evt)
  case (INPUT_EVENT_KIND_KEY key down)
  have reply: "kbd_reply upd b (s\<lparr>scan_enabled := e\<rparr>, v) =
      (let (t, v') = kbd_reply upd b (s, v) in (t\<lparr>scan_enabled := e\<rparr>, v'))" for b s e v
    by (simp add: on_kbd_def Let_def case_prod_unfold)
  have "fold (\<lambda>b. kbd_reply upd (uint b)) bs (s\<lparr>scan_enabled := e\<rparr>, v) =
      (let (t, v') = fold (\<lambda>b. kbd_reply upd (uint b)) bs (s, v) in (t\<lparr>scan_enabled := e\<rparr>, v'))"
    for bs :: "u8 list" and s e v
    by (induction bs arbitrary: s v) (simp_all add: reply case_prod_unfold Let_def)
  then show ?thesis by (simp add: INPUT_EVENT_KIND_KEY put_keycodes_puts case_prod_unfold Let_def)
qed simp_all

end
