(* ===== verification/Pckbd.thy ===== *)
theory Pckbd
  imports Ps2
begin

text \<open>
  The 8042 keyboard controller, src/Qemu-2.4.1/hw/input/pckbd.c.  \<open>KBDState\<close> holds the controller's registers;
  the two PS/2 devices it points to are further components of the record \<open>i8042\<close>.  Its outputs (the
  two interrupt lines, the A20 gate, the reset request) are functions on an external state \<open>'e\<close>,
  collected in \<open>kbd_ports\<close>.  For the devices the controller is what is behind their interrupt output.
\<close>

record KBDState =
  kbd_write_cmd :: u8
  status :: u8
  mode :: u8
  outport :: u8
  outport_present :: bool
  pending :: u8

record 'e kbd_ports =
  irq_kbd :: "'e qemu_irq"
  irq_mouse :: "'e qemu_irq"
  a20_out :: "'e qemu_irq option"
  qemu_system_reset_request :: "'e \<Rightarrow> 'e"

record 'e i8042 =
  kbd :: PS2KbdState
  mouse :: PS2MouseState
  ctl :: KBDState
  ext :: 'e

abbreviation KBD_PENDING_KBD :: u8 where "KBD_PENDING_KBD \<equiv> 1"
abbreviation KBD_PENDING_AUX :: u8 where "KBD_PENDING_AUX \<equiv> 2"

subsection \<open>Interrupts\<close>

definition kbd_update_irq :: "'e kbd_ports \<Rightarrow> KBDState \<times> 'e \<Rightarrow> KBDState \<times> 'e" where
  "kbd_update_irq p se =
     (let (s, e) = se;
          s1 = s\<lparr>status := status s AND NOT 0x21, outport := outport s AND NOT 0x30\<rparr>;
          (s2, irq_kbd_level, irq_mouse_level) =
            (if pending s1 \<noteq> 0 then
               let s2 = s1\<lparr>status := status s1 OR 0x01, outport := outport s1 OR 0x10\<rparr>
               in if pending s2 = KBD_PENDING_AUX then
                    (s2\<lparr>status := status s2 OR 0x20, outport := outport s2 OR 0x20\<rparr>, 0,
                     if mode s2 AND 0x02 \<noteq> 0 then 1 else 0)
                  else (s2, if mode s2 AND 0x01 \<noteq> 0 \<and> mode s2 AND 0x10 = 0 then 1 else 0, 0)
             else (s1, 0, 0))
      in (s2, irq_mouse p (irq_kbd p e irq_kbd_level) irq_mouse_level))"

definition kbd_update_kbd_irq :: "'e kbd_ports \<Rightarrow> (KBDState \<times> 'e) qemu_irq" where
  "kbd_update_kbd_irq p se level =
     (let (s, e) = se
      in kbd_update_irq p (s\<lparr>pending := (if level \<noteq> 0 then pending s OR KBD_PENDING_KBD
                                        else pending s AND NOT KBD_PENDING_KBD)\<rparr>, e))"

definition kbd_update_aux_irq :: "'e kbd_ports \<Rightarrow> (KBDState \<times> 'e) qemu_irq" where
  "kbd_update_aux_irq p se level =
     (let (s, e) = se
      in kbd_update_irq p (s\<lparr>pending := (if level \<noteq> 0 then pending s OR KBD_PENDING_AUX
                                        else pending s AND NOT KBD_PENDING_AUX)\<rparr>, e))"

text \<open>Running an operation of one of the devices inside the controller.\<close>

definition on_keyboard ::
  "(PS2KbdState \<times> KBDState \<times> 'e \<Rightarrow> PS2KbdState \<times> KBDState \<times> 'e) \<Rightarrow> 'e i8042 \<Rightarrow> 'e i8042" where
  "on_keyboard f st = (let (k, s, e) = f (kbd st, ctl st, ext st) in st\<lparr>kbd := k, ctl := s, ext := e\<rparr>)"

definition on_aux ::
  "(PS2MouseState \<times> KBDState \<times> 'e \<Rightarrow> PS2MouseState \<times> KBDState \<times> 'e) \<Rightarrow> 'e i8042 \<Rightarrow> 'e i8042" where
  "on_aux f st = (let (m, s, e) = f (mouse st, ctl st, ext st) in st\<lparr>mouse := m, ctl := s, ext := e\<rparr>)"

definition on_ctl :: "(KBDState \<times> 'e \<Rightarrow> KBDState \<times> 'e) \<Rightarrow> 'e i8042 \<Rightarrow> 'e i8042" where
  "on_ctl f st = (let (s, e) = f (ctl st, ext st) in st\<lparr>ctl := s, ext := e\<rparr>)"

subsection \<open>Ports\<close>

definition kbd_read_status :: "'e i8042 \<Rightarrow> u8" where
  "kbd_read_status st = status (ctl st)"

definition pckbd_queue :: "'e kbd_ports \<Rightarrow> int \<Rightarrow> bool \<Rightarrow> 'e i8042 \<Rightarrow> 'e i8042" where
  "pckbd_queue p b aux st =
     (if aux then on_aux (mouse_reply (kbd_update_aux_irq p) b) st
      else on_keyboard (kbd_reply (kbd_update_kbd_irq p) b) st)"

definition outport_write :: "'e kbd_ports \<Rightarrow> u8 \<Rightarrow> KBDState \<times> 'e \<Rightarrow> KBDState \<times> 'e" where
  "outport_write p val se =
     (let (s, e) = se;
          e1 = (case a20_out p of None \<Rightarrow> e | Some f \<Rightarrow> f e (if bit val 1 then 1 else 0));
          e2 = (if val AND 1 = 0 then qemu_system_reset_request p e1 else e1)
      in (s\<lparr>outport := val\<rparr>, e2))"

text \<open>\<^verbatim>\<open>kbd_write_command\<close>; an unsupported command only prints a message.\<close>

definition kbd_write_command :: "'e kbd_ports \<Rightarrow> u8 \<Rightarrow> 'e i8042 \<Rightarrow> 'e i8042" where
  "kbd_write_command p val0 st =
     (let val = (if val0 AND 0xf0 = 0xf0 then if val0 AND 1 = 0 then 0xfe else 0xff else val0);
          s = ctl st
      in if val = 0x20 then pckbd_queue p (uint (mode s)) False st
         else if val = 0x60 \<or> val = 0xd2 \<or> val = 0xd3 \<or> val = 0xd4 \<or> val = 0xd1 then
           st\<lparr>ctl := s\<lparr>kbd_write_cmd := val\<rparr>\<rparr>
         else if val = 0xa7 then st\<lparr>ctl := s\<lparr>mode := mode s OR 0x20\<rparr>\<rparr>
         else if val = 0xa8 then st\<lparr>ctl := s\<lparr>mode := mode s AND NOT 0x20\<rparr>\<rparr>
         else if val = 0xa9 then pckbd_queue p 0x00 False st
         else if val = 0xaa then
           pckbd_queue p 0x55 False (st\<lparr>ctl := s\<lparr>status := status s OR 0x04\<rparr>\<rparr>)
         else if val = 0xab then pckbd_queue p 0x00 False st
         else if val = 0xad then on_ctl (kbd_update_irq p) (st\<lparr>ctl := s\<lparr>mode := mode s OR 0x10\<rparr>\<rparr>)
         else if val = 0xae then on_ctl (kbd_update_irq p) (st\<lparr>ctl := s\<lparr>mode := mode s AND NOT 0x10\<rparr>\<rparr>)
         else if val = 0xc0 then pckbd_queue p 0x80 False st
         else if val = 0xd0 then pckbd_queue p (uint (outport s)) False st
         else if val = 0xdf then
           st\<lparr>ctl := s\<lparr>outport := outport s OR 0x02\<rparr>,
              ext := (case a20_out p of None \<Rightarrow> ext st | Some f \<Rightarrow> f (ext st) 1)\<rparr>
         else if val = 0xdd then
           st\<lparr>ctl := s\<lparr>outport := outport s AND NOT 0x02\<rparr>,
              ext := (case a20_out p of None \<Rightarrow> ext st | Some f \<Rightarrow> f (ext st) 0)\<rparr>
         else if val = 0xfe then st\<lparr>ext := qemu_system_reset_request p (ext st)\<rparr>
         else st)"

definition kbd_read_data :: "'e kbd_ports \<Rightarrow> 'e i8042 \<Rightarrow> u8 \<times> 'e i8042" where
  "kbd_read_data p st =
     (if pending (ctl st) = KBD_PENDING_AUX
      then (fst (ps2_mouse_read (kbd_update_aux_irq p) (mouse st, ctl st, ext st)),
            on_aux (\<lambda>d. snd (ps2_mouse_read (kbd_update_aux_irq p) d)) st)
      else (fst (ps2_kbd_read (kbd_update_kbd_irq p) (kbd st, ctl st, ext st)),
            on_keyboard (\<lambda>d. snd (ps2_kbd_read (kbd_update_kbd_irq p) d)) st))"

definition kbd_write_data :: "'e kbd_ports \<Rightarrow> u8 \<Rightarrow> 'e i8042 \<Rightarrow> 'e i8042" where
  "kbd_write_data p val st =
     (let c = kbd_write_cmd (ctl st);
          st1 = (if c = 0 then on_keyboard (ps2_write_keyboard (kbd_update_kbd_irq p) (uint val)) st
                 else if c = 0x60 then
                   on_ctl (kbd_update_irq p)
                     (st\<lparr>kbd := ps2_keyboard_set_translation (val AND 0x40 \<noteq> 0) (kbd st),
                         ctl := (ctl st)\<lparr>mode := val\<rparr>\<rparr>)
                 else if c = 0xd2 then pckbd_queue p (uint val) False st
                 else if c = 0xd3 then pckbd_queue p (uint val) True st
                 else if c = 0xd1 then on_ctl (outport_write p val) st
                 else if c = 0xd4 then on_aux (ps2_write_mouse (kbd_update_aux_irq p) (uint val)) st
                 else st)
      in st1\<lparr>ctl := (ctl st1)\<lparr>kbd_write_cmd := 0\<rparr>\<rparr>)"

definition kbd_mm_readb :: "'e kbd_ports \<Rightarrow> u64 \<Rightarrow> u64 \<Rightarrow> 'e i8042 \<Rightarrow> u8 \<times> 'e i8042" where
  "kbd_mm_readb p reg_mask addr st =
     (if addr AND reg_mask \<noteq> 0 then (kbd_read_status st, st) else kbd_read_data p st)"

definition kbd_mm_writeb :: "'e kbd_ports \<Rightarrow> u64 \<Rightarrow> u64 \<Rightarrow> u32 \<Rightarrow> 'e i8042 \<Rightarrow> 'e i8042" where
  "kbd_mm_writeb p reg_mask addr val st =
     (if addr AND reg_mask \<noteq> 0 then kbd_write_command p (ucast val) st else kbd_write_data p (ucast val) st)"

definition i8042_isa_mouse_fake_event :: "'e kbd_ports \<Rightarrow> 'e i8042 \<Rightarrow> 'e i8042" where
  "i8042_isa_mouse_fake_event p = on_aux (ps2_mouse_fake_event (kbd_update_aux_irq p))"

subsection \<open>Reset and migration\<close>

definition kbd_reset :: "KBDState \<Rightarrow> KBDState" where
  "kbd_reset s = s\<lparr>mode := 0x03, status := 0x18, outport := 0xcf, outport_present := False\<rparr>"

definition kbd_outport_default :: "KBDState \<Rightarrow> u8" where
  "kbd_outport_default s =
     0xcf OR (if status s AND 0x01 \<noteq> 0 then 0x10 else 0) OR (if status s AND 0x20 \<noteq> 0 then 0x20 else 0)"

definition kbd_outport_needed :: "KBDState \<Rightarrow> bool" where
  "kbd_outport_needed s \<longleftrightarrow> outport s \<noteq> kbd_outport_default s"

definition kbd_outport_post_load :: "KBDState \<Rightarrow> KBDState" where
  "kbd_outport_post_load s = s\<lparr>outport_present := True\<rparr>"

definition kbd_post_load :: "KBDState \<Rightarrow> KBDState" where
  "kbd_post_load s =
     (if outport_present s then s else s\<lparr>outport := kbd_outport_default s\<rparr>)\<lparr>outport_present := False\<rparr>"

text \<open>The reset handlers in the order in which \<^verbatim>\<open>i8042_realizefn\<close> registers them.\<close>

definition i8042_reset :: "'e kbd_ports \<Rightarrow> 'e i8042 \<Rightarrow> 'e i8042" where
  "i8042_reset p st =
     (let st1 = on_aux (ps2_mouse_reset (kbd_update_aux_irq p))
                  (on_keyboard (ps2_kbd_reset (kbd_update_kbd_irq p)) st)
      in st1\<lparr>ctl := kbd_reset (ctl st1)\<rparr>)"

definition i8042_realizefn :: "'e \<Rightarrow> 'e i8042" where
  "i8042_realizefn e =
     \<lparr>kbd = ps2_kbd_init, mouse = ps2_mouse_init,
      ctl = \<lparr>kbd_write_cmd = 0, status = 0, mode = 0, outport = 0, outport_present = False, pending = 0\<rparr>,
      ext = e\<rparr>"

section \<open>What the devices keep of the controller\<close>

context irq_inv
begin

lemma inv_queue: "inv (snd sw) \<Longrightarrow> inv (snd (ps2_queue out b sw))"
  by (cases sw) (simp add: ps2_queue_def Let_def inv_out)

lemma inv_read: "inv (snd sw) \<Longrightarrow> inv (snd (snd (ps2_read_data out sw)))"
  by (cases sw) (simp add: ps2_read_data_def Let_def inv_out)

lemma inv_reset: "inv (snd sw) \<Longrightarrow> inv (snd (ps2_common_reset out sw))"
  by (cases sw) (simp add: ps2_common_reset_def Let_def inv_out)

lemma inv_kbd_reply: "inv (snd kw) \<Longrightarrow> inv (snd (kbd_reply out b kw))"
  using inv_queue [of "(k_common (fst kw), snd kw)" b] by (simp add: on_kbd_def Let_def case_prod_unfold)

lemma inv_mouse_reply: "inv (snd mw) \<Longrightarrow> inv (snd (mouse_reply out b mw))"
  using inv_queue [of "(m_common (fst mw), snd mw)" b] by (simp add: on_mouse_def Let_def case_prod_unfold)

lemma inv_kbd_replies: "inv (snd kw) \<Longrightarrow> inv (snd (fold (\<lambda>b. kbd_reply out (f b)) bs kw))"
  by (induction bs arbitrary: kw) (simp_all add: inv_kbd_reply)

lemma inv_put_keycode: "inv (snd kw) \<Longrightarrow> inv (snd (ps2_put_keycode out c kw))"
  by (simp add: put_keycode_puts inv_kbd_replies)

lemma inv_keyboard_event: "inv (snd kw) \<Longrightarrow> inv (snd (ps2_keyboard_event out evt kw))"
  by (cases evt) (simp_all add: put_keycodes_puts inv_kbd_replies)

lemma inv_set_write_cmd [simp]: "snd (set_write_cmd c kw) = snd kw"
  by (simp add: set_write_cmd_def case_prod_unfold)

lemma inv_kbd_command: "inv (snd kw) \<Longrightarrow> inv (snd (ps2_kbd_command out val kw))"
  by (cases kw) (simp add: ps2_kbd_command_def Let_def inv_kbd_reply)

lemma inv_write_keyboard: "inv (snd kw) \<Longrightarrow> inv (snd (ps2_write_keyboard out val kw))"
  by (cases kw) (simp add: ps2_write_keyboard_def Let_def inv_kbd_reply inv_kbd_command inv_put_keycode)

lemma inv_kbd_reset: "inv (snd kw) \<Longrightarrow> inv (snd (ps2_kbd_reset out kw))"
  using inv_reset [of "(k_common (fst kw), snd kw)"]
  by (simp add: ps2_kbd_reset_def on_kbd_def Let_def case_prod_unfold)

lemma inv_kbd_read: "inv (snd kw) \<Longrightarrow> inv (snd (snd (ps2_kbd_read out kw)))"
  using inv_read [of "(k_common (fst kw), snd kw)"] by (simp add: ps2_kbd_read_def Let_def case_prod_unfold)

lemma inv_send_packet: "inv (snd mw) \<Longrightarrow> inv (snd (ps2_mouse_send_packet out mw))"
  by (simp add: ps2_mouse_send_packet_def Let_def case_prod_unfold inv_mouse_reply)

lemma inv_mouse_sync_loop: "inv (snd mw) \<Longrightarrow> inv (snd (mouse_sync_loop out mw))"
proof (induction upd \<equiv> out mw rule: mouse_sync_loop.induct)
  case (1 mw)
  then show ?case by (auto simp: mouse_sync_loop.simps [of out mw] Let_def inv_send_packet)
qed

lemma inv_mouse_sync: "inv (snd mw) \<Longrightarrow> inv (snd (ps2_mouse_sync out mw))"
  by (simp add: ps2_mouse_sync_def inv_mouse_sync_loop)

lemma inv_mouse_fake: "inv (snd mw) \<Longrightarrow> inv (snd (ps2_mouse_fake_event out mw))"
  by (simp add: ps2_mouse_fake_event_def inv_mouse_sync)

lemma inv_end_mouse_cmd [simp]: "snd (end_mouse_cmd mw) = snd mw"
  by (simp add: end_mouse_cmd_def case_prod_unfold)

lemma inv_mouse_command: "inv (snd mw) \<Longrightarrow> inv (snd (ps2_mouse_command out val mw))"
  by (cases mw) (simp add: ps2_mouse_command_def Let_def inv_mouse_reply inv_send_packet)

lemma inv_write_mouse: "inv (snd mw) \<Longrightarrow> inv (snd (ps2_write_mouse out val mw))"
  by (cases mw) (simp add: ps2_write_mouse_def Let_def inv_mouse_reply inv_mouse_command)

lemma inv_mouse_reset: "inv (snd mw) \<Longrightarrow> inv (snd (ps2_mouse_reset out mw))"
  using inv_reset [of "(m_common (fst mw), snd mw)"]
  by (simp add: ps2_mouse_reset_def on_mouse_def Let_def case_prod_unfold)

lemma inv_mouse_read: "inv (snd mw) \<Longrightarrow> inv (snd (snd (ps2_mouse_read out mw)))"
  using inv_read [of "(m_common (fst mw), snd mw)"] by (simp add: ps2_mouse_read_def Let_def case_prod_unfold)

lemmas kbd_ops_inv = inv_kbd_reply inv_keyboard_event inv_write_keyboard inv_kbd_reset inv_kbd_read
  and mouse_ops_inv = inv_mouse_reply inv_mouse_sync inv_mouse_fake inv_write_mouse inv_mouse_reset inv_mouse_read

end

section \<open>The controller as the far end of the devices\<close>

abbreviation kbd_pending :: "KBDState \<times> 'e \<Rightarrow> bool" where
  "kbd_pending se \<equiv> bit (pending (fst se)) 0"

abbreviation aux_pending :: "KBDState \<times> 'e \<Rightarrow> bool" where
  "aux_pending se \<equiv> bit (pending (fst se)) 1"

lemma pending_update [simp]: "pending (fst (kbd_update_irq p se)) = pending (fst se)"
  and mode_update [simp]: "mode (fst (kbd_update_irq p se)) = mode (fst se)"
  by (simp_all add: kbd_update_irq_def Let_def case_prod_unfold)

lemma pending_kbd_irq:
  "bit (pending (fst (kbd_update_kbd_irq p se l))) i = (if i = 0 then l \<noteq> 0 else bit (pending (fst se)) i)"
  by (cases se) (auto simp: kbd_update_kbd_irq_def bit_simps dest: bit_imp_le_length)

lemma pending_aux_irq:
  "bit (pending (fst (kbd_update_aux_irq p se l))) i = (if i = 1 then l \<noteq> 0 else bit (pending (fst se)) i)"
  using bit_line_mask [of 1 i, where ?'a = 8]
  by (cases se) (auto simp: kbd_update_aux_irq_def bit_simps dest: bit_imp_le_length)

interpretation kbd_wire: wire "kbd_update_kbd_irq p" kbd_pending for p :: "'e kbd_ports"
  by unfold_locales (simp only: pending_kbd_irq, simp)

interpretation aux_wire: wire "kbd_update_aux_irq p" aux_pending for p :: "'e kbd_ports"
  by unfold_locales (simp only: pending_aux_irq, simp)

interpretation kbd_keeps: irq_inv "kbd_update_kbd_irq p" "\<lambda>se. aux_pending se = b" for p :: "'e kbd_ports" and b
  by unfold_locales (simp add: pending_kbd_irq)

interpretation aux_keeps: irq_inv "kbd_update_aux_irq p" "\<lambda>se. kbd_pending se = b" for p :: "'e kbd_ports" and b
  by unfold_locales (simp only: pending_aux_irq, simp)

section \<open>The controller's outputs\<close>

text \<open>
  What the controller promises: no other bit of \<open>pending\<close> is used, the status register shows whether
  there is data and whose, and each interrupt line is high exactly when data of its device is next
  and the mode register allows the interrupt.
\<close>

definition ctl_ok :: "('e \<Rightarrow> bool) \<Rightarrow> ('e \<Rightarrow> bool) \<Rightarrow> KBDState \<times> 'e \<Rightarrow> bool" where
  "ctl_ok lev1 lev12 se \<longleftrightarrow>
     (let (s, e) = se
      in pending s \<in> {0, 1, 2, 3}
       \<and> (bit (status s) 0 \<longleftrightarrow> pending s \<noteq> 0) \<and> (bit (status s) 5 \<longleftrightarrow> pending s = KBD_PENDING_AUX)
       \<and> (lev1 e \<longleftrightarrow> pending s \<noteq> 0 \<and> pending s \<noteq> KBD_PENDING_AUX \<and> bit (mode s) 0 \<and> \<not> bit (mode s) 4)
       \<and> (lev12 e \<longleftrightarrow> pending s = KBD_PENDING_AUX \<and> bit (mode s) 1))"

text \<open>What the controller relies on: its two lines lead to different places, and neither the A20 gate
  nor a reset request touches them.\<close>

locale kbc_board =
  fixes p :: "'e kbd_ports" and lev1 lev12 :: "'e \<Rightarrow> bool"
  assumes lev1_kbd [simp]: "lev1 (irq_kbd p e l) \<longleftrightarrow> l \<noteq> 0"
    and lev1_mouse [simp]: "lev1 (irq_mouse p e l) \<longleftrightarrow> lev1 e"
    and lev12_mouse [simp]: "lev12 (irq_mouse p e l) \<longleftrightarrow> l \<noteq> 0"
    and lev12_kbd [simp]: "lev12 (irq_kbd p e l) \<longleftrightarrow> lev12 e"
    and a20_keeps: "a20_out p = Some f \<Longrightarrow> lev1 (f e l) = lev1 e \<and> lev12 (f e l) = lev12 e"
    and reset_keeps [simp]: "lev1 (qemu_system_reset_request p e) = lev1 e"
      "lev12 (qemu_system_reset_request p e) = lev12 e"
begin

lemma update_irq_ok:
  assumes "pending s \<in> {0, 1, 2, 3}"
  shows "ctl_ok lev1 lev12 (kbd_update_irq p (s, e))"
proof -
  from assms consider "pending s = 0" | "pending s = 1" | "pending s = 2" | "pending s = 3" by blast
  then show ?thesis
    by cases (simp_all add: kbd_update_irq_def ctl_ok_def Let_def flag_simps bit_or_iff bit_and_iff)
qed

lemma pending_set:
  assumes "x \<in> {0, 1, 2, 3 :: u8}"
  shows "x OR KBD_PENDING_KBD \<in> {0, 1, 2, 3}" "x AND NOT KBD_PENDING_KBD \<in> {0, 1, 2, 3}"
    "x OR KBD_PENDING_AUX \<in> {0, 1, 2, 3}" "x AND NOT KBD_PENDING_AUX \<in> {0, 1, 2, 3}"
  using assms by auto

lemma ctl_ok_pending: "ctl_ok lev1 lev12 (s, e) \<Longrightarrow> pending s \<in> {0, 1, 2, 3}"
  by (simp add: ctl_ok_def)

lemma kbd_irq_ok: "ctl_ok lev1 lev12 se \<Longrightarrow> ctl_ok lev1 lev12 (kbd_update_kbd_irq p se l)"
  using pending_set [OF ctl_ok_pending, of "fst se" "snd se"]
  unfolding kbd_update_kbd_irq_def by (cases se) (simp add: update_irq_ok del: insert_iff)

lemma aux_irq_ok: "ctl_ok lev1 lev12 se \<Longrightarrow> ctl_ok lev1 lev12 (kbd_update_aux_irq p se l)"
  using pending_set [OF ctl_ok_pending, of "fst se" "snd se"]
  unfolding kbd_update_aux_irq_def by (cases se) (simp add: update_irq_ok del: insert_iff)

end

sublocale kbc_board \<subseteq> kbd_out: irq_inv "kbd_update_kbd_irq p" "ctl_ok lev1 lev12"
  by unfold_locales (rule kbd_irq_ok)

sublocale kbc_board \<subseteq> aux_out: irq_inv "kbd_update_aux_irq p" "ctl_ok lev1 lev12"
  by unfold_locales (rule aux_irq_ok)

section \<open>The whole controller\<close>

definition i8042_ok :: "('e \<Rightarrow> bool) \<Rightarrow> ('e \<Rightarrow> bool) \<Rightarrow> 'e i8042 \<Rightarrow> bool" where
  "i8042_ok lev1 lev12 st \<longleftrightarrow> ctl_ok lev1 lev12 (ctl st, ext st)
     \<and> dev_ok kbd_pending (k_common (kbd st), ctl st, ext st)
     \<and> dev_ok aux_pending (m_common (mouse st), ctl st, ext st)"

lemma on_keyboard_ok:
  assumes "i8042_ok lev1 lev12 st"
    and "dev_ok kbd_pending (kbd_dev (f (kbd st, ctl st, ext st)))"
    and "ctl_ok lev1 lev12 (snd (f (kbd st, ctl st, ext st)))"
    and "aux_pending (snd (f (kbd st, ctl st, ext st))) = aux_pending (ctl st, ext st)"
  shows "i8042_ok lev1 lev12 (on_keyboard f st)"
  using assms by (simp add: i8042_ok_def on_keyboard_def Let_def case_prod_unfold) (simp add: dev_ok_def)

lemma on_aux_ok:
  assumes "i8042_ok lev1 lev12 st"
    and "dev_ok aux_pending (mouse_dev (f (mouse st, ctl st, ext st)))"
    and "ctl_ok lev1 lev12 (snd (f (mouse st, ctl st, ext st)))"
    and "kbd_pending (snd (f (mouse st, ctl st, ext st))) = kbd_pending (ctl st, ext st)"
  shows "i8042_ok lev1 lev12 (on_aux f st)"
  using assms by (simp add: i8042_ok_def on_aux_def Let_def case_prod_unfold) (simp add: dev_ok_def)

text \<open>Everything that can happen to the controller and its devices: events from the input layer,
  accesses by the guest, reset.\<close>

inductive i8042_step :: "'e kbd_ports \<Rightarrow> 'e i8042 \<Rightarrow> 'e i8042 \<Rightarrow> bool" for p where
  step_key: "i8042_step p st (on_keyboard (ps2_keyboard_event (kbd_update_kbd_irq p) evt) st)"
| step_motion: "i8042_step p st (st\<lparr>mouse := ps2_mouse_event evt (mouse st)\<rparr>)"
| step_sync: "i8042_step p st (on_aux (ps2_mouse_sync (kbd_update_aux_irq p)) st)"
| step_fake: "i8042_step p st (i8042_isa_mouse_fake_event p st)"
| step_command: "i8042_step p st (kbd_write_command p val st)"
| step_data: "i8042_step p st (kbd_write_data p val st)"
| step_read: "i8042_step p st (snd (kbd_read_data p st))"
| step_reset: "i8042_step p st (i8042_reset p st)"

context kbc_board
begin

abbreviation good :: "'e i8042 \<Rightarrow> bool" where
  "good \<equiv> i8042_ok lev1 lev12"

lemma good_ctl: "good st \<Longrightarrow> ctl_ok lev1 lev12 (ctl st, ext st)"
  and good_kbd: "good st \<Longrightarrow> dev_ok kbd_pending (k_common (kbd st), ctl st, ext st)"
  and good_aux: "good st \<Longrightarrow> dev_ok aux_pending (m_common (mouse st), ctl st, ext st)"
  by (simp_all add: i8042_ok_def)

lemma keyboard_good:
  assumes "good st"
    and "\<And>kw. dev_ok kbd_pending (kbd_dev kw) \<Longrightarrow> dev_ok kbd_pending (kbd_dev (f kw))"
    and "\<And>kw. ctl_ok lev1 lev12 (snd kw) \<Longrightarrow> ctl_ok lev1 lev12 (snd (f kw))"
    and "\<And>kw b. aux_pending (snd kw) = b \<Longrightarrow> aux_pending (snd (f kw)) = b"
  shows "good (on_keyboard f st)"
proof (rule on_keyboard_ok [OF assms(1)])
  let ?kw = "(kbd st, ctl st, ext st)"
  show "dev_ok kbd_pending (kbd_dev (f ?kw))" using good_kbd [OF assms(1)] by (intro assms(2)) (simp only: fst_conv snd_conv)
  show "ctl_ok lev1 lev12 (snd (f ?kw))" by (rule assms(3)) (simp add: good_ctl [OF assms(1)])
  show "aux_pending (snd (f ?kw)) = aux_pending (ctl st, ext st)" by (rule assms(4)) simp
qed

lemma aux_good:
  assumes "good st"
    and "\<And>mw. dev_ok aux_pending (mouse_dev mw) \<Longrightarrow> dev_ok aux_pending (mouse_dev (f mw))"
    and "\<And>mw. ctl_ok lev1 lev12 (snd mw) \<Longrightarrow> ctl_ok lev1 lev12 (snd (f mw))"
    and "\<And>mw b. kbd_pending (snd mw) = b \<Longrightarrow> kbd_pending (snd (f mw)) = b"
  shows "good (on_aux f st)"
proof (rule on_aux_ok [OF assms(1)])
  let ?mw = "(mouse st, ctl st, ext st)"
  show "dev_ok aux_pending (mouse_dev (f ?mw))" using good_aux [OF assms(1)] by (intro assms(2)) (simp only: fst_conv snd_conv)
  show "ctl_ok lev1 lev12 (snd (f ?mw))" by (rule assms(3)) (simp add: good_ctl [OF assms(1)])
  show "kbd_pending (snd (f ?mw)) = kbd_pending (ctl st, ext st)" by (rule assms(4)) simp
qed

lemma key_good: "good st \<Longrightarrow> good (on_keyboard (ps2_keyboard_event (kbd_update_kbd_irq p) evt) st)"
  and reply_good: "good st \<Longrightarrow> good (on_keyboard (kbd_reply (kbd_update_kbd_irq p) b) st)"
  and write_good: "good st \<Longrightarrow> good (on_keyboard (ps2_write_keyboard (kbd_update_kbd_irq p) val) st)"
  and reset_good: "good st \<Longrightarrow> good (on_keyboard (ps2_kbd_reset (kbd_update_kbd_irq p)) st)"
  and kbd_read_good: "good st \<Longrightarrow> good (on_keyboard (\<lambda>d. snd (ps2_kbd_read (kbd_update_kbd_irq p) d)) st)"
  by (erule keyboard_good;
      erule kbd_wire.keyboard_event_ok kbd_wire.kbd_reply_ok kbd_wire.write_keyboard_ok
        kbd_wire.kbd_reset_ok kbd_wire.kbd_read_ok kbd_out.kbd_ops_inv kbd_keeps.kbd_ops_inv)+

lemma sync_good: "good st \<Longrightarrow> good (on_aux (ps2_mouse_sync (kbd_update_aux_irq p)) st)"
  and aux_reply_good: "good st \<Longrightarrow> good (on_aux (mouse_reply (kbd_update_aux_irq p) b) st)"
  and aux_write_good: "good st \<Longrightarrow> good (on_aux (ps2_write_mouse (kbd_update_aux_irq p) val) st)"
  and aux_reset_good: "good st \<Longrightarrow> good (on_aux (ps2_mouse_reset (kbd_update_aux_irq p)) st)"
  and aux_fake_good: "good st \<Longrightarrow> good (on_aux (ps2_mouse_fake_event (kbd_update_aux_irq p)) st)"
  and aux_read_good: "good st \<Longrightarrow> good (on_aux (\<lambda>d. snd (ps2_mouse_read (kbd_update_aux_irq p) d)) st)"
  by (erule aux_good;
      erule aux_wire.mouse_sync_ok aux_wire.mouse_reply_ok aux_wire.write_mouse_ok
        aux_wire.mouse_reset_ok aux_wire.mouse_fake_ok aux_wire.mouse_read_ok
        aux_out.mouse_ops_inv aux_keeps.mouse_ops_inv)+

lemma queue_good: "good st \<Longrightarrow> good (pckbd_queue p b aux st)"
  by (simp add: pckbd_queue_def reply_good aux_reply_good)

lemma ctl_good:
  assumes "good st" "pending s' = pending (ctl st)" "ctl_ok lev1 lev12 (s', e')"
  shows "good (st\<lparr>ctl := s', ext := e'\<rparr>)"
  using assms by (simp add: i8042_ok_def) (simp add: dev_ok_def)

lemma regs_good:
  assumes "good st" "pending s' = pending (ctl st)" "bit (status s') 0 = bit (status (ctl st)) 0"
    "bit (status s') 5 = bit (status (ctl st)) 5" "\<And>i. i < 5 \<Longrightarrow> bit (mode s') i = bit (mode (ctl st)) i"
  shows "good (st\<lparr>ctl := s'\<rparr>)"
  using ctl_good [OF assms(1,2), of "ext st"] good_ctl [OF assms(1)] assms(2-)
  by (simp add: ctl_ok_def)

lemma update_good: "good (st\<lparr>ctl := ctl st\<rparr>) \<Longrightarrow> pending s' = pending (ctl st) \<Longrightarrow> good (on_ctl (kbd_update_irq p) (st\<lparr>ctl := s'\<rparr>))"
  using ctl_good [of st "fst (kbd_update_irq p (s', ext st))" "snd (kbd_update_irq p (s', ext st))"]
    update_irq_ok [of s' "ext st"] ctl_ok_pending [OF good_ctl, of st]
  by (simp add: on_ctl_def Let_def case_prod_unfold)

lemma a20_good:
  assumes "good st"
  shows "good (st\<lparr>ctl := (ctl st)\<lparr>outport := x\<rparr>, ext := (case a20_out p of None \<Rightarrow> ext st | Some f \<Rightarrow> f (ext st) l)\<rparr>)"
  using good_ctl [OF assms] a20_keeps
  by (intro ctl_good [OF assms]) (auto simp: ctl_ok_def split: option.split)

lemma request_good: "good st \<Longrightarrow> good (st\<lparr>ext := qemu_system_reset_request p (ext st)\<rparr>)"
  using ctl_good [of st "ctl st" "qemu_system_reset_request p (ext st)"] good_ctl [of st]
  by (simp add: ctl_ok_def)

lemma outport_good: "good st \<Longrightarrow> good (on_ctl (outport_write p val) st)"
proof -
  assume g: "good st"
  let ?e = "case a20_out p of None \<Rightarrow> ext st | Some f \<Rightarrow> f (ext st) (if bit val 1 then 1 else 0)"
  have "lev1 ?e = lev1 (ext st)" "lev12 ?e = lev12 (ext st)" using a20_keeps by (auto split: option.split)
  then have "ctl_ok lev1 lev12 (outport_write p val (ctl st, ext st))"
    using good_ctl [OF g] by (simp add: ctl_ok_def outport_write_def Let_def)
  then show ?thesis
    using ctl_good [OF g, of "fst (outport_write p val (ctl st, ext st))"]
    by (simp add: on_ctl_def Let_def case_prod_unfold) (simp add: outport_write_def Let_def case_prod_unfold)
qed

lemma command_good: "good st \<Longrightarrow> good (kbd_write_command p val st)"
proof -
  assume g: "good st"
  have b32: "\<not> bit (32 :: u8) i" if "i < 5" for i
    using that bit_line_mask [of 5 i, where ?'a = 8] by auto
  have bits: "bit (mode (ctl st) OR 32) i = bit (mode (ctl st)) i"
    "bit (mode (ctl st) AND NOT 32) i = bit (mode (ctl st)) i" if "i < 5" for i
    using b32 [OF that] that by (auto simp: bit_simps)
  have "good (st\<lparr>ctl := (ctl st)\<lparr>kbd_write_cmd := x\<rparr>\<rparr>)" "good (st\<lparr>ctl := (ctl st)\<lparr>mode := mode (ctl st) OR 0x20\<rparr>\<rparr>)"
    "good (st\<lparr>ctl := (ctl st)\<lparr>mode := mode (ctl st) AND NOT 0x20\<rparr>\<rparr>)"
    "good (st\<lparr>ctl := (ctl st)\<lparr>status := status (ctl st) OR 0x04\<rparr>\<rparr>)" for x
    by (rule regs_good [OF g]; use bits in \<open>simp add: bit_or_iff b32\<close>)+
  moreover have "good (on_ctl (kbd_update_irq p) (st\<lparr>ctl := (ctl st)\<lparr>mode := x\<rparr>\<rparr>))" for x
    using g by (intro update_good) simp_all
  moreover note a20_good [OF g, where x = "outport (ctl st) OR 2" and l = 1]
    a20_good [OF g, where x = "outport (ctl st) AND NOT 2" and l = 0]
  ultimately show ?thesis
    using g by (simp add: kbd_write_command_def Let_def queue_good request_good)
qed

lemma data_good: "good st \<Longrightarrow> good (kbd_write_data p val st)"
proof -
  assume g: "good st"
  have clear: "good (st1\<lparr>ctl := (ctl st1)\<lparr>kbd_write_cmd := 0\<rparr>\<rparr>)" if "good st1" for st1
    by (rule regs_good [OF that]) simp_all
  have "good (st\<lparr>kbd := ps2_keyboard_set_translation b (kbd st)\<rparr>)" for b
    using g by (simp add: i8042_ok_def ps2_keyboard_set_translation_def)
  from update_good [of "st\<lparr>kbd := ps2_keyboard_set_translation (val AND 0x40 \<noteq> 0) (kbd st)\<rparr>" "(ctl st)\<lparr>mode := val\<rparr>"] this
  have "good (on_ctl (kbd_update_irq p) (st\<lparr>kbd := ps2_keyboard_set_translation (val AND 0x40 \<noteq> 0) (kbd st),
      ctl := (ctl st)\<lparr>mode := val\<rparr>\<rparr>))" by simp
  then show ?thesis
    unfolding kbd_write_data_def Let_def using g
    by (intro clear) (simp add: write_good queue_good outport_good aux_write_good)
qed

lemma read_good: "good st \<Longrightarrow> good (snd (kbd_read_data p st))"
  by (simp add: kbd_read_data_def kbd_read_good aux_read_good)

lemma motion_good: "good st \<Longrightarrow> good (st\<lparr>mouse := ps2_mouse_event evt (mouse st)\<rparr>)"
  by (simp add: i8042_ok_def aux_wire.mouse_event_common del: ps2_mouse_event.simps)

lemma reset_all_good: "good st \<Longrightarrow> good (i8042_reset p st)"
proof -
  assume g: "good st"
  let ?st = "on_aux (ps2_mouse_reset (kbd_update_aux_irq p)) (on_keyboard (ps2_kbd_reset (kbd_update_kbd_irq p)) st)"
  have g': "good ?st" using g by (simp add: reset_good aux_reset_good)
  have empty: "count (queue (k_common (kbd ?st))) = 0" "count (queue (m_common (mouse ?st))) = 0"
    by (simp_all add: on_aux_def on_keyboard_def ps2_kbd_reset_def ps2_mouse_reset_def on_kbd_def on_mouse_def
        ps2_common_reset_def Let_def case_prod_unfold)
  have "\<not> bit (pending (ctl ?st)) 0" "\<not> bit (pending (ctl ?st)) 1"
    using good_kbd [OF g'] good_aux [OF g'] empty by (simp_all add: dev_ok_def)
  then have "pending (ctl ?st) = 0"
    using ctl_ok_pending [OF good_ctl [OF g']] by auto
  then show ?thesis
    using good_ctl [OF g'] ctl_good [OF g', of "kbd_reset (ctl ?st)" "ext ?st"]
    unfolding i8042_reset_def Let_def by (simp add: kbd_reset_def ctl_ok_def)
qed

lemma step_good: "i8042_step p st st' \<Longrightarrow> good st \<Longrightarrow> good st'"
  by (induction rule: i8042_step.induct)
    (simp_all add: key_good motion_good sync_good aux_fake_good command_good data_good read_good reset_all_good
      i8042_isa_mouse_fake_event_def del: ps2_mouse_event.simps ps2_keyboard_event.simps)

lemma run_good: "(i8042_step p)\<^sup>*\<^sup>* st st' \<Longrightarrow> good st \<Longrightarrow> good st'"
  by (induction rule: rtranclp_induct) (auto intro: step_good)

lemma realize_good: "\<not> lev1 e \<Longrightarrow> \<not> lev12 e \<Longrightarrow> good (i8042_realizefn e)"
  using queue_ok_empty(1)
  by (simp add: i8042_ok_def i8042_realizefn_def ctl_ok_def dev_ok_def ps2_kbd_init_def ps2_mouse_init_def)
    (simp add: empty_queue_def)

text \<open>A read of the data port takes from the keyboard while it has data, and from the mouse only when
  the keyboard has none.\<close>

lemma pending_iff:
  assumes "good st"
  shows "bit (pending (ctl st)) 0 \<longleftrightarrow> contents (queue (k_common (kbd st))) \<noteq> []"
    "bit (pending (ctl st)) 1 \<longleftrightarrow> contents (queue (m_common (mouse st))) \<noteq> []"
proof -
  have empty: "contents q = [] \<longleftrightarrow> count q = 0" if "queue_ok q" for q
    using that length_contents [of q] by (auto simp: queue_ok_def simp flip: length_0_conv)
  show "bit (pending (ctl st)) 0 \<longleftrightarrow> contents (queue (k_common (kbd st))) \<noteq> []"
    "bit (pending (ctl st)) 1 \<longleftrightarrow> contents (queue (m_common (mouse st))) \<noteq> []"
    using good_kbd [OF assms] good_aux [OF assms] by (simp_all add: dev_ok_def empty)
qed

lemma read_data_source:
  assumes "good st"
  shows "(contents (queue (k_common (kbd st))) = b # bs \<longrightarrow> fst (kbd_read_data p st) = b
      \<and> contents (queue (k_common (kbd (snd (kbd_read_data p st))))) = bs
      \<and> mouse (snd (kbd_read_data p st)) = mouse st)
    \<and> (contents (queue (k_common (kbd st))) = [] \<longrightarrow> contents (queue (m_common (mouse st))) = b # bs \<longrightarrow>
        fst (kbd_read_data p st) = b \<and> contents (queue (m_common (mouse (snd (kbd_read_data p st))))) = bs
        \<and> kbd (snd (kbd_read_data p st)) = kbd st)"
proof (intro conjI impI)
  have pend: "pending (ctl st) = KBD_PENDING_AUX \<longleftrightarrow>
      contents (queue (k_common (kbd st))) = [] \<and> contents (queue (m_common (mouse st))) \<noteq> []"
    using pending_iff [OF assms] ctl_ok_pending [OF good_ctl [OF assms]] by auto
  have ok: "kbd_ok (kbd st, ctl st, ext st)" "mouse_ok (mouse st, ctl st, ext st)"
    using good_kbd [OF assms] good_aux [OF assms] by (simp_all add: dev_ok_def)
  {
    assume "contents (queue (k_common (kbd st))) = b # bs"
    then show "fst (kbd_read_data p st) = b"
      "contents (queue (k_common (kbd (snd (kbd_read_data p st))))) = bs"
      "mouse (snd (kbd_read_data p st)) = mouse st"
      using pend kbd_fifo.items_get [OF ok(1), of b bs]
      by (simp_all add: kbd_read_data_def on_keyboard_def Let_def case_prod_unfold)
  next
    assume "contents (queue (k_common (kbd st))) = []" "contents (queue (m_common (mouse st))) = b # bs"
    then show "fst (kbd_read_data p st) = b"
      "contents (queue (m_common (mouse (snd (kbd_read_data p st))))) = bs"
      "kbd (snd (kbd_read_data p st)) = kbd st"
      using pend mouse_fifo.items_get [OF ok(2), of b bs]
      by (simp_all add: kbd_read_data_def on_aux_def Let_def case_prod_unfold)
  }
qed

end

section \<open>Properties\<close>

text \<open>A board whose lines are plain pins and that counts reset requests.\<close>

record board =
  b_irq1 :: bool
  b_irq12 :: bool
  b_a20 :: bool
  b_resets :: nat

definition board_ports :: "board kbd_ports" where
  "board_ports = \<lparr>irq_kbd = (\<lambda>e l. e\<lparr>b_irq1 := l \<noteq> 0\<rparr>), irq_mouse = (\<lambda>e l. e\<lparr>b_irq12 := l \<noteq> 0\<rparr>),
     a20_out = Some (\<lambda>e l. e\<lparr>b_a20 := l \<noteq> 0\<rparr>),
     qemu_system_reset_request = (\<lambda>e. e\<lparr>b_resets := Suc (b_resets e)\<rparr>)\<rparr>"

definition board_init :: board where
  "board_init = \<lparr>b_irq1 = False, b_irq12 = False, b_a20 = False, b_resets = 0\<rparr>"

interpretation pin_board: kbc_board board_ports b_irq1 b_irq12
  by unfold_locales (auto simp: board_ports_def)

lemma board_run_ok: "(i8042_step board_ports)\<^sup>*\<^sup>* (i8042_realizefn board_init) st \<Longrightarrow> pin_board.good st"
  by (erule pin_board.run_good) (intro pin_board.realize_good; simp add: board_init_def)

text \<open>
  C5. Whatever input events, guest accesses and resets happen, the status register and the two
  interrupt lines say exactly what is queued: the output buffer is reported full while any device has
  data and as mouse data only when the keyboard has none; the keyboard interrupt is raised exactly
  while the keyboard has data and the mode register enables interrupt and interface, the mouse
  interrupt exactly while only the mouse has data and its interrupt is enabled.
\<close>

theorem i8042_outputs_track:
  assumes "(i8042_step board_ports)\<^sup>*\<^sup>* (i8042_realizefn board_init) st"
  shows "let kq = contents (queue (k_common (kbd st))); mq = contents (queue (m_common (mouse st)));
             md = mode (ctl st)
    in (bit (kbd_read_status st) 0 \<longleftrightarrow> kq \<noteq> [] \<or> mq \<noteq> []) \<and> (bit (kbd_read_status st) 5 \<longleftrightarrow> kq = [] \<and> mq \<noteq> [])
     \<and> (b_irq1 (ext st) \<longleftrightarrow> kq \<noteq> [] \<and> bit md 0 \<and> \<not> bit md 4)
     \<and> (b_irq12 (ext st) \<longleftrightarrow> kq = [] \<and> mq \<noteq> [] \<and> bit md 1)"
proof -
  note g = board_run_ok [OF assms]
  have "pending (ctl st) \<in> {0, 1, 2, 3}" by (rule pin_board.ctl_ok_pending [OF pin_board.good_ctl [OF g]])
  then have "pending (ctl st) = 0 \<longleftrightarrow> \<not> bit (pending (ctl st)) 0 \<and> \<not> bit (pending (ctl st)) 1"
    "pending (ctl st) = KBD_PENDING_AUX \<longleftrightarrow> \<not> bit (pending (ctl st)) 0 \<and> bit (pending (ctl st)) 1" by auto
  then show ?thesis
    using pin_board.good_ctl [OF g] unfolding pin_board.pending_iff [OF g] ctl_ok_def prod.case Let_def kbd_read_status_def
    by auto
qed

theorem i8042_outputs_track_witness:
  "let st = kbd_write_command board_ports 0xaa (i8042_realizefn board_init)
   in bit (kbd_read_status st) 0 \<longleftrightarrow> contents (queue (k_common (kbd st))) \<noteq> [] \<or> contents (queue (m_common (mouse st))) \<noteq> []"
proof -
  have "(i8042_step board_ports)\<^sup>*\<^sup>* (i8042_realizefn board_init)
      (kbd_write_command board_ports 0xaa (i8042_realizefn board_init))"
    by (intro r_into_rtranclp step_command)
  from i8042_outputs_track [OF this] show ?thesis unfolding Let_def by blast
qed

text \<open>
  A read of the data port returns and removes the oldest byte of the keyboard, and only when the
  keyboard has none the oldest byte of the mouse; the other device is left alone.
\<close>

theorem keyboard_before_mouse:
  assumes "(i8042_step board_ports)\<^sup>*\<^sup>* (i8042_realizefn board_init) st"
    and "contents (queue (k_common (kbd st))) = kq" "contents (queue (m_common (mouse st))) = mq"
    and "kbd_read_data board_ports st = (v, st')"
  shows "case kq of
      k # ks \<Rightarrow> v = k \<and> contents (queue (k_common (kbd st'))) = ks \<and> mouse st' = mouse st
    | [] \<Rightarrow> (case mq of
        m # ms \<Rightarrow> v = m \<and> contents (queue (m_common (mouse st'))) = ms \<and> kbd st' = kbd st
      | [] \<Rightarrow> True)"
  using pin_board.read_data_source [OF board_run_ok [OF assms(1)]] assms(2-)
  by (auto split: list.split)

theorem keyboard_before_mouse_witness:
  "fst (kbd_read_data board_ports (kbd_write_command board_ports 0xaa (i8042_realizefn board_init))) = 0x55"
proof -
  let ?st = "kbd_write_command board_ports 0xaa (i8042_realizefn board_init)"
  have r: "(i8042_step board_ports)\<^sup>*\<^sup>* (i8042_realizefn board_init) ?st"
    by (intro r_into_rtranclp step_command)
  have "kbd ?st = fst (kbd_reply (kbd_update_kbd_irq board_ports) 0x55 (ps2_kbd_init,
      (ctl (i8042_realizefn board_init))\<lparr>status := 4\<rparr>, board_init))"
    by (simp add: kbd_write_command_def pckbd_queue_def on_keyboard_def i8042_realizefn_def Let_def case_prod_unfold)
  moreover have "kbd_ok (ps2_kbd_init, (ctl (i8042_realizefn board_init))\<lparr>status := 4\<rparr>, board_init)"
    by (simp add: ps2_kbd_init_def)
  ultimately have "contents (queue (k_common (kbd ?st))) = [0x55]"
    using kbd_fifo.items_put [of "(ps2_kbd_init, (ctl (i8042_realizefn board_init))\<lparr>status := 4\<rparr>, board_init)"
        "kbd_update_kbd_irq board_ports" "0x55"]
    by (simp add: ps2_kbd_init_def)
  from keyboard_before_mouse [OF r this refl prod.collapse [symmetric]] show ?thesis by simp
qed

text \<open>
  The command that disables the mouse interface (0xa7) sets a mode bit that the controller never
  looks at: interrupt lines and registers evolve as if it were clear.
\<close>

theorem mouse_interface_cannot_be_disabled:
  "kbd_update_irq p (s\<lparr>mode := mode s OR 0x20\<rparr>, e) =
     (let (s', e') = kbd_update_irq p (s\<lparr>mode := mode s AND NOT 0x20\<rparr>, e) in (s'\<lparr>mode := mode s OR 0x20\<rparr>, e'))"
proof -
  have b32: "\<not> bit (0x20 :: u8) i" if "i < 5" for i using that bit_line_mask [of 5 i, where ?'a = 8] by auto
  have "bit (mode s AND NOT 0x20) i = bit (mode s) i" "bit (mode s OR 0x20) i = bit (mode s) i" if "i < 5" for i
    using that b32 [OF that] by (simp_all only: bit_and_iff bit_or_iff bit_not_iff) auto
  from this [of 0] this [of 1] this [of 4] show ?thesis
    by (simp add: kbd_update_irq_def Let_def flag_simps case_prod_unfold)
qed

interpretation kbd_keeps_cmd: irq_inv "kbd_update_kbd_irq p" "\<lambda>se. kbd_write_cmd (fst se) = c" for p :: "'e kbd_ports" and c
  by unfold_locales (simp add: kbd_update_kbd_irq_def kbd_update_irq_def Let_def case_prod_unfold)

interpretation aux_keeps_cmd: irq_inv "kbd_update_aux_irq p" "\<lambda>se. kbd_write_cmd (fst se) = c" for p :: "'e kbd_ports" and c
  by unfold_locales (simp add: kbd_update_aux_irq_def kbd_update_irq_def Let_def case_prod_unfold)

text \<open>
  A reset does not end a two-byte command: when the machine is reset after the guest announced a
  new mode byte, the first byte the guest then writes to the data port (a keyboard command, say)
  becomes the mode register.
\<close>

theorem reset_keeps_half_command:
  "mode (ctl (kbd_write_data p val (i8042_reset p (kbd_write_command p 0x60 st)))) = val"
proof -
  let ?st = "kbd_write_command p 0x60 st"
  let ?k = "on_keyboard (ps2_kbd_reset (kbd_update_kbd_irq p)) ?st"
  have "kbd_write_cmd (ctl ?st) = 0x60" by (simp add: kbd_write_command_def Let_def)
  then have "kbd_write_cmd (ctl ?k) = 0x60"
    using kbd_keeps_cmd.inv_kbd_reset [of "(kbd ?st, ctl ?st, ext ?st)"]
    by (simp add: on_keyboard_def Let_def case_prod_unfold)
  then have "kbd_write_cmd (ctl (i8042_reset p ?st)) = 0x60"
    using aux_keeps_cmd.inv_mouse_reset [of "(mouse ?k, ctl ?k, ext ?k)"]
    by (simp add: i8042_reset_def kbd_reset_def on_aux_def Let_def case_prod_unfold)
  then show ?thesis by (simp add: kbd_write_data_def Let_def on_ctl_def case_prod_unfold)
qed

end
