(* ===== verification/Pc_Machine.thy ===== *)
theory Pc_Machine
  imports I8259 I8254 Pckbd Web_Input
begin

text \<open>
  The parts of the PC wired together: the keyboard controller, the timer and the other devices drive the
  lines of \<^verbatim>\<open>gsi_handler\<close> (src/Qemu-2.4.1/hw/i386/pc.c), which passes them to the two 8259s and to the I/O APIC; the
  master 8259 drives the processor's interrupt pin; the input layer delivers keys to the PS/2
  keyboard.  The I/O APIC, the A20 gate and the reset request are parameters on a state of their own.
\<close>

record 'o pc =
  pics :: "pic \<times> pic \<times> bool"
  others :: 'o

definition gsi_handler :: "(nat \<Rightarrow> 'o qemu_irq) \<Rightarrow> nat \<Rightarrow> 'o pc qemu_irq" where
  "gsi_handler ioapic_irq n b level =
     (let b1 = (if n < 16 then b\<lparr>pics := i8259_set_irq pin n (pics b) level\<rparr> else b)
      in b1\<lparr>others := ioapic_irq n (others b1) level\<rparr>)"

record 'o pc_env =
  ioapic :: "nat \<Rightarrow> 'o qemu_irq"
  a20_line :: "'o qemu_irq option"
  reset_line :: "'o \<Rightarrow> 'o"

text \<open>The outputs of the keyboard controller as \<^verbatim>\<open>i8042_realizefn\<close> connects them.\<close>

definition i8042_ports :: "'o pc_env \<Rightarrow> 'o pc kbd_ports" where
  "i8042_ports env =
     \<lparr>irq_kbd = gsi_handler (ioapic env) 1, irq_mouse = gsi_handler (ioapic env) 12,
      a20_out = map_option (\<lambda>f b l. b\<lparr>others := f (others b) l\<rparr>) (a20_line env),
      qemu_system_reset_request = (\<lambda>b. b\<lparr>others := reset_line env (others b)\<rparr>)\<rparr>"

definition i8259_init :: "pic \<times> pic \<times> bool" where
  "i8259_init = (i8259_init_chip False, i8259_init_chip True, False)"

text \<open>The handlers that the two PS/2 devices register with the input layer.\<close>

definition ps2_keyboard_handler :: "'o pc_env \<Rightarrow> ('o pc i8042) QemuInputHandler" where
  "ps2_keyboard_handler env =
     \<lparr>h_name = ''QEMU PS/2 Keyboard'', h_mask = INPUT_EVENT_MASK_KEY,
      h_event = (\<lambda>_ evt. on_keyboard (ps2_keyboard_event (kbd_update_kbd_irq (i8042_ports env)) evt)),
      h_sync = None\<rparr>"

definition ps2_mouse_handler :: "'o pc_env \<Rightarrow> ('o pc i8042) QemuInputHandler" where
  "ps2_mouse_handler env =
     \<lparr>h_name = ''QEMU PS/2 Mouse'', h_mask = INPUT_EVENT_MASK_BTN OR INPUT_EVENT_MASK_REL,
      h_event = (\<lambda>_ evt st. st\<lparr>mouse := ps2_mouse_event evt (mouse st)\<rparr>),
      h_sync = Some (on_aux (ps2_mouse_sync (kbd_update_aux_irq (i8042_ports env))))\<rparr>"

abbreviation master_of :: "'o pc \<Rightarrow> pic" where "master_of b \<equiv> fst (snd (pics b))"
abbreviation slave_of :: "'o pc \<Rightarrow> pic" where "slave_of b \<equiv> fst (pics b)"
abbreviation cpu_pin :: "'o pc \<Rightarrow> bool" where "cpu_pin b \<equiv> snd (snd (pics b))"

section \<open>The 8259s as the far end of the keyboard controller\<close>

lemma fst_set_irq [simp]: "fst (pic_set_irq out n l sw) = pic_latch n l (fst sw)"
  by (simp add: pic_set_irq_def)

text \<open>A slave operation reaches the master only by driving line 2.\<close>

lemma snd_set_irq: "\<exists>l'. snd (pic_set_irq out n l sw) = out (snd sw) l'"
  by (auto simp: pic_set_irq_def pic_update_irq_def Let_def)

lemma master_gsi:
  "n < 8 \<Longrightarrow> master_of (gsi_handler io n b l) = pic_latch n l (master_of b)"
  "8 \<le> n \<Longrightarrow> n < 16 \<Longrightarrow> \<exists>l'. master_of (gsi_handler io n b l) = pic_latch 2 l' (master_of b)"
  using snd_set_irq [of "cascade pin" "n - 8" l "pics b"]
  by (auto simp: gsi_handler_def i8259_set_irq_def cascade_def)

lemma slave_gsi:
  "n < 8 \<Longrightarrow> slave_of (gsi_handler io n b l) = slave_of b"
  "8 \<le> n \<Longrightarrow> n < 16 \<Longrightarrow> slave_of (gsi_handler io n b l) = pic_latch (n - 8) l (slave_of b)"
  by (simp_all add: gsi_handler_def i8259_set_irq_def)

abbreviation irq1 :: "'o pc \<Rightarrow> bool" where "irq1 b \<equiv> bit (last_irr (master_of b)) 1"
abbreviation irq12 :: "'o pc \<Rightarrow> bool" where "irq12 b \<equiv> bit (last_irr (slave_of b)) 4"

lemma irq1_gsi: "n < 16 \<Longrightarrow> n \<noteq> 1 \<Longrightarrow> irq1 (gsi_handler io n b l) = irq1 b" "irq1 (gsi_handler io 1 b l) \<longleftrightarrow> l \<noteq> 0"
proof -
  show "irq1 (gsi_handler io n b l) = irq1 b" if "n < 16" "n \<noteq> 1"
    using master_gsi(1) [of n io b l] master_gsi(2) [of n io b l] that by (cases "n < 8") (auto simp: last_irr_latch)
qed (simp add: master_gsi last_irr_latch)

lemma irq12_gsi: "n < 16 \<Longrightarrow> n \<noteq> 12 \<Longrightarrow> irq12 (gsi_handler io n b l) = irq12 b" "irq12 (gsi_handler io 12 b l) \<longleftrightarrow> l \<noteq> 0"
  by (cases "n < 8") (auto simp: slave_gsi last_irr_latch)

interpretation pc_board: kbc_board "i8042_ports env" irq1 irq12 for env :: "'o pc_env"
  by unfold_locales (auto simp: i8042_ports_def irq1_gsi [simplified] irq12_gsi)

section \<open>What the controller keeps of the board\<close>

text \<open>A condition on the board that the controller's outputs keep is kept by everything the controller does.\<close>

locale ports_inv =
  fixes p :: "'e kbd_ports" and holds :: "'e \<Rightarrow> bool"
  assumes kbd_keep: "holds e \<Longrightarrow> holds (irq_kbd p e l)"
    and mouse_keep: "holds e \<Longrightarrow> holds (irq_mouse p e l)"
    and a20_keep: "holds e \<Longrightarrow> a20_out p = Some f \<Longrightarrow> holds (f e l)"
    and reset_keep: "holds e \<Longrightarrow> holds (qemu_system_reset_request p e)"
begin

lemma update_irq_keep: "holds (snd se) \<Longrightarrow> holds (snd (kbd_update_irq p se))"
  by (simp add: kbd_update_irq_def Let_def case_prod_unfold kbd_keep mouse_keep)

lemma a20_case_keep: "holds e \<Longrightarrow> holds (case a20_out p of None \<Rightarrow> e | Some f \<Rightarrow> f e l)"
  by (auto intro: a20_keep split: option.split)

end

sublocale ports_inv \<subseteq> kbd_ext: irq_inv "kbd_update_kbd_irq p" "\<lambda>se. holds (snd se)"
  by unfold_locales (simp add: kbd_update_kbd_irq_def update_irq_keep case_prod_unfold Let_def)

sublocale ports_inv \<subseteq> aux_ext: irq_inv "kbd_update_aux_irq p" "\<lambda>se. holds (snd se)"
  by unfold_locales (simp add: kbd_update_aux_irq_def update_irq_keep case_prod_unfold Let_def)

lemma ext_on [simp]:
  "ext (on_keyboard f st) = snd (snd (f (kbd st, ctl st, ext st)))"
  "ext (on_aux g st) = snd (snd (g (mouse st, ctl st, ext st)))"
  "ext (on_ctl h st) = snd (h (ctl st, ext st))"
  by (simp_all add: on_keyboard_def on_aux_def on_ctl_def Let_def case_prod_unfold)

context ports_inv
begin

lemma keyboard_keep:
  assumes "holds (ext st)" "\<And>kw. holds (snd (snd kw)) \<Longrightarrow> holds (snd (snd (f kw)))"
  shows "holds (ext (on_keyboard f st))"
  using assms(1) assms(2) [of "(kbd st, ctl st, ext st)"] by simp

lemma aux_keep:
  assumes "holds (ext st)" "\<And>mw. holds (snd (snd mw)) \<Longrightarrow> holds (snd (snd (f mw)))"
  shows "holds (ext (on_aux f st))"
  using assms(1) assms(2) [of "(mouse st, ctl st, ext st)"] by simp

lemma queue_keep: "holds (ext st) \<Longrightarrow> holds (ext (pckbd_queue p b aux st))"
  unfolding pckbd_queue_def
  by (auto intro: keyboard_keep aux_keep kbd_ext.kbd_ops_inv aux_ext.mouse_ops_inv simp del: ext_on)

lemma command_keep: "holds (ext st) \<Longrightarrow> holds (ext (kbd_write_command p val st))"
  unfolding kbd_write_command_def Let_def
  by (simp add: queue_keep update_irq_keep a20_case_keep reset_keep)

lemma data_keep: "holds (ext st) \<Longrightarrow> holds (ext (kbd_write_data p val st))"
  unfolding kbd_write_data_def Let_def
  by (simp add: queue_keep update_irq_keep outport_write_def Let_def a20_case_keep reset_keep
      kbd_ext.inv_write_keyboard aux_ext.inv_write_mouse)

lemma step_keep: "i8042_step p st st' \<Longrightarrow> holds (ext st) \<Longrightarrow> holds (ext st')"
proof (induction rule: i8042_step.induct)
  case (step_read st)
  then show ?case by (simp add: kbd_read_data_def kbd_ext.inv_kbd_read aux_ext.inv_mouse_read)
next
  case (step_reset st)
  then show ?case by (simp add: i8042_reset_def Let_def kbd_ext.inv_kbd_reset aux_ext.inv_mouse_reset)
qed (simp_all add: command_keep data_keep i8042_isa_mouse_fake_event_def kbd_ext.inv_keyboard_event
    aux_ext.inv_mouse_sync aux_ext.inv_mouse_fake del: ps2_keyboard_event.simps ps2_mouse_event.simps)

end

section \<open>The running machine\<close>

lemma pics_gsi: "pics (gsi_handler io n b l) = (if n < 16 then i8259_set_irq pin n (pics b) l else pics b)"
  by (simp add: gsi_handler_def Let_def)

lemma pics_ok_gsi: "n \<noteq> 2 \<Longrightarrow> pics_ok (\<lambda>b. b) (pics b) \<Longrightarrow> pics_ok (\<lambda>b. b) (pics (gsi_handler io n b l))"
  by (simp add: pics_gsi pin_wire.pics_step_ok [OF step_line])

interpretation pics_kept: ports_inv "i8042_ports env" "\<lambda>b. pics_ok (\<lambda>b. b) (pics b)" for env :: "'o pc_env"
  by unfold_locales (auto simp: i8042_ports_def pics_ok_gsi)

text \<open>What the processor does with the 8259s, their initialisation included.  Left out are the writes after which the source
  leaves an output stale (\<open>stale_write\<close>: special mask mode switched while a masked line is in service, the fourth initialisation
  word while the cascade line is), and a first initialisation word for a chip while a line that is watched here is high, which makes
  the chip forget that level (\<open>last_irr_init\<close>).\<close>

inductive pics_access :: "pic \<times> pic \<times> bool \<Rightarrow> pic \<times> pic \<times> bool \<Rightarrow> bool" where
  access_ack: "pics_access sys (snd (pic_read_irq pin sys))"
| access_write_master: "\<not> stale_write addr val (fst mc)
    \<Longrightarrow> \<not> (addr = 0 \<and> bit val 4 \<and> (bit (last_irr (fst mc)) 1 \<or> bit (last_irr (fst mc)) 2))
    \<Longrightarrow> pics_access (sl, mc) (sl, pic_ioport_write pin addr val mc)"
| access_write_slave: "\<not> stale_write addr val (fst sys) \<Longrightarrow> \<not> (addr = 0 \<and> bit val 4 \<and> bit (last_irr (fst sys)) 4)
    \<Longrightarrow> pics_access sys (pic_ioport_write (cascade pin) addr val sys)"
| access_read_master: "pics_access (sl, mc) (sl, snd (pic_ioport_read pin addr mc))"
| access_read_slave: "pics_access sys (snd (pic_ioport_read (cascade pin) addr sys))"
| access_elcr_master: "pics_access (sl, m, c) (sl, elcr_ioport_write val m, c)"
| access_elcr_slave: "pics_access (sl, mc) (elcr_ioport_write val sl, mc)"

lemma access_is_step: "pics_access sys sys' \<Longrightarrow> pics_step pin sys sys'"
  by (induction rule: pics_access.induct) (rule pics_step.intros; blast)+

text \<open>An operation of the slave leaves the levels of the master's lines other than line 2.\<close>

definition same_levels :: "pic \<times> 'c \<Rightarrow> pic \<times> 'c \<Rightarrow> bool" where
  "same_levels mc mc' \<longleftrightarrow> (\<forall>i. i \<noteq> 2 \<longrightarrow> bit (last_irr (fst mc')) i = bit (last_irr (fst mc)) i)"

lemma same_levels_refl [simp]: "same_levels mc mc"
  by (simp add: same_levels_def)

interpretation levels_kept: irq_inv "cascade out" "same_levels mc" for out :: "'c qemu_irq" and mc
  by unfold_locales (simp add: same_levels_def cascade_def last_irr_latch)

context irq_inv
begin

lemma inv_pic_update: "inv (snd sw) \<Longrightarrow> inv (snd (pic_update_irq out sw))"
  by (cases sw) (simp add: pic_update_irq_def Let_def inv_out)

lemma inv_pic_intack: "inv (snd sw) \<Longrightarrow> inv (snd (pic_intack out i sw))"
  by (simp add: pic_intack_def inv_pic_update)

lemma inv_pic_write: "inv (snd sw) \<Longrightarrow> inv (snd (pic_ioport_write out addr val sw))"
  unfolding pic_ioport_write_def pic_write_command_def pic_write_data_def pic_write_ocw2_def pic_init_reset_def
  by (simp add: Let_def inv_pic_update case_prod_unfold)

lemma inv_pic_read: "inv (snd sw) \<Longrightarrow> inv (snd (snd (pic_ioport_read out addr sw)))"
  unfolding pic_ioport_read_def by (simp add: Let_def inv_pic_intack case_prod_unfold)

end

lemma last_irr_read: "last_irr (fst (snd (pic_ioport_read out addr sw))) = last_irr (fst sw)"
  by (simp add: pic_ioport_read_def Let_def fst_intack case_prod_unfold)

lemma write_level:
  "\<not> (addr = 0 \<and> bit val 4 \<and> bit (last_irr (fst mc)) i) \<Longrightarrow>
     bit (last_irr (fst (pic_ioport_write out addr val mc))) i = bit (last_irr (fst mc)) i"
  by (cases "addr = 0 \<and> bit val 4") (auto simp: last_irr_write last_irr_init)

lemma access_levels:
  assumes "pics_access sys sys'"
  shows "bit (last_irr (fst sys')) 4 = bit (last_irr (fst sys)) 4"
    "bit (last_irr (fst (snd sys'))) 1 = bit (last_irr (fst (snd sys))) 1"
proof -
  have ack: "last_irr (fst (snd (pic_read_irq pin sys))) = last_irr (fst sys)"
      "same_levels (snd sys) (snd (snd (pic_read_irq pin sys)))" for sys
    using levels_kept.inv_pic_intack [of "snd sys" sys]
    by (auto simp: pic_read_irq_def Let_def fst_intack case_prod_unfold same_levels_def)
  from assms show "bit (last_irr (fst sys')) 4 = bit (last_irr (fst sys)) 4"
    by cases (simp_all add: ack write_level last_irr_read elcr_ioport_write_def)
  from assms show "bit (last_irr (fst (snd sys'))) 1 = bit (last_irr (fst (snd sys))) 1"
  proof cases
    case (access_write_slave addr val)
    then show ?thesis using levels_kept.inv_pic_write [of "snd sys" sys pin addr val] by (simp add: same_levels_def)
  next
    case (access_read_slave addr)
    then show ?thesis using levels_kept.inv_pic_read [of "snd sys" sys pin addr] by (simp add: same_levels_def)
  next
    case access_ack
    then show ?thesis using ack(2) [of sys] by (simp add: same_levels_def)
  qed (auto simp: write_level last_irr_read elcr_ioport_write_def)
qed

text \<open>Everything that can happen to the running machine: input and guest accesses at the keyboard
  controller, other devices driving their lines, the processor at the 8259s.\<close>

inductive machine_step :: "'o pc_env \<Rightarrow> 'o pc i8042 \<Rightarrow> 'o pc i8042 \<Rightarrow> bool" for env where
  machine_controller: "i8042_step (i8042_ports env) st st' \<Longrightarrow> machine_step env st st'"
| machine_line: "n < 24 \<Longrightarrow> n \<noteq> 1 \<Longrightarrow> n \<noteq> 2 \<Longrightarrow> n \<noteq> 12
    \<Longrightarrow> machine_step env st (st\<lparr>ext := gsi_handler (ioapic env) n (ext st) l\<rparr>)"
| machine_pics: "pics_access (pics (ext st)) ps \<Longrightarrow> machine_step env st (st\<lparr>ext := (ext st)\<lparr>pics := ps\<rparr>\<rparr>)"

definition machine_init :: "'o \<Rightarrow> 'o pc i8042" where
  "machine_init x = i8042_realizefn \<lparr>pics = i8259_init, others = x\<rparr>"

definition machine_ok :: "'o pc i8042 \<Rightarrow> bool" where
  "machine_ok st \<longleftrightarrow> i8042_ok irq1 irq12 st \<and> pics_ok (\<lambda>b. b) (pics (ext st))"

lemma ext_levels_ok:
  assumes "i8042_ok irq1 irq12 st" "irq1 e = irq1 (ext st)" "irq12 e = irq12 (ext st)"
  shows "i8042_ok irq1 irq12 (st\<lparr>ext := e\<rparr>)"
  using assms by (simp add: i8042_ok_def ctl_ok_def dev_ok_def)

lemma machine_step_ok:
  assumes "machine_step env st st'" "machine_ok st"
  shows "machine_ok st'"
  using assms(1)
proof cases
  case machine_controller
  then show ?thesis
    using assms(2) pc_board.step_good [OF machine_controller] pics_kept.step_keep [OF machine_controller]
    by (simp add: machine_ok_def)
next
  case (machine_line n l)
  let ?e = "gsi_handler (ioapic env) n (ext st) l"
  have "irq1 ?e = irq1 (ext st) \<and> irq12 ?e = irq12 (ext st)"
  proof (cases "n < 16")
    case True
    then show ?thesis using machine_line(3,5) irq1_gsi(1) irq12_gsi(1) by blast
  qed (simp add: pics_gsi)
  then show ?thesis
    using assms(2) ext_levels_ok [of st ?e] pics_ok_gsi [OF machine_line(4), of "ext st" "ioapic env" l]
    unfolding machine_ok_def machine_line(1) by simp
next
  case (machine_pics ps)
  let ?e = "(ext st)\<lparr>pics := ps\<rparr>"
  have "irq1 ?e = irq1 (ext st)" "irq12 ?e = irq12 (ext st)"
    using access_levels [OF machine_pics(2)] by simp_all
  then show ?thesis
    using assms(2) ext_levels_ok [of st ?e] pin_wire.pics_step_ok [OF access_is_step [OF machine_pics(2)]]
    unfolding machine_ok_def machine_pics(1) by simp
qed

lemma machine_init_ok: "machine_ok (machine_init x)"
proof -
  have "pic_get_irq (i8259_init_chip m) = - 1" "last_irr (i8259_init_chip m) = 0" for m
    by (simp_all add: pic_get_irq_def i8259_init_chip_def)
  then show ?thesis
    unfolding machine_ok_def machine_init_def
    using pc_board.realize_good [of "\<lparr>pics = i8259_init, others = x\<rparr>"]
    by (simp add: i8259_init_def pics_ok_def driven_def) (simp add: i8042_realizefn_def)
qed

lemma machine_run_ok: "(machine_step env)\<^sup>*\<^sup>* (machine_init x) st \<Longrightarrow> machine_ok st"
  by (induction rule: rtranclp_induct) (rule machine_init_ok, erule machine_step_ok)

lemma machine_levels:
  assumes "machine_ok st"
  shows "irq1 (ext st) \<longleftrightarrow> contents (queue (k_common (kbd st))) \<noteq> [] \<and> bit (mode (ctl st)) 0 \<and> \<not> bit (mode (ctl st)) 4"
    "irq12 (ext st) \<longleftrightarrow> contents (queue (k_common (kbd st))) = [] \<and> contents (queue (m_common (mouse st))) \<noteq> [] \<and> bit (mode (ctl st)) 1"
    "bit (last_irr (master_of (ext st))) 2 \<longleftrightarrow> (\<exists>i. wins (slave_of (ext st)) i)"
    "cpu_pin (ext st) \<longleftrightarrow> (\<exists>i. wins (master_of (ext st)) i)"
proof -
  have g: "pc_board.good st" and p: "pics_ok (\<lambda>b. b) (pics (ext st))"
    using assms by (simp_all add: machine_ok_def)
  have "pending (ctl st) \<in> {0, 1, 2, 3}" by (rule pc_board.ctl_ok_pending [OF pc_board.good_ctl [OF g]])
  then have "pending (ctl st) = 0 \<longleftrightarrow> \<not> bit (pending (ctl st)) 0 \<and> \<not> bit (pending (ctl st)) 1"
    "pending (ctl st) = KBD_PENDING_AUX \<longleftrightarrow> \<not> bit (pending (ctl st)) 0 \<and> bit (pending (ctl st)) 1" by auto
  then show "irq1 (ext st) \<longleftrightarrow> contents (queue (k_common (kbd st))) \<noteq> [] \<and> bit (mode (ctl st)) 0 \<and> \<not> bit (mode (ctl st)) 4"
    "irq12 (ext st) \<longleftrightarrow> contents (queue (k_common (kbd st))) = [] \<and> contents (queue (m_common (mouse st))) \<noteq> [] \<and> bit (mode (ctl st)) 1"
    using pc_board.good_ctl [OF g] unfolding pc_board.pending_iff [OF g] ctl_ok_def prod.case Let_def by blast+
  show "bit (last_irr (master_of (ext st))) 2 \<longleftrightarrow> (\<exists>i. wins (slave_of (ext st)) i)"
    "cpu_pin (ext st) \<longleftrightarrow> (\<exists>i. wins (master_of (ext st)) i)"
    using p by (simp_all add: pics_ok_def driven_def pic_get_irq_nonneg)
qed

text \<open>
  C4. From power-on, however the input layer, the guest and the other devices interleave the operations of
  \<open>machine_step\<close>, which include the initialisation of the 8259s, the interrupt wiring tells the truth: line 1 of the master 8259
  is high exactly while the keyboard has a byte for the guest and the mode register lets it interrupt, line 4 of
  the slave exactly while only the mouse has one, line 2 of the master exactly while the slave has a line to serve,
  and the processor's pin exactly while the master has.  Not among the operations are the three kinds of guest writes after which the
  source lets the wiring lag: switching special mask mode while a masked line is in service
  (\<open>special_mask_leaves_output_stale\<close>), the fourth initialisation word while the cascade line is in service, and restarting a chip's
  initialisation while the keyboard's, the mouse's or the cascade line is high (\<open>last_irr_init\<close>); nor is a system reset of the 8259s.
\<close>

theorem machine_interrupts_track:
  assumes "(machine_step env)\<^sup>*\<^sup>* (machine_init x) st"
  shows "let kq = contents (queue (k_common (kbd st))); mq = contents (queue (m_common (mouse st)));
             md = mode (ctl st); b = ext st
    in (bit (last_irr (master_of b)) 1 \<longleftrightarrow> kq \<noteq> [] \<and> bit md 0 \<and> \<not> bit md 4)
     \<and> (bit (last_irr (slave_of b)) 4 \<longleftrightarrow> kq = [] \<and> mq \<noteq> [] \<and> bit md 1)
     \<and> (bit (last_irr (master_of b)) 2 \<longleftrightarrow> (\<exists>i. wins (slave_of b) i))
     \<and> (cpu_pin b \<longleftrightarrow> (\<exists>i. wins (master_of b) i))"
  using machine_levels [OF machine_run_ok [OF assms]] unfolding Let_def by (intro conjI)

section \<open>From the input layer to the guest\<close>

text \<open>What the keyboard controller's outputs keep of the master 8259; a high line 1 stays requested.\<close>

definition kept :: "pic \<Rightarrow> 'o pc \<Rightarrow> bool" where
  "kept m0 b \<longleftrightarrow>
     (let m = master_of b
      in imr m = imr m0 \<and> isr m = isr m0 \<and> special_mask m = special_mask m0 \<and> master m = master m0
       \<and> special_fully_nested_mode m = special_fully_nested_mode m0 \<and> priority_add m = priority_add m0
       \<and> irq_base m = irq_base m0 \<and> bit (irr m) 0 = bit (irr m0) 0 \<and> (bit (last_irr m) 1 \<longrightarrow> bit (irr m) 1))"

lemma irr_latch_other: "j \<noteq> i \<Longrightarrow> bit (irr (pic_latch i l s)) j = bit (irr s) j"
  by (auto simp: pic_latch_def Let_def bit_simps dest: bit_imp_le_length)

lemma irr_latch_level: "l \<noteq> 0 \<Longrightarrow> i < 8 \<Longrightarrow> \<not> bit (last_irr s) i \<or> bit (irr s) i \<Longrightarrow> bit (irr (pic_latch i l s)) i"
  by (auto simp: pic_latch_def Let_def bit_simps flag_simps)

lemma latch_keeps [simp]:
  "imr (pic_latch i l s) = imr s" "isr (pic_latch i l s) = isr s" "special_mask (pic_latch i l s) = special_mask s"
  "master (pic_latch i l s) = master s" "priority_add (pic_latch i l s) = priority_add s"
  "special_fully_nested_mode (pic_latch i l s) = special_fully_nested_mode s" "irq_base (pic_latch i l s) = irq_base s"
  by (simp_all add: pic_latch_def Let_def)

lemma kept_gsi:
  assumes "kept m0 b" "n = 1 \<or> n = 12"
  shows "kept m0 (gsi_handler io n b l)"
  using assms(2)
proof
  assume "n = 1"
  then show ?thesis
    using assms(1) irr_latch_level [of l 1 "master_of b"]
    by (auto simp: kept_def Let_def master_gsi last_irr_latch irr_latch_other)
next
  assume "n = 12"
  then obtain l' where "master_of (gsi_handler io n b l) = pic_latch 2 l' (master_of b)" using master_gsi(2) [of n io b l] by auto
  then show ?thesis using assms(1) by (simp add: kept_def Let_def last_irr_latch irr_latch_other)
qed

interpretation master_kept: ports_inv "i8042_ports env" "kept m0" for env :: "'o pc_env" and m0
  by unfold_locales (auto simp: i8042_ports_def kept_gsi [simplified], auto simp: kept_def)

lemma wins_fixed_priority:
  assumes "priority_add m = 0" "i < 8" "bit (irr m) i" "\<not> bit (imr m) i"
    and "\<And>j. j < i \<Longrightarrow> \<not> requests m j" "\<And>j. j \<le> i \<Longrightarrow> \<not> blocks m j"
  shows "wins m i"
proof -
  have rank: "rank m j = j" if "j < 8" for j using that assms(1) by (simp add: rank_def)
  have "rank m i \<le> rank m j" if r: "requests m j" for j
  proof -
    have "j < 8" "\<not> j < i" using r assms(5) by (simp add: requests_def, blast)
    then show ?thesis using assms(2) by (simp add: rank)
  qed
  moreover have "rank m i < rank m j" if r: "blocks m j" for j
  proof -
    have "j < 8" "\<not> j \<le> i" using r assms(6) by (simp add: blocks_def, blast)
    then show ?thesis using assms(2) by (simp add: rank)
  qed
  ultimately show ?thesis using assms(2-4) by (simp add: wins_def requests_def)
qed

lemma wins_latched:
  assumes "\<forall>j. requests m j \<longrightarrow> rank m i \<le> rank m j" "\<forall>j. blocks m j \<longrightarrow> rank m i < rank m j"
    and "\<not> bit (imr m) i" "\<not> bit (last_irr m) i" "i < 8"
  shows "wins (pic_latch i 1 m) i"
proof -
  let ?m = "pic_latch i 1 m"
  have r: "rank ?m j = rank m j" "blocks ?m j = blocks m j" for j by (simp_all add: rank_def blocks_def)
  have "requests ?m i" using irr_latch_level [of 1 i m] assms(3-5) by (simp add: requests_def)
  moreover have "rank m i \<le> rank m j" if "requests ?m j" for j
    using that assms(1) irr_latch_other [of j i 1 m] by (cases "j = i") (auto simp: requests_def)
  ultimately show ?thesis using assms(2) by (simp add: wins_def r)
qed

lemma read_irq_vector: "wins (fst (snd sys)) i \<Longrightarrow> i \<noteq> 2 \<Longrightarrow> fst (pic_read_irq out sys) = uint (irq_base (fst (snd sys))) + int i"
  using pic_get_irq_iff [of "fst (snd sys)" i] by (simp add: pic_read_irq_def Let_def)

text \<open>The bytes of a key event in the mode of the keyboard.\<close>

definition key_bytes :: "PS2KbdState \<Rightarrow> KeyValue \<Rightarrow> bool \<Rightarrow> u8 list" where
  "key_bytes k key down =
     concat (map (keycode_bytes (translate k) (scancode_set k)) (qemu_input_key_value_to_scancode key down))"

lemma key_bytes_nonempty: "key_bytes k key down \<noteq> []"
proof -
  have "keycode_bytes tr st c \<noteq> []" for tr st c by (simp add: keycode_bytes_def)
  moreover have "qemu_input_key_value_to_scancode key down \<noteq> []"
    by (simp add: qemu_input_key_value_to_scancode_def Let_def case_prod_unfold)
  ultimately show ?thesis by (cases "qemu_input_key_value_to_scancode key down") (auto simp: key_bytes_def)
qed

text \<open>A machine whose guest waits for a key: the keyboard has nothing queued and may interrupt, the master 8259 has
  its fixed order of priorities, its line 1 is not masked, neither line 0, which precedes it, nor line 1 is in service, and
  line 0 is not requested.\<close>

definition awaits_key :: "'o pc i8042 \<Rightarrow> bool" where
  "awaits_key st \<longleftrightarrow>
     (let m = master_of (ext st)
      in contents (queue (k_common (kbd st))) = [] \<and> bit (mode (ctl st)) 0 \<and> \<not> bit (mode (ctl st)) 4
       \<and> priority_add m = 0 \<and> \<not> bit (imr m) 1 \<and> \<not> requests m 0 \<and> \<not> blocks m 0 \<and> \<not> blocks m 1)"

interpretation mode_kept: irq_inv "kbd_update_kbd_irq p" "\<lambda>se. mode (fst se) = md" for p :: "'e kbd_ports" and md
  by unfold_locales (simp add: kbd_update_kbd_irq_def case_prod_unfold Let_def)

lemma key_interrupts:
  assumes "machine_ok st" "awaits_key st"
    and "st' = on_keyboard (ps2_keyboard_event (kbd_update_kbd_irq (i8042_ports env)) (INPUT_EVENT_KIND_KEY key down)) st"
  shows "cpu_pin (ext st')" "fst (pic_read_irq pin (pics (ext st'))) = uint (irq_base (master_of (ext st))) + 1"
    "contents (queue (k_common (kbd st'))) = take 15 (key_bytes (kbd st) key down)"
    "fst (kbd_read_data (i8042_ports env) st') = hd (key_bytes (kbd st) key down)"
proof -
  let ?m = "master_of (ext st)" and ?m' = "master_of (ext st')"
  let ?ev = "ps2_keyboard_event (kbd_update_kbd_irq (i8042_ports env)) (INPUT_EVENT_KIND_KEY key down)"
  let ?kw = "(kbd st, ctl st, ext st)"
  have step: "i8042_step (i8042_ports env) st st'" unfolding assms(3) by (rule step_key)
  have ok': "machine_ok st'" by (rule machine_step_ok [OF machine_controller [OF step] assms(1)])
  have g: "pc_board.good st" and g': "pc_board.good st'" using assms(1) ok' by (simp_all add: machine_ok_def)
  have "kbd_ok ?kw" using pc_board.good_kbd [OF g] by (simp add: dev_ok_def)
  moreover have e: "kbd_items ?kw = []" using assms(2) by (simp add: awaits_key_def Let_def)
  ultimately have "kbd_items (fold (\<lambda>b. kbd_reply upd (uint b)) bs ?kw) = take 15 bs" for upd bs
    using kbd_fifo.items_puts [of ?kw upd bs] by (simp only: e list.size append_Nil diff_zero)
  then show q: "contents (queue (k_common (kbd st'))) = take 15 (key_bytes (kbd st) key down)"
    by (simp add: assms(3) on_keyboard_def put_keycodes_puts key_bytes_def Let_def case_prod_unfold)
  obtain b bs where "key_bytes (kbd st) key down = b # bs" using key_bytes_nonempty by (metis list.exhaust)
  then have q': "contents (queue (k_common (kbd st'))) = b # take 14 bs" "b = hd (key_bytes (kbd st) key down)"
    using q by (simp_all add: take_Cons')
  then show "fst (kbd_read_data (i8042_ports env) st') = hd (key_bytes (kbd st) key down)"
    using pc_board.read_data_source [OF g'] by metis
  have "mode (ctl st') = mode (ctl st)"
    using mode_kept.inv_keyboard_event [where kw = ?kw and md = "mode (ctl st)"]
    by (simp add: assms(3) on_keyboard_def case_prod_unfold Let_def del: ps2_keyboard_event.simps)
  then have high: "irq1 (ext st')"
    using machine_levels [OF ok'] q'(1) assms(2) by (simp add: awaits_key_def Let_def)
  have "\<not> irq1 (ext st)" using machine_levels [OF assms(1)] assms(2) by (simp add: awaits_key_def Let_def)
  then have "kept ?m (ext st)" by (simp add: kept_def)
  from master_kept.step_keep [OF step this] have k: "kept ?m (ext st')" .
  have w: "wins ?m' 1"
  proof (rule wins_fixed_priority)
    show "\<not> requests ?m' j" if "j < 1" for j
      using that k assms(2) by (simp add: kept_def awaits_key_def Let_def requests_def)
    show "\<not> blocks ?m' j" if "j \<le> 1" for j
      using that k assms(2) by (cases "j = 0") (auto simp: kept_def awaits_key_def Let_def blocks_def le_Suc_eq)
  qed (use k high assms(2) in \<open>simp_all add: kept_def awaits_key_def Let_def\<close>)
  then show "cpu_pin (ext st')" using machine_levels [OF ok'] by blast
  show "fst (pic_read_irq pin (pics (ext st'))) = uint (irq_base ?m) + 1"
    using read_irq_vector [OF w, of pin] k by (simp add: kept_def Let_def)
qed

text \<open>A key that the input layer does not have to queue goes straight to its handler.\<close>

definition passes_keys :: "'d QemuInputHandler \<Rightarrow> console option \<Rightarrow> 'd input \<Rightarrow> bool" where
  "passes_keys h src i \<longleftrightarrow>
     accepting i \<and> kbd_queue i = [] \<and> distinct (map h_id (handlers i)) \<and> list_all (\<lambda>s. h_events s = 0) (handlers i)
     \<and> map_option handler (qemu_input_find_handler INPUT_EVENT_MASK_KEY src i) = Some h"

lemma find_handler_mem: "qemu_input_find_handler m src i = Some s \<Longrightarrow> s \<in> set (handlers i)"
  by (auto simp: qemu_input_find_handler_def find_Some_iff split: option.splits)

lemma send_key_delivers:
  assumes "passes_keys h src i" "h_sync h = None"
  shows "devs (qemu_input_event_send_key src key down i) = h_event h src (INPUT_EVENT_KIND_KEY key down) (devs i)"
proof -
  from assms(1) obtain s where s: "qemu_input_find_handler INPUT_EVENT_MASK_KEY src i = Some s" "handler s = h"
    and i: "accepting i" "kbd_queue i = []" "distinct (map h_id (handlers i))" "\<forall>t \<in> set (handlers i). h_events t = 0"
    by (auto simp: passes_keys_def list_all_iff)
  let ?f = "\<lambda>t. if h_id t = h_id s then t\<lparr>h_events := h_events t + 1\<rparr> else t"
  have eq: "t = s" if "t \<in> set (handlers i)" "h_id t = h_id s" for t
    using that find_handler_mem [OF s(1)] i(3) by (auto simp: distinct_map dest: inj_onD)
  have quiet: "sync_handler (?f t) d = d" if "t \<in> set (handlers i)" for t d
    using eq [OF that] that i(4) assms(2) s(2) by (cases "h_id t = h_id s") (simp_all add: sync_handler_def)
  have "fold sync_handler (map ?f ts) d = d" if "set ts \<subseteq> set (handlers i)" for ts d
    using that by (induction ts arbitrary: d) (simp_all add: quiet)
  then show ?thesis
    using i(1,2) s by (simp add: qemu_input_event_send_key_def qemu_input_event_new_key_def
        qemu_input_event_send_def qemu_input_event_sync_def)
qed

text \<open>
  From the browser to the guest: a key message that reaches a running virtual machine whose guest
  waits for a key raises the processor's interrupt pin; the acknowledge returns the vector of line
  1, the keyboard then holds the key's scan code bytes (those that fit), and a read of port 0x60
  returns the first of them.
\<close>

lemma key_line_interrupts:
  assumes "(machine_step env)\<^sup>*\<^sup>* (machine_init x) (devs (inp (window w)))" "awaits_key (devs (inp (window w)))"
    and "passes_keys (ps2_keyboard_handler env) (con (window w)) (inp (window w))"
    and "state < 2" "code < 250" "length (km w) = 250" "length (rbuf w) = 100"
    and "length (web_line [1, state, code]) \<le> 100" "NUL \<in> set (drop (length (web_line [1, state, code])) (rbuf w))"
  shows "\<exists>w'. web_event (web_line [1, state, code]) w = Inr w'
    \<and> (let st = devs (inp (window w)); st' = devs (inp (window w'));
            bytes = key_bytes (kbd st) (KEY_VALUE_KIND_NUMBER (km w ! code)) (state = 1)
       in cpu_pin (ext st') \<and> fst (pic_read_irq pin (pics (ext st'))) = uint (irq_base (master_of (ext st))) + 1
        \<and> contents (queue (k_common (kbd st'))) = take 15 bytes \<and> fst (kbd_read_data (i8042_ports env) st') = hd bytes)"
proof -
  let ?key = "KEY_VALUE_KIND_NUMBER (km w ! code)" and ?down = "state = 1"
  have b: "int state < 2 ^ 31" "int code < 2 ^ 31" using assms(4,5) by auto
  from key_line [OF b assms(8), of "[]" w] assms(7,8,9) obtain buf where
    "web_event (web_line [1, state, code]) w = web_key (int state) (int code) (w\<lparr>rbuf := buf\<rparr>)"
    by (auto simp: c_read_def)
  moreover have "web_key (int state) (int code) (w\<lparr>rbuf := buf\<rparr>) =
      Inr (w\<lparr>rbuf := buf, window := with_inp (qemu_input_event_send_key (con (window w)) ?key ?down) (window w)\<rparr>)"
    using assms(4,5,6) by (auto simp: web_key_def Let_def key_up_command_def key_down_command_def
        qemu_input_event_send_key_number_def less_2_cases_iff)
  moreover have "devs (qemu_input_event_send_key (con (window w)) ?key ?down (inp (window w))) =
      on_keyboard (ps2_keyboard_event (kbd_update_kbd_irq (i8042_ports env)) (INPUT_EVENT_KIND_KEY ?key ?down)) (devs (inp (window w)))"
    using send_key_delivers [OF assms(3)] by (simp add: ps2_keyboard_handler_def)
  note key_interrupts [OF machine_run_ok [OF assms(1)] assms(2) this]
  ultimately show ?thesis by (simp add: with_inp_def Let_def)
qed

text \<open>
  C32. From the timer to the guest: let channel 0 run as a rate generator with a count of at least two and its output low
  at time \<open>t\<close>, and let its timer be set for the next transition (not a multiple of 596591 ticks after the count was loaded, and
  not taken over by the HPET).  Let line 0 of the master 8259 be low and not masked, and in the current, possibly rotated, order of priorities
  come before every other line that requests service and strictly before every line in service.  Then the firing
  of the timer raises the processor's pin, and the acknowledge returns the vector of line 0.
\<close>

theorem timer_interrupts_guest:
  assumes "chan_ok s" "ch_mode s = 2" "2 \<le> ch_count s" "times_ok s t" "pit_get_out s t = 0"
    and "tick_next 2 (ch_count s) (elapsed s t) = Some n" "t < count_load_time s + tick_time n" "\<not> 596591 dvd n"
    and "times_ok s (pit_get_next_transition_time s t)" "next_transition_time s = pit_get_next_transition_time s t"
    and "irq_timer s \<noteq> None" "\<not> irq_disabled s"
    and "\<forall>j. requests (master_of b) j \<longrightarrow> rank (master_of b) 0 \<le> rank (master_of b) j"
    and "\<forall>j. blocks (master_of b) j \<longrightarrow> rank (master_of b) 0 < rank (master_of b) j" "\<not> bit (imr (master_of b)) 0"
    and "\<not> bit (last_irr (master_of b)) 0" "pit_irq_timer (gsi_handler io 0) (s, b) = (s', b')"
  shows "cpu_pin b' \<and> fst (pic_read_irq pin (pics b')) = uint (irq_base (master_of b))"
proof -
  let ?m = "master_of b"
  have "pit_get_out s (next_transition_time s) = 1"
    using rate_toggles [OF assms(1-4) assms(6,7,9,8)] assms(5,10) by simp
  then have b': "b' = gsi_handler io 0 b 1"
    using assms(11,12,17) by (auto simp: pit_irq_timer_def pit_irq_timer_update_def Let_def)
  then have m': "master_of b' = pic_latch 0 1 ?m" by (simp add: master_gsi)
  have w: "wins (master_of b') 0"
    using wins_latched [of ?m 0, folded m'] assms(13-16) by simp
  moreover have "driven (\<lambda>b. b) (snd (pics b'))"
    by (simp add: b' pics_gsi i8259_set_irq_def pin_wire.set_irq_drives)
  ultimately show ?thesis
    using read_irq_vector [OF w, of pin] pic_get_irq_nonneg [of "master_of b'"] by (auto simp: driven_def m')
qed

section \<open>Examples\<close>

definition easy_pc :: "unit pc_env" where
  "easy_pc = \<lparr>ioapic = (\<lambda>_ x _. x), a20_line = None, reset_line = (\<lambda>x. x)\<rparr>"

text \<open>Writes of the guest to the ports of the 8259s (the slave's when the flag is set), and when they are operations of the machine.\<close>

definition guest_write :: "bool \<times> nat \<times> u8 \<Rightarrow> pic \<times> pic \<times> bool \<Rightarrow> pic \<times> pic \<times> bool" where
  "guest_write w sys = (case w of (to_slave, addr, val) \<Rightarrow>
     if to_slave then pic_ioport_write (cascade pin) addr val sys else (fst sys, pic_ioport_write pin addr val (snd sys)))"

primrec guest_writes_ok :: "(bool \<times> nat \<times> u8) list \<Rightarrow> pic \<times> pic \<times> bool \<Rightarrow> bool" where
  "guest_writes_ok [] sys = True"
| "guest_writes_ok (w # ws) sys =
     ((case w of (to_slave, addr, val) \<Rightarrow>
         let chip = (if to_slave then fst sys else fst (snd sys))
         in \<not> stale_write addr val chip \<and> \<not> (addr = 0 \<and> bit val 4 \<and> last_irr chip \<noteq> 0))
      \<and> guest_writes_ok ws (guest_write w sys))"

lemma guest_writes_access: "guest_writes_ok ws sys \<Longrightarrow> pics_access\<^sup>*\<^sup>* sys (fold guest_write ws sys)"
proof (induction ws arbitrary: sys)
  case (Cons w ws)
  obtain to_slave addr val where w: "w = (to_slave, addr, val)" by (cases w)
  have z: "bit (last_irr c) i \<Longrightarrow> last_irr c \<noteq> 0" for c i by auto
  have "pics_access sys (guest_write w sys)"
  proof (cases to_slave)
    case True
    then show ?thesis using Cons.prems access_write_slave [of addr val sys] z by (auto simp: w guest_write_def Let_def)
  next
    case False
    obtain sl mc where "sys = (sl, mc)" by (cases sys)
    then show ?thesis using False Cons.prems access_write_master [of addr val mc sl] z by (auto simp: w guest_write_def Let_def)
  qed
  moreover have "guest_writes_ok ws (guest_write w sys)" using Cons.prems by simp
  note Cons.IH [OF this]
  ultimately show ?case unfolding fold_Cons comp_apply by (rule converse_rtranclp_into_rtranclp)
qed simp

lemma machine_pics_run:
  assumes "pics_access\<^sup>*\<^sup>* (pics (ext st)) ps"
  shows "(machine_step env)\<^sup>*\<^sup>* st (st\<lparr>ext := (ext st)\<lparr>pics := ps\<rparr>\<rparr>)"
  using assms
proof (induction rule: rtranclp_induct)
  case (step ps ps')
  let ?st = "st\<lparr>ext := (ext st)\<lparr>pics := ps\<rparr>\<rparr>"
  have "machine_step env ?st (?st\<lparr>ext := (ext ?st)\<lparr>pics := ps'\<rparr>\<rparr>)" by (rule machine_pics) (simp add: step)
  with step.IH show ?case by (auto intro: rtranclp.rtrancl_into_rtrancl)
qed simp

text \<open>The usual initialisation: the master's vectors from 8, the slave's from 0x70 on its line 2, lines 0, 1 and 2 unmasked.\<close>

definition boot_writes :: "(bool \<times> nat \<times> u8) list" where
  "boot_writes = [(False, 0, 0x11), (False, 1, 0x08), (False, 1, 0x04), (False, 1, 0x01), (True, 0, 0x11), (True, 1, 0x70),
     (True, 1, 0x02), (True, 1, 0x01), (False, 1, 0xf8), (True, 1, 0xff)]"

definition booted :: "pic \<times> pic \<times> bool" where
  "booted = fold guest_write boot_writes i8259_init"

definition quiet_machine :: "unit pc i8042" where
  "quiet_machine = kbd_write_data (i8042_ports easy_pc) 0x01 (kbd_write_command (i8042_ports easy_pc) 0x60 (machine_init ()))"

definition easy_machine :: "unit pc i8042" where
  "easy_machine = quiet_machine\<lparr>ext := (ext quiet_machine)\<lparr>pics := booted\<rparr>\<rparr>"

text \<open>The input layer after both PS/2 devices have registered, and the browser's thread before it.\<close>

definition pc_input :: "'o pc_env \<Rightarrow> 'o pc i8042 \<Rightarrow> ('o pc i8042) input" where
  "pc_input env st =
     snd (qemu_input_handler_register (ps2_mouse_handler env)
       (snd (qemu_input_handler_register (ps2_keyboard_handler env)
         \<lparr>handlers = [], next_id = 1, mouse_mode_notifiers = [], current_is_absolute = False, kbd_queue = [],
          kbd_timer = None, devs = st, accepting = True, graphic_rotate = 0, clock_ms = 0\<rparr>)))"

definition easy_pc_web :: "(unit pc i8042) web" where
  "easy_pc_web = \<lparr>window = window_init (pc_input easy_pc easy_machine), globals = qemu_globals_init,
     km = Make_keymap (replicate 250 0), rbuf = replicate 100 NUL\<rparr>"

lemma easy_devs: "devs (inp (window easy_pc_web)) = easy_machine"
  by (simp add: easy_pc_web_def window_init_def pc_input_def qemu_input_handler_register_def
      qemu_input_check_mode_change_def Let_def notifier_list_notify_def)

lemma idle_lines: "n < 16 \<Longrightarrow> i8259_set_irq pin n i8259_init 0 = i8259_init"
proof -
  have "pic_latch i 0 (i8259_init_chip m) = i8259_init_chip m" "pic_get_irq (i8259_init_chip m) = - 1" for i m
    by (simp_all add: pic_latch_def pic_get_irq_def i8259_init_chip_def)
  then show ?thesis
    by (simp add: i8259_set_irq_def i8259_init_def pic_set_irq_def pic_update_irq_def cascade_def pin_def Let_def)
qed

lemma quiet_machine_state:
  "pics (ext quiet_machine) = i8259_init" "mode (ctl quiet_machine) = 1" "queue (k_common (kbd quiet_machine)) = empty_queue"
  by (simp_all add: quiet_machine_def kbd_write_data_def kbd_write_command_def machine_init_def i8042_realizefn_def
      ps2_keyboard_set_translation_def on_ctl_def kbd_update_irq_def i8042_ports_def pics_gsi idle_lines ps2_kbd_init_def)

lemma easy_machine_run: "(machine_step easy_pc)\<^sup>*\<^sup>* (machine_init ()) easy_machine"
proof -
  have "(machine_step easy_pc)\<^sup>*\<^sup>* (machine_init ()) quiet_machine"
    unfolding quiet_machine_def
    by (rule rtranclp.rtrancl_into_rtrancl, rule r_into_rtranclp) (rule machine_controller, rule step_command step_data)+
  moreover have "guest_writes_ok boot_writes i8259_init" by code_simp
  from guest_writes_access [OF this] have "pics_access\<^sup>*\<^sup>* (pics (ext quiet_machine)) booted"
    by (simp add: quiet_machine_state booted_def)
  from machine_pics_run [OF this] have "(machine_step easy_pc)\<^sup>*\<^sup>* quiet_machine easy_machine" by (simp add: easy_machine_def)
  ultimately show ?thesis by (rule rtranclp_trans)
qed

lemma booted_state: "priority_add (fst (snd booted)) = 0" "imr (fst (snd booted)) = 0xf8" "irr (fst (snd booted)) = 0"
  "isr (fst (snd booted)) = 0" "irq_base (fst (snd booted)) = 8" "last_irr (fst (snd booted)) = 0"
  by code_simp+

lemma easy_awaits: "awaits_key easy_machine" "irq_base (master_of (ext easy_machine)) = 8"
  using queue_ok_empty
  by (simp_all add: awaits_key_def requests_def blocks_def easy_machine_def quiet_machine_state booted_state)

text \<open>The booted machine after a key was pressed: its keyboard has data, so line 1 is high, wins, and the pin is raised.\<close>

definition pressed_machine :: "unit pc i8042" where
  "pressed_machine = on_keyboard (ps2_keyboard_event (kbd_update_kbd_irq (i8042_ports easy_pc))
     (INPUT_EVENT_KIND_KEY (KEY_VALUE_KIND_NUMBER 0x1e) True)) easy_machine"

theorem machine_interrupts_track_witness:
  "bit (last_irr (master_of (ext pressed_machine))) 1 \<and> cpu_pin (ext pressed_machine) \<and> (\<exists>i. wins (master_of (ext pressed_machine)) i)"
proof -
  have st: "machine_step easy_pc easy_machine pressed_machine"
    unfolding pressed_machine_def by (rule machine_controller) (rule step_key)
  note r = rtranclp.rtrancl_into_rtrancl [OF easy_machine_run st]
  note k = key_interrupts [OF machine_run_ok [OF easy_machine_run] easy_awaits(1) pressed_machine_def]
  have pin: "cpu_pin (ext pressed_machine)" by (rule k(1))
  have q: "contents (queue (k_common (kbd pressed_machine))) \<noteq> []" using k(3) key_bytes_nonempty by simp
  have "mode (ctl easy_machine) = 1" by (simp add: easy_machine_def quiet_machine_state)
  then have "mode (ctl pressed_machine) = 1"
    using mode_kept.inv_keyboard_event [where kw = "(kbd easy_machine, ctl easy_machine, ext easy_machine)" and md = 1]
    by (simp add: pressed_machine_def on_keyboard_def case_prod_unfold Let_def del: ps2_keyboard_event.simps)
  then show ?thesis using machine_interrupts_track [OF r] pin q unfolding Let_def by simp
qed

lemma easy_passes: "passes_keys (ps2_keyboard_handler easy_pc) (con (window easy_pc_web)) (inp (window easy_pc_web))"
  by (simp add: passes_keys_def easy_pc_web_def window_init_def pc_input_def qemu_input_handler_register_def
      qemu_input_check_mode_change_def Let_def notifier_list_notify_def qemu_input_find_handler_def takes_def
      ps2_keyboard_handler_def ps2_mouse_handler_def)

definition armed :: PITChannelState where
  "armed = rate2\<lparr>irq_timer := Some None, next_transition_time := 2514\<rparr>"

theorem timer_interrupts_guest_witness:
  "cpu_pin (snd (pit_irq_timer (gsi_handler (\<lambda>_ x _. x) 0) (armed, \<lparr>pics = booted, others = ()\<rparr>))) \<and>
   fst (pic_read_irq pin (pics (snd (pit_irq_timer (gsi_handler (\<lambda>_ x _. x) 0) (armed, \<lparr>pics = booted, others = ()\<rparr>))))) = 8"
proof -
  let ?b = "\<lparr>pics = booted, others = ()\<rparr>" and ?io = "\<lambda>_ x _. x"
  have p: "chan_ok armed" "ch_mode armed = 2" "2 \<le> ch_count armed" "times_ok armed 1" "pit_get_out armed 1 = 0"
    "tick_next 2 (ch_count armed) (elapsed armed 1) = Some 3" "1 < count_load_time armed + tick_time 3"
    "\<not> 596591 dvd (3 :: int)" "times_ok armed (pit_get_next_transition_time armed 1)"
    "next_transition_time armed = pit_get_next_transition_time armed 1" "irq_timer armed \<noteq> None" "\<not> irq_disabled armed"
    by code_simp+
  have m: "\<forall>j. requests (master_of ?b) j \<longrightarrow> rank (master_of ?b) 0 \<le> rank (master_of ?b) j"
    "\<forall>j. blocks (master_of ?b) j \<longrightarrow> rank (master_of ?b) 0 < rank (master_of ?b) j" "\<not> bit (imr (master_of ?b)) 0"
    "\<not> bit (last_irr (master_of ?b)) 0" by (simp_all add: booted_state requests_def blocks_def)
  show ?thesis
    using timer_interrupts_guest [OF p m, of ?io "fst (pit_irq_timer (gsi_handler ?io 0) (armed, ?b))"
        "snd (pit_irq_timer (gsi_handler ?io 0) (armed, ?b))"] by (simp add: booted_state)
qed

end
