(* ===== verification/Usb_Hid.thy ===== *)
theory Usb_Hid
  imports Input_Core
begin

text \<open>
  The USB tablet, mouse and keyboard, src/Qemu-2.4.1/hw/input/hid.c with the requests of hw/usb/dev-hid.c; the virtual
  machines are started with the tablet.  A device is a \<open>HIDState\<close> together with the state \<open>'w\<close> behind its
  callbacks: \<open>event\<close> tells the host controller that there is something to fetch, \<open>activate\<close> moves the
  device's handler to the front of the input layer's list.  The two halves of the source's union are separate fields.
  Queue positions are natural numbers modulo sixteen, which is how the source masks them; accumulated motion, an
  \<^verbatim>\<open>int32_t\<close>, is an unbounded integer.
\<close>

datatype hid_kind = HID_MOUSE | HID_TABLET | HID_KEYBOARD

record HIDPointerEvent =
  pe_xdx :: int
  pe_ydy :: int
  pe_dz :: int
  pe_buttons :: int

abbreviation QUEUE_LENGTH :: nat where "QUEUE_LENGTH \<equiv> 16"

record HIDState =
  hs_queue :: "HIDPointerEvent list"
  hs_grabbed :: bool
  hs_keycodes :: "int list"
  hs_modifiers :: u16
  hs_leds :: u8
  hs_key :: "u8 list"
  hs_keys :: nat
  hs_head :: nat
  hs_n :: nat
  hs_kind :: hid_kind
  hs_protocol :: int
  hs_idle :: u8
  hs_idle_pending :: bool
  hs_idle_timer :: "int option option"

record 'w hid_env =
  hid_event :: "'w \<Rightarrow> 'w"
  hid_activate :: "'w \<Rightarrow> 'w"

subsection \<open>The idle timer\<close>

definition hid_has_events :: "HIDState \<Rightarrow> bool" where
  "hid_has_events hs \<longleftrightarrow> hs_n hs > 0 \<or> hs_idle_pending hs"

definition hid_idle_timer :: "'w hid_env \<Rightarrow> HIDState \<times> 'w \<Rightarrow> HIDState \<times> 'w" where
  "hid_idle_timer env hw = ((fst hw)\<lparr>hs_idle_pending := True\<rparr>, hid_event env (snd hw))"

definition hid_del_idle_timer :: "HIDState \<Rightarrow> HIDState" where
  "hid_del_idle_timer hs = hs\<lparr>hs_idle_timer := None\<rparr>"

definition hid_set_next_idle :: "int \<Rightarrow> HIDState \<Rightarrow> HIDState" where
  "hid_set_next_idle now hs =
     (if hs_idle hs \<noteq> 0
      then hs\<lparr>hs_idle_timer := Some (Some (now + 1000000000 * uint (hs_idle hs) * 4 div 1000))\<rparr>
      else hid_del_idle_timer hs)"

subsection \<open>Pointers\<close>

fun hid_bmap :: "InputButton \<Rightarrow> int" where
  "hid_bmap INPUT_BUTTON_LEFT = 0x01"
| "hid_bmap INPUT_BUTTON_RIGHT = 0x02"
| "hid_bmap INPUT_BUTTON_MIDDLE = 0x04"
| "hid_bmap INPUT_BUTTON_WHEEL_UP = 0"
| "hid_bmap INPUT_BUTTON_WHEEL_DOWN = 0"

fun pointer_apply :: "InputEvent \<Rightarrow> HIDPointerEvent \<Rightarrow> HIDPointerEvent" where
  "pointer_apply (INPUT_EVENT_KIND_REL axis v) e =
     (if axis = INPUT_AXIS_X then e\<lparr>pe_xdx := pe_xdx e + v\<rparr> else e\<lparr>pe_ydy := pe_ydy e + v\<rparr>)"
| "pointer_apply (INPUT_EVENT_KIND_ABS axis v) e =
     (if axis = INPUT_AXIS_X then e\<lparr>pe_xdx := v\<rparr> else e\<lparr>pe_ydy := v\<rparr>)"
| "pointer_apply (INPUT_EVENT_KIND_BTN button down) e =
     (if down then
        let e1 = e\<lparr>pe_buttons := pe_buttons e OR hid_bmap button\<rparr>
        in if button = INPUT_BUTTON_WHEEL_UP then e1\<lparr>pe_dz := pe_dz e1 - 1\<rparr>
           else if button = INPUT_BUTTON_WHEEL_DOWN then e1\<lparr>pe_dz := pe_dz e1 + 1\<rparr> else e1
      else e\<lparr>pe_buttons := pe_buttons e AND NOT (hid_bmap button)\<rparr>)"
| "pointer_apply (INPUT_EVENT_KIND_KEY key down) e = e"

definition hid_pointer_event :: "InputEvent \<Rightarrow> HIDState \<times> 'w \<Rightarrow> c_fault + HIDState \<times> 'w" where
  "hid_pointer_event evt hw =
     (let (hs, w) = hw; i = (hs_head hs + hs_n hs) mod QUEUE_LENGTH
      in if hs_n hs < QUEUE_LENGTH
         then Inr (hs\<lparr>hs_queue := (hs_queue hs)[i := pointer_apply evt (hs_queue hs ! i)]\<rparr>, w)
         else Inl Assertion_Failed)"

definition hid_pointer_sync :: "'w hid_env \<Rightarrow> HIDState \<times> 'w \<Rightarrow> HIDState \<times> 'w" where
  "hid_pointer_sync env hw =
     (let (hs, w) = hw
      in if hs_n hs = QUEUE_LENGTH - 1 then (hs, w)
         else
           let p = (hs_head hs + hs_n hs + 15) mod QUEUE_LENGTH;
               c = (hs_head hs + hs_n hs) mod QUEUE_LENGTH;
               x = (hs_head hs + hs_n hs + 1) mod QUEUE_LENGTH;
               q = hs_queue hs;
               event_compression = (hs_n hs > 0 \<and> pe_buttons (q ! c) = pe_buttons (q ! p))
           in if event_compression then
                let q1 = (if hs_kind hs = HID_MOUSE then
                            (q[p := (q ! p)\<lparr>pe_xdx := pe_xdx (q ! p) + pe_xdx (q ! c), pe_ydy := pe_ydy (q ! p) + pe_ydy (q ! c)\<rparr>])
                              [c := (q ! c)\<lparr>pe_xdx := 0, pe_ydy := 0\<rparr>]
                          else q[p := (q ! p)\<lparr>pe_xdx := pe_xdx (q ! c), pe_ydy := pe_ydy (q ! c)\<rparr>]);
                    q2 = (q1[p := (q1 ! p)\<lparr>pe_dz := pe_dz (q1 ! p) + pe_dz (q1 ! c)\<rparr>])[c := (q1 ! c)\<lparr>pe_dz := 0\<rparr>]
                in (hs\<lparr>hs_queue := q2\<rparr>, w)
              else
                let nx = (if hs_kind hs = HID_MOUSE then (q ! x)\<lparr>pe_xdx := 0, pe_ydy := 0\<rparr>
                          else (q ! x)\<lparr>pe_xdx := pe_xdx (q ! c), pe_ydy := pe_ydy (q ! c)\<rparr>)
                in (hs\<lparr>hs_queue := q[x := nx\<lparr>pe_dz := 0, pe_buttons := pe_buttons (q ! c)\<rparr>], hs_n := hs_n hs + 1\<rparr>,
                    hid_event env w))"

definition int_clamp :: "int \<Rightarrow> int \<Rightarrow> int \<Rightarrow> int" where
  "int_clamp val vmin vmax = (if val < vmin then vmin else if val > vmax then vmax else val)"

definition hid_pointer_activate :: "'w hid_env \<Rightarrow> HIDState \<times> 'w \<Rightarrow> HIDState \<times> 'w" where
  "hid_pointer_activate env hw =
     (let (hs, w) = hw in if \<not> hs_grabbed hs then (hs\<lparr>hs_grabbed := True\<rparr>, hid_activate env w) else (hs, w))"

text \<open>The report, cut at \<open>len\<close>; the tablet sends the coordinates as two bytes each.\<close>

definition hid_pointer_poll :: "'w hid_env \<Rightarrow> nat \<Rightarrow> HIDState \<times> 'w \<Rightarrow> u8 list \<times> HIDState \<times> 'w" where
  "hid_pointer_poll env len hw0 =
     (let (hs, w) = hid_pointer_activate env ((fst hw0)\<lparr>hs_idle_pending := False\<rparr>, snd hw0);
          i = (if hs_n hs > 0 then hs_head hs else hs_head hs + 15) mod QUEUE_LENGTH;
          e = hs_queue hs ! i;
          (dx, dy, e1) =
            (if hs_kind hs = HID_MOUSE then
               let dx = int_clamp (pe_xdx e) (- 127) 127; dy = int_clamp (pe_ydy e) (- 127) 127
               in (dx, dy, e\<lparr>pe_xdx := pe_xdx e - dx, pe_ydy := pe_ydy e - dy\<rparr>)
             else (pe_xdx e, pe_ydy e, e));
          dz = int_clamp (pe_dz e1) (- 127) 127;
          e2 = e1\<lparr>pe_dz := pe_dz e1 - dz\<rparr>;
          hs1 = hs\<lparr>hs_queue := (hs_queue hs)[i := e2]\<rparr>;
          hs2 = (if hs_n hs1 > 0 \<and> pe_dz e2 = 0 \<and> (hs_kind hs = HID_TABLET \<or> pe_xdx e2 = 0 \<and> pe_ydy e2 = 0)
                 then hs1\<lparr>hs_head := (hs_head hs1 + 1) mod QUEUE_LENGTH, hs_n := hs_n hs1 - 1\<rparr> else hs1);
          report = (if hs_kind hs = HID_MOUSE
                    then [word_of_int (pe_buttons e), word_of_int dx, word_of_int dy, word_of_int (0 - dz)]
                    else [word_of_int (pe_buttons e), word_of_int (dx AND 0xff), word_of_int (drop_bit 8 dx),
                          word_of_int (dy AND 0xff), word_of_int (drop_bit 8 dy), word_of_int (0 - dz)])
      in (take len report, hs2, w))"

subsection \<open>Keyboards\<close>

definition hid_usage_keys :: "u8 list" where
  "hid_usage_keys = [
     0x00, 0x29, 0x1e, 0x1f, 0x20, 0x21, 0x22, 0x23,
     0x24, 0x25, 0x26, 0x27, 0x2d, 0x2e, 0x2a, 0x2b,
     0x14, 0x1a, 0x08, 0x15, 0x17, 0x1c, 0x18, 0x0c,
     0x12, 0x13, 0x2f, 0x30, 0x28, 0xe0, 0x04, 0x16,
     0x07, 0x09, 0x0a, 0x0b, 0x0d, 0x0e, 0x0f, 0x33,
     0x34, 0x35, 0xe1, 0x31, 0x1d, 0x1b, 0x06, 0x19,
     0x05, 0x11, 0x10, 0x36, 0x37, 0x38, 0xe5, 0x55,
     0xe2, 0x2c, 0x39, 0x3a, 0x3b, 0x3c, 0x3d, 0x3e,
     0x3f, 0x40, 0x41, 0x42, 0x43, 0x53, 0x47, 0x5f,
     0x60, 0x61, 0x56, 0x5c, 0x5d, 0x5e, 0x57, 0x59,
     0x5a, 0x5b, 0x62, 0x63, 0x00, 0x00, 0x00, 0x44,
     0x45, 0x68, 0x69, 0x6a, 0x6b, 0x6c, 0x6d, 0x6e,
     0xe8, 0xe9, 0x71, 0x72, 0x73, 0x00, 0x00, 0x00,
     0x00, 0x00, 0x00, 0x85, 0x00, 0x00, 0x00, 0x00,
     0x00, 0x00, 0x00, 0x00, 0x00, 0x00, 0x00, 0x00,
     0x00, 0x00, 0x00, 0x00, 0x00, 0xe3, 0xe7, 0x65,

     0x00, 0x00, 0x00, 0x00, 0x00, 0x00, 0x00, 0x00,
     0x00, 0x00, 0x00, 0x00, 0x00, 0x00, 0x00, 0x00,
     0x00, 0x00, 0x00, 0x00, 0x00, 0x00, 0x00, 0x00,
     0x00, 0x00, 0x00, 0x00, 0x58, 0xe4, 0x00, 0x00,
     0x00, 0x00, 0x00, 0x00, 0x00, 0x00, 0x00, 0x00,
     0x00, 0x00, 0x00, 0x00, 0x00, 0x00, 0x00, 0x00,
     0x00, 0x00, 0x00, 0x00, 0x00, 0x54, 0x00, 0x46,
     0xe6, 0x00, 0x00, 0x00, 0x00, 0x00, 0x00, 0x00,
     0x00, 0x00, 0x00, 0x00, 0x00, 0x48, 0x00, 0x4a,
     0x52, 0x4b, 0x00, 0x50, 0x00, 0x4f, 0x00, 0x4d,
     0x51, 0x4e, 0x49, 0x4c, 0x00, 0x00, 0x00, 0x00,
     0x00, 0x00, 0x00, 0xe3, 0xe7, 0x65, 0x00, 0x00,
     0x00, 0x00, 0x00, 0x00, 0x00, 0x00, 0x00, 0x00,
     0x00, 0x00, 0x00, 0x00, 0x00, 0x00, 0x00, 0x00,
     0x00, 0x00, 0x00, 0x00, 0x00, 0x00, 0x00, 0x00,
     0x00, 0x00, 0x00, 0x00, 0x00, 0x00, 0x00, 0x00]"

definition hid_keyboard_event :: "'w hid_env \<Rightarrow> KeyValue \<Rightarrow> bool \<Rightarrow> HIDState \<times> 'w \<Rightarrow> HIDState \<times> 'w" where
  "hid_keyboard_event env key down hw =
     (let (hs, w) = hw; scancodes = qemu_input_key_value_to_scancode key down
      in if hs_n hs + length scancodes > QUEUE_LENGTH then (hs, w)
         else (fold (\<lambda>c hs. hs\<lparr>hs_n := hs_n hs + 1,
                               hs_keycodes := (hs_keycodes hs)[(hs_head hs + hs_n hs) mod QUEUE_LENGTH := c]\<rparr>) scancodes hs,
               hid_event env w))"

text \<open>The search for a key from the end of the pressed ones: its position.\<close>

fun key_loop :: "u8 \<Rightarrow> u8 list \<Rightarrow> nat \<Rightarrow> nat option" where
  "key_loop code key 0 = None"
| "key_loop code key (Suc i) = (if key ! i = code then Some i else key_loop code key i)"

text \<open>What is done with the usage \<open>hid_code\<close> of an ordinary key.\<close>

definition hid_ordinary_key :: "u8 \<Rightarrow> bool \<Rightarrow> HIDState \<Rightarrow> HIDState" where
  "hid_ordinary_key hid_code released hs =
     (let found = key_loop hid_code (hs_key hs) (hs_keys hs)
      in if released then
           case found of
             None \<Rightarrow> hs
           | Some i \<Rightarrow> let k = hs_keys hs - 1
                       in hs\<lparr>hs_keys := k, hs_key := (hs_key hs)[i := hs_key hs ! k, k := 0]\<rparr>
         else
           case found of
             Some _ \<Rightarrow> hs
           | None \<Rightarrow> if hs_keys hs < 16
                     then hs\<lparr>hs_key := (hs_key hs)[hs_keys hs := hid_code], hs_keys := hs_keys hs + 1\<rparr> else hs)"

definition hid_keyboard_process_keycode :: "HIDState \<Rightarrow> c_fault + HIDState" where
  "hid_keyboard_process_keycode hs0 =
     (if hs_n hs0 = 0 then Inr hs0
      else
        let keycode = hs_keycodes hs0 ! (hs_head hs0 mod QUEUE_LENGTH);
            hs = hs0\<lparr>hs_head := (hs_head hs0 + 1) mod QUEUE_LENGTH, hs_n := hs_n hs0 - 1\<rparr>;
            key = word_of_int (keycode AND 0x7f) :: u8;
            index = key OR ucast (drop_bit 1 (hs_modifiers hs AND 0x100));
            hid_code = hid_usage_keys ! unat index;
            released = bit keycode 7;
            hs1 = hs\<lparr>hs_modifiers := hs_modifiers hs AND NOT 0x100\<rparr>;
            bit_of = push_bit (unat (hid_code AND 0x0f)) 1
        in if hid_code = 0 then Inr hs1
           else if hid_code = 0xe0 \<and> key \<noteq> 0x1d then Inl Assertion_Failed
           else if hid_code = 0xe0 \<and> bit (hs_modifiers hs1) 9 then Inr (hs1\<lparr>hs_modifiers := hs_modifiers hs1 XOR 0x300\<rparr>)
           else if 0xe0 \<le> hid_code \<and> hid_code \<le> 0xe7 \<and> released then
             Inr (hs1\<lparr>hs_modifiers := hs_modifiers hs1 AND NOT bit_of\<rparr>)
           else if 0xe0 \<le> hid_code \<and> hid_code \<le> 0xe9 then Inr (hs1\<lparr>hs_modifiers := hs_modifiers hs1 OR bit_of\<rparr>)
           else if 0xea \<le> hid_code \<and> hid_code \<le> 0xef then Inl Process_Exit
           else Inr (hid_ordinary_key hid_code released hs1))"

definition hid_keyboard_poll :: "nat \<Rightarrow> HIDState \<Rightarrow> c_fault + u8 list \<times> HIDState" where
  "hid_keyboard_poll len hs0 =
     (let hs = hs0\<lparr>hs_idle_pending := False\<rparr>
      in if len < 2 then Inr ([], hs)
         else bindE (hid_keyboard_process_keycode hs) (\<lambda>hs1.
                Inr ([ucast (hs_modifiers hs1 AND 0xff), 0] @
                     (if hs_keys hs1 > 6 then replicate (min 8 len - 2) 1 else take (min 8 len - 2) (hs_key hs1)), hs1)))"

text \<open>The second component is the state handed to \<^verbatim>\<open>kbd_put_ledstate\<close>, if it is called.\<close>

definition hid_keyboard_write :: "u8 list \<Rightarrow> HIDState \<Rightarrow> HIDState \<times> int option" where
  "hid_keyboard_write buf hs =
     (case buf of
        [] \<Rightarrow> (hs, None)
      | b # _ \<Rightarrow> (hs\<lparr>hs_leds := b\<rparr>,
                  Some ((if bit b 2 then 1 else 0) OR (if bit b 0 then 2 else 0) OR (if bit b 1 then 4 else 0))))"

subsection \<open>Reset and migration\<close>

definition zero_event :: HIDPointerEvent where
  "zero_event = \<lparr>pe_xdx = 0, pe_ydy = 0, pe_dz = 0, pe_buttons = 0\<rparr>"

definition hid_reset :: "HIDState \<Rightarrow> HIDState" where
  "hid_reset hs =
     (let hs1 = (case hs_kind hs of
                   HID_KEYBOARD \<Rightarrow> hs\<lparr>hs_keycodes := replicate 16 0, hs_key := replicate 16 0, hs_keys := 0\<rparr>
                 | _ \<Rightarrow> hs\<lparr>hs_queue := replicate 16 zero_event\<rparr>)
      in hid_del_idle_timer (hs1\<lparr>hs_head := 0, hs_n := 0, hs_protocol := 1, hs_idle := 0, hs_idle_pending := False\<rparr>))"

definition hid_post_load :: "int \<Rightarrow> HIDState \<Rightarrow> HIDState" where
  "hid_post_load now s0 =
     (let s = hid_set_next_idle now s0
      in if hs_n s = QUEUE_LENGTH \<and> (hs_kind s = HID_TABLET \<or> hs_kind s = HID_MOUSE) then
           let evt = hs_queue s ! ((hs_head s + hs_n s) mod QUEUE_LENGTH);
               evt = (if hs_kind s = HID_MOUSE then evt\<lparr>pe_xdx := 0, pe_ydy := 0\<rparr> else evt)
           in s\<lparr>hs_queue := (hs_queue s)[0 := evt], hs_head := 0, hs_n := 1\<rparr>
         else s)"

text \<open>A device as \<^verbatim>\<open>hid_init\<close> finds it: zeroed memory.\<close>

definition hid_new :: "hid_kind \<Rightarrow> HIDState" where
  "hid_new kind = \<lparr>hs_queue = replicate 16 zero_event, hs_grabbed = False, hs_keycodes = replicate 16 0, hs_modifiers = 0,
     hs_leds = 0, hs_key = replicate 16 0, hs_keys = 0, hs_head = 0, hs_n = 0, hs_kind = kind, hs_protocol = 0, hs_idle = 0,
     hs_idle_pending = False, hs_idle_timer = None\<rparr>"

subsection \<open>The handlers in the input layer\<close>

text \<open>The devices of the input layer are a fault or the device with the state behind its callbacks.\<close>

definition hid_mouse_handler :: "'w hid_env \<Rightarrow> (c_fault + HIDState \<times> 'w) QemuInputHandler" where
  "hid_mouse_handler env = \<lparr>h_name = ''QEMU HID Mouse'', h_mask = INPUT_EVENT_MASK_BTN OR INPUT_EVENT_MASK_REL,
     h_event = (\<lambda>src evt d. bindE d (hid_pointer_event evt)), h_sync = Some (\<lambda>d. bindE d (\<lambda>hw. Inr (hid_pointer_sync env hw)))\<rparr>"

definition hid_tablet_handler :: "'w hid_env \<Rightarrow> (c_fault + HIDState \<times> 'w) QemuInputHandler" where
  "hid_tablet_handler env = \<lparr>h_name = ''QEMU HID Tablet'', h_mask = INPUT_EVENT_MASK_BTN OR INPUT_EVENT_MASK_ABS,
     h_event = (\<lambda>src evt d. bindE d (hid_pointer_event evt)), h_sync = Some (\<lambda>d. bindE d (\<lambda>hw. Inr (hid_pointer_sync env hw)))\<rparr>"

definition hid_keyboard_handler :: "'w hid_env \<Rightarrow> (c_fault + HIDState \<times> 'w) QemuInputHandler" where
  "hid_keyboard_handler env = \<lparr>h_name = ''QEMU HID Keyboard'', h_mask = INPUT_EVENT_MASK_KEY,
     h_event = (\<lambda>src evt d. bindE d (\<lambda>hw. case evt of INPUT_EVENT_KIND_KEY key down \<Rightarrow> Inr (hid_keyboard_event env key down hw)
                                          | _ \<Rightarrow> Inr hw)), h_sync = None\<rparr>"

text \<open>\<^verbatim>\<open>hid_init\<close>: the handler's id and the input layer afterwards.\<close>

definition hid_init :: "'w hid_env \<Rightarrow> hid_kind \<Rightarrow> (c_fault + HIDState \<times> 'w) input \<Rightarrow> int \<times> (c_fault + HIDState \<times> 'w) input" where
  "hid_init env kind st0 =
     (let st = st0\<lparr>devs := bindE (devs st0) (\<lambda>(hs, w). Inr (hs\<lparr>hs_kind := kind\<rparr>, w))\<rparr>
      in case kind of
           HID_KEYBOARD \<Rightarrow> let (i, st1) = qemu_input_handler_register (hid_keyboard_handler env) st
                           in (i, qemu_input_handler_activate i st1)
         | HID_MOUSE \<Rightarrow> qemu_input_handler_register (hid_mouse_handler env) st
         | HID_TABLET \<Rightarrow> qemu_input_handler_register (hid_tablet_handler env) st)"

definition hid_free :: "int \<Rightarrow> (c_fault + HIDState \<times> 'w) input \<Rightarrow> (c_fault + HIDState \<times> 'w) input" where
  "hid_free i st0 =
     (let st = qemu_input_handler_unregister i st0
      in st\<lparr>devs := bindE (devs st) (\<lambda>(hs, w). Inr (hid_del_idle_timer hs, w))\<rparr>)"

subsection \<open>USB requests\<close>

text \<open>\<^verbatim>\<open>usb_hid_initfn\<close>: an unknown version of USB is refused.  \<open>display\<close> holds the properties that name a console; the two
  look-ups are those of the input layer, and that the device cannot be bound is no error here.\<close>

definition usb_hid_initfn ::
  "(string \<Rightarrow> 'v option) \<Rightarrow> ('v \<Rightarrow> int \<Rightarrow> console option) \<Rightarrow> 'w hid_env \<Rightarrow> hid_kind \<Rightarrow> nat \<Rightarrow> (string \<times> int) option
   \<Rightarrow> (c_fault + HIDState \<times> 'w) input \<Rightarrow> nat + int \<times> (c_fault + HIDState \<times> 'w) input" where
  "usb_hid_initfn qdev_find qemu_console_lookup_by_device env kind usb_version display st0 =
     (if usb_version \<noteq> 1 \<and> usb_version \<noteq> 2 then Inl usb_version
      else
        let (i, st) = hid_init env kind st0
        in Inr (i, case display of None \<Rightarrow> st
                   | Some (device_id, head) \<Rightarrow>
                       (case qemu_input_handler_bind qdev_find qemu_console_lookup_by_device i device_id head st of
                          Inl _ \<Rightarrow> st | Inr st' \<Rightarrow> st')))"

definition usb_hid_handle_reset :: "HIDState \<times> 'w \<Rightarrow> HIDState \<times> 'w" where
  "usb_hid_handle_reset hw = (hid_reset (fst hw), snd hw)"

definition qemu_mouse_hid_report_descriptor :: "u8 list" where
  "qemu_mouse_hid_report_descriptor = [
     0x05, 0x01, 0x09, 0x02, 0xa1, 0x01, 0x09, 0x01, 0xa1, 0x00, 0x05, 0x09, 0x19, 0x01, 0x29, 0x03,
     0x15, 0x00, 0x25, 0x01, 0x95, 0x03, 0x75, 0x01, 0x81, 0x02, 0x95, 0x01, 0x75, 0x05, 0x81, 0x01,
     0x05, 0x01, 0x09, 0x30, 0x09, 0x31, 0x09, 0x38, 0x15, 0x81, 0x25, 0x7f, 0x75, 0x08, 0x95, 0x03,
     0x81, 0x06, 0xc0, 0xc0]"

definition qemu_tablet_hid_report_descriptor :: "u8 list" where
  "qemu_tablet_hid_report_descriptor = [
     0x05, 0x01, 0x09, 0x01, 0xa1, 0x01, 0x09, 0x01, 0xa1, 0x00, 0x05, 0x09, 0x19, 0x01, 0x29, 0x03,
     0x15, 0x00, 0x25, 0x01, 0x95, 0x03, 0x75, 0x01, 0x81, 0x02, 0x95, 0x01, 0x75, 0x05, 0x81, 0x01,
     0x05, 0x01, 0x09, 0x30, 0x09, 0x31, 0x15, 0x00, 0x26, 0xff, 0x7f, 0x35, 0x00, 0x46, 0xff, 0x7f,
     0x75, 0x10, 0x95, 0x02, 0x81, 0x02, 0x05, 0x01, 0x09, 0x38, 0x15, 0x81, 0x25, 0x7f, 0x35, 0x00,
     0x45, 0x00, 0x75, 0x08, 0x95, 0x01, 0x81, 0x06, 0xc0, 0xc0]"

definition qemu_keyboard_hid_report_descriptor :: "u8 list" where
  "qemu_keyboard_hid_report_descriptor = [
     0x05, 0x01, 0x09, 0x06, 0xa1, 0x01, 0x75, 0x01, 0x95, 0x08, 0x05, 0x07, 0x19, 0xe0, 0x29, 0xe7,
     0x15, 0x00, 0x25, 0x01, 0x81, 0x02, 0x95, 0x01, 0x75, 0x08, 0x81, 0x01, 0x95, 0x05, 0x75, 0x01,
     0x05, 0x08, 0x19, 0x01, 0x29, 0x05, 0x91, 0x02, 0x95, 0x01, 0x75, 0x03, 0x91, 0x01, 0x95, 0x06,
     0x75, 0x08, 0x15, 0x00, 0x25, 0xff, 0x05, 0x07, 0x19, 0x00, 0x29, 0xff, 0x81, 0x00, 0xc0]"

text \<open>The length of the report descriptor that the interface announces, and its packet size.\<close>

definition desc_iface :: "hid_kind \<Rightarrow> nat \<times> nat" where
  "desc_iface kind = (case kind of HID_MOUSE \<Rightarrow> (52, 4) | HID_TABLET \<Rightarrow> (74, 8) | HID_KEYBOARD \<Rightarrow> (0x3f, 8))"

datatype usb_reply = Usb_Reply "u8 list" | Usb_Done | Usb_Stall | Usb_Nak

definition report_descriptor :: "hid_kind \<Rightarrow> u8 list" where
  "report_descriptor kind =
     (case kind of HID_MOUSE \<Rightarrow> qemu_mouse_hid_report_descriptor | HID_TABLET \<Rightarrow> qemu_tablet_hid_report_descriptor
      | HID_KEYBOARD \<Rightarrow> qemu_keyboard_hid_report_descriptor)"

definition hid_poll :: "'w hid_env \<Rightarrow> nat \<Rightarrow> HIDState \<times> 'w \<Rightarrow> c_fault + u8 list \<times> HIDState \<times> 'w" where
  "hid_poll env len hw =
     (if hs_kind (fst hw) = HID_KEYBOARD
      then bindE (hid_keyboard_poll len (fst hw)) (\<lambda>(buf, hs). Inr (buf, hs, snd hw))
      else Inr (hid_pointer_poll env len hw))"

text \<open>\<open>desc\<close> is what the descriptor layer makes of a request, if it handles it; \<open>data\<close> holds the bytes sent with the request.
  What \<^verbatim>\<open>kbd_put_ledstate\<close> does is left out.\<close>

definition usb_hid_handle_control ::
  "'w hid_env \<Rightarrow> int \<Rightarrow> usb_reply option \<Rightarrow> int \<Rightarrow> int \<Rightarrow> nat \<Rightarrow> u8 list \<Rightarrow> HIDState \<times> 'w \<Rightarrow> c_fault + usb_reply \<times> HIDState \<times> 'w" where
  "usb_hid_handle_control env now desc request val len data hw =
     (let (hs, w) = hw; kind = hs_kind hs
      in case desc of
           Some r \<Rightarrow> Inr (r, hw)
         | None \<Rightarrow>
             if request = 0x8106 then
               (if drop_bit 8 val = 0x22 then Inr (Usb_Reply (report_descriptor kind), hw) else Inr (Usb_Stall, hw))
             else if request = 0xa101 then bindE (hid_poll env len hw) (\<lambda>(buf, hw'). Inr (Usb_Reply buf, hw'))
             else if request = 0x2109 then
               (if kind = HID_KEYBOARD then Inr (Usb_Done, fst (hid_keyboard_write (take len data) hs), w) else Inr (Usb_Stall, hw))
             else if request = 0xa103 then
               (if kind = HID_TABLET then Inr (Usb_Stall, hw) else Inr (Usb_Reply [word_of_int (hs_protocol hs)], hw))
             else if request = 0x210b then
               (if kind = HID_TABLET then Inr (Usb_Stall, hw) else Inr (Usb_Done, hs\<lparr>hs_protocol := val\<rparr>, w))
             else if request = 0xa102 then Inr (Usb_Reply [hs_idle hs], hw)
             else if request = 0x210a then
               let hw1 = (hid_set_next_idle now (hs\<lparr>hs_idle := word_of_int (drop_bit 8 val)\<rparr>), w)
               in Inr (Usb_Done, if kind = HID_KEYBOARD then hw1 else hid_pointer_activate env hw1)
             else Inr (Usb_Stall, hw))"

definition usb_hid_handle_data ::
  "'w hid_env \<Rightarrow> int \<Rightarrow> bool \<Rightarrow> int \<Rightarrow> nat \<Rightarrow> HIDState \<times> 'w \<Rightarrow> c_fault + usb_reply \<times> HIDState \<times> 'w" where
  "usb_hid_handle_data env now token_in ep sz hw =
     (if token_in \<and> ep = 1 then
        let hw1 = (if hs_kind (fst hw) = HID_KEYBOARD then hw else hid_pointer_activate env hw)
        in if \<not> hid_has_events (fst hw1) then Inr (Usb_Nak, hw1)
           else bindE (hid_poll env sz (hid_set_next_idle now (fst hw1), snd hw1)) (\<lambda>(buf, hw'). Inr (Usb_Reply buf, hw'))
      else Inr (Usb_Stall, hw))"

definition usb_ptr_post_load :: "'w hid_env \<Rightarrow> bool \<Rightarrow> HIDState \<times> 'w \<Rightarrow> HIDState \<times> 'w" where
  "usb_ptr_post_load env remote_wakeup hw = (if remote_wakeup then hid_pointer_activate env hw else hw)"

section \<open>The pointer's queue\<close>

text \<open>What the guest has still to fetch, oldest first, and the entry that collects the events of the next report.\<close>

definition visible :: "HIDState \<Rightarrow> HIDPointerEvent list" where
  "visible hs = map (\<lambda>i. hs_queue hs ! ((hs_head hs + i) mod 16)) [0..<hs_n hs]"

definition collected :: "HIDState \<Rightarrow> HIDPointerEvent" where
  "collected hs = hs_queue hs ! ((hs_head hs + hs_n hs) mod 16)"

text \<open>The entry before the head, which a poll repeats when there is nothing to fetch.\<close>

definition stale :: "HIDState \<Rightarrow> HIDPointerEvent" where
  "stale hs = hs_queue hs ! ((hs_head hs + 15) mod 16)"

definition ptr_ok :: "HIDState \<Rightarrow> bool" where
  "ptr_ok hs \<longleftrightarrow> length (hs_queue hs) = 16 \<and> hs_head hs < 16 \<and> hs_n hs \<le> 15 \<and> hs_kind hs \<noteq> HID_KEYBOARD"

lemma slot_less: "i \<le> j \<Longrightarrow> j < 16 \<Longrightarrow> (h + j) mod 16 = (h + i) mod 16 \<Longrightarrow> i = (j :: nat)"
  using mod_eq_dvd_iff_nat [of "h + i" "h + j" 16] dvd_imp_le [of 16 "j - i"] by (cases "i = j") auto

lemma slot_eq: "i < 16 \<Longrightarrow> j < 16 \<Longrightarrow> (h + i) mod 16 = (h + j) mod 16 \<longleftrightarrow> i = (j :: nat)"
  using slot_less [of i j h] slot_less [of j i h] by (cases "i \<le> j") auto

lemma slot_prev: "0 < n \<Longrightarrow> (h + n + 15) mod 16 = (h + (n - 1)) mod (16 :: nat)"
  by (cases n) (simp_all add: add.assoc)

lemma slot_prev_neq: "0 < n \<Longrightarrow> n < 16 \<Longrightarrow> (h + n + 15) mod 16 \<noteq> (h + n) mod (16 :: nat)"
  using slot_less [of "n - 1" n h] slot_prev [of n h] by fastforce

lemma visible_update:
  "ptr_ok hs \<Longrightarrow> j < 16 \<Longrightarrow> visible (hs\<lparr>hs_queue := (hs_queue hs)[(hs_head hs + j) mod 16 := e]\<rparr>) =
     (if j < hs_n hs then (visible hs)[j := e] else visible hs)"
  by (auto simp: visible_def ptr_ok_def intro!: nth_equalityI simp: nth_list_update slot_eq)

lemma collected_update:
  "ptr_ok hs \<Longrightarrow> j < 16 \<Longrightarrow> collected (hs\<lparr>hs_queue := (hs_queue hs)[(hs_head hs + j) mod 16 := e]\<rparr>) =
     (if j = hs_n hs then e else collected hs)"
  by (auto simp: collected_def ptr_ok_def nth_list_update slot_eq)

lemma ptr_ok_update [simp]: "ptr_ok (hs\<lparr>hs_queue := (hs_queue hs)[i := e]\<rparr>) = ptr_ok hs"
  by (simp add: ptr_ok_def)

lemma length_visible [simp]: "length (visible hs) = hs_n hs"
  by (simp add: visible_def)

lemma last_visible: "0 < hs_n hs \<Longrightarrow> last (visible hs) = hs_queue hs ! ((hs_head hs + hs_n hs + 15) mod 16)"
  by (cases "hs_n hs") (simp_all add: visible_def slot_prev)

lemma visible_grow:
  "visible (hs\<lparr>hs_n := hs_n hs + 1\<rparr>) = visible hs @ [collected hs]"
  by (simp add: visible_def collected_def)

subsection \<open>What the operations do to it\<close>

definition pe_join :: "hid_kind \<Rightarrow> HIDPointerEvent \<Rightarrow> HIDPointerEvent \<Rightarrow> HIDPointerEvent" where
  "pe_join kind l c =
     (if kind = HID_MOUSE then l\<lparr>pe_xdx := pe_xdx l + pe_xdx c, pe_ydy := pe_ydy l + pe_ydy c, pe_dz := pe_dz l + pe_dz c\<rparr>
      else l\<lparr>pe_xdx := pe_xdx c, pe_ydy := pe_ydy c, pe_dz := pe_dz l + pe_dz c\<rparr>)"

definition pe_rest :: "hid_kind \<Rightarrow> HIDPointerEvent \<Rightarrow> HIDPointerEvent" where
  "pe_rest kind c = (if kind = HID_MOUSE then c\<lparr>pe_xdx := 0, pe_ydy := 0, pe_dz := 0\<rparr> else c\<lparr>pe_dz := 0\<rparr>)"

definition sync_spec :: "hid_kind \<Rightarrow> HIDPointerEvent list \<times> HIDPointerEvent \<Rightarrow> HIDPointerEvent list \<times> HIDPointerEvent" where
  "sync_spec kind vc =
     (let (vs, c) = vc
      in if length vs = 15 then (vs, c)
         else if vs \<noteq> [] \<and> pe_buttons c = pe_buttons (last vs) then (butlast vs @ [pe_join kind (last vs) c], pe_rest kind c)
         else (vs @ [c], pe_rest kind c))"

lemma pointer_event_spec:
  assumes "ptr_ok hs"
  shows "\<exists>hs'. hid_pointer_event evt (hs, w) = Inr (hs', w) \<and> ptr_ok hs' \<and> hs_kind hs' = hs_kind hs \<and> visible hs' = visible hs
    \<and> collected hs' = pointer_apply evt (collected hs) \<and> hs_grabbed hs' = hs_grabbed hs"
proof -
  let ?hs = "hs\<lparr>hs_queue := (hs_queue hs)[(hs_head hs + hs_n hs) mod 16 := pointer_apply evt (collected hs)]\<rparr>"
  have n: "hs_n hs < 16" using assms by (simp add: ptr_ok_def)
  then have "hid_pointer_event evt (hs, w) = Inr (?hs, w)" by (simp add: hid_pointer_event_def collected_def Let_def)
  moreover have "visible ?hs = visible hs" "collected ?hs = pointer_apply evt (collected hs)"
    using visible_update [OF assms n] collected_update [OF assms n] by simp_all
  ultimately show ?thesis using assms by auto
qed

lemma sync_compress:
  assumes "ptr_ok hs" "0 < hs_n hs" "hs_n hs < 15"
  shows "visible (hs\<lparr>hs_queue := (hs_queue hs)[(hs_head hs + hs_n hs + 15) mod 16 := l, (hs_head hs + hs_n hs) mod 16 := c]\<rparr>)
      = butlast (visible hs) @ [l]"
    and "collected (hs\<lparr>hs_queue := (hs_queue hs)[(hs_head hs + hs_n hs + 15) mod 16 := l, (hs_head hs + hs_n hs) mod 16 := c]\<rparr>) = c"
proof -
  let ?h1 = "hs\<lparr>hs_queue := (hs_queue hs)[(hs_head hs + (hs_n hs - 1)) mod 16 := l]\<rparr>"
  have h1: "visible ?h1 = (visible hs)[hs_n hs - 1 := l]" "ptr_ok ?h1"
    using visible_update [OF assms(1), of "hs_n hs - 1"] assms by auto
  have "(visible hs)[hs_n hs - 1 := l] = butlast (visible hs) @ [l]"
    using assms(2) by (intro nth_equalityI) (auto simp: nth_list_update nth_append nth_butlast)
  then show "visible (hs\<lparr>hs_queue := (hs_queue hs)[(hs_head hs + hs_n hs + 15) mod 16 := l, (hs_head hs + hs_n hs) mod 16 := c]\<rparr>)
      = butlast (visible hs) @ [l]"
    using visible_update [OF h1(2), of "hs_n hs" c] h1(1) assms by (simp add: slot_prev)
  show "collected (hs\<lparr>hs_queue := (hs_queue hs)[(hs_head hs + hs_n hs + 15) mod 16 := l, (hs_head hs + hs_n hs) mod 16 := c]\<rparr>) = c"
    using collected_update [OF h1(2), of "hs_n hs" c] assms by (simp add: slot_prev)
qed

lemma sync_grow:
  assumes "ptr_ok hs" "hs_n hs < 15"
  shows "visible (hs\<lparr>hs_queue := (hs_queue hs)[(hs_head hs + hs_n hs + 1) mod 16 := x], hs_n := hs_n hs + 1\<rparr>) = visible hs @ [collected hs]"
    and "collected (hs\<lparr>hs_queue := (hs_queue hs)[(hs_head hs + hs_n hs + 1) mod 16 := x], hs_n := hs_n hs + 1\<rparr>) = x"
proof -
  let ?h1 = "hs\<lparr>hs_queue := (hs_queue hs)[(hs_head hs + (hs_n hs + 1)) mod 16 := x]\<rparr>"
  have "visible ?h1 = visible hs" "collected ?h1 = collected hs"
    using visible_update [OF assms(1), of "hs_n hs + 1"] collected_update [OF assms(1), of "hs_n hs + 1"] assms(2) by simp_all
  then show "visible (hs\<lparr>hs_queue := (hs_queue hs)[(hs_head hs + hs_n hs + 1) mod 16 := x], hs_n := hs_n hs + 1\<rparr>) = visible hs @ [collected hs]"
    using visible_grow [of ?h1] by (simp add: add.assoc)
  show "collected (hs\<lparr>hs_queue := (hs_queue hs)[(hs_head hs + hs_n hs + 1) mod 16 := x], hs_n := hs_n hs + 1\<rparr>) = x"
    using assms by (simp add: collected_def ptr_ok_def)
qed

lemma compress_list:
  assumes "p \<noteq> c" "p < length q" "c < length q"
    and "q1 = (if k = HID_MOUSE
               then (q[p := (q ! p)\<lparr>pe_xdx := pe_xdx (q ! p) + pe_xdx (q ! c), pe_ydy := pe_ydy (q ! p) + pe_ydy (q ! c)\<rparr>])
                      [c := (q ! c)\<lparr>pe_xdx := 0, pe_ydy := 0\<rparr>]
               else q[p := (q ! p)\<lparr>pe_xdx := pe_xdx (q ! c), pe_ydy := pe_ydy (q ! c)\<rparr>])"
  shows "(q1[p := (q1 ! p)\<lparr>pe_dz := pe_dz (q1 ! p) + pe_dz (q1 ! c)\<rparr>])[c := (q1 ! c)\<lparr>pe_dz := 0\<rparr>] =
    q[p := pe_join k (q ! p) (q ! c), c := pe_rest k (q ! c)]"
  using assms by (intro nth_equalityI) (auto simp: pe_join_def pe_rest_def nth_list_update)

lemma next_entry:
  "(if k = HID_MOUSE then e\<lparr>pe_xdx := 0, pe_ydy := 0\<rparr> else e\<lparr>pe_xdx := pe_xdx c, pe_ydy := pe_ydy c\<rparr>)
     \<lparr>pe_dz := 0, pe_buttons := pe_buttons c\<rparr> = pe_rest k c"
  by (cases e; cases c) (simp add: pe_rest_def)

lemma pointer_sync_spec:
  assumes "ptr_ok hs" "hid_pointer_sync env (hs, w) = (hs', w')"
  shows "ptr_ok hs'" "hs_kind hs' = hs_kind hs" "(visible hs', collected hs') = sync_spec (hs_kind hs) (visible hs, collected hs)"
    "w' = (if hs_n hs' = hs_n hs then w else hid_event env w)" "hs_grabbed hs' = hs_grabbed hs" "hs_idle_pending hs' = hs_idle_pending hs"
proof -
  let ?k = "hs_kind hs" and ?c = "collected hs" and ?l = "last (visible hs)"
  let ?p = "(hs_head hs + hs_n hs + 15) mod 16" and ?cc = "(hs_head hs + hs_n hs) mod 16" and ?x = "(hs_head hs + hs_n hs + 1) mod 16"
  have "ptr_ok hs' \<and> hs_kind hs' = hs_kind hs \<and> (visible hs', collected hs') = sync_spec (hs_kind hs) (visible hs, collected hs)
      \<and> w' = (if hs_n hs' = hs_n hs then w else hid_event env w) \<and> hs_grabbed hs' = hs_grabbed hs \<and> hs_idle_pending hs' = hs_idle_pending hs"
  proof (cases "hs_n hs = 15")
    case True
    then show ?thesis using assms by (auto simp: hid_pointer_sync_def sync_spec_def)
  next
    case False
    then have n: "hs_n hs < 15" using assms(1) by (simp add: ptr_ok_def)
    show ?thesis
    proof (cases "0 < hs_n hs \<and> pe_buttons ?c = pe_buttons ?l")
      case True
      then have l: "?l = hs_queue hs ! ?p" by (simp add: last_visible)
      have len: "?p < length (hs_queue hs)" "?cc < length (hs_queue hs)" "?p \<noteq> ?cc"
        using assms(1) True n slot_prev_neq [of "hs_n hs" "hs_head hs"] by (simp_all add: ptr_ok_def)
      have nil: "visible hs \<noteq> []" using True by (metis length_greater_0_conv length_visible)
      have upd: "hs' = hs\<lparr>hs_queue := (hs_queue hs)[?p := pe_join ?k ?l ?c, ?cc := pe_rest ?k ?c]\<rparr>" "w' = w"
        using assms(2) True n unfolding l collected_def hid_pointer_sync_def Let_def prod.case
        by (simp_all only: compress_list [OF len(3,1,2) refl]) (auto split: if_splits)
      then show ?thesis
        using sync_compress [OF assms(1) _ n, of "pe_join ?k ?l ?c" "pe_rest ?k ?c"] True n nil assms(1)
        by (simp add: sync_spec_def ptr_ok_def)
    next
      case False
      then have raw: "\<not> (0 < hs_n hs \<and> pe_buttons (hs_queue hs ! ?cc) = pe_buttons (hs_queue hs ! ?p))"
        by (auto simp: last_visible collected_def)
      have upd: "hs' = hs\<lparr>hs_queue := (hs_queue hs)[?x := pe_rest ?k ?c], hs_n := hs_n hs + 1\<rparr>" "w' = hid_event env w"
        using assms(2) n raw unfolding collected_def hid_pointer_sync_def Let_def prod.case next_entry
        by (simp_all only: if_False) (auto split: if_splits)
      have "\<not> (visible hs \<noteq> [] \<and> pe_buttons ?c = pe_buttons ?l)" using False by (metis length_greater_0_conv length_visible)
      then show ?thesis
        using sync_grow [OF assms(1) n, of "pe_rest ?k ?c"] upd n assms(1)
        by (auto simp: sync_spec_def ptr_ok_def)
    qed
  qed
  then show "ptr_ok hs'" "hs_kind hs' = hs_kind hs" "(visible hs', collected hs') = sync_spec (hs_kind hs) (visible hs, collected hs)"
    "w' = (if hs_n hs' = hs_n hs then w else hid_event env w)" "hs_grabbed hs' = hs_grabbed hs" "hs_idle_pending hs' = hs_idle_pending hs" by auto
qed

definition pe_left :: "hid_kind \<Rightarrow> HIDPointerEvent \<Rightarrow> HIDPointerEvent" where
  "pe_left kind e =
     (if kind = HID_MOUSE then e\<lparr>pe_xdx := pe_xdx e - int_clamp (pe_xdx e) (- 127) 127, pe_ydy := pe_ydy e - int_clamp (pe_ydy e) (- 127) 127,
                                 pe_dz := pe_dz e - int_clamp (pe_dz e) (- 127) 127\<rparr>
      else e\<lparr>pe_dz := pe_dz e - int_clamp (pe_dz e) (- 127) 127\<rparr>)"

definition pe_done :: "hid_kind \<Rightarrow> HIDPointerEvent \<Rightarrow> bool" where
  "pe_done kind e \<longleftrightarrow> pe_dz e = 0 \<and> (kind = HID_TABLET \<or> pe_xdx e = 0 \<and> pe_ydy e = 0)"

definition pe_report :: "hid_kind \<Rightarrow> HIDPointerEvent \<Rightarrow> u8 list" where
  "pe_report kind e =
     (if kind = HID_MOUSE
      then [word_of_int (pe_buttons e), word_of_int (int_clamp (pe_xdx e) (- 127) 127), word_of_int (int_clamp (pe_ydy e) (- 127) 127),
            word_of_int (- int_clamp (pe_dz e) (- 127) 127)]
      else [word_of_int (pe_buttons e), word_of_int (pe_xdx e AND 0xff), word_of_int (drop_bit 8 (pe_xdx e)),
            word_of_int (pe_ydy e AND 0xff), word_of_int (drop_bit 8 (pe_ydy e)), word_of_int (- int_clamp (pe_dz e) (- 127) 127)])"

lemma queue_frame [simp]:
  "visible (hs\<lparr>hs_idle_pending := b\<rparr>) = visible hs" "collected (hs\<lparr>hs_idle_pending := b\<rparr>) = collected hs"
  "visible (hs\<lparr>hs_grabbed := b\<rparr>) = visible hs" "collected (hs\<lparr>hs_grabbed := b\<rparr>) = collected hs"
  "visible (hs\<lparr>hs_idle_timer := t\<rparr>) = visible hs" "collected (hs\<lparr>hs_idle_timer := t\<rparr>) = collected hs"
  "visible (hs\<lparr>hs_idle := i\<rparr>) = visible hs" "collected (hs\<lparr>hs_idle := i\<rparr>) = collected hs"
  "visible (hs\<lparr>hs_protocol := p\<rparr>) = visible hs" "collected (hs\<lparr>hs_protocol := p\<rparr>) = collected hs"
  "ptr_ok (hs\<lparr>hs_idle_pending := b\<rparr>) = ptr_ok hs" "ptr_ok (hs\<lparr>hs_grabbed := b\<rparr>) = ptr_ok hs"
  "ptr_ok (hs\<lparr>hs_idle_timer := t\<rparr>) = ptr_ok hs" "ptr_ok (hs\<lparr>hs_idle := i\<rparr>) = ptr_ok hs" "ptr_ok (hs\<lparr>hs_protocol := p\<rparr>) = ptr_ok hs"
  by (simp_all add: visible_def collected_def ptr_ok_def)

lemma pointer_activate_frame:
  assumes "hid_pointer_activate env (hs, w) = (hs', w')"
  shows "visible hs' = visible hs" "collected hs' = collected hs" "ptr_ok hs' = ptr_ok hs" "hs_kind hs' = hs_kind hs" "hs_n hs' = hs_n hs"
    "hs_head hs' = hs_head hs" "hs_queue hs' = hs_queue hs" "hs_idle_pending hs' = hs_idle_pending hs"
  using assms by (auto simp: hid_pointer_activate_def split: if_splits)

lemma visible_pop:
  assumes "ptr_ok hs" "0 < hs_n hs"
  shows "visible (hs\<lparr>hs_head := (hs_head hs + 1) mod 16, hs_n := hs_n hs - 1\<rparr>) = tl (visible hs)"
    "collected (hs\<lparr>hs_head := (hs_head hs + 1) mod 16, hs_n := hs_n hs - 1\<rparr>) = collected hs"
proof -
  obtain m where m: "hs_n hs = Suc m" using assms(2) by (cases "hs_n hs") auto
  have "((hs_head hs + 1) mod 16 + i) mod 16 = (hs_head hs + Suc i) mod 16" for i by (simp add: mod_simps)
  then show "visible (hs\<lparr>hs_head := (hs_head hs + 1) mod 16, hs_n := hs_n hs - 1\<rparr>) = tl (visible hs)"
    "collected (hs\<lparr>hs_head := (hs_head hs + 1) mod 16, hs_n := hs_n hs - 1\<rparr>) = collected hs"
    by (auto simp: visible_def collected_def m map_tl [symmetric] simp del: upt_Suc intro!: nth_equalityI simp: nth_tl)
qed

lemma pointer_poll_spec:
  assumes "ptr_ok hs" "visible hs = e # vs" "hid_pointer_poll env len (hs, w) = (buf, hs', w')"
  shows "ptr_ok hs'" "hs_kind hs' = hs_kind hs" "collected hs' = collected hs" "buf = take len (pe_report (hs_kind hs) e)"
    "visible hs' = (if pe_done (hs_kind hs) (pe_left (hs_kind hs) e) then vs else pe_left (hs_kind hs) e # vs)" "\<not> hs_idle_pending hs'"
    "hs_n hs' = 0 \<Longrightarrow> pe_done (hs_kind hs) (pe_left (hs_kind hs) e) \<and> stale hs' = pe_left (hs_kind hs) e"
proof -
  obtain h1 w1 where a: "hid_pointer_activate env (hs\<lparr>hs_idle_pending := False\<rparr>, w) = (h1, w1)" by fastforce
  note f = pointer_activate_frame [OF a, simplified]
  let ?k = "hs_kind hs" and ?i = "hs_head h1 mod 16"
  have n: "0 < hs_n h1" using assms(2) f length_visible [of hs] by simp
  have ok: "ptr_ok h1" using assms(1) f by simp
  have e: "hs_queue h1 ! ?i = e" using assms(2) f n by (auto simp: visible_def upt_conv_Cons)
  define h2 where "h2 = h1\<lparr>hs_queue := (hs_queue h1)[?i := pe_left ?k e]\<rparr>"
  have h2: "visible h2 = pe_left ?k e # vs" "collected h2 = collected hs" "ptr_ok h2" "hs_n h2 = hs_n h1" "hs_head h2 = hs_head h1" "hs_kind h2 = ?k"
    using visible_update [OF ok, of 0 "pe_left ?k e"] collected_update [OF ok, of 0 "pe_left ?k e"] n f(1,2,4) assms(2) ok
    unfolding h2_def by simp_all
  have r: "buf = take len (pe_report ?k e)" "\<not> hs_idle_pending hs'"
    "hs' = (if pe_done ?k (pe_left ?k e) then h2\<lparr>hs_head := (hs_head h2 + 1) mod 16, hs_n := hs_n h2 - 1\<rparr> else h2)"
    using assms(3) n f(4,8) e a unfolding hid_pointer_poll_def h2_def pe_done_def
    by (auto simp: Let_def pe_left_def pe_report_def split: if_splits)
  then show "buf = take len (pe_report ?k e)" "\<not> hs_idle_pending hs'" by simp_all
  show "ptr_ok hs'" "hs_kind hs' = hs_kind hs" "collected hs' = collected hs"
    "visible hs' = (if pe_done ?k (pe_left ?k e) then vs else pe_left ?k e # vs)"
    using visible_pop [OF h2(3)] h2 n by (auto simp: r(3) ptr_ok_def)
  have "((hs_head h2 + 1) mod 16 + 15) mod 16 = ?i" using h2(5) by (simp add: mod_simps)
  then have "stale (h2\<lparr>hs_head := (hs_head h2 + 1) mod 16, hs_n := hs_n h2 - 1\<rparr>) = pe_left ?k e"
    using ok unfolding stale_def by (simp add: h2_def ptr_ok_def)
  then show "pe_done ?k (pe_left ?k e) \<and> stale hs' = pe_left ?k e" if "hs_n hs' = 0"
    using that h2(4) n by (auto simp: r(3) split: if_splits)
qed

lemma pointer_poll_empty:
  assumes "ptr_ok hs" "hs_n hs = 0" "hid_pointer_poll env len (hs, w) = (buf, hs', w')"
  shows "ptr_ok hs'" "hs_kind hs' = hs_kind hs" "collected hs' = collected hs" "buf = take len (pe_report (hs_kind hs) (stale hs))"
    "hs_n hs' = 0" "stale hs' = pe_left (hs_kind hs) (stale hs)"
proof -
  obtain h1 w1 where a: "hid_pointer_activate env (hs\<lparr>hs_idle_pending := False\<rparr>, w) = (h1, w1)" by fastforce
  note f = pointer_activate_frame [OF a, simplified]
  let ?k = "hs_kind hs" and ?i = "(hs_head h1 + 15) mod 16"
  have ok: "ptr_ok h1" "hs_n h1 = 0" using assms(1,2) f by simp_all
  define h2 where "h2 = h1\<lparr>hs_queue := (hs_queue h1)[?i := pe_left ?k (stale hs)]\<rparr>"
  have "stale h1 = stale hs" using f by (simp add: stale_def)
  then have r: "buf = take len (pe_report ?k (stale hs))" "hs' = h2"
    using assms(3) ok(2) f(4) a unfolding hid_pointer_poll_def h2_def stale_def
    by (auto simp: Let_def pe_left_def pe_report_def)
  show "buf = take len (pe_report ?k (stale hs))" by (rule r)
  have "collected h2 = collected hs" using collected_update [OF ok(1), of 15 "pe_left ?k (stale hs)"] ok(2) f(2) unfolding h2_def by simp
  then show "collected hs' = collected hs" by (simp add: r(2))
  show "ptr_ok hs'" "hs_kind hs' = hs_kind hs" "hs_n hs' = 0" using ok f(4) by (simp_all add: r(2) h2_def)
  show "stale hs' = pe_left ?k (stale hs)" using ok(1) by (simp add: r(2) h2_def stale_def ptr_ok_def)
qed

text \<open>
  A full queue from an old version is meant to be reduced to its last event when it is loaded; what is kept of a
  tablet's queue is its oldest event, at the head.
\<close>

theorem full_queue_keeps_oldest:
  assumes "length (hs_queue hs) = 16" "hs_head hs < 16" "hs_n hs = 16" "hs_kind hs = HID_TABLET"
  shows "visible (hid_post_load now hs) = [hs_queue hs ! hs_head hs]"
proof -
  have f: "hs_queue (hid_set_next_idle now hs) = hs_queue hs" "hs_head (hid_set_next_idle now hs) = hs_head hs"
    "hs_n (hid_set_next_idle now hs) = hs_n hs" "hs_kind (hid_set_next_idle now hs) = hs_kind hs"
    by (simp_all add: hid_set_next_idle_def hid_del_idle_timer_def)
  show ?thesis using assms by (simp add: hid_post_load_def f visible_def Let_def)
qed

section \<open>What the guest sees of a pointer\<close>

datatype ptr_op = Ev InputEvent | Sync | Poll

text \<open>Events, reports and polls in any order, as long as the guest fetches reports before fifteen are waiting.  The
  third argument lists the operations, the fourth the reports.\<close>

inductive ptr_trace :: "'w hid_env \<Rightarrow> HIDState \<times> 'w \<Rightarrow> ptr_op list \<Rightarrow> u8 list list \<Rightarrow> HIDState \<times> 'w \<Rightarrow> bool" for env hw0 where
  trace_start: "ptr_trace env hw0 [] [] hw0"
| trace_event: "ptr_trace env hw0 ops rs hw \<Longrightarrow> hid_pointer_event e hw = Inr hw' \<Longrightarrow> ptr_trace env hw0 (ops @ [Ev e]) rs hw'"
| trace_sync: "ptr_trace env hw0 ops rs hw \<Longrightarrow> hs_n (fst hw) < 15 \<Longrightarrow> ptr_trace env hw0 (ops @ [Sync]) rs (hid_pointer_sync env hw)"
| trace_poll: "ptr_trace env hw0 ops rs hw \<Longrightarrow> hid_pointer_poll env 8 hw = (r, hw') \<Longrightarrow> ptr_trace env hw0 (ops @ [Poll]) (rs @ [r]) hw'"

text \<open>The buttons held after the operations, and those held at each report.\<close>

fun held_after :: "InputEvent \<Rightarrow> int \<Rightarrow> int" where
  "held_after (INPUT_EVENT_KIND_BTN b down) h = (if down then h OR hid_bmap b else h AND NOT (hid_bmap b))"
| "held_after _ h = h"

fun button_step :: "ptr_op \<Rightarrow> int \<times> int list \<Rightarrow> int \<times> int list" where
  "button_step (Ev e) (h, l) = (held_after e h, l)"
| "button_step Sync (h, l) = (h, l @ [h])"
| "button_step Poll (h, l) = (h, l)"

definition button_log :: "ptr_op list \<Rightarrow> int \<times> int list" where
  "button_log ops = fold button_step ops (0, [])"

lemma button_log_snoc: "button_log (ops @ [op]) = button_step op (button_log ops)"
  by (simp add: button_log_def)

lemma apply_buttons: "pe_buttons (pointer_apply e c) = held_after e (pe_buttons c)"
  by (cases e) (auto simp: Let_def)

definition seen :: "u8 list list \<Rightarrow> HIDState \<Rightarrow> u8 list" where
  "seen rs hs = map hd rs @ map (\<lambda>e. word_of_int (pe_buttons e)) (visible hs)"

definition stale_ok :: "u8 list list \<Rightarrow> HIDState \<Rightarrow> bool" where
  "stale_ok rs hs \<longleftrightarrow> (hs_n hs = 0 \<longrightarrow> pe_dz (stale hs) = 0
     \<and> (hs_kind hs = HID_MOUSE \<longrightarrow> pe_xdx (stale hs) = 0 \<and> pe_ydy (stale hs) = 0)
     \<and> word_of_int (pe_buttons (stale hs)) = last (0 # map hd rs))"

lemma remdups_adj_again: "xs \<noteq> [] \<Longrightarrow> last xs = a \<Longrightarrow> remdups_adj (xs @ a # ys) = remdups_adj (xs @ ys)"
proof (induction xs rule: remdups_adj.induct)
  case (2 x)
  then show ?case by (cases ys) auto
qed auto

lemma remdups_adj_snoc: "remdups_adj (xs @ [a]) = (if xs \<noteq> [] \<and> last xs = a then remdups_adj xs else remdups_adj xs @ [a])"
  by (induction xs rule: remdups_adj.induct) auto

lemma remdups_adj_snoc_cong:
  assumes "remdups_adj (x # xs) = remdups_adj (y # ys)"
  shows "remdups_adj (x # xs @ [a]) = remdups_adj (y # ys @ [a])" "last (x # xs) = last (y # ys)"
proof -
  have l: "last (remdups_adj (z # zs)) = last (z # zs)" for z and zs :: "'a list" by (simp only: last_remdups_adj)
  show "last (x # xs) = last (y # ys)" using l [of x xs] l [of y ys] unfolding assms by simp
  then show "remdups_adj (x # xs @ [a]) = remdups_adj (y # ys @ [a])"
    using remdups_adj_snoc [of "x # xs" a] remdups_adj_snoc [of "y # ys" a] assms by simp
qed

definition trace_inv :: "hid_kind \<Rightarrow> ptr_op list \<Rightarrow> u8 list list \<Rightarrow> HIDState \<Rightarrow> bool" where
  "trace_inv kind ops rs hs \<longleftrightarrow> ptr_ok hs \<and> hs_kind hs = kind \<and> pe_buttons (collected hs) = fst (button_log ops)
     \<and> remdups_adj (0 # seen rs hs) = remdups_adj (0 # map word_of_int (snd (button_log ops))) \<and> stale_ok rs hs"

lemma stale_update: "ptr_ok hs \<Longrightarrow> j < 15 \<Longrightarrow> stale (hs\<lparr>hs_queue := (hs_queue hs)[(hs_head hs + j) mod 16 := e]\<rparr>) = stale hs"
  using slot_eq [of j 15 "hs_head hs"] by (simp add: stale_def ptr_ok_def nth_list_update)

lemma trace_inv_event:
  assumes "trace_inv kind ops rs hs" "hid_pointer_event e (hs, w) = Inr (hs', w')"
  shows "trace_inv kind (ops @ [Ev e]) rs hs'"
proof -
  have ok: "ptr_ok hs" using assms(1) by (simp add: trace_inv_def)
  from pointer_event_spec [OF ok, of e w] assms(2) have h: "ptr_ok hs'" "hs_kind hs' = hs_kind hs" "visible hs' = visible hs"
    "collected hs' = pointer_apply e (collected hs)" by auto
  have n: "hs_n hs' = hs_n hs" using h(3) by (metis length_visible)
  have "hs_n hs = 0 \<Longrightarrow> stale hs' = stale hs"
    using assms(2) stale_update [OF ok, of 0] by (auto simp: hid_pointer_event_def Let_def split: if_splits)
  then show ?thesis
    using assms(1) h n by (cases "button_log ops") (auto simp: trace_inv_def button_log_snoc apply_buttons seen_def stale_ok_def)
qed

lemma trace_inv_sync:
  assumes "trace_inv kind ops rs hs" "hs_n hs < 15" "hid_pointer_sync env (hs, w) = (hs', w')"
  shows "trace_inv kind (ops @ [Sync]) rs hs'"
proof -
  obtain h l where hl: "button_log ops = (h, l)" by fastforce
  have i: "ptr_ok hs" "hs_kind hs = kind" "pe_buttons (collected hs) = h" "remdups_adj (0 # seen rs hs) = remdups_adj (0 # map word_of_int l)"
    using assms(1) by (simp_all add: trace_inv_def hl)
  note sp = pointer_sync_spec [OF i(1) assms(3)]
  have log: "remdups_adj (0 # map word_of_int (l @ [h])) = remdups_adj (0 # seen rs hs @ [word_of_int h])"
    using remdups_adj_snoc_cong(1) [OF i(4), of "word_of_int h"] by simp
  have main: "pe_buttons (collected hs') = h \<and> remdups_adj (0 # seen rs hs') = remdups_adj (0 # seen rs hs @ [word_of_int h]) \<and> visible hs' \<noteq> []"
  proof (cases "visible hs \<noteq> [] \<and> pe_buttons (collected hs) = pe_buttons (last (visible hs))")
    case True
    then have v: "visible hs' = butlast (visible hs) @ [pe_join kind (last (visible hs)) (collected hs)]" "collected hs' = pe_rest kind (collected hs)"
      using sp(3) assms(2) i(2) by (simp_all add: sync_spec_def)
    have "map (\<lambda>e. word_of_int (pe_buttons e) :: u8) (visible hs') = map (\<lambda>e. word_of_int (pe_buttons e)) (butlast (visible hs) @ [last (visible hs)])"
      unfolding v by (simp add: pe_join_def)
    then have "seen rs hs' = seen rs hs" using True by (simp add: seen_def)
    moreover have "last (seen rs hs) = word_of_int h" "seen rs hs \<noteq> []" using True i(3) by (simp_all add: seen_def last_map)
    ultimately show ?thesis using v i(3) remdups_adj_snoc [of "0 # seen rs hs" "word_of_int h"] by (simp add: pe_rest_def)
  next
    case False
    then have v: "visible hs' = visible hs @ [collected hs]" "collected hs' = pe_rest kind (collected hs)"
      using sp(3) assms(2) i(2) by (auto simp: sync_spec_def split: if_splits)
    then show ?thesis using i(3) by (simp add: seen_def pe_rest_def)
  qed
  then have "hs_n hs' \<noteq> 0" by (metis length_visible length_0_conv)
  with main sp(1,2) i(2) log show ?thesis by (simp add: trace_inv_def button_log_snoc hl stale_ok_def)
qed

lemma report_buttons: "hd (take 8 (pe_report k e)) = word_of_int (pe_buttons e)" "take 8 (pe_report k e) \<noteq> []"
  by (simp_all add: pe_report_def)

lemma left_buttons [simp]: "pe_buttons (pe_left k e) = pe_buttons e"
  by (simp add: pe_left_def)

lemma trace_inv_poll:
  assumes "trace_inv kind ops rs hs" "hid_pointer_poll env 8 (hs, w) = (r, hs', w')"
  shows "trace_inv kind (ops @ [Poll]) (rs @ [r]) hs'"
proof -
  obtain h l where hl: "button_log ops = (h, l)" by fastforce
  have i: "ptr_ok hs" "hs_kind hs = kind" "pe_buttons (collected hs) = h" "remdups_adj (0 # seen rs hs) = remdups_adj (0 # map word_of_int l)"
    "stale_ok rs hs" using assms(1) by (simp_all add: trace_inv_def hl)
  show ?thesis
  proof (cases "visible hs")
    case Nil
    then have n: "hs_n hs = 0" by (metis length_visible list.size(3))
    note e = pointer_poll_empty [OF i(1) n assms(2)]
    have st: "pe_dz (stale hs) = 0" "kind = HID_MOUSE \<Longrightarrow> pe_xdx (stale hs) = 0 \<and> pe_ydy (stale hs) = 0"
      "word_of_int (pe_buttons (stale hs)) = last (0 # map hd rs)" using i(2,5) n by (simp_all add: stale_ok_def)
    have rb: "hd r = last (0 # map hd rs)" using report_buttons [of kind "stale hs"] e(4) i(2) st(3) by simp
    have "seen (rs @ [r]) hs' = map hd rs @ [hd r]" "seen rs hs = map hd rs"
      using e(5) Nil length_visible [of hs'] by (simp_all add: seen_def del: length_visible)
    then have "remdups_adj (0 # seen (rs @ [r]) hs') = remdups_adj (0 # seen rs hs)"
      using remdups_adj_snoc [of "0 # map hd rs" "hd r"] rb by simp
    moreover have "stale_ok (rs @ [r]) hs'"
      using e(2,4,6) i(2) st report_buttons(1) [of kind "stale hs"] by (auto simp: stale_ok_def pe_left_def int_clamp_def)
    ultimately show ?thesis using e i by (simp add: trace_inv_def button_log_snoc hl)
  next
    case (Cons x vs)
    note e = pointer_poll_spec [OF i(1) Cons assms(2)]
    have rb: "hd r = word_of_int (pe_buttons x)" using report_buttons [of kind x] e(4) i(2) by simp
    have "remdups_adj (0 # seen (rs @ [r]) hs') = remdups_adj (0 # seen rs hs)"
    proof (cases "pe_done kind (pe_left kind x)")
      case True
      then show ?thesis using e(5) i(2) rb Cons by (simp add: seen_def)
    next
      case False
      then have "0 # seen (rs @ [r]) hs' = (0 # map hd rs @ [hd r]) @ hd r # map (\<lambda>e. word_of_int (pe_buttons e)) vs"
        using e(5) i(2) rb by (simp add: seen_def)
      then show ?thesis using remdups_adj_again [of "0 # map hd rs @ [hd r]" "hd r"] rb Cons by (simp add: seen_def)
    qed
    moreover have "stale_ok (rs @ [r]) hs'"
      using e(2,7) i(1,2) rb by (auto simp: stale_ok_def pe_done_def ptr_ok_def)
    ultimately show ?thesis using e i by (simp add: trace_inv_def button_log_snoc hl)
  qed
qed

lemma new_queue: "visible (hid_new kind) = []" "collected (hid_new kind) = zero_event" "stale (hid_new kind) = zero_event"
  "ptr_ok (hid_new kind) = (kind \<noteq> HID_KEYBOARD)" "hs_kind (hid_new kind) = kind"
  by (simp_all add: visible_def collected_def stale_def ptr_ok_def hid_new_def)

lemma trace_inv_trace:
  assumes "ptr_trace env (hid_new kind, w0) ops rs hw" "kind \<noteq> HID_KEYBOARD"
  shows "trace_inv kind ops rs (fst hw)"
  using assms(1)
proof (induction rule: ptr_trace.induct)
  case trace_start
  have "hs_n (hid_new kind) = 0" by (simp add: hid_new_def)
  then show ?case using assms(2) by (simp add: trace_inv_def new_queue zero_event_def button_log_def seen_def stale_ok_def)
next
  case (trace_event ops rs hw e hw')
  then show ?case using trace_inv_event [of kind ops rs "fst hw" e "snd hw" "fst hw'" "snd hw'"] by simp
next
  case (trace_sync ops rs hw)
  obtain hs' w' where "hid_pointer_sync env hw = (hs', w')" by fastforce
  then show ?case using trace_sync trace_inv_sync [of kind ops rs "fst hw" env "snd hw" hs' w'] by simp
next
  case (trace_poll ops rs hw r hw')
  then show ?case using trace_inv_poll [of kind ops rs "fst hw" env "snd hw" r "fst hw'" "snd hw'"] by simp
qed

text \<open>
  C12. The guest sees every change of the buttons, in order and nothing else: read without repetitions, the button
  bytes of the reports so far and of those waiting are the button states at the synchronisations, as long as
  the guest fetches reports before fifteen are waiting; and the next event never fails the queue's assertion.
\<close>

theorem button_changes_reported:
  assumes "ptr_trace env (hid_new kind, w0) ops rs (hs, w)" "kind = HID_TABLET \<or> kind = HID_MOUSE"
  shows "remdups_adj (0 # map hd rs @ map (\<lambda>e. word_of_int (pe_buttons e)) (visible hs))
      = remdups_adj (0 # map word_of_int (snd (button_log ops)))
    \<and> (\<exists>hs'. hid_pointer_event evt (hs, w) = Inr (hs', w))"
proof -
  have i: "trace_inv kind ops rs hs" using trace_inv_trace [OF assms(1)] assms(2) by auto
  then show ?thesis
    using pointer_event_spec [of hs evt w] by (auto simp: trace_inv_def seen_def)
qed

subsection \<open>Motion of the mouse\<close>

definition pending_motion :: "(HIDPointerEvent \<Rightarrow> int) \<Rightarrow> HIDState \<Rightarrow> int" where
  "pending_motion f hs = sum_list (map f (visible hs)) + f (collected hs)"

fun rel_motion :: "InputAxis \<Rightarrow> ptr_op \<Rightarrow> int" where
  "rel_motion a (Ev (INPUT_EVENT_KIND_REL b v)) = (if a = b then v else 0)"
| "rel_motion a _ = 0"

fun no_abs :: "ptr_op \<Rightarrow> bool" where
  "no_abs (Ev (INPUT_EVENT_KIND_ABS _ _)) = False"
| "no_abs _ = True"

definition mouse_motion :: "u8 list list \<Rightarrow> HIDState \<Rightarrow> int \<times> int" where
  "mouse_motion rs hs = ((\<Sum>r\<leftarrow>rs. sint (r ! 1)) + pending_motion pe_xdx hs, (\<Sum>r\<leftarrow>rs. sint (r ! 2)) + pending_motion pe_ydy hs)"

lemma clamp_byte: "sint (word_of_int (int_clamp v (- 127) 127) :: u8) = int_clamp v (- 127) 127"
proof -
  have "- 127 \<le> int_clamp v (- 127) 127" "int_clamp v (- 127) 127 \<le> 127" by (simp_all add: int_clamp_def)
  then show ?thesis by (simp add: sint_sbintrunc' signed_take_bit_int_eq_self)
qed

lemma motion_event:
  assumes "ptr_ok hs" "hid_pointer_event e (hs, w) = Inr (hs', w')" "no_abs (Ev e)"
  shows "mouse_motion rs hs' = (fst (mouse_motion rs hs) + rel_motion INPUT_AXIS_X (Ev e), snd (mouse_motion rs hs) + rel_motion INPUT_AXIS_Y (Ev e))"
proof -
  have v: "visible hs' = visible hs" "collected hs' = pointer_apply e (collected hs)"
    using pointer_event_spec [OF assms(1), of e w] assms(2) by auto
  show ?thesis
  proof (cases e)
    case (INPUT_EVENT_KIND_REL a x)
    then show ?thesis by (cases a) (simp_all add: mouse_motion_def pending_motion_def v)
  qed (use assms(3) in \<open>simp_all add: mouse_motion_def pending_motion_def v Let_def\<close>)
qed

lemma motion_sync_spec:
  assumes "sync_spec HID_MOUSE (vs, c) = (vs', c')"
  shows "sum_list (map pe_xdx vs') + pe_xdx c' = sum_list (map pe_xdx vs) + pe_xdx c"
    "sum_list (map pe_ydy vs') + pe_ydy c' = sum_list (map pe_ydy vs) + pe_ydy c"
  using assms by (cases vs rule: rev_cases; auto simp: sync_spec_def pe_join_def pe_rest_def split: if_splits)+

lemma motion_sync:
  assumes "ptr_ok hs" "hs_kind hs = HID_MOUSE" "hid_pointer_sync env (hs, w) = (hs', w')"
  shows "mouse_motion rs hs' = mouse_motion rs hs"
  using motion_sync_spec [of "visible hs" "collected hs" "visible hs'" "collected hs'"] pointer_sync_spec(3) [OF assms(1,3)] assms(2)
  by (simp add: mouse_motion_def pending_motion_def)

lemma motion_poll:
  assumes "ptr_ok hs" "hs_kind hs = HID_MOUSE" "stale_ok rs hs" "hid_pointer_poll env 8 (hs, w) = (r, hs', w')"
  shows "mouse_motion (rs @ [r]) hs' = mouse_motion rs hs"
proof (cases "visible hs")
  case Nil
  then have n: "hs_n hs = 0" by (metis length_visible list.size(3))
  note e = pointer_poll_empty [OF assms(1) n assms(4)]
  have "visible hs' = []" using e(5) by (metis length_0_conv length_visible)
  moreover have "sint (r ! 1) = 0" "sint (r ! 2) = 0"
    using e(4) assms(2,3) n by (simp_all add: pe_report_def clamp_byte stale_ok_def int_clamp_def)
  ultimately show ?thesis using Nil e(3) by (simp add: mouse_motion_def pending_motion_def)
next
  case (Cons x vs)
  note e = pointer_poll_spec [OF assms(1) Cons assms(4)]
  have "sint (r ! 1) = int_clamp (pe_xdx x) (- 127) 127" "sint (r ! 2) = int_clamp (pe_ydy x) (- 127) 127"
    using e(4) assms(2) by (simp_all add: pe_report_def clamp_byte)
  then show ?thesis
    using e(3,5) assms(2) Cons by (auto simp: mouse_motion_def pending_motion_def pe_left_def pe_done_def split: if_splits)
qed

text \<open>
  No motion of the mouse is lost or invented: the movements in the reports and those still waiting add up to the
  movements the input layer delivered, along both axes.
\<close>

theorem mouse_motion_conserved:
  assumes "ptr_trace env (hid_new HID_MOUSE, w0) ops rs (hs, w)" "list_all no_abs ops"
  shows "(\<Sum>r\<leftarrow>rs. sint (r ! 1)) + pending_motion pe_xdx hs = (\<Sum>op\<leftarrow>ops. rel_motion INPUT_AXIS_X op)
    \<and> (\<Sum>r\<leftarrow>rs. sint (r ! 2)) + pending_motion pe_ydy hs = (\<Sum>op\<leftarrow>ops. rel_motion INPUT_AXIS_Y op)"
proof -
  have "list_all no_abs ops \<longrightarrow> mouse_motion rs (fst hw) = (\<Sum>op\<leftarrow>ops. rel_motion INPUT_AXIS_X op, \<Sum>op\<leftarrow>ops. rel_motion INPUT_AXIS_Y op)"
    if "ptr_trace env (hid_new HID_MOUSE, w0) ops rs hw" for ops rs hw
    using that
  proof (induction rule: ptr_trace.induct)
    case trace_start
    then show ?case by (simp add: mouse_motion_def pending_motion_def new_queue zero_event_def)
  next
    case (trace_event ops rs hw e hw')
    then show ?case
      using motion_event [of "fst hw" e "snd hw" "fst hw'" "snd hw'" rs] trace_inv_trace [OF trace_event.hyps(1)]
      by (simp add: trace_inv_def)
  next
    case (trace_sync ops rs hw)
    then show ?case
      using motion_sync [of "fst hw" env "snd hw" "fst (hid_pointer_sync env hw)" "snd (hid_pointer_sync env hw)" rs] trace_inv_trace [OF trace_sync.hyps(1)]
      by (simp add: trace_inv_def)
  next
    case (trace_poll ops rs hw r hw')
    then show ?case
      using motion_poll [of "fst hw" rs env "snd hw" r "fst hw'" "snd hw'"] trace_inv_trace [OF trace_poll.hyps(1)]
      by (simp add: trace_inv_def)
  qed
  from this [OF assms(1)] assms(2) show ?thesis by (simp add: mouse_motion_def)
qed

section \<open>The keyboard\<close>

definition pressed :: "HIDState \<Rightarrow> u8 set" where
  "pressed hs = set (take (hs_keys hs) (hs_key hs))"

definition kbd_ok :: "HIDState \<Rightarrow> bool" where
  "kbd_ok hs \<longleftrightarrow> length (hs_keycodes hs) = 16 \<and> list_all (\<lambda>c. 0 \<le> c \<and> c < 256) (hs_keycodes hs) \<and> length (hs_key hs) = 16
     \<and> hs_keys hs \<le> 16 \<and> hs_head hs < 16 \<and> hs_n hs \<le> 16
     \<and> distinct (take (hs_keys hs) (hs_key hs)) \<and> 0 \<notin> pressed hs \<and> drop (hs_keys hs) (hs_key hs) = replicate (16 - hs_keys hs) 0"

lemma key_loop_Some: "key_loop code key n = Some i \<Longrightarrow> i < n \<and> key ! i = code"
  by (induction n) (auto split: if_splits)

lemma key_loop_None: "n \<le> length key \<Longrightarrow> key_loop code key n = None \<longleftrightarrow> code \<notin> set (take n key)"
  by (induction n) (auto simp: take_Suc_conv_app_nth)

lemma kbd_frame [simp]:
  "pressed (hs\<lparr>hs_modifiers := m\<rparr>) = pressed hs" "kbd_ok (hs\<lparr>hs_modifiers := m\<rparr>) = kbd_ok hs"
  "pressed (hs\<lparr>hs_idle_pending := b\<rparr>) = pressed hs" "kbd_ok (hs\<lparr>hs_idle_pending := b\<rparr>) = kbd_ok hs"
  "pressed (hs\<lparr>hs_head := h, hs_n := k\<rparr>) = pressed hs"
  by (simp_all add: pressed_def kbd_ok_def)

lemma swap_last_out:
  assumes "i < k" "k \<le> length xs" "distinct (take k xs)"
  shows "set (take (k - 1) (xs[i := xs ! (k - 1), k - 1 := z])) = set (take k xs) - {xs ! i}"
    "distinct (take (k - 1) (xs[i := xs ! (k - 1), k - 1 := z]))"
proof -
  obtain j where j: "k = Suc j" using assms(1) by (cases k) auto
  let ?ys = "take j xs" and ?l = "xs ! j"
  have t: "take k xs = ?ys @ [?l]" using assms(2) j by (simp add: take_Suc_conv_app_nth)
  then have d: "distinct ?ys" "?l \<notin> set ?ys" using assms(3) by auto
  have u: "take j (xs[i := ?l, j := z]) = ?ys[i := ?l]" by (simp add: take_update_swap list_update_beyond)
  show "set (take (k - 1) (xs[i := xs ! (k - 1), k - 1 := z])) = set (take k xs) - {xs ! i}"
  proof (cases "i = j")
    case True
    then show ?thesis using u t d by (auto simp: j)
  next
    case False
    then have i: "i < length ?ys" "?ys ! i = xs ! i" using assms(1,2) j by auto
    have "set (?ys[i := ?l]) = insert ?l (set ?ys - {?ys ! i})" by (rule set_update_distinct [OF d(1) i(1)])
    then show ?thesis using u t i d by (auto simp: j)
  qed
  show "distinct (take (k - 1) (xs[i := xs ! (k - 1), k - 1 := z]))"
    using u d by (simp add: j distinct_list_update)
qed

lemma ordinary_release:
  assumes "kbd_ok hs" "key_loop code (hs_key hs) (hs_keys hs) = Some i"
  shows "kbd_ok (hid_ordinary_key code True hs)" "pressed (hid_ordinary_key code True hs) = pressed hs - {code}"
proof -
  let ?k = "hs_keys hs" and ?key = "hs_key hs"
  have i: "i < ?k" "?key ! i = code" using key_loop_Some [OF assms(2)] by simp_all
  have ok: "?k \<le> 16" "length ?key = 16" "distinct (take ?k ?key)" "drop ?k ?key = replicate (16 - ?k) 0" using assms(1) by (simp_all add: kbd_ok_def)
  have r: "hid_ordinary_key code True hs = hs\<lparr>hs_keys := ?k - 1, hs_key := ?key[i := ?key ! (?k - 1), ?k - 1 := 0]\<rparr>"
    using assms(2) by (simp add: hid_ordinary_key_def Let_def)
  note sw = swap_last_out [OF i(1) _ ok(3), of 0] ok(1,2)
  show p: "pressed (hid_ordinary_key code True hs) = pressed hs - {code}" using sw i(2) by (simp add: r pressed_def)
  have "drop (?k - 1) (?key[i := ?key ! (?k - 1), ?k - 1 := 0]) = 0 # drop ?k ?key"
    using ok(1,2) i(1) by (intro nth_equalityI) (auto simp: nth_Cons' nth_list_update)
  then have "drop (?k - 1) (?key[i := ?key ! (?k - 1), ?k - 1 := 0]) = replicate (16 - (?k - 1)) 0"
    using ok(1,4) i(1) by (simp add: Suc_diff_le flip: replicate_Suc)
  then show "kbd_ok (hid_ordinary_key code True hs)"
    using assms(1) sw p by (simp add: kbd_ok_def r)
qed

lemma ordinary_press:
  assumes "kbd_ok hs" "code \<noteq> 0" "code \<notin> pressed hs" "hs_keys hs < 16"
  shows "kbd_ok (hid_ordinary_key code False hs)" "pressed (hid_ordinary_key code False hs) = insert code (pressed hs)"
proof -
  let ?k = "hs_keys hs" and ?key = "hs_key hs"
  have ok: "length ?key = 16" "distinct (take ?k ?key)" "drop ?k ?key = replicate (16 - ?k) 0" using assms(1) by (simp_all add: kbd_ok_def)
  have r: "hid_ordinary_key code False hs = hs\<lparr>hs_key := ?key[?k := code], hs_keys := ?k + 1\<rparr>"
    using assms(3,4) key_loop_None [of ?k ?key code] ok(1) by (simp add: hid_ordinary_key_def pressed_def)
  have t: "take (Suc ?k) (?key[?k := code]) = take ?k ?key @ [code]" using assms(4) ok(1) by (simp add: take_Suc_conv_app_nth)
  then show p: "pressed (hid_ordinary_key code False hs) = insert code (pressed hs)" by (simp add: r pressed_def)
  have "drop (Suc ?k) (?key[?k := code]) = drop 1 (drop ?k ?key)" by simp
  also have "\<dots> = replicate (16 - Suc ?k) 0" using assms(4) unfolding ok(3) by (simp add: drop_replicate)
  finally show "kbd_ok (hid_ordinary_key code False hs)"
    using assms t p ok by (simp add: kbd_ok_def r pressed_def)
qed

lemma ordinary_key_ok:
  assumes "kbd_ok hs" "code \<noteq> 0"
  shows "kbd_ok (hid_ordinary_key code released hs)"
    "pressed (hid_ordinary_key code released hs) =
      (if released then pressed hs - {code} else if hs_keys hs < 16 then insert code (pressed hs) else pressed hs)"
proof -
  have le: "hs_keys hs \<le> length (hs_key hs)" using assms(1) by (simp add: kbd_ok_def)
  show "kbd_ok (hid_ordinary_key code released hs)"
    "pressed (hid_ordinary_key code released hs) =
      (if released then pressed hs - {code} else if hs_keys hs < 16 then insert code (pressed hs) else pressed hs)"
    using ordinary_release [OF assms(1)] ordinary_press [OF assms] assms(1) key_loop_None [OF le, of code]
    by (cases released; cases "key_loop code (hs_key hs) (hs_keys hs)";
        auto simp: hid_ordinary_key_def Let_def pressed_def insert_absorb)+
qed

lemma usage_table:
  "list_all (\<lambda>(i, u). (u = 0xe0 \<longrightarrow> (word_of_nat i :: u8) AND 0x7f = 0x1d) \<and> \<not> (0xea \<le> u \<and> u \<le> 0xef)) (enumerate 0 hid_usage_keys)"
  by code_simp

lemma length_usage_keys: "length hid_usage_keys = 256"
  by (simp add: hid_usage_keys_def)

lemma usage_of_index:
  "hid_usage_keys ! unat (i :: u8) = 0xe0 \<Longrightarrow> i AND 0x7f = 0x1d"
  "\<not> (0xea \<le> hid_usage_keys ! unat (i :: u8) \<and> hid_usage_keys ! unat i \<le> 0xef)"
proof -
  have "(unat i, hid_usage_keys ! unat i) \<in> set (enumerate 0 hid_usage_keys)"
    using unsigned_less [of i, where ?'a = nat] by (simp add: in_set_enumerate_eq length_usage_keys)
  from bspec [OF usage_table [unfolded list_all_iff [of _ "enumerate 0 hid_usage_keys"]] this]
  show "hid_usage_keys ! unat i = 0xe0 \<Longrightarrow> i AND 0x7f = 0x1d"
    "\<not> (0xea \<le> hid_usage_keys ! unat i \<and> hid_usage_keys ! unat i \<le> 0xef)" by simp_all
qed

lemma bit_256: "bit (0x100 :: u16) i \<longleftrightarrow> i = 8"
  using bit_line_mask [where ?'a = 16, of 8 i] by (simp add: push_bit_of_1)

lemma and_256: "m AND (0x100 :: u16) = (if bit m 8 then 0x100 else 0)"
proof (rule bit_word_eqI)
  fix n
  show "bit (m AND 0x100) n = bit (if bit m 8 then 0x100 else 0 :: u16) n"
    by (cases "bit m 8"; simp only: bit_and_iff bit_256 if_True if_False bit_0_eq bot_apply bot_bool_def; blast)
qed

lemma extended_index: "ucast (drop_bit 1 (m AND 0x100 :: u16)) = (if bit m 8 then 0x80 else 0 :: u8)"
  unfolding and_256 by simp

lemma index_key: "((word_of_int (k AND 0x7f) :: u8) OR ucast (drop_bit 1 (m AND 0x100 :: u16))) AND 0x7f = word_of_int (k AND 0x7f)"
proof -
  have "(x OR 0x80) AND 0x7f = x AND 0x7f" for x :: u8 by (simp add: bit.conj_disj_distrib2)
  moreover have "(word_of_int (k AND 0x7f) :: u8) AND 0x7f = word_of_int (k AND 0x7f)"
    by (simp add: of_int_and_eq and.assoc)
  ultimately show ?thesis unfolding extended_index by simp
qed

lemma kbd_ok_pop: "kbd_ok hs \<Longrightarrow> kbd_ok (hs\<lparr>hs_head := (hs_head hs + 1) mod 16, hs_n := hs_n hs - 1\<rparr>)"
  by (auto simp: kbd_ok_def pressed_def)

lemma process_keycode_ok:
  assumes "kbd_ok hs"
  shows "\<exists>hs'. hid_keyboard_process_keycode hs = Inr hs' \<and> kbd_ok hs'"
proof -
  let ?k = "hs_keycodes hs ! (hs_head hs mod 16)" and ?h = "hs\<lparr>hs_head := (hs_head hs + 1) mod 16, hs_n := hs_n hs - 1\<rparr>"
  let ?key = "word_of_int (?k AND 0x7f) :: u8"
  let ?i = "?key OR ucast (drop_bit 1 (hs_modifiers ?h AND 0x100))"
  have h: "kbd_ok (?h\<lparr>hs_modifiers := m\<rparr>)" for m using kbd_ok_pop [OF assms] kbd_frame(2) by blast
  have u: "hid_usage_keys ! unat ?i = 0xe0 \<Longrightarrow> ?key = 0x1d" using usage_of_index(1) [of ?i] unfolding index_key .
  show ?thesis
    using assms h u usage_of_index(2) [of ?i] ordinary_key_ok(1) [OF h]
    unfolding hid_keyboard_process_keycode_def Let_def by auto
qed

text \<open>A reset releases the keys and leaves the modifiers, the marks of a prefix among them, as they are.\<close>

theorem reset_keeps_modifiers:
  "hs_kind hs = HID_KEYBOARD \<Longrightarrow> pressed (hid_reset hs) = {} \<and> hs_modifiers (hid_reset hs) = hs_modifiers hs"
  by (simp add: hid_reset_def hid_del_idle_timer_def pressed_def)

subsection \<open>Keys come through\<close>

text \<open>Processing the waiting scan codes one poll at a time.\<close>

primrec process_all :: "nat \<Rightarrow> HIDState \<Rightarrow> c_fault + HIDState" where
  "process_all 0 hs = Inr hs"
| "process_all (Suc k) hs = bindE (hid_keyboard_process_keycode hs) (process_all k)"

definition key_codes :: "int \<Rightarrow> bool \<Rightarrow> int list" where
  "key_codes k down = (if k \<ge> 0x80 then [0xe0] else []) @ [(k AND 0x7f) OR (if down then 0 else 0x80)]"

lemma key_codes_checked:
  "list_all (\<lambda>k. qemu_input_key_value_to_scancode (KEY_VALUE_KIND_NUMBER k) True = key_codes k True
     \<and> qemu_input_key_value_to_scancode (KEY_VALUE_KIND_NUMBER k) False = key_codes k False) [0..0xff]"
  by code_simp

lemma scancodes_key_codes:
  assumes "0 \<le> k" "k < 256"
  shows "qemu_input_key_value_to_scancode (KEY_VALUE_KIND_NUMBER k) down = key_codes k down"
proof -
  have "k \<in> set [0..0xff]" using assms by simp
  from bspec [OF key_codes_checked [unfolded list_all_iff [of _ "[0..0xff]"]] this] show ?thesis by (cases down) simp_all
qed

lemma last_code_checked:
  "list_all (\<lambda>k. unat ((word_of_int (last (key_codes k True) AND 0x7f) :: u8) OR (if k \<ge> 0x80 then 0x80 else 0)) = nat k
     \<and> \<not> bit (last (key_codes k True)) 7 \<and> bit (last (key_codes k False)) 7
     \<and> last (key_codes k True) AND 0x7f = last (key_codes k False) AND 0x7f
     \<and> list_all (\<lambda>c. 0 \<le> c \<and> c < 256) (key_codes k True @ key_codes k False)) [0..0xff]"
  by code_simp

lemma last_code:
  assumes "0 \<le> k" "k < 256"
  shows "unat ((word_of_int (last (key_codes k down) AND 0x7f) :: u8) OR (if k \<ge> 0x80 then 0x80 else 0)) = nat k"
    "bit (last (key_codes k down)) 7 = (\<not> down)" "list_all (\<lambda>c. 0 \<le> c \<and> c < 256) (key_codes k down)"
proof -
  have "k \<in> set [0..0xff]" using assms by simp
  from bspec [OF last_code_checked [unfolded list_all_iff [of _ "[0..0xff]"]] this]
  show "unat ((word_of_int (last (key_codes k down) AND 0x7f) :: u8) OR (if k \<ge> 0x80 then 0x80 else 0)) = nat k"
    "bit (last (key_codes k down)) 7 = (\<not> down)" "list_all (\<lambda>c. 0 \<le> c \<and> c < 256) (key_codes k down)"
    by (cases down; simp)+
qed

text \<open>The effect of one scan code whose key has a usage.\<close>

definition usage_effect :: "u8 \<Rightarrow> bool \<Rightarrow> HIDState \<Rightarrow> HIDState" where
  "usage_effect u released hs =
     (if u < 0xe0 then hid_ordinary_key u released hs
      else hs\<lparr>hs_modifiers := (if released \<and> u \<le> 0xe7 then hs_modifiers hs AND NOT (push_bit (unat (u AND 0x0f)) 1)
                               else hs_modifiers hs OR push_bit (unat (u AND 0x0f)) 1)\<rparr>)"

lemma process_code:
  assumes "hs_n hs = Suc m" "hs_keycodes hs ! (hs_head hs mod 16) = c" "\<not> bit (hs_modifiers hs) 9"
    and "u = hid_usage_keys ! unat ((word_of_int (c AND 0x7f) :: u8) OR (if bit (hs_modifiers hs) 8 then 0x80 else 0))" "u \<noteq> 0" "u \<le> 0xe9"
  shows "hid_keyboard_process_keycode hs =
    Inr (usage_effect u (bit c 7) (hs\<lparr>hs_head := (hs_head hs + 1) mod 16, hs_n := m, hs_modifiers := hs_modifiers hs AND NOT 0x100\<rparr>))"
proof -
  let ?key = "word_of_int (c AND 0x7f) :: u8" and ?m = "hs_modifiers hs AND NOT 0x100"
  let ?i = "?key OR ucast (drop_bit 1 (hs_modifiers hs AND 0x100))" and ?b = "push_bit (unat (u AND 0x0f)) 1"
  let ?h = "hs\<lparr>hs_head := (hs_head hs + 1) mod 16, hs_n := m, hs_modifiers := ?m\<rparr>"
  have u: "u = hid_usage_keys ! unat ?i" using assms(4) unfolding extended_index .
  have a: "\<not> (u = 0xe0 \<and> ?key \<noteq> 0x1d)" using usage_of_index(1) [of ?i, unfolded index_key, folded u] by metis
  have b9: "\<not> bit ?m 9" using assms(3) by (simp only: bit_and_iff simp_thms)
  have r: "hs_modifiers (hs\<lparr>hs_head := x, hs_n := y\<rparr>) = hs_modifiers hs" "hs_modifiers (hs\<lparr>hs_head := x, hs_n := y, hs_modifiers := z\<rparr>) = z" for x y z
    by simp_all
  have "hid_keyboard_process_keycode hs =
      (if u = 0 then Inr ?h else if u = 0xe0 \<and> ?key \<noteq> 0x1d then Inl Assertion_Failed
       else if u = 0xe0 \<and> bit ?m 9 then Inr (?h\<lparr>hs_modifiers := ?m XOR 0x300\<rparr>)
       else if 0xe0 \<le> u \<and> u \<le> 0xe7 \<and> bit c 7 then Inr (?h\<lparr>hs_modifiers := ?m AND NOT ?b\<rparr>)
       else if 0xe0 \<le> u \<and> u \<le> 0xe9 then Inr (?h\<lparr>hs_modifiers := ?m OR ?b\<rparr>)
       else if 0xea \<le> u \<and> u \<le> 0xef then Inl Process_Exit else Inr (hid_ordinary_key u (bit c 7) ?h))"
    unfolding hid_keyboard_process_keycode_def Let_def u
    by (simp only: assms(1,2) r diff_Suc_1 nat.distinct if_False)
  also have "\<dots> = Inr (usage_effect u (bit c 7) ?h)"
  proof (cases "u < 0xe0")
    case True
    then have "\<not> 0xe0 \<le> u" "\<not> 0xea \<le> u" "u \<noteq> 0xe0" by (auto simp: not_le intro: order.strict_trans)
    then show ?thesis using assms(5) True by (simp only: usage_effect_def if_True if_False simp_thms)
  next
    case False
    then have "0xe0 \<le> u" by (simp only: not_less)
    then show ?thesis using assms(5,6) a b9 False
      by (simp only: usage_effect_def if_True if_False simp_thms r split: if_splits) blast
  qed
  finally show ?thesis .
qed

lemma extended_flag:
  assumes "\<not> bit m 8"
  shows "m AND NOT 0x100 = (m :: u16)" "(m OR push_bit 8 1) AND NOT 0x100 = m" "bit (m OR push_bit 8 1) 8" "bit (m OR push_bit 8 1) 9 = bit m 9"
proof -
  have p: "push_bit 8 1 = (0x100 :: u16)" by simp
  show "bit (m OR push_bit 8 1) 8" "bit (m OR push_bit 8 1) 9 = bit m 9" unfolding p by (simp_all only: bit_or_iff bit_256) simp_all
  have n: "n < LENGTH(16) \<Longrightarrow> bit (NOT (0x100 :: u16)) n \<longleftrightarrow> n \<noteq> 8" for n
    by (simp only: bit_not_iff bit_256 possible_bit_word simp_thms)
  show "m AND NOT 0x100 = m" "(m OR push_bit 8 1) AND NOT 0x100 = m" unfolding p
    by (rule bit_word_eqI, use assms in \<open>auto simp only: bit_or_iff bit_and_iff n bit_256\<close>)+
qed

lemma keycodes_frame:
  "kbd_ok hs \<Longrightarrow> list_all (\<lambda>c. 0 \<le> c \<and> c < 256) ks \<Longrightarrow> length ks = 16 \<Longrightarrow> h < 16 \<Longrightarrow> n \<le> 16
     \<Longrightarrow> kbd_ok (hs\<lparr>hs_keycodes := ks, hs_head := h, hs_n := n, hs_modifiers := m\<rparr>)"
  "pressed (hs\<lparr>hs_keycodes := ks, hs_head := h, hs_n := n, hs_modifiers := m\<rparr>) = pressed hs"
  by (simp_all add: kbd_ok_def pressed_def)

lemma prefix_usage: "hid_usage_keys ! unat ((word_of_int (0xe0 AND 0x7f) :: u8) OR 0) = 0xe8"
  by code_simp

lemma process_key_codes:
  assumes "hs_n hs = 0" "length (hs_keycodes hs) = 16" "hs_head hs < 16" "\<not> bit (hs_modifiers hs) 8" "\<not> bit (hs_modifiers hs) 9"
    and "0 \<le> k" "k < 256" "u = hid_usage_keys ! nat k" "u \<noteq> 0" "u \<le> 0xe9"
  shows "\<exists>hs1 ks h. hid_keyboard_event env (KEY_VALUE_KIND_NUMBER k) down (hs, w) = (hs1, hid_event env w) \<and> h < 16
    \<and> length ks = 16 \<and> (list_all (\<lambda>c. 0 \<le> c \<and> c < 256) (hs_keycodes hs) \<longrightarrow> list_all (\<lambda>c. 0 \<le> c \<and> c < 256) ks)
    \<and> process_all (hs_n hs1) hs1 =
        Inr (usage_effect u (\<not> down) (hs\<lparr>hs_keycodes := ks, hs_head := h, hs_n := 0, hs_modifiers := hs_modifiers hs\<rparr>))"
proof -
  define c where "c = last (key_codes k down)"
  let ?c = c and ?h = "hs_head hs" and ?kc = "hs_keycodes hs" and ?m = "hs_modifiers hs"
  let ?nh = "(?h + 1) mod 16"
  note lc = last_code(1,2) [OF assms(6,7), of down, folded c_def] last_code(3) [OF assms(6,7), of down]
  note sc = scancodes_key_codes [OF assms(6,7), of down]
  show ?thesis
  proof (cases "k < 0x80")
    case True
    then have kc: "key_codes k down = [?c]" by (simp add: key_codes_def c_def)
    let ?ks = "?kc[?h := ?c]" and ?h1 = "hs\<lparr>hs_n := 1, hs_keycodes := ?kc[?h := ?c]\<rparr>"
    have ev: "hid_keyboard_event env (KEY_VALUE_KIND_NUMBER k) down (hs, w) = (?h1, hid_event env w)"
      unfolding hid_keyboard_event_def sc kc using assms(1,3) by (simp add: Let_def)
    have "hid_keyboard_process_keycode ?h1 = Inr (usage_effect u (bit ?c 7) (?h1\<lparr>hs_head := (hs_head ?h1 + 1) mod 16, hs_n := 0, hs_modifiers := hs_modifiers ?h1 AND NOT 0x100\<rparr>))"
      by (rule process_code) (use assms True lc(1) in simp_all)
    then have "process_all (hs_n ?h1) ?h1 = Inr (usage_effect u (\<not> down) (hs\<lparr>hs_keycodes := ?ks, hs_head := ?nh, hs_n := 0, hs_modifiers := ?m\<rparr>))"
      using lc(2) extended_flag(1) [OF assms(4)] by simp
    moreover have "list_all (\<lambda>c. 0 \<le> c \<and> c < 256) ?kc \<longrightarrow> list_all (\<lambda>c. 0 \<le> c \<and> c < 256) ?ks"
      using lc(3) kc by (auto simp: list_all_iff dest!: set_update_subset_insert [THEN subsetD])
    ultimately show ?thesis using ev assms(2) by (intro exI [of _ ?h1] exI [of _ ?ks] exI [of _ ?nh]) simp
  next
    case False
    then have kc: "key_codes k down = [0xe0, ?c]" by (simp add: key_codes_def c_def)
    let ?ks = "(?kc[?h := 0xe0])[?nh := ?c]" and ?h1 = "hs\<lparr>hs_n := 2, hs_keycodes := (?kc[?h := 0xe0])[?nh := ?c]\<rparr>"
    let ?h2 = "hs\<lparr>hs_n := 1, hs_keycodes := ?ks, hs_head := ?nh, hs_modifiers := ?m OR push_bit 8 1\<rparr>"
    have ne: "?h \<noteq> ?nh" using assms(3) by (cases "?h = 15") auto
    have ev: "hid_keyboard_event env (KEY_VALUE_KIND_NUMBER k) down (hs, w) = (?h1, hid_event env w)"
      unfolding hid_keyboard_event_def sc kc using assms(1,3) by (simp add: Let_def)
    have "hid_keyboard_process_keycode ?h1 = Inr (usage_effect 0xe8 (bit (0xe0 :: int) 7) (?h1\<lparr>hs_head := (hs_head ?h1 + 1) mod 16, hs_n := 1, hs_modifiers := hs_modifiers ?h1 AND NOT 0x100\<rparr>))"
      by (rule process_code) (use assms ne prefix_usage in simp_all)
    then have p1: "hid_keyboard_process_keycode ?h1 = Inr ?h2"
      using extended_flag(1) [OF assms(4)] by (simp add: usage_effect_def)
    have "hid_keyboard_process_keycode ?h2 = Inr (usage_effect u (bit ?c 7) (?h2\<lparr>hs_head := (hs_head ?h2 + 1) mod 16, hs_n := 0, hs_modifiers := hs_modifiers ?h2 AND NOT 0x100\<rparr>))"
      by (rule process_code) (use assms False lc(1) extended_flag [OF assms(4)] in simp_all)
    then have "process_all (hs_n ?h1) ?h1 = Inr (usage_effect u (\<not> down) (hs\<lparr>hs_keycodes := ?ks, hs_head := (?nh + 1) mod 16, hs_n := 0, hs_modifiers := ?m\<rparr>))"
      using lc(2) extended_flag(2) [OF assms(4)] p1 by (simp add: numeral_2_eq_2)
    moreover have "list_all (\<lambda>c. 0 \<le> c \<and> c < 256) ?kc \<longrightarrow> list_all (\<lambda>c. 0 \<le> c \<and> c < 256) ?ks"
      using lc(3) kc by (auto simp: list_all_iff dest!: set_update_subset_insert [THEN subsetD])
    ultimately show ?thesis using ev assms(2) by (intro exI [of _ ?h1] exI [of _ ?ks] exI [of _ "(?nh + 1) mod 16"]) simp
  qed
qed

lemma usage_effect_spec:
  assumes "kbd_ok g" "u \<noteq> 0" "u \<le> 0xe7"
  shows "hs_n (usage_effect u released g) = hs_n g" "kbd_ok (usage_effect u released g)"
    "(pressed (usage_effect u released g), hs_modifiers (usage_effect u released g)) =
       (if u < 0xe0 then (if released then pressed g - {u} else if hs_keys g < 16 then insert u (pressed g) else pressed g, hs_modifiers g)
        else (pressed g, if released then hs_modifiers g AND NOT (push_bit (unat (u AND 0x0f)) 1)
                         else hs_modifiers g OR push_bit (unat (u AND 0x0f)) 1))"
proof -
  have "hs_n (hid_ordinary_key u b g) = hs_n g" "hs_modifiers (hid_ordinary_key u b g) = hs_modifiers g" for b
    by (simp_all add: hid_ordinary_key_def Let_def split: option.split)
  then show "hs_n (usage_effect u released g) = hs_n g" "kbd_ok (usage_effect u released g)"
    "(pressed (usage_effect u released g), hs_modifiers (usage_effect u released g)) =
       (if u < 0xe0 then (if released then pressed g - {u} else if hs_keys g < 16 then insert u (pressed g) else pressed g, hs_modifiers g)
        else (pressed g, if released then hs_modifiers g AND NOT (push_bit (unat (u AND 0x0f)) 1)
                         else hs_modifiers g OR push_bit (unat (u AND 0x0f)) 1))"
    using ordinary_key_ok [OF assms(1,2), of released] assms(1,3) by (simp_all add: usage_effect_def)
qed

text \<open>Scan codes that join a queue wait behind those that are there.\<close>

definition put_code :: "int \<Rightarrow> HIDState \<Rightarrow> HIDState" where
  "put_code c hs = hs\<lparr>hs_n := hs_n hs + 1, hs_keycodes := (hs_keycodes hs)[(hs_head hs + hs_n hs) mod 16 := c]\<rparr>"

lemma keyboard_event_puts:
  "hid_keyboard_event env key down (hs, w) =
     (if hs_n hs + length (qemu_input_key_value_to_scancode key down) > 16 then (hs, w)
      else (fold put_code (qemu_input_key_value_to_scancode key down) hs, hid_event env w))"
  by (simp add: hid_keyboard_event_def Let_def put_code_def [abs_def])

lemma ordinary_key_frame:
  "hs_n (hid_ordinary_key u b hs) = hs_n hs" "hs_head (hid_ordinary_key u b hs) = hs_head hs"
  "hs_keycodes (hid_ordinary_key u b hs) = hs_keycodes hs" "hs_keys (hs\<lparr>hs_n := n, hs_keycodes := ks\<rparr>) = hs_keys hs"
  "hs_key (hs\<lparr>hs_n := n, hs_keycodes := ks\<rparr>) = hs_key hs"
  by (simp_all add: hid_ordinary_key_def Let_def split: option.split)

lemma ordinary_key_put: "hid_ordinary_key u b (hs\<lparr>hs_n := n, hs_keycodes := ks\<rparr>) = (hid_ordinary_key u b hs)\<lparr>hs_n := n, hs_keycodes := ks\<rparr>"
  by (cases hs) (simp add: hid_ordinary_key_def Let_def split: option.split)

lemma process_keycode_n: "hid_keyboard_process_keycode hs = Inr g \<Longrightarrow> hs_n g = hs_n hs - 1"
  by (auto simp: hid_keyboard_process_keycode_def Let_def ordinary_key_frame split: if_splits)

lemma process_put:
  assumes "0 < hs_n hs" "hs_n hs < 16"
  shows "hid_keyboard_process_keycode (put_code c hs) = bindE (hid_keyboard_process_keycode hs) (\<lambda>g. Inr (put_code c g))"
proof -
  let ?h = "hs_head hs" and ?n = "hs_n hs"
  have head: "((hs_keycodes hs)[(?h + ?n) mod 16 := c]) ! (?h mod 16) = hs_keycodes hs ! (?h mod 16)"
    using slot_eq [of ?n 0 ?h] assms by simp
  have slot: "((?h + 1) mod 16 + (?n - 1)) mod 16 = (?h + ?n) mod 16"
    using assms(1) mod_add_left_eq [of "?h + 1" 16 "?n - 1"] by simp
  define pop where "pop = hs\<lparr>hs_head := (?h + 1) mod 16, hs_n := ?n - 1\<rparr>"
  have pop: "(put_code c hs)\<lparr>hs_head := (hs_head (put_code c hs) + 1) mod 16, hs_n := hs_n (put_code c hs) - 1\<rparr> = put_code c pop"
    using assms(1) slot by (cases hs) (simp add: put_code_def pop_def)
  have mods: "hs_modifiers (put_code c g) = hs_modifiers g" "(put_code c g)\<lparr>hs_modifiers := m\<rparr> = put_code c (g\<lparr>hs_modifiers := m\<rparr>)" for g m
    by (cases g; simp add: put_code_def)+
  have ord: "hid_ordinary_key u b (put_code c g) = put_code c (hid_ordinary_key u b g)" for u b g
    by (simp add: put_code_def ordinary_key_put ordinary_key_frame)
  have kc: "hs_keycodes (put_code c hs) ! (hs_head (put_code c hs) mod 16) = hs_keycodes hs ! (?h mod 16)"
    using head by (simp add: put_code_def)
  have n: "hs_n (put_code c hs) \<noteq> 0" "?n \<noteq> 0" using assms(1) by (simp_all add: put_code_def)
  have if_bind: "bindE (if b then x else y) f = (if b then bindE x f else bindE y f)" for b and x y :: "c_fault + HIDState" and f :: "HIDState \<Rightarrow> c_fault + HIDState"
    by simp
  show ?thesis
    unfolding hid_keyboard_process_keycode_def Let_def kc pop pop_def [symmetric] mods ord
    by (simp only: n if_False if_bind bindE_simps)
qed

lemma process_all_put:
  "k \<le> hs_n hs \<Longrightarrow> hs_n hs < 16 \<Longrightarrow> process_all k (put_code c hs) = bindE (process_all k hs) (\<lambda>g. Inr (put_code c g))"
proof (induction k arbitrary: hs)
  case (Suc k)
  show ?case
  proof (cases "hid_keyboard_process_keycode hs")
    case (Inr g)
    with Suc process_keycode_n [OF Inr] show ?thesis by (simp add: process_put)
  qed (use Suc.prems in \<open>simp add: process_put\<close>)
qed simp

lemma process_all_puts:
  "k \<le> hs_n hs \<Longrightarrow> hs_n hs + length cs \<le> 16 \<Longrightarrow>
     process_all k (fold put_code cs hs) = bindE (process_all k hs) (\<lambda>g. Inr (fold put_code cs g))"
proof (induction cs arbitrary: hs)
  case Nil
  then show ?case by (cases "process_all k hs") simp_all
next
  case (Cons c cs)
  have "hs_n (put_code c hs) = hs_n hs + 1" by (simp add: put_code_def)
  with Cons show ?case by (cases "process_all k hs") (simp_all add: process_all_put)
qed

lemma process_all_add: "process_all (a + b) hs = bindE (process_all a hs) (process_all b)"
proof (induction a arbitrary: hs)
  case (Suc a)
  then show ?case by (cases "hid_keyboard_process_keycode hs") simp_all
qed simp

lemma process_all_ok: "kbd_ok hs \<Longrightarrow> \<exists>g. process_all k hs = Inr g \<and> kbd_ok g \<and> hs_n g = hs_n hs - k"
proof (induction k arbitrary: hs)
  case (Suc k)
  from process_keycode_ok [OF Suc.prems] obtain h where h: "hid_keyboard_process_keycode hs = Inr h" "kbd_ok h" by blast
  from Suc.IH [OF h(2)] process_keycode_n [OF h(1)] h(1) show ?case by auto
qed simp

lemma fold_put_n: "hs_n (fold put_code cs hs) = hs_n hs + length cs"
  by (induction cs arbitrary: hs) (simp_all add: put_code_def)

text \<open>
  C14. A key event of a key of the usage table (a usage from 1 to 0xe7) reaches the guest as that key.  When the queue
  of 16 scan codes has no room for the key's one or two codes, the event is dropped whole.  Otherwise the codes wait behind those in
  the queue; let \<open>g\<close> be the keyboard once the earlier ones have been polled, and suppose that they do not end in the
  middle of a prefix.  Once all codes have been polled, an ordinary key has been added to the set of keys that \<open>g\<close>
  holds (when fewer than 16 are held) or taken from it, a modifier's bit has been set or cleared, nothing
  else of the keys and modifiers of \<open>g\<close> has changed, and the queue is empty.
\<close>

theorem keyboard_event_reflected:
  assumes "kbd_ok hs" "process_all (hs_n hs) hs = Inr g" "\<not> bit (hs_modifiers g) 8" "\<not> bit (hs_modifiers g) 9"
    and "0 \<le> k" "k < 256" "u = hid_usage_keys ! nat k" "u \<noteq> 0" "u \<le> 0xe7"
  shows "if 16 < hs_n hs + (if k < 0x80 then 1 else 2) then hid_keyboard_event env (KEY_VALUE_KIND_NUMBER k) down (hs, w) = (hs, w)
    else \<exists>hs1 hs'. hid_keyboard_event env (KEY_VALUE_KIND_NUMBER k) down (hs, w) = (hs1, hid_event env w)
    \<and> process_all (hs_n hs1) hs1 = Inr hs' \<and> hs_n hs' = 0 \<and> kbd_ok hs'
    \<and> (pressed hs', hs_modifiers hs') =
        (if u < 0xe0 then (if \<not> down then pressed g - {u} else if hs_keys g < 16 then insert u (pressed g) else pressed g, hs_modifiers g)
         else (pressed g, if down then hs_modifiers g OR push_bit (unat (u AND 0x0f)) 1
                          else hs_modifiers g AND NOT (push_bit (unat (u AND 0x0f)) 1)))"
proof -
  let ?cs = "qemu_input_key_value_to_scancode (KEY_VALUE_KIND_NUMBER k) down" and ?e = "hid_keyboard_event env (KEY_VALUE_KIND_NUMBER k) down"
  have len: "length ?cs = (if k < 0x80 then 1 else 2)" by (simp add: scancodes_key_codes [OF assms(5,6)] key_codes_def)
  have g0: "kbd_ok g" "hs_n g = 0" using process_all_ok [OF assms(1), of "hs_n hs"] assms(2) by auto
  have ok: "length (hs_keycodes g) = 16" "hs_head g < 16" "list_all (\<lambda>c. 0 \<le> c \<and> c < 256) (hs_keycodes g)"
    using g0(1) by (simp_all add: kbd_ok_def)
  have "u \<le> 0xe9" using assms(9) by (rule order_trans) simp
  from process_key_codes [OF g0(2) ok(1,2) assms(3,4,5-8) this, of env down w] obtain g1 ks h where
    r: "?e (g, w) = (g1, hid_event env w)" "h < 16" "length ks = 16" "list_all (\<lambda>c. 0 \<le> c \<and> c < 256) ks"
      "process_all (hs_n g1) g1 = Inr (usage_effect u (\<not> down) (g\<lparr>hs_keycodes := ks, hs_head := h, hs_n := 0, hs_modifiers := hs_modifiers g\<rparr>))"
    using ok(3) by blast
  define g2 where "g2 = g\<lparr>hs_keycodes := ks, hs_head := h, hs_n := 0, hs_modifiers := hs_modifiers g\<rparr>"
  have h: "kbd_ok g2" "pressed g2 = pressed g" "hs_n g2 = 0" "hs_modifiers g2 = hs_modifiers g" "hs_keys g2 = hs_keys g"
    using g0(1) r(2-4) by (simp_all add: g2_def kbd_ok_def pressed_def)
  have g1: "g1 = fold put_code ?cs g" using r(1) g0(2) len by (simp add: keyboard_event_puts split: if_splits)
  show ?thesis
  proof (cases "16 < hs_n hs + (if k < 0x80 then 1 else 2)")
    case True
    then show ?thesis using len by (simp add: keyboard_event_puts)
  next
    case False
    let ?h1 = "fold put_code ?cs hs"
    have e: "?e (hs, w) = (?h1, hid_event env w)" using False len by (simp add: keyboard_event_puts)
    have "process_all (hs_n ?h1) ?h1 = process_all (hs_n g1) g1"
      using process_all_puts [of "hs_n hs" hs ?cs] False len assms(2) g0(2) by (simp add: fold_put_n g1 process_all_add)
    then have "process_all (hs_n ?h1) ?h1 = Inr (usage_effect u (\<not> down) g2)" unfolding r(5) g2_def .
    with e usage_effect_spec [OF h(1) assms(8,9), of "\<not> down"] h(2-5) False show ?thesis by (cases down) auto
  qed
qed

section \<open>The device on the bus\<close>

text \<open>The number of bits of a report, read off its descriptor: an item is a byte with its number of operand bytes, Report Size,
  Report Count and Input items matter.\<close>

function report_bits :: "nat \<Rightarrow> nat \<Rightarrow> u8 list \<Rightarrow> nat" where
  "report_bits sz cnt [] = 0"
| "report_bits sz cnt (b # bs) =
     (let len = (if b AND 3 = 3 then 4 else unat (b AND 3)); arg = (if len = 0 then 0 else unat (bs ! 0)); rest = drop len bs; tag = b AND 0xfc
      in if tag = 0x74 then report_bits arg cnt rest
         else if tag = 0x94 then report_bits sz arg rest
         else (if tag = 0x80 then sz * cnt else 0) + report_bits sz cnt rest)"
  by pat_completeness auto
termination
  by (relation "measure (\<lambda>(sz, cnt, bs). length bs)") (auto simp: Let_def)

lemma descriptor_bits:
  "report_bits 0 0 (report_descriptor HID_MOUSE) = 32" "report_bits 0 0 (report_descriptor HID_TABLET) = 48"
  "report_bits 0 0 (report_descriptor HID_KEYBOARD) = 64"
  by code_simp+

definition hid_inv :: "HIDState \<Rightarrow> bool" where
  "hid_inv hs = (if hs_kind hs = HID_KEYBOARD then kbd_ok hs else ptr_ok hs)"

lemma pointer_poll_inv:
  assumes "ptr_ok hs" "hid_pointer_poll env len (hs, w) = (buf, hs', w')"
  shows "ptr_ok hs'" "hs_kind hs' = hs_kind hs" "length buf = min len (if hs_kind hs = HID_MOUSE then 4 else 6)"
proof -
  have l: "length (pe_report k e) = (if k = HID_MOUSE then 4 else 6)" for k e by (simp add: pe_report_def)
  have "ptr_ok hs' \<and> hs_kind hs' = hs_kind hs \<and> length buf = min len (if hs_kind hs = HID_MOUSE then 4 else 6)"
  proof (cases "visible hs")
    case Nil
    then have "hs_n hs = 0" by (metis length_visible list.size(3))
    from pointer_poll_empty [OF assms(1) this assms(2)] l show ?thesis by (simp add: min.commute)
  next
    case (Cons e vs)
    from pointer_poll_spec [OF assms(1) Cons assms(2)] l show ?thesis by (simp add: min.commute)
  qed
  then show "ptr_ok hs'" "hs_kind hs' = hs_kind hs" "length buf = min len (if hs_kind hs = HID_MOUSE then 4 else 6)" by auto
qed

lemma process_kind: "case_sum (\<lambda>_. True) (\<lambda>h. hs_kind h = hs_kind hs) (hid_keyboard_process_keycode hs)"
proof -
  have o: "hs_kind (hid_ordinary_key u b g) = hs_kind g" for u b g
    by (simp add: hid_ordinary_key_def Let_def split: option.split)
  have i: "case_sum P Q (if b then x else y) = (if b then case_sum P Q x else case_sum P Q y)" for P Q b and x y :: "c_fault + HIDState"
    by simp
  have both: "P \<Longrightarrow> Q \<Longrightarrow> if b then P else Q" for P Q b by simp
  show ?thesis
    unfolding hid_keyboard_process_keycode_def Let_def i sum.case o by (intro both) simp_all
qed

lemma keyboard_poll_inv:
  assumes "kbd_ok hs"
  shows "\<exists>buf hs'. hid_keyboard_poll len hs = Inr (buf, hs') \<and> kbd_ok hs' \<and> hs_kind hs' = hs_kind hs \<and> length buf = (if len < 2 then 0 else min 8 len)"
proof -
  let ?h = "hs\<lparr>hs_idle_pending := False\<rparr>"
  from process_keycode_ok [of ?h] assms obtain h1 where h1: "hid_keyboard_process_keycode ?h = Inr h1" "kbd_ok h1" by auto
  have "hs_kind h1 = hs_kind hs"
    using process_kind [of ?h] h1(1) by simp
  moreover have "length (hs_key h1) = 16" using h1(2) by (simp add: kbd_ok_def)
  ultimately show ?thesis using h1 assms by (auto simp: hid_keyboard_poll_def Let_def)
qed

lemma hid_poll_inv:
  assumes "hid_inv (fst hw)"
  shows "\<exists>buf hw'. hid_poll env len hw = Inr (buf, hw') \<and> hid_inv (fst hw') \<and> hs_kind (fst hw') = hs_kind (fst hw)
    \<and> (2 \<le> len \<longrightarrow> length buf = min len (case hs_kind (fst hw) of HID_MOUSE \<Rightarrow> 4 | HID_TABLET \<Rightarrow> 6 | HID_KEYBOARD \<Rightarrow> 8))"
proof (cases "hs_kind (fst hw) = HID_KEYBOARD")
  case True
  then have "kbd_ok (fst hw)" using assms by (simp add: hid_inv_def)
  from keyboard_poll_inv [OF this, of len] obtain buf hs' where "hid_keyboard_poll len (fst hw) = Inr (buf, hs')" "kbd_ok hs'"
    "hs_kind hs' = hs_kind (fst hw)" "length buf = (if len < 2 then 0 else min 8 len)" by blast
  then show ?thesis
    using True by (intro exI [of _ buf] exI [of _ "(hs', snd hw)"]) (simp add: hid_poll_def hid_inv_def min.commute)
next
  case False
  obtain buf hs' w' where p: "hid_pointer_poll env len (fst hw, snd hw) = (buf, hs', w')" by (metis prod_cases3)
  have "ptr_ok (fst hw)" using assms False by (simp add: hid_inv_def)
  from pointer_poll_inv [OF this p] False p show ?thesis
    by (cases "hs_kind (fst hw)") (auto simp: hid_poll_def hid_inv_def)
qed

text \<open>
  C15. The devices send what their descriptors promise: the announced length of the report descriptor is its length, and a
  poll with the announced packet size succeeds with a report of as many bits as the descriptor describes.
\<close>

theorem descriptors_match_reports:
  assumes "hid_inv hs"
  shows "\<exists>buf hw'. hid_poll env (snd (desc_iface (hs_kind hs))) (hs, w) = Inr (buf, hw')
    \<and> 8 * length buf = report_bits 0 0 (report_descriptor (hs_kind hs))
    \<and> length (report_descriptor (hs_kind hs)) = fst (desc_iface (hs_kind hs))"
  using hid_poll_inv [of "(hs, w)" env "snd (desc_iface (hs_kind hs))"] assms
  by (cases "hs_kind hs") (auto simp: desc_iface_def descriptor_bits report_descriptor_def [of HID_MOUSE]
      report_descriptor_def [of HID_TABLET] report_descriptor_def [of HID_KEYBOARD] qemu_mouse_hid_report_descriptor_def
      qemu_tablet_hid_report_descriptor_def qemu_keyboard_hid_report_descriptor_def)

subsection \<open>Everything that can happen to a device\<close>

text \<open>
  What loading may find in a stream: the fields that a well-formed device of this version saves, or a pointer's queue of an
  old version, which may be full.
\<close>

definition hid_stream_ok :: "HIDState \<Rightarrow> bool" where
  "hid_stream_ok hs \<longleftrightarrow> (if hs_kind hs = HID_KEYBOARD then kbd_ok hs
     else length (hs_queue hs) = 16 \<and> hs_head hs < 16 \<and> hs_n hs \<le> 16)"

inductive hid_step :: "'w hid_env \<Rightarrow> HIDState \<times> 'w \<Rightarrow> HIDState \<times> 'w \<Rightarrow> bool" for env where
  step_key: "hs_kind (fst hw) = HID_KEYBOARD \<Longrightarrow> list_all (\<lambda>c. 0 \<le> c \<and> c < 256) (qemu_input_key_value_to_scancode key down)
    \<Longrightarrow> hid_step env hw (hid_keyboard_event env key down hw)"
| step_pointer: "hs_kind (fst hw) \<noteq> HID_KEYBOARD \<Longrightarrow> hid_pointer_event e hw = Inr hw' \<Longrightarrow> hid_step env hw hw'"
| step_sync: "hs_kind (fst hw) \<noteq> HID_KEYBOARD \<Longrightarrow> hid_step env hw (hid_pointer_sync env hw)"
| step_control: "usb_hid_handle_control env now desc request val len data hw = Inr (r, hw') \<Longrightarrow> hid_step env hw hw'"
| step_data: "usb_hid_handle_data env now token_in ep sz hw = Inr (r, hw') \<Longrightarrow> hid_step env hw hw'"
| step_idle: "hid_step env hw (hid_idle_timer env hw)"
| step_reset: "hid_step env hw (usb_hid_handle_reset hw)"
| step_load: "hs_kind stream = hs_kind (fst hw) \<Longrightarrow> hid_stream_ok stream \<Longrightarrow> hid_step env hw (hid_post_load now stream, snd hw)"
| step_usb_load: "hs_kind (fst hw) \<noteq> HID_KEYBOARD \<Longrightarrow> hid_step env hw (usb_ptr_post_load env b hw)"

lemma hid_inv_frame [simp]:
  "hid_inv (hs\<lparr>hs_idle_pending := b\<rparr>) = hid_inv hs" "hid_inv (hs\<lparr>hs_idle_timer := t\<rparr>) = hid_inv hs" "hid_inv (hs\<lparr>hs_idle := i\<rparr>) = hid_inv hs"
  "hid_inv (hs\<lparr>hs_protocol := p\<rparr>) = hid_inv hs" "hid_inv (hs\<lparr>hs_leds := l\<rparr>) = hid_inv hs" "hid_inv (hs\<lparr>hs_grabbed := b\<rparr>) = hid_inv hs"
  by (simp_all add: hid_inv_def kbd_ok_def ptr_ok_def pressed_def)

lemma hid_inv_idle [simp]: "hid_inv (hid_set_next_idle now hs) = hid_inv hs" "hs_kind (hid_set_next_idle now hs) = hs_kind hs"
  by (simp_all add: hid_set_next_idle_def hid_del_idle_timer_def)

lemma hid_inv_activate [simp]:
  "hid_inv (fst (hid_pointer_activate env hw)) = hid_inv (fst hw)" "hs_kind (fst (hid_pointer_activate env hw)) = hs_kind (fst hw)"
  by (simp_all add: hid_pointer_activate_def case_prod_unfold)

lemma keyboard_event_inv:
  assumes "kbd_ok hs" "list_all (\<lambda>c. 0 \<le> c \<and> c < 256) (qemu_input_key_value_to_scancode key down)"
  shows "kbd_ok (fst (hid_keyboard_event env key down (hs, w)))" "hs_kind (fst (hid_keyboard_event env key down (hs, w))) = hs_kind hs"
proof -
  let ?f = "\<lambda>c hs. hs\<lparr>hs_n := hs_n hs + 1, hs_keycodes := (hs_keycodes hs)[(hs_head hs + hs_n hs) mod 16 := c]\<rparr>"
  have "kbd_ok (fold ?f cs g) \<and> hs_kind (fold ?f cs g) = hs_kind g"
    if "kbd_ok g" "hs_n g + length cs \<le> 16" "list_all (\<lambda>c. 0 \<le> c \<and> c < 256) cs" for cs g
    using that
  proof (induction cs arbitrary: g)
    case (Cons c cs)
    have "kbd_ok (?f c g)"
      using Cons.prems by (auto simp: kbd_ok_def pressed_def list_all_iff dest!: set_update_subset_insert [THEN subsetD])
    then show ?case using Cons.IH [of "?f c g"] Cons.prems(2,3) by simp
  qed simp
  from this [OF assms(1) _ assms(2)] assms(1)
  show "kbd_ok (fst (hid_keyboard_event env key down (hs, w)))" "hs_kind (fst (hid_keyboard_event env key down (hs, w))) = hs_kind hs"
    by (simp_all add: hid_keyboard_event_def Let_def)
qed

lemma hid_control_ok:
  assumes "hid_inv (fst hw)"
  shows "\<exists>r hw'. usb_hid_handle_control env now desc request val len data hw = Inr (r, hw') \<and> hid_inv (fst hw')"
proof -
  obtain hs w where hw: "hw = (hs, w)" by fastforce
  from hid_poll_inv [OF assms, of env len] obtain buf h2 where p: "hid_poll env len (hs, w) = Inr (buf, h2)" "hid_inv (fst h2)"
    unfolding hw by blast
  let ?h1 = "(hid_set_next_idle now (hs\<lparr>hs_idle := word_of_int (drop_bit 8 val)\<rparr>), w)"
  have "\<not> isl (usb_hid_handle_control env now desc request val len data hw)
      \<and> hid_inv (fst (snd (projr (usb_hid_handle_control env now desc request val len data hw))))"
    using assms p hid_inv_activate(1) [of env ?h1] unfolding hw usb_hid_handle_control_def Let_def prod.case
    by (simp add: hid_keyboard_write_def split: option.split list.split)
  then show ?thesis by (cases "usb_hid_handle_control env now desc request val len data hw") (auto simp: prod_eq_iff)
qed

lemma hid_data_ok:
  assumes "hid_inv (fst hw)"
  shows "\<exists>r hw'. usb_hid_handle_data env now token_in ep sz hw = Inr (r, hw') \<and> hid_inv (fst hw')"
proof -
  define h1 where "h1 = (if hs_kind (fst hw) = HID_KEYBOARD then hw else hid_pointer_activate env hw)"
  have i: "hid_inv (fst h1)" using assms by (simp add: h1_def)
  with hid_poll_inv [of "(hid_set_next_idle now (fst h1), snd h1)" env sz] obtain buf h2 where
    "hid_poll env sz (hid_set_next_idle now (fst h1), snd h1) = Inr (buf, h2)" "hid_inv (fst h2)" by auto
  then show ?thesis
    unfolding usb_hid_handle_data_def h1_def [symmetric] Let_def using i assms by (cases h1; cases h2; cases hw) (simp split: if_split)
qed

lemma hid_reset_inv: "hid_inv hs \<Longrightarrow> hid_inv (hid_reset hs)"
  by (cases "hs_kind hs") (simp_all add: hid_reset_def hid_del_idle_timer_def hid_inv_def kbd_ok_def ptr_ok_def pressed_def list_all_iff)

lemma hid_post_load_inv:
  assumes "hid_stream_ok hs"
  shows "hid_inv (hid_post_load now hs)"
proof (cases "hs_kind hs = HID_KEYBOARD \<or> hs_n hs \<noteq> 16")
  case True
  have "hs_n (hid_set_next_idle now hs) = hs_n hs" by (simp add: hid_set_next_idle_def hid_del_idle_timer_def)
  then have "hid_post_load now hs = hid_set_next_idle now hs" using True by (auto simp: hid_post_load_def Let_def)
  moreover have "hid_inv hs" using assms True by (auto simp: hid_stream_ok_def hid_inv_def ptr_ok_def split: if_splits)
  ultimately show ?thesis by simp
next
  case False
  have "hs_n (hid_set_next_idle now hs) = hs_n hs" "hs_queue (hid_set_next_idle now hs) = hs_queue hs"
    by (simp_all add: hid_set_next_idle_def hid_del_idle_timer_def)
  then show ?thesis using assms False
    by (cases "hs_kind hs") (simp_all add: hid_post_load_def Let_def hid_stream_ok_def hid_inv_def ptr_ok_def)
qed

lemma hid_step_inv: "hid_step env hw hw' \<Longrightarrow> hid_inv (fst hw) \<Longrightarrow> hid_inv (fst hw')"
proof (induction rule: hid_step.induct)
  case (step_key hw key down)
  then show ?case using keyboard_event_inv [of "fst hw" key down env "snd hw"] by (simp add: hid_inv_def)
next
  case (step_pointer hw e hw')
  then show ?case using pointer_event_spec [of "fst hw" e "snd hw"] by (auto simp: hid_inv_def)
next
  case (step_sync hw)
  obtain hs' w' where "hid_pointer_sync env hw = (hs', w')" by fastforce
  then show ?case using step_sync pointer_sync_spec [of "fst hw" env "snd hw" hs' w'] by (simp add: hid_inv_def)
next
  case (step_control now desc request val len data hw r hw')
  then show ?case using hid_control_ok [of hw env now desc request val len data] by auto
next
  case (step_data now token_in ep sz hw r hw')
  then show ?case using hid_data_ok [of hw env now token_in ep sz] by auto
next
  case (step_load stream hw now)
  then show ?case using hid_post_load_inv [of stream now] by simp
qed (simp_all add: hid_reset_inv usb_hid_handle_reset_def hid_idle_timer_def usb_ptr_post_load_def)

lemma hid_new_inv: "hid_inv (hid_new kind)"
  by (simp add: hid_inv_def hid_new_def kbd_ok_def ptr_ok_def pressed_def list_all_iff)

text \<open>
  C13. Whatever the input layer (key events whose scan codes are bytes, pointer events), the guest, the idle timer,
  resets and migration do to a device, where migration loads any stream that a well-formed device of its kind saves and also
  an old version's pointer queue of 16 events, its queues stay within their arrays and no assertion or abort of
  the source is reached: the next request of the guest and the next pointer event succeed.
\<close>

theorem hid_never_fails:
  assumes "(hid_step env)\<^sup>*\<^sup>* (hid_new kind, w0) (hs, w)"
  shows "hid_inv hs \<and> \<not> isl (usb_hid_handle_data env now token_in ep sz (hs, w))
    \<and> \<not> isl (usb_hid_handle_control env now desc request val len data (hs, w))
    \<and> (hs_kind hs = HID_KEYBOARD \<or> hs_kind hs \<noteq> HID_KEYBOARD \<and> \<not> isl (hid_pointer_event e (hs, w)))"
proof -
  have "hid_inv (fst hw)" if "(hid_step env)\<^sup>*\<^sup>* (hid_new kind, w0) hw" for hw
    using that by (induction rule: rtranclp_induct) (simp_all add: hid_new_inv hid_step_inv)
  from this [OF assms] have i: "hid_inv hs" by simp
  then have "hs_kind hs \<noteq> HID_KEYBOARD \<Longrightarrow> \<not> isl (hid_pointer_event e (hs, w))"
    using pointer_event_spec [of hs e w] by (auto simp: hid_inv_def)
  with i hid_data_ok [of "(hs, w)" env now token_in ep sz] hid_control_ok [of "(hs, w)" env now desc request val len data]
  show ?thesis by auto
qed

section \<open>Examples\<close>

definition quiet_hid :: "unit hid_env" where
  "quiet_hid = \<lparr>hid_event = id, hid_activate = id\<rparr>"

definition moved :: HIDState where
  "moved = fst (projr (hid_pointer_event (INPUT_EVENT_KIND_REL INPUT_AXIS_X 300) (hid_new HID_MOUSE, ())))"

definition clicked :: HIDState where
  "clicked = fst (hid_pointer_sync quiet_hid (projr (hid_pointer_event (INPUT_EVENT_KIND_BTN INPUT_BUTTON_RIGHT True) (moved, ()))))"

lemma clicked_trace:
  "ptr_trace quiet_hid (hid_new HID_MOUSE, ())
     [Ev (INPUT_EVENT_KIND_REL INPUT_AXIS_X 300), Ev (INPUT_EVENT_KIND_BTN INPUT_BUTTON_RIGHT True), Sync] [] (clicked, ())"
proof -
  let ?m = "INPUT_EVENT_KIND_REL INPUT_AXIS_X 300" and ?e = "INPUT_EVENT_KIND_BTN INPUT_BUTTON_RIGHT True"
  have m: "hid_pointer_event ?m (hid_new HID_MOUSE, ()) = Inr (moved, ())" "hs_n moved = 0"
    by (simp_all add: moved_def hid_pointer_event_def hid_new_def)
  then obtain h where h: "hid_pointer_event ?e (moved, ()) = Inr (h, ())" "hs_n h = 0"
    by (auto simp: hid_pointer_event_def Let_def)
  have "ptr_trace quiet_hid (hid_new HID_MOUSE, ()) (([] @ [Ev ?m]) @ [Ev ?e]) [] (h, ())"
    by (rule trace_event [OF trace_event [OF trace_start m(1)] h(1)])
  from trace_sync [OF this] h(2) have "ptr_trace quiet_hid (hid_new HID_MOUSE, ()) [Ev ?m, Ev ?e, Sync] [] (hid_pointer_sync quiet_hid (h, ()))"
    by simp
  moreover have "hid_pointer_sync quiet_hid (h, ()) = (clicked, ())" by (simp add: clicked_def h prod_eq_iff)
  ultimately show ?thesis by simp
qed

lemma clicked_buttons: "map pe_buttons (visible clicked) = [2]"
  by code_simp

theorem button_changes_reported_witness:
  "remdups_adj (0 # map (\<lambda>e. word_of_int (pe_buttons e)) (visible clicked)) = [0, 2 :: u8]
    \<and> map pe_buttons (visible clicked) = [2]"
  using button_changes_reported [OF clicked_trace, of "INPUT_EVENT_KIND_KEY (KEY_VALUE_KIND_NUMBER 1) True"] clicked_buttons
  by (simp add: button_log_def)

theorem mouse_motion_conserved_witness:
  "pending_motion pe_xdx clicked = 300 \<and> pending_motion pe_ydy clicked = 0"
  using mouse_motion_conserved [OF clicked_trace] by simp

theorem keyboard_event_reflected_witness:
  "\<exists>hs1 hs2 hs'. hid_keyboard_event quiet_hid (KEY_VALUE_KIND_NUMBER 0x2a) True (hid_new HID_KEYBOARD, ()) = (hs1, ())
    \<and> hid_keyboard_event quiet_hid (KEY_VALUE_KIND_NUMBER 0xc8) True (hs1, ()) = (hs2, ())
    \<and> process_all (hs_n hs2) hs2 = Inr hs' \<and> pressed hs' = {0x52} \<and> hs_modifiers hs' = 2 \<and> hs_n hs2 = 3"
proof -
  have k: "kbd_ok (hid_new HID_KEYBOARD)" using hid_new_inv [of HID_KEYBOARD] by (simp add: hid_inv_def hid_new_def)
  have z: "hs_n (hid_new HID_KEYBOARD) = 0" "hs_modifiers (hid_new HID_KEYBOARD) = 0" "hs_keys (hid_new HID_KEYBOARD) = 0"
    "pressed (hid_new HID_KEYBOARD) = {}" by (simp_all add: hid_new_def pressed_def)
  have u: "hid_usage_keys ! nat 0xc8 = 0x52" by code_simp
  let ?s = "KEY_VALUE_KIND_NUMBER 0x2a" and ?u = "KEY_VALUE_KIND_NUMBER 0xc8"
  define hs1 where "hs1 = fst (hid_keyboard_event quiet_hid ?s True (hid_new HID_KEYBOARD, ()))"
  have c: "qemu_input_key_value_to_scancode ?s True = [0x2a]" "qemu_input_key_value_to_scancode ?u True = [0xe0, 0x48]" by code_simp+
  have e1: "hid_keyboard_event quiet_hid ?s True (hid_new HID_KEYBOARD, ()) = (hs1, ())" by (simp add: hs1_def prod_eq_iff)
  have n: "hs_n hs1 = 1" using z by (simp add: hs1_def keyboard_event_puts c put_code_def)
  have ok: "kbd_ok hs1" unfolding hs1_def by (rule keyboard_event_inv(1)) (simp_all add: k c)
  have u2: "hid_usage_keys ! nat 0x2a = 0xe1" by code_simp
  from keyboard_event_reflected [OF k, of "hid_new HID_KEYBOARD" "0x2a" "0xe1" quiet_hid True "()"] e1 z(1-3) u2 obtain g where
    g: "process_all (hs_n hs1) hs1 = Inr g" "pressed g = {}" "hs_modifiers g = 2" "hs_n g = 0" "kbd_ok g"
    by (auto simp: z(4))
  have keys: "hs_keys g < 16" using g(2,5) by (cases "hs_keys g") (auto simp: pressed_def kbd_ok_def)
  from keyboard_event_reflected [OF ok g(1), of "0xc8" "0x52" quiet_hid True "()"] obtain hs2 hs' where
    r: "hid_keyboard_event quiet_hid ?u True (hs1, ()) = (hs2, ())" "process_all (hs_n hs2) hs2 = Inr hs'" "pressed hs' = {0x52}" "hs_modifiers hs' = 2"
    unfolding u using n g(2,3) keys by (auto simp: quiet_hid_def)
  have "hs_n hs2 = 3" using r(1) n by (simp add: keyboard_event_puts c fold_put_n split: if_splits) (auto simp: put_code_def)
  with e1 r show ?thesis by blast
qed

theorem descriptors_match_reports_witness:
  "\<exists>buf hw'. hid_poll quiet_hid 8 (hid_new HID_TABLET, ()) = Inr (buf, hw') \<and> 8 * length buf = 48"
proof -
  have "hs_kind (hid_new HID_TABLET) = HID_TABLET" by (simp add: hid_new_def)
  then show ?thesis
    using descriptors_match_reports [OF hid_new_inv, of quiet_hid HID_TABLET "()"] by (auto simp: desc_iface_def descriptor_bits)
qed

text \<open>A tablet as an old version could save it: all sixteen places hold events.\<close>

definition full_tablet :: HIDState where
  "full_tablet = (hid_new HID_TABLET)\<lparr>hs_head := 3, hs_n := 16\<rparr>"

theorem hid_never_fails_witness:
  "hid_inv (hid_post_load 0 full_tablet) \<and> hs_n (hid_post_load 0 full_tablet) = 1
    \<and> \<not> isl (usb_hid_handle_data quiet_hid 0 True 1 8 (hid_post_load 0 full_tablet, ()))"
proof -
  have "hid_step quiet_hid (hid_new HID_TABLET, ()) (hid_post_load 0 full_tablet, ())"
    using step_load [of full_tablet "(hid_new HID_TABLET, ())" quiet_hid 0]
    by (simp add: full_tablet_def hid_stream_ok_def hid_new_def)
  then have r: "(hid_step quiet_hid)\<^sup>*\<^sup>* (hid_new HID_TABLET, ()) (hid_post_load 0 full_tablet, ())" by (rule r_into_rtranclp)
  have "hs_n (hid_post_load 0 full_tablet) = 1"
    by (simp add: hid_post_load_def full_tablet_def hid_set_next_idle_def hid_del_idle_timer_def hid_new_def)
  with hid_never_fails [OF r, of 0 True 1 8 None 0 0 0 "[]" "INPUT_EVENT_KIND_KEY (KEY_VALUE_KIND_NUMBER 1) True"] show ?thesis by simp
qed

end
