(* ===== verification/Tablet_Path.thy ===== *)
theory Tablet_Path
  imports Usb_Hid Web_Input
begin

text \<open>
  From the SDL window to the USB tablet: how the input layer hands the events of one mouse message to the tablet's handler
  and what the guest then reads from the device.
\<close>

section \<open>A burst of events for one handler\<close>

definition bump :: "int \<Rightarrow> nat \<Rightarrow> 'd QemuInputHandlerState \<Rightarrow> 'd QemuInputHandlerState" where
  "bump i n t = (if h_id t = i then t\<lparr>h_events := h_events t + int n\<rparr> else t)"

lemma bump_simps [simp]:
  "h_id (bump i n t) = h_id t" "h_con (bump i n t) = h_con t" "handler (bump i n t) = handler t" "takes m (bump i n t) = takes m t"
  "bump i k (bump i n t) = bump i (n + k) t" "bump i 0 = id"
  by (auto simp: bump_def takes_def fun_eq_iff)

lemma find_map_same: "(\<And>x. P (f x) = P x) \<Longrightarrow> find P (map f xs) = map_option f (find P xs)"
  by (induction xs) auto

lemma find_handler_bump:
  "qemu_input_find_handler m src (st\<lparr>handlers := map (bump i n) (handlers st)\<rparr>) =
     map_option (bump i n) (qemu_input_find_handler m src st)"
  by (simp add: qemu_input_find_handler_def find_map_same split: option.split)

lemma find_handler_devs [simp]: "qemu_input_find_handler m src (st\<lparr>devs := d\<rparr>) = qemu_input_find_handler m src st"
  by (simp add: qemu_input_find_handler_def split: option.split)

text \<open>The handler that takes events of this kind is \<open>s\<close>.\<close>

definition goes_to :: "console option \<Rightarrow> 'd input \<Rightarrow> 'd QemuInputHandlerState \<Rightarrow> InputEvent \<Rightarrow> bool" where
  "goes_to src st s e \<longleftrightarrow> qemu_input_find_handler (push_bit (event_kind e) 1) src st = Some s"

lemma send_burst:
  assumes "accepting st" "graphic_rotate st = 0" "list_all (goes_to src st s) es"
  shows "fold (qemu_input_event_send src) es st =
    st\<lparr>devs := fold (h_event (handler s) src) es (devs st), handlers := map (bump (h_id s) (length es)) (handlers st)\<rparr>"
  using assms
proof (induction es rule: rev_induct)
  case (snoc e es)
  let ?st = "st\<lparr>devs := fold (h_event (handler s) src) es (devs st), handlers := map (bump (h_id s) (length es)) (handlers st)\<rparr>"
  have "qemu_input_find_handler (push_bit (event_kind e) 1) src ?st = Some (bump (h_id s) (length es) s)"
    using snoc.prems(3) find_handler_bump [where st = "st\<lparr>devs := fold (h_event (handler s) src) es (devs st)\<rparr>"]
    by (simp add: goes_to_def)
  moreover have b: "(\<lambda>t. if h_id t = h_id s then t\<lparr>h_events := h_events t + 1\<rparr> else t) = bump (h_id s) 1"
    by (auto simp: bump_def fun_eq_iff)
  ultimately have "qemu_input_event_send src e ?st =
      ?st\<lparr>devs := h_event (handler s) src e (devs ?st), handlers := map (bump (h_id s) 1) (handlers ?st)\<rparr>"
    using snoc.prems(1,2) by (simp add: qemu_input_event_send_def b)
  then show ?case using snoc by (simp add: comp_def)
qed simp

lemma is_absolute_burst [simp]:
  "qemu_input_is_absolute (st\<lparr>devs := d, handlers := map (bump i n) (handlers st)\<rparr>) = qemu_input_is_absolute st"
  using find_handler_bump [where st = "st\<lparr>devs := d\<rparr>"]
  by (simp add: qemu_input_is_absolute_def option.case_eq_if map_option_case)

lemma sync_burst:
  assumes "distinct (map h_id (handlers st))" "list_all (\<lambda>t. h_events t = 0) (handlers st)" "s \<in> set (handlers st)" "0 < n" "accepting st"
  shows "qemu_input_event_sync (st\<lparr>devs := d, handlers := map (bump (h_id s) n) (handlers st)\<rparr>) =
    st\<lparr>devs := case h_sync (handler s) of Some f \<Rightarrow> f d | None \<Rightarrow> d\<rparr>"
proof -
  from assms(3) obtain as bs where ab: "handlers st = as @ s # bs" by (meson split_list)
  then have out: "h_id t \<noteq> h_id s" if "t \<in> set as \<union> set bs" for t using assms(1) that by (auto simp: image_iff)
  have quiet: "fold sync_handler (map (bump (h_id s) n) ts) x = x" if "set ts \<subseteq> set as \<union> set bs" for ts x
    using that
  proof (induction ts arbitrary: x)
    case (Cons t ts)
    then have "h_events (bump (h_id s) n t) = 0" using out [of t] assms(2) ab by (auto simp: bump_def list_all_iff)
    then show ?case using Cons by (simp add: sync_handler_def)
  qed simp
  have "h_events (bump (h_id s) n s) \<noteq> 0" using assms(2,4) ab by (simp add: bump_def)
  then have "sync_handler (bump (h_id s) n s) x = (case h_sync (handler s) of Some f \<Rightarrow> f x | None \<Rightarrow> x)" for x
    by (simp add: sync_handler_def)
  moreover have "map (\<lambda>t. t\<lparr>h_events := 0\<rparr>) (map (bump (h_id s) n) (handlers st)) = handlers st"
    using assms(2) by (auto simp: list_all_iff bump_def intro!: map_idI)
  ultimately show ?thesis using assms(5) quiet [of as] quiet [of bs] by (simp add: qemu_input_event_sync_def ab)
qed

section \<open>The tablet gets a mouse message\<close>

lemma pointer_events_spec:
  assumes "ptr_ok hs"
  shows "\<exists>hs'. fold (\<lambda>e d. bindE d (hid_pointer_event e)) es (Inr (hs, w)) = Inr (hs', w) \<and> ptr_ok hs' \<and> hs_kind hs' = hs_kind hs
    \<and> visible hs' = visible hs \<and> collected hs' = fold pointer_apply es (collected hs) \<and> hs_grabbed hs' = hs_grabbed hs"
  using assms
proof (induction es arbitrary: hs)
  case (Cons e es)
  from pointer_event_spec [OF Cons.prems, of e w] obtain h1 where h1: "hid_pointer_event e (hs, w) = Inr (h1, w)" "ptr_ok h1"
    "hs_kind h1 = hs_kind hs" "visible h1 = visible hs" "collected h1 = pointer_apply e (collected hs)" "hs_grabbed h1 = hs_grabbed hs" by blast
  from Cons.IH [OF h1(2)] h1 show ?case by simp
qed simp

text \<open>The buttons of the window's mouse state as the tablet numbers them.\<close>

definition tablet_buttons :: "u32 \<Rightarrow> int" where
  "tablet_buttons s = (if bit s 0 then 1 else 0) OR (if bit s 2 then 2 else 0) OR (if bit s 1 then 4 else 0)"

definition button_events :: "u32 \<Rightarrow> u32 \<Rightarrow> InputEvent list" where
  "button_events old new = map (\<lambda>b. INPUT_EVENT_KIND_BTN b (new AND sdl_bmap b \<noteq> 0))
     (filter (\<lambda>b. old AND sdl_bmap b \<noteq> new AND sdl_bmap b) InputButton_all)"

lemma button_events_checked:
  "list_all (\<lambda>old. list_all (\<lambda>new. fold held_after (button_events old new) (tablet_buttons old) = tablet_buttons new
     \<and> list_all (\<lambda>e. case e of INPUT_EVENT_KIND_BTN b _ \<Rightarrow> b \<in> {INPUT_BUTTON_LEFT, INPUT_BUTTON_MIDDLE, INPUT_BUTTON_RIGHT} | _ \<Rightarrow> False) (button_events old new))
     [0, 1, 2, 3, 4, 5, 6, 7]) [0, 1, 2, 3, 4, 5, 6, 7]"
  by code_simp

lemma below_8: "(s :: u32) < 8 \<Longrightarrow> s \<in> set [0, 1, 2, 3, 4, 5, 6, 7]"
proof -
  assume "s < 8"
  then have "unat s < 8" by (simp add: word_less_nat_alt)
  then have "unat s \<in> {0, 1, 2, 3, 4, 5, 6, 7}" by auto
  then have "of_nat (unat s) \<in> (of_nat ` {0, 1, 2, 3, 4, 5, 6, 7} :: u32 set)" by (rule imageI)
  then show ?thesis by simp
qed

lemma button_events_effect:
  assumes "old < 8" "new < 8" "pe_buttons c = tablet_buttons old"
  shows "fold pointer_apply (button_events old new) c = c\<lparr>pe_buttons := tablet_buttons new\<rparr>"
proof -
  have ch: "fold held_after (button_events old new) (tablet_buttons old) = tablet_buttons new"
    "list_all (\<lambda>e. case e of INPUT_EVENT_KIND_BTN b _ \<Rightarrow> b \<in> {INPUT_BUTTON_LEFT, INPUT_BUTTON_MIDDLE, INPUT_BUTTON_RIGHT} | _ \<Rightarrow> False) (button_events old new)"
    using button_events_checked below_8 [OF assms(1)] below_8 [OF assms(2)] unfolding list_all_iff [of _ "[0, 1, 2, 3, 4, 5, 6, 7]"] by blast+
  have "fold pointer_apply es c = c\<lparr>pe_buttons := fold held_after es (pe_buttons c)\<rparr>"
    if "list_all (\<lambda>e. case e of INPUT_EVENT_KIND_BTN b _ \<Rightarrow> b \<in> {INPUT_BUTTON_LEFT, INPUT_BUTTON_MIDDLE, INPUT_BUTTON_RIGHT} | _ \<Rightarrow> False) es"
    for es c
    using that by (induction es arbitrary: c) (auto simp: Let_def split: InputEvent.splits)
  from this [OF ch(2)] ch(1) assms(3) show ?thesis by simp
qed

text \<open>The window's mouse events go to the tablet, whose reports the guest has fetched so far, and the tablet knows the buttons
  that the window last reported.\<close>

definition tablet_listens :: "'w hid_env \<Rightarrow> (c_fault + HIDState \<times> 'w) sdl \<Rightarrow> bool" where
  "tablet_listens env st \<longleftrightarrow> accepting (inp st) \<and> graphic_rotate (inp st) = 0 \<and> distinct (map h_id (handlers (inp st)))
     \<and> list_all (\<lambda>t. h_events t = 0) (handlers (inp st)) \<and> qemu_input_is_absolute (inp st)
     \<and> (case qemu_input_find_handler INPUT_EVENT_MASK_BTN (con st) (inp st) of None \<Rightarrow> False
        | Some s \<Rightarrow> handler s = hid_tablet_handler env \<and> qemu_input_find_handler INPUT_EVENT_MASK_ABS (con st) (inp st) = Some s)"

definition tablet_idle :: "HIDState \<Rightarrow> u32 \<Rightarrow> bool" where
  "tablet_idle hs buttons \<longleftrightarrow> ptr_ok hs \<and> hs_kind hs = HID_TABLET \<and> hs_grabbed hs \<and> visible hs = [] \<and> buttons < 8
     \<and> pe_dz (collected hs) = 0 \<and> pe_buttons (collected hs) = tablet_buttons buttons"

lemma with_id_member: "distinct (map h_id hs) \<Longrightarrow> t \<in> set hs \<Longrightarrow> with_id (h_id t) hs = [t]"
  unfolding with_id_def by (induction hs) (auto simp: filter_empty_conv image_iff)

text \<open>The guest's first read activates the tablet's handler, and this is all it takes, whatever other devices there are.\<close>

theorem activated_tablet_listens:
  assumes "distinct (map h_id (handlers i))" "t \<in> set (handlers i)" "handler t = hid_tablet_handler env"
    and "list_all (\<lambda>s. h_con s = None \<and> h_events s = 0) (handlers i)" "accepting i" "graphic_rotate i = 0"
  shows "tablet_listens env (st\<lparr>inp := qemu_input_handler_activate (h_id t) i\<rparr>)"
proof -
  have t: "with_id (h_id t) (handlers i) = [t]" using assms(1,2) by (rule with_id_member)
  have h: "handlers (qemu_input_handler_activate (h_id t) i) = t # without_id (h_id t) (handlers i)"
    by (simp add: qemu_input_handler_activate_def t)
  have "set (without_id (h_id t) (handlers i)) \<subseteq> set (handlers i)" by (auto simp: without_id_def)
  then have free: "list_all (\<lambda>s. h_con s = None \<and> h_events s = 0) (t # without_id (h_id t) (handlers i))"
    using assms(2,4) by (auto simp: list_all_iff)
  have first: "qemu_input_find_handler m src (qemu_input_handler_activate (h_id t) i) = Some t" if "takes m t" for m src
  proof -
    have "find (\<lambda>s. \<not> (h_con s = None \<or> h_con s \<noteq> src) \<and> takes m s) (t # without_id (h_id t) (handlers i)) = None"
      using free by (auto simp: find_None_iff list_all_iff)
    then show ?thesis using that free by (simp add: qemu_input_find_handler_def h)
  qed
  have m: "takes 2 t" "takes 8 t" "takes 12 t" by (simp_all add: takes_def assms(3) hid_tablet_handler_def)
  have "distinct (map h_id (t # without_id (h_id t) (handlers i)))"
    using assms(1) by (auto simp: without_id_def distinct_map_filter)
  moreover have "accepting (qemu_input_handler_activate (h_id t) i)" "graphic_rotate (qemu_input_handler_activate (h_id t) i) = 0"
    using assms(5,6) by (simp_all add: qemu_input_handler_activate_def qemu_input_check_mode_change_def notifier_list_notify_def Let_def)
  ultimately show ?thesis
    using free m assms(3) by (simp add: tablet_listens_def h first qemu_input_is_absolute_def list_all_iff) (simp add: hid_tablet_handler_def)
qed

lemma find_handler_in: "qemu_input_find_handler m src st = Some s \<Longrightarrow> s \<in> set (handlers st)"
  by (auto simp: qemu_input_find_handler_def find_Some_iff split: option.splits)

definition abs_events :: "int \<Rightarrow> int \<Rightarrow> 'd sdl \<Rightarrow> InputEvent list" where
  "abs_events x y st = [INPUT_EVENT_KIND_ABS INPUT_AXIS_X (qemu_input_scale_axis x (sf_w (real_screen st)) INPUT_EVENT_ABS_SIZE),
     INPUT_EVENT_KIND_ABS INPUT_AXIS_Y (qemu_input_scale_axis y (sf_h (real_screen st)) INPUT_EVENT_ABS_SIZE)]"

lemma send_mouse_event_absolute:
  assumes "qemu_input_is_absolute (fold (qemu_input_event_send (con st)) (button_events (prev_state st) state) (inp st))"
  shows "sdl_send_mouse_event dx dy x y state st = st\<lparr>inp := qemu_input_event_sync (fold (qemu_input_event_send (con st))
    (button_events (prev_state st) state @ abs_events x y st) (inp st)), prev_state := state\<rparr>"
proof -
  have u: "qemu_input_update_buttons src sdl_bmap (prev_state st) state i = fold (qemu_input_event_send src) (button_events (prev_state st) state) i"
    for src i by (simp add: update_buttons_sends_changes button_events_def fold_map comp_def)
  have "button_events s s = []" for s by (simp add: button_events_def)
  then have "(if prev_state st \<noteq> state then (with_inp (qemu_input_update_buttons (con st) sdl_bmap (prev_state st) state) st)\<lparr>prev_state := state\<rparr> else st)
      = st\<lparr>inp := fold (qemu_input_event_send (con st)) (button_events (prev_state st) state) (inp st), prev_state := state\<rparr>"
    by (cases "prev_state st = state") (simp_all add: u with_inp_def)
  then show ?thesis
    using assms unfolding sdl_send_mouse_event_def by (simp add: absolute_def with_inp_def qemu_input_queue_abs_def abs_events_def)
qed

lemma tablet_gets_mouse:
  assumes "tablet_listens env st" "devs (inp st) = Inr (hs, w)" "tablet_idle hs (prev_state st)" "state < 8"
  shows "\<exists>hs'. sdl_send_mouse_event dx dy x y state st = st\<lparr>inp := (inp st)\<lparr>devs := Inr (hs', hid_event env w)\<rparr>, prev_state := state\<rparr>
    \<and> ptr_ok hs' \<and> hs_kind hs' = HID_TABLET \<and> hs_grabbed hs' \<and> collected hs' = hd (visible hs')
    \<and> visible hs' = [\<lparr>pe_xdx = qemu_input_scale_axis x (sf_w (real_screen st)) INPUT_EVENT_ABS_SIZE,
        pe_ydy = qemu_input_scale_axis y (sf_h (real_screen st)) INPUT_EVENT_ABS_SIZE, pe_dz = 0, pe_buttons = tablet_buttons state\<rparr>]"
proof -
  let ?src = "con st" and ?bs = "button_events (prev_state st) state" and ?as = "abs_events x y st"
  from assms(1) obtain s where s: "qemu_input_find_handler INPUT_EVENT_MASK_BTN ?src (inp st) = Some s" "handler s = hid_tablet_handler env"
    "qemu_input_find_handler INPUT_EVENT_MASK_ABS ?src (inp st) = Some s" and l: "accepting (inp st)" "graphic_rotate (inp st) = 0"
    "distinct (map h_id (handlers (inp st)))" "list_all (\<lambda>t. h_events t = 0) (handlers (inp st))" "qemu_input_is_absolute (inp st)"
    by (auto simp: tablet_listens_def split: option.splits)
  have g: "list_all (goes_to ?src (inp st) s) ?bs" "list_all (goes_to ?src (inp st) s) (?bs @ ?as)"
    using s(1,3) by (auto simp: list_all_iff button_events_def abs_events_def goes_to_def)
  have "qemu_input_is_absolute (fold (qemu_input_event_send ?src) ?bs (inp st))"
    unfolding send_burst [OF l(1,2) g(1)] using l(5) by simp
  note send = send_mouse_event_absolute [OF this, of dx dy x y]
  have "0 < length (?bs @ ?as)" by (simp add: abs_events_def)
  note sync = sync_burst [OF l(3,4) find_handler_in [OF s(1)] this l(1)]
  have idle: "ptr_ok hs" "hs_kind hs = HID_TABLET" "hs_grabbed hs" "visible hs = []" "prev_state st < 8" "pe_dz (collected hs) = 0"
    "pe_buttons (collected hs) = tablet_buttons (prev_state st)" using assms(3) by (simp_all add: tablet_idle_def)
  from pointer_events_spec [OF idle(1), of "?bs @ ?as" w] obtain h1 where
    h1: "fold (\<lambda>e d. bindE d (hid_pointer_event e)) (?bs @ ?as) (Inr (hs, w)) = Inr (h1, w)" "ptr_ok h1" "hs_kind h1 = HID_TABLET"
      "visible h1 = []" "collected h1 = fold pointer_apply ?as ((collected hs)\<lparr>pe_buttons := tablet_buttons state\<rparr>)" "hs_grabbed h1"
    using idle button_events_effect [OF idle(5) assms(4) idle(7)] by auto
  obtain h2 w2 where h2: "hid_pointer_sync env (h1, w) = (h2, w2)" by fastforce
  note p = pointer_sync_spec [OF h1(2) h2]
  have c: "collected h1 = \<lparr>pe_xdx = qemu_input_scale_axis x (sf_w (real_screen st)) INPUT_EVENT_ABS_SIZE,
        pe_ydy = qemu_input_scale_axis y (sf_h (real_screen st)) INPUT_EVENT_ABS_SIZE, pe_dz = 0, pe_buttons = tablet_buttons state\<rparr>"
    unfolding h1(5) abs_events_def using idle(6) by simp
  have v: "visible h2 = [collected h1]" "collected h2 = collected h1"
    using p(3) unfolding h1(3,4) by (simp_all add: sync_spec_def pe_rest_def c)
  then have "hs_n h2 = 1" "hs_n h1 = 0" using h1(4) by (metis length_visible list.size(3) length_Cons One_nat_def)+
  then have "w2 = hid_event env w" using p(4) by simp
  moreover have "fold (h_event (hid_tablet_handler env) ?src) (?bs @ ?as) (devs (inp st)) = Inr (h1, w)"
    using h1(1) by (simp add: hid_tablet_handler_def assms(2))
  ultimately have "sdl_send_mouse_event dx dy x y state st = st\<lparr>inp := (inp st)\<lparr>devs := Inr (h2, hid_event env w)\<rparr>, prev_state := state\<rparr>"
    unfolding send send_burst [OF l(1,2) g(2)] sync unfolding s(2) by (simp add: hid_tablet_handler_def h2)
  then show ?thesis using p(1,2,5) h1(3,6) v c by auto
qed

section \<open>The guest reads the report\<close>

text \<open>The guest's read from the tablet's endpoint, with the device inside the window's input layer.\<close>

definition fetch_report ::
  "'w hid_env \<Rightarrow> int \<Rightarrow> (c_fault + HIDState \<times> 'w) sdl \<Rightarrow> c_fault + usb_reply \<times> (c_fault + HIDState \<times> 'w) sdl" where
  "fetch_report env now st = bindE (devs (inp st)) (\<lambda>hw. bindE (usb_hid_handle_data env now True 1 8 hw)
     (\<lambda>(r, hw'). Inr (r, st\<lparr>inp := (inp st)\<lparr>devs := Inr hw'\<rparr>\<rparr>)))"

text \<open>The position on the screen that a coordinate of the tablet stands for, from its two bytes.\<close>

definition tablet_pixel :: "int \<Rightarrow> u8 \<Rightarrow> u8 \<Rightarrow> int" where
  "tablet_pixel extent lo hi = ((uint lo + 256 * uint hi) * (extent - 1) + 0x7ffe) div 0x7fff"

lemma ceiling_back:
  assumes "0 \<le> v" "0 < d" "d \<le> (m :: int)"
  shows "(v * m div d * d + (m - 1)) div m = v"
proof -
  let ?q = "v * m div d"
  have "?q * d \<le> v * m" "v * m - ?q * d < d" "0 < m"
    using assms unfolding minus_mod_eq_div_mult [symmetric] by (auto simp: pos_mod_bound)
  then have "v * m \<le> ?q * d + (m - 1)" "?q * d + (m - 1) < (v + 1) * m" using assms by (auto simp: algebra_simps)
  then show ?thesis by (intro int_div_pos_eq [where r = "?q * d + (m - 1) - m * v"]) (auto simp: algebra_simps)
qed

lemma scaled_range:
  assumes "0 \<le> v" "v < extent"
  shows "0 \<le> qemu_input_scale_axis v extent 0x8000 \<and> qemu_input_scale_axis v extent 0x8000 < 0x8000"
proof (cases "2 \<le> extent")
  case True
  then have "v * 0x7fff div (extent - 1) \<le> (extent - 1) * 0x7fff div (extent - 1)" using assms by (intro zdiv_mono1) auto
  also have "\<dots> = 0x7fff" using True by (intro nonzero_mult_div_cancel_left) auto
  finally show ?thesis using True assms by (simp add: scale_axis_div pos_imp_zdiv_nonneg_iff)
qed (use assms in \<open>simp add: qemu_input_scale_axis_def c_div_def\<close>)

lemma scaled_pixel:
  assumes "0 \<le> v" "v < extent" "extent \<le> 0x8000" "X = qemu_input_scale_axis v extent 0x8000"
  shows "tablet_pixel extent (word_of_int (X AND 0xff)) (word_of_int (drop_bit 8 X)) = v"
proof -
  have r: "0 \<le> X" "X < 0x8000" using scaled_range [OF assms(1,2)] assms(4) by simp_all
  have "X AND 0xff = X mod 256" using take_bit_eq_mask [of 8 X] by (simp add: take_bit_eq_mod mask_eq_exp_minus_1)
  moreover have "X div 256 < 256" "0 \<le> X div 256" using r by auto
  ultimately have "uint (word_of_int (X AND 0xff) :: u8) + 256 * uint (word_of_int (drop_bit 8 X) :: u8) = X"
    by (simp add: uint_word_of_int drop_bit_eq_div)
  moreover have "(X * (extent - 1) + 0x7ffe) div 0x7fff = v"
  proof (cases "2 \<le> extent")
    case True
    then show ?thesis using ceiling_back [of v "extent - 1" "0x7fff"] assms by (simp add: scale_axis_div)
  qed (use assms in \<open>auto simp: qemu_input_scale_axis_def c_div_def\<close>)
  ultimately show ?thesis by (simp add: tablet_pixel_def)
qed

lemma listens_frame [simp]: "tablet_listens env (st\<lparr>inp := (inp st)\<lparr>devs := d\<rparr>, prev_state := s\<rparr>) = tablet_listens env st"
  by (simp add: tablet_listens_def qemu_input_is_absolute_def cong: option.case_cong)

lemma idle_frame [simp]: "hid_pointer_activate env (hs, w) = (hs, w)" if "hs_grabbed hs"
  using that by (simp add: hid_pointer_activate_def)

text \<open>One mouse message and the guest's read of its report.\<close>

lemma mouse_report_fetched:
  assumes "tablet_listens env st" "devs (inp st) = Inr (hs, w)" "tablet_idle hs (prev_state st)" "state < 8"
    and "0 \<le> x" "x < sf_w (real_screen st)" "sf_w (real_screen st) \<le> 0x8000"
    and "0 \<le> y" "y < sf_h (real_screen st)" "sf_h (real_screen st) \<le> 0x8000"
  shows "\<exists>xl xh yl yh st' hs'. fetch_report env now (sdl_send_mouse_event dx dy x y state st) =
      Inr (Usb_Reply [word_of_int (tablet_buttons state), xl, xh, yl, yh, 0], st')
    \<and> tablet_pixel (sf_w (real_screen st)) xl xh = x \<and> tablet_pixel (sf_h (real_screen st)) yl yh = y
    \<and> tablet_listens env st' \<and> devs (inp st') = Inr (hs', hid_event env w) \<and> tablet_idle hs' (prev_state st')
    \<and> prev_state st' = state \<and> real_screen st' = real_screen st"
proof -
  let ?X = "qemu_input_scale_axis x (sf_w (real_screen st)) 0x8000" and ?Y = "qemu_input_scale_axis y (sf_h (real_screen st)) 0x8000"
  let ?e = "\<lparr>pe_xdx = ?X, pe_ydy = ?Y, pe_dz = 0, pe_buttons = tablet_buttons state\<rparr>"
  from tablet_gets_mouse [OF assms(1-4), of dx dy x y] obtain h1 where
    h1: "sdl_send_mouse_event dx dy x y state st = st\<lparr>inp := (inp st)\<lparr>devs := Inr (h1, hid_event env w)\<rparr>, prev_state := state\<rparr>"
      "ptr_ok h1" "hs_kind h1 = HID_TABLET" "hs_grabbed h1" "collected h1 = ?e" "visible h1 = [?e]" by auto
  define h2 where "h2 = hid_set_next_idle now h1"
  have h2: "ptr_ok h2" "visible h2 = [?e]" "hs_kind h2 = HID_TABLET" "collected h2 = ?e" "hs_grabbed h2"
    using h1 by (simp_all add: h2_def hid_set_next_idle_def hid_del_idle_timer_def)
  obtain buf h3 w3 where poll: "hid_pointer_poll env 8 (h2, hid_event env w) = (buf, h3, w3)" by (metis prod_cases3)
  note p = pointer_poll_spec [OF h2(1,2) poll]
  have g: "hs_grabbed h3" "w3 = hid_event env w"
    using poll h2(5) idle_frame [of "h2\<lparr>hs_idle_pending := False\<rparr>" env] by (auto simp: hid_pointer_poll_def Let_def split: if_splits)
  have buf: "buf = [word_of_int (tablet_buttons state), word_of_int (?X AND 0xff), word_of_int (drop_bit 8 ?X),
      word_of_int (?Y AND 0xff), word_of_int (drop_bit 8 ?Y), 0]"
    using p(4) by (simp add: h2(3) pe_report_def int_clamp_def)
  have "0 < hs_n h1" using h1(6) by (metis length_visible length_greater_0_conv list.distinct(1))
  then have "usb_hid_handle_data env now True 1 8 (h1, hid_event env w) = Inr (Usb_Reply buf, h3, w3)"
    using h1(3,4) h2(3) poll by (simp add: usb_hid_handle_data_def hid_has_events_def hid_poll_def h2_def [symmetric])
  then have f: "fetch_report env now (sdl_send_mouse_event dx dy x y state st) =
      Inr (Usb_Reply buf, st\<lparr>inp := (inp st)\<lparr>devs := Inr (h3, hid_event env w)\<rparr>, prev_state := state\<rparr>)"
    by (simp add: fetch_report_def h1(1) g(2))
  have "tablet_idle h3 state"
    using p(1-3,5) g(1) h2(3,4) assms(4) by (simp add: tablet_idle_def pe_done_def pe_left_def int_clamp_def)
  then show ?thesis
    unfolding f buf using scaled_pixel [OF assms(5-7) refl] scaled_pixel [OF assms(8-10) refl] assms(1) by auto
qed

section \<open>A run of mouse messages\<close>

text \<open>The browser's thread reads one line and the guest then fetches a report; the reports of a list of lines.\<close>

definition web_turn :: "'w hid_env \<Rightarrow> int \<Rightarrow> string \<Rightarrow> (c_fault + HIDState \<times> 'w) web
    \<Rightarrow> c_fault + usb_reply \<times> (c_fault + HIDState \<times> 'w) web" where
  "web_turn env now line w = bindE (web_event line w) (\<lambda>w1. bindE (fetch_report env now (window w1))
     (\<lambda>(r, st). Inr (r, w1\<lparr>window := st\<rparr>)))"

fun web_turns :: "'w hid_env \<Rightarrow> int \<Rightarrow> string list \<Rightarrow> (c_fault + HIDState \<times> 'w) web
    \<Rightarrow> c_fault + usb_reply list \<times> (c_fault + HIDState \<times> 'w) web" where
  "web_turns env now [] w = Inr ([], w)"
| "web_turns env now (l # ls) w = bindE (web_turn env now l w) (\<lambda>(r, w1). bindE (web_turns env now ls w1) (\<lambda>(rs, w2). Inr (r # rs, w2)))"

text \<open>The buttons and the point of the screen that a report shows.\<close>

fun read_report :: "SDL_Surface \<Rightarrow> usb_reply \<Rightarrow> (int \<times> int \<times> int) option" where
  "read_report scr (Usb_Reply [b, xl, xh, yl, yh, dz]) = Some (uint b, tablet_pixel (sf_w scr) xl xh, tablet_pixel (sf_h scr) yl yh)"
| "read_report scr _ = None"

text \<open>The point of the screen that a mouse message goes to: in Android mode the thread turns it back.\<close>

definition web_point :: "'d web \<Rightarrow> nat \<Rightarrow> nat \<Rightarrow> int \<times> int" where
  "web_point w x y = (if g_androidMode (globals w) then (int y, sf_h (real_screen (window w)) - int x) else (int x, int y))"

definition on_screen :: "SDL_Surface \<Rightarrow> int \<times> int \<Rightarrow> bool" where
  "on_screen scr = (\<lambda>(x, y). 0 \<le> x \<and> x < sf_w scr \<and> 0 \<le> y \<and> y < sf_h scr)"

text \<open>The thread's array (whose last byte is NUL, so that a line that arrives alone ends in it) and scale, a screen below 10000
  points in either direction, and behind the window a tablet that takes the pointer events and has no event queued.\<close>

definition tablet_web :: "'w hid_env \<Rightarrow> (c_fault + HIDState \<times> 'w) web \<Rightarrow> bool" where
  "tablet_web env w \<longleftrightarrow> length (rbuf w) = 100 \<and> rbuf w ! 99 = NUL
     \<and> g_scaleConstant_X (globals w) = 1 \<and> g_scaleConstant_Y (globals w) = 1 \<and> tablet_listens env (window w)
     \<and> (case devs (inp (window w)) of Inl _ \<Rightarrow> False | Inr hw \<Rightarrow> tablet_idle (fst hw) (prev_state (window w)))
     \<and> sf_w (real_screen (window w)) < 10000 \<and> sf_h (real_screen (window w)) < 10000"

lemma length_mouse_text: "x < 10000 \<Longrightarrow> y < 10000 \<Longrightarrow> state < 10 \<Longrightarrow> length (mouse_text x y state) < 100"
  using length_dec_of_nat [of x 3] length_dec_of_nat [of y 3] length_dec_of_nat [of state 0] length_dec_of_nat [of 0 0]
  by (simp add: mouse_text_def)

lemma tablet_buttons_byte: "uint (word_of_int (tablet_buttons s) :: u8) = tablet_buttons s"
  by (auto simp: tablet_buttons_def)

lemma mouse_turn:
  assumes "tablet_web env w" "on_screen (real_screen (window w)) (web_point w x y)" "state < 8"
  shows "\<exists>r w'. web_turn env now (mouse_text x y state) w = Inr (r, w') \<and> tablet_web env w' \<and> real_screen (window w') = real_screen (window w)
    \<and> globals w' = globals w
    \<and> read_report (real_screen (window w)) r = Some (tablet_buttons (word_of_nat state), web_point w x y)"
proof -
  let ?scr = "real_screen (window w)"
  have t: "length (rbuf w) = 100" "rbuf w ! 99 = NUL" "g_scaleConstant_X (globals w) = 1"
    "g_scaleConstant_Y (globals w) = 1" "tablet_listens env (window w)" "sf_w ?scr < 10000" "sf_h ?scr < 10000"
    using assms(1) by (simp_all add: tablet_web_def)
  obtain hs u where d: "devs (inp (window w)) = Inr (hs, u)" "tablet_idle hs (prev_state (window w))"
    using assms(1) by (auto simp: tablet_web_def split: sum.splits)
  obtain X Y where P: "web_point w x y = (X, Y)" by fastforce
  have r: "0 \<le> X" "X < sf_w ?scr" "0 \<le> Y" "Y < sf_h ?scr" using assms(2) by (simp_all add: P on_screen_def)
  have b: "x < 10000" "y < 10000" "state < 256" "state < 10" using r t(6,7) P assms(3) by (auto simp: web_point_def split: if_splits)
  from mouse_at_image [OF b(1-3) t(1-4) length_mouse_text [OF b(1,2,4)]] P obtain w1 where
    w1: "web_event (mouse_text x y state) w = Inr w1" "window w1 = sdl_send_mouse_event 0 0 X Y (word_of_nat state) (window w)"
      "globals w1 = globals w" "length (rbuf w1) = 100" "rbuf w1 ! 99 = NUL" by (auto simp: web_point_def split: if_splits)
  have s: "(word_of_nat state :: u32) < 8" using assms(3) by (simp add: word_less_nat_alt unat_of_nat)
  from mouse_report_fetched [OF t(5) d s, of X Y now 0 0] r t(6,7) obtain xl xh yl yh st' hs' where
    f: "fetch_report env now (window w1) = Inr (Usb_Reply [word_of_int (tablet_buttons (word_of_nat state)), xl, xh, yl, yh, 0], st')"
      "tablet_pixel (sf_w ?scr) xl xh = X" "tablet_pixel (sf_h ?scr) yl yh = Y" "tablet_listens env st'"
      "devs (inp st') = Inr (hs', hid_event env u)" "tablet_idle hs' (prev_state st')" "real_screen st' = ?scr"
    unfolding w1(2) by auto
  have "tablet_web env (w1\<lparr>window := st'\<rparr>)" using w1(3-5) f(4-7) t by (simp add: tablet_web_def)
  then show ?thesis using w1(1,3) f(1-3,7) by (simp add: web_turn_def tablet_buttons_byte P)
qed

lemma mouse_turns:
  assumes "tablet_web env w" "scr = real_screen (window w)"
    and "list_all (\<lambda>(x, y, s). on_screen scr (web_point w x y) \<and> s < 8) ps"
  shows "\<exists>rs w'. web_turns env now (map (\<lambda>(x, y, s). mouse_text x y s) ps) w = Inr (rs, w') \<and> tablet_web env w'
    \<and> map (read_report scr) rs = map (\<lambda>(x, y, s). Some (tablet_buttons (word_of_nat s), web_point w x y)) ps"
  using assms
proof (induction ps arbitrary: w)
  case (Cons p ps)
  obtain x y s where p: "p = (x, y, s)" by (metis prod_cases3)
  from mouse_turn [OF Cons.prems(1), of x y s now] Cons.prems(2,3) obtain r w1 where
    r: "web_turn env now (mouse_text x y s) w = Inr (r, w1)" "tablet_web env w1" "real_screen (window w1) = scr" "globals w1 = globals w"
      "read_report scr r = Some (tablet_buttons (word_of_nat s), web_point w x y)" by (auto simp: p)
  have w1: "web_point w1 a b = web_point w a b" for a b using r(3,4) Cons.prems(2) by (simp add: web_point_def)
  from Cons.IH [OF r(2)] r(3) Cons.prems(3) obtain rs w2 where
    "web_turns env now (map (\<lambda>(x, y, s). mouse_text x y s) ps) w1 = Inr (rs, w2)" "tablet_web env w2"
    "map (read_report scr) rs = map (\<lambda>(x, y, s). Some (tablet_buttons (word_of_nat s), web_point w x y)) ps" by (auto simp: p w1)
  then show ?case using r by (simp add: p)
qed simp

subsection \<open>Example\<close>

text \<open>A window before a tablet that the guest has polled, on a screen of 800 by 600 points.\<close>

definition plain_hid :: "nat hid_env" where
  "plain_hid = \<lparr>hid_event = Suc, hid_activate = id\<rparr>"

definition tablet_input :: "(c_fault + HIDState \<times> nat) input" where
  "tablet_input = (snd (hid_init plain_hid HID_TABLET \<lparr>handlers = [], next_id = 1, mouse_mode_notifiers = [], current_is_absolute = False,
     kbd_queue = [], kbd_timer = None, devs = Inr ((hid_new HID_TABLET)\<lparr>hs_grabbed := True\<rparr>, 0), accepting = True, graphic_rotate = 0,
     clock_ms = 0\<rparr>))"

definition sample_web :: "(c_fault + HIDState \<times> nat) web" where
  "sample_web = \<lparr>window = (window_init tablet_input)\<lparr>real_screen := \<lparr>sf_w = 800, sf_h = 600, sf_pitch = 3200, sf_pixels = []\<rparr>\<rparr>,
     globals = qemu_globals_init\<lparr>g_scaleConstant_X := 1, g_scaleConstant_Y := 1\<rparr>, km = Make_keymap (replicate 250 0), rbuf = replicate 100 NUL\<rparr>"

lemma sample_web_ok: "tablet_web plain_hid sample_web"
proof -
  have i: "handlers tablet_input = [\<lparr>handler = hid_tablet_handler plain_hid, h_id = 1, h_events = 0, h_con = None\<rparr>]"
    "devs tablet_input = Inr ((hid_new HID_TABLET)\<lparr>hs_grabbed := True\<rparr>, 0)" "accepting tablet_input" "graphic_rotate tablet_input = 0"
    by (simp_all add: tablet_input_def hid_init_def qemu_input_handler_register_def qemu_input_check_mode_change_def notifier_list_notify_def
        Let_def hid_new_def)
  have m: "h_mask (hid_tablet_handler plain_hid) = 10" by (simp add: hid_tablet_handler_def)
  have "tablet_listens plain_hid (window sample_web)"
    by (simp add: tablet_listens_def sample_web_def window_init_def i m qemu_input_is_absolute_def qemu_input_find_handler_def takes_def)
  moreover have "hs_kind (hid_new HID_TABLET) = HID_TABLET" "ptr_ok (hid_new HID_TABLET)" by (simp_all add: hid_new_def ptr_ok_def)
  then have "tablet_idle ((hid_new HID_TABLET)\<lparr>hs_grabbed := True\<rparr>) 0"
    by (simp add: tablet_idle_def new_queue zero_event_def tablet_buttons_def)
  ultimately show ?thesis by (simp add: tablet_web_def i sample_web_def window_init_def qemu_globals_init_def)
qed

end
