(* ===== verification/Js_Numbers.thy ===== *)
theory Js_Numbers
  imports C_Library
begin

text \<open>
  The numbers and typed arrays of JavaScript, as far as the page's video player (src/WebServer/public/lib/jsmpg.js) uses
  them.  The player's numbers are integers far below \<open>2 ^ 53\<close>, which a double holds exactly, so a number is an integer; what
  reading past the end of an array gives (\<^verbatim>\<open>undefined\<close>, and \<^verbatim>\<open>NaN\<close> once calculated with) is \<open>None\<close>.  The bit operators convert
  their operands to signed 32-bit integers first; \<^verbatim>\<open>NaN\<close> and \<^verbatim>\<open>undefined\<close> become 0.  A \<^verbatim>\<open>Uint8Array\<close> or
  \<^verbatim>\<open>Uint8ClampedArray\<close> is a list of bytes, an \<^verbatim>\<open>Int32Array\<close> a list of integers into which values are converted;
  a write past the end of a typed array has no effect.
\<close>

type_synonym number = "int option"

text \<open>The conversion \<^verbatim>\<open>ToInt32\<close> in front of every bit operator.\<close>

definition int32 :: "number \<Rightarrow> int" where
  "int32 x = (case x of None \<Rightarrow> 0 | Some n \<Rightarrow> to_int32 n)"

definition shl :: "int \<Rightarrow> int \<Rightarrow> int" where
  "shl x n = to_int32 (push_bit (nat (n mod 32)) (to_int32 x))"

definition shr :: "int \<Rightarrow> int \<Rightarrow> int" where
  "shr x n = drop_bit (nat (n mod 32)) (to_int32 x)"

text \<open>The operator \<^verbatim>\<open>%\<close>: the result has the sign of the dividend.\<close>

definition js_rem :: "int \<Rightarrow> int \<Rightarrow> int" where
  "js_rem a b = sgn a * (\<bar>a\<bar> mod \<bar>b\<bar>)"

definition nadd :: "number \<Rightarrow> number \<Rightarrow> number" where
  "nadd x y = (case (x, y) of (Some a, Some b) \<Rightarrow> Some (a + b) | _ \<Rightarrow> None)"

subsection \<open>Typed arrays\<close>

definition elem :: "'a list \<Rightarrow> int \<Rightarrow> 'a option" where
  "elem xs i = (if 0 \<le> i \<and> i < int (length xs) then Some (xs ! nat i) else None)"

text \<open>Walking down the list, without counting its elements first.\<close>

fun nth_opt :: "'a list \<Rightarrow> nat \<Rightarrow> 'a option" where
  "nth_opt [] n = None"
| "nth_opt (x # xs) 0 = Some x"
| "nth_opt (x # xs) (Suc n) = nth_opt xs n"

lemma nth_opt_eq: "nth_opt xs n = (if n < length xs then Some (xs ! n) else None)"
  by (induction xs n rule: nth_opt.induct) simp_all

lemma elem_code [code]: "elem xs i = (if i < 0 then None else nth_opt xs (nat i))"
  by (auto simp: elem_def nth_opt_eq)

definition byte_at :: "u8 list \<Rightarrow> int \<Rightarrow> number" where
  "byte_at xs i = map_option uint (elem xs i)"

definition put :: "'a list \<Rightarrow> int \<Rightarrow> 'a \<Rightarrow> 'a list" where
  "put xs i v = (if 0 \<le> i then xs[nat i := v] else xs)"

text \<open>What is stored into a \<^verbatim>\<open>Uint8ClampedArray\<close> and into a \<^verbatim>\<open>Uint8Array\<close>.\<close>

definition clamped8 :: "number \<Rightarrow> u8" where
  "clamped8 x = (case x of None \<Rightarrow> 0 | Some n \<Rightarrow> word_of_int (max 0 (min 255 n)))"

definition wrapped8 :: "number \<Rightarrow> u8" where
  "wrapped8 x = (case x of None \<Rightarrow> 0 | Some n \<Rightarrow> word_of_int n)"

text \<open>Element \<open>i\<close> of the \<^verbatim>\<open>Uint32Array\<close> that shares the memory of a byte array, on a little-endian host.\<close>

definition put32 :: "u8 list \<Rightarrow> int \<Rightarrow> u32 \<Rightarrow> u8 list" where
  "put32 xs i w =
     (if 0 \<le> i \<and> 4 * i + 3 < int (length xs)
      then put (put (put (put xs (4 * i) (ucast w)) (4 * i + 1) (ucast (drop_bit 8 w))) (4 * i + 2) (ucast (drop_bit 16 w)))
             (4 * i + 3) (ucast (drop_bit 24 w))
      else xs)"

text \<open>\<^verbatim>\<open>a.set(xs, i)\<close> writes the elements of \<open>xs\<close> from index \<open>i\<close> on and throws a \<^verbatim>\<open>RangeError\<close> when they do not fit;
  \<^verbatim>\<open>a.subarray(i, j)\<close> clamps its bounds.\<close>

definition set_at :: "'a list \<Rightarrow> 'a list \<Rightarrow> int \<Rightarrow> 'a list option" where
  "set_at a xs i =
     (if 0 \<le> i \<and> i + int (length xs) \<le> int (length a)
      then Some (take (nat i) a @ xs @ drop (nat i + length xs) a) else None)"

definition subarray :: "'a list \<Rightarrow> int \<Rightarrow> int \<Rightarrow> 'a list" where
  "subarray a i j =
     (let at = (\<lambda>k. if k < 0 then max 0 (int (length a) + k) else min k (int (length a)))
      in take (nat (at j - at i)) (drop (nat (at i)) a))"

section \<open>Properties\<close>

lemma to_int32_range: "- (2 ^ 31) \<le> to_int32 x" "to_int32 x < 2 ^ 31"
  using sint_ge [of "word_of_int x :: u32"] sint_lt [of "word_of_int x :: u32"] by (simp_all add: to_int32_def)

lemma to_int32_idem [simp]: "to_int32 (to_int32 x) = to_int32 x"
  by (intro to_int32_id to_int32_range)

lemma to_int32_byte [simp]: "to_int32 (uint (w :: u8)) = uint w"
proof -
  have "0 \<le> uint w" "uint w < 256" using uint_bounded [of w] by simp_all
  then have "- 2147483648 \<le> uint w" "uint w < 2147483648" by linarith+
  then show ?thesis by simp
qed

lemma int32_Some [simp]: "int32 (Some n) = to_int32 n"
  and int32_None [simp]: "int32 None = 0"
  by (simp_all add: int32_def)

lemma shr_small: "0 \<le> x \<Longrightarrow> x < 2 ^ 31 \<Longrightarrow> 0 \<le> n \<Longrightarrow> n < 32 \<Longrightarrow> shr x n = x div 2 ^ nat n"
  by (simp add: shr_def drop_bit_eq_div)

lemma shr_id: "- (2 ^ 31) \<le> x \<Longrightarrow> x < 2 ^ 31 \<Longrightarrow> 0 \<le> n \<Longrightarrow> n < 32 \<Longrightarrow> shr x n = x div 2 ^ nat n"
  by (simp add: shr_def drop_bit_eq_div)

lemma shr3_int: "k < 2 ^ 31 \<Longrightarrow> shr (int k) 3 = int (k div 8)"
  by (simp add: shr_small zdiv_int)

lemma shl_small:
  assumes "0 \<le> x" "0 \<le> n" "n < 32" "x * 2 ^ nat n < 2 ^ 31"
  shows "shl x n = x * 2 ^ nat n"
proof -
  have "x * 1 \<le> x * 2 ^ nat n" using assms(1) by (intro mult_left_mono) simp_all
  then have "x < 2 ^ 31" "- (2 ^ 31) \<le> x * 2 ^ nat n" using assms(1,4) by linarith+
  then show ?thesis using assms by (simp add: shl_def push_bit_eq_mult)
qed

lemma or_disjoint_int:
  fixes a b :: int
  assumes "0 \<le> b" "b < 2 ^ n"
  shows "(a * 2 ^ n) OR b = a * 2 ^ n + b"
proof -
  have "take_bit n b = b" using assms by (simp add: take_bit_int_eq_self)
  then have "(push_bit n a) AND b = 0"
    by (intro bit_eqI) (metis bit_0_eq bit_and_iff bit_push_bit_iff bit_take_bit_iff bot_apply bot_bool_def not_less)
  then have "(push_bit n a) OR b = push_bit n a + b" by (simp add: plus_and_or [of "push_bit n a" b, symmetric])
  then show ?thesis by (simp add: push_bit_eq_mult)
qed

lemma and_low_bits_int: "(x :: int) AND (2 ^ n - 1) = x mod 2 ^ n"
  by (metis mask_eq_exp_minus_1 take_bit_eq_mask take_bit_eq_mod)

lemma js_rem_nonneg: "0 \<le> a \<Longrightarrow> 0 < b \<Longrightarrow> js_rem a b = a mod b"
  by (cases "a = 0") (simp_all add: js_rem_def)

lemma js_rem_int: "0 < b \<Longrightarrow> js_rem (int a) (int b) = int (a mod b)"
  by (simp add: js_rem_nonneg zmod_int)

lemma elem_nth: "i < length xs \<Longrightarrow> elem xs (int i) = Some (xs ! i)"
  by (simp add: elem_def)

lemma byte_at_range: "byte_at xs i = Some b \<Longrightarrow> 0 \<le> b \<and> b < 256"
  using uint_bounded [where 'a = 8] by (auto simp: byte_at_def elem_def split: if_splits)

lemma length_put [simp]: "length (put xs i v) = length xs"
  by (simp add: put_def)

lemma nth_put: "j < length xs \<Longrightarrow> put xs i v ! j = (if i = int j then v else xs ! j)"
  by (auto simp: put_def nth_list_update)

lemma length_put32 [simp]: "length (put32 xs i w) = length xs"
  by (simp add: put32_def)

end
