(* ===== verification/Bit_Reader.thy ===== *)
theory Bit_Reader
  imports Js_Numbers
begin

text \<open>
  The bit reader of the page's video player (\<^verbatim>\<open>BitReader\<close> in src/WebServer/public/lib/jsmpg.js): an array of bytes, the
  position up to which it has been filled and a position counted in bits.  Shown are that \<^verbatim>\<open>nextBits\<close>, which works byte by
  byte with shifts and masks, returns the number whose binary digits are the bits at the position, first bit first, and that
  \<^verbatim>\<open>findNextMPEGStartCode\<close> stops at the first start code.
\<close>

record bit_reader =
  bytes :: "u8 list"
  writePos :: int
  bitIndex :: int

definition BitReader :: "u8 list \<Rightarrow> bit_reader" where
  "BitReader arrayBuffer = \<lparr>bytes = arrayBuffer, writePos = int (length arrayBuffer), bitIndex = 0\<rparr>"

definition NOT_FOUND :: int where
  "NOT_FOUND = -1"

text \<open>The three bytes in front of every start code.\<close>

definition start_prefix :: "u8 list \<Rightarrow> int \<Rightarrow> bool" where
  "start_prefix bs i \<longleftrightarrow> byte_at bs i = Some 0 \<and> byte_at bs (i + 1) = Some 0 \<and> byte_at bs (i + 2) = Some 1"

text \<open>The loop of \<^verbatim>\<open>findNextMPEGStartCode\<close> from byte \<open>i\<close> on: where it stops.\<close>

function seek_prefix :: "u8 list \<Rightarrow> int \<Rightarrow> int \<Rightarrow> int option" where
  "seek_prefix bs wp i = (if i < wp then if start_prefix bs i then Some i else seek_prefix bs wp (i + 1) else None)"
  by auto
termination by (relation "measure (\<lambda>(bs, wp, i). nat (wp - i))") auto

declare seek_prefix.simps [simp del]

definition findNextMPEGStartCode :: "bit_reader \<Rightarrow> number \<times> bit_reader" where
  "findNextMPEGStartCode r =
     (case seek_prefix (bytes r) (writePos r) (shr (bitIndex r + 7) 3) of
        Some i \<Rightarrow> (byte_at (bytes r) (i + 3), r\<lparr>bitIndex := shl (i + 4) 3\<rparr>)
      | None \<Rightarrow> (Some NOT_FOUND, r\<lparr>bitIndex := shl (writePos r) 3\<rparr>))"

definition nextBytesAreStartCode :: "bit_reader \<Rightarrow> bool" where
  "nextBytesAreStartCode r = (let i = shr (bitIndex r + 7) 3 in i \<ge> writePos r \<or> start_prefix (bytes r) i)"

text \<open>The loop of \<^verbatim>\<open>nextBits\<close> over the whole bytes in the middle.\<close>

function put_bytes :: "u8 list \<Rightarrow> int \<Rightarrow> int \<Rightarrow> int \<Rightarrow> int" where
  "put_bytes bs byteOffset end value =
     (if byteOffset < end
      then put_bytes bs (byteOffset + 1) end (shl value 8 OR int32 (byte_at bs byteOffset))
      else value)"
  by auto
termination by (relation "measure (\<lambda>(bs, b, e, v). nat (e - b))") auto

declare put_bytes.simps [simp del]

definition nextBits :: "bit_reader \<Rightarrow> int \<Rightarrow> int" where
  "nextBits r count =
     (let byteOffset = shr (bitIndex r) 3; room = 8 - js_rem (bitIndex r) 8
      in if room \<ge> count
         then shr (int32 (byte_at (bytes r) byteOffset)) (room - count) AND shr 255 (8 - count)
         else
           let leftover = js_rem (bitIndex r + count) 8;
             end = shr (bitIndex r + count - 1) 3;
             value = int32 (byte_at (bytes r) byteOffset) AND shr 255 (8 - room);
             value = put_bytes (bytes r) (byteOffset + 1) end value;
             byteOffset = max (byteOffset + 1) end
           in if leftover > 0
              then shl value leftover OR shr (int32 (byte_at (bytes r) byteOffset)) (8 - leftover)
              else shl value 8 OR int32 (byte_at (bytes r) byteOffset))"

definition advance :: "int \<Rightarrow> bit_reader \<Rightarrow> bit_reader" where
  "advance count r = r\<lparr>bitIndex := bitIndex r + count\<rparr>"

definition rewind :: "int \<Rightarrow> bit_reader \<Rightarrow> bit_reader" where
  "rewind count r = r\<lparr>bitIndex := bitIndex r - count\<rparr>"

definition getBits :: "int \<Rightarrow> bit_reader \<Rightarrow> int \<times> bit_reader" where
  "getBits count r = (nextBits r count, advance count r)"

section \<open>Properties\<close>

subsection \<open>Numbers as lists of bits\<close>

text \<open>The number written by a list of bits, most significant bit first, and the bits of an array of bytes; behind
  its end there are zeros.\<close>

definition bits_val :: "bool list \<Rightarrow> int" where
  "bits_val bs = foldl (\<lambda>v b. 2 * v + of_bool b) 0 bs"

definition stream_bit :: "u8 list \<Rightarrow> nat \<Rightarrow> bool" where
  "stream_bit bs k \<longleftrightarrow> k div 8 < length bs \<and> bit (bs ! (k div 8)) (7 - k mod 8)"

definition stream_bits :: "u8 list \<Rightarrow> nat \<Rightarrow> nat \<Rightarrow> bool list" where
  "stream_bits bs k n = map (stream_bit bs) [k..<k + n]"

lemma bits_val_Nil [simp]: "bits_val [] = 0"
  by (simp add: bits_val_def)

lemma bits_val_snoc: "bits_val (bs @ [b]) = 2 * bits_val bs + of_bool b"
  by (simp add: bits_val_def)

lemma bits_val_append: "bits_val (xs @ ys) = bits_val xs * 2 ^ length ys + bits_val ys"
proof (induction ys rule: rev_induct)
  case (snoc y ys)
  have "bits_val (xs @ ys @ [y]) = 2 * bits_val (xs @ ys) + of_bool y"
    using bits_val_snoc [of "xs @ ys" y] by simp
  then show ?case by (simp add: snoc bits_val_snoc algebra_simps)
qed simp

lemma bits_val_bounds: "0 \<le> bits_val bs \<and> bits_val bs < 2 ^ length bs"
proof (induction bs rule: rev_induct)
  case (snoc b bs)
  then show ?case by (cases b) (auto simp: bits_val_snoc)
qed simp

lemma stream_bits_append: "stream_bits bs k (m + n) = stream_bits bs k m @ stream_bits bs (k + m) n"
proof -
  have "[k..<k + (m + n)] = [k..<k + m] @ [k + m..<k + m + n]"
    using upt_add_eq_append [of k "k + m" n] by (simp add: add.assoc)
  then show ?thesis by (simp add: stream_bits_def)
qed

lemma length_stream_bits [simp]: "length (stream_bits bs k n) = n"
  by (simp add: stream_bits_def)

lemma stream_bits_0 [simp]: "stream_bits bs k 0 = []"
  by (simp add: stream_bits_def)

lemma stream_bits_Suc: "stream_bits bs k (Suc n) = stream_bits bs k n @ [stream_bit bs (k + n)]"
  by (simp add: stream_bits_def)

lemma stream_bits_Cons: "stream_bits bs k (Suc n) = stream_bit bs k # stream_bits bs (Suc k) n"
  using stream_bits_append [of bs k 1 n] by (simp add: stream_bits_def)

text \<open>A byte as the operators see it, and its bits.\<close>

definition byte_val :: "u8 list \<Rightarrow> nat \<Rightarrow> int" where
  "byte_val bs k = int32 (byte_at bs (int k))"

lemma byte_val_nth: "byte_val bs k = (if k < length bs then uint (bs ! k) else 0)"
  by (simp add: byte_val_def byte_at_def elem_def)

lemma byte_val_range: "0 \<le> byte_val bs k \<and> byte_val bs k < 2 ^ 8"
  using uint_bounded [of "bs ! k"] by (simp add: byte_val_nth)

lemma stream_bit_byte:
  assumes "j < 8"
  shows "of_bool (stream_bit bs (8 * k + j)) = byte_val bs k div 2 ^ (7 - j) mod 2"
proof -
  have "(8 * k + j) div 8 = k" "(8 * k + j) mod 8 = j" using assms by simp_all
  moreover have "7 - j < 8" by simp
  then have "bit (bs ! k) (7 - j) \<longleftrightarrow> odd (uint (bs ! k) div 2 ^ (7 - j))"
    by (simp add: bit_uint_iff flip: bit_iff_odd)
  ultimately show ?thesis by (simp add: stream_bit_def byte_val_nth mod_2_eq_odd)
qed

lemma stream_bits_in_byte:
  assumes "a + n \<le> 8"
  shows "bits_val (stream_bits bs (8 * k + a) n) = byte_val bs k div 2 ^ (8 - (a + n)) mod 2 ^ n"
  using assms
proof (induction n)
  case (Suc n)
  define q where "q = byte_val bs k div 2 ^ (8 - (a + Suc n))"
  have e: "8 - (a + n) = Suc (8 - (a + Suc n))" using Suc.prems by simp
  have "byte_val bs k div 2 ^ (8 - (a + n)) = q div 2"
    unfolding q_def e power_Suc2 by (rule zdiv_zmult2_eq) simp
  then have 1: "bits_val (stream_bits bs (8 * k + a) n) = q div 2 mod 2 ^ n" using Suc by simp
  have "of_bool (stream_bit bs (8 * k + (a + n))) = q mod 2"
    using stream_bit_byte [of "a + n" bs k] Suc.prems by (simp add: q_def)
  then have "bits_val (stream_bits bs (8 * k + a) (Suc n)) = 2 * (q div 2 mod 2 ^ n) + q mod 2"
    by (simp add: stream_bits_Suc bits_val_snoc 1 add.assoc)
  also have "\<dots> = q mod 2 ^ Suc n" by (simp add: zmod_zmult2_eq)
  finally show ?case by (simp add: q_def)
qed simp

lemma byte_bits: "byte_val bs k = bits_val (stream_bits bs (8 * k) 8)"
  using stream_bits_in_byte [of 0 8 bs k] byte_val_range [of bs k] by simp

lemma low_bits_of_byte:
  assumes "a \<le> 8"
  shows "byte_val bs k AND (2 ^ (8 - a) - 1) = bits_val (stream_bits bs (8 * k + a) (8 - a))"
  using stream_bits_in_byte [of a "8 - a" bs k] assms by (simp add: and_low_bits_int)

lemma high_bits_of_byte:
  assumes "n \<le> 8"
  shows "shr (byte_val bs k) (8 - int n) = bits_val (stream_bits bs (8 * k) n)"
proof -
  have r: "0 \<le> byte_val bs k" "byte_val bs k < 2 ^ 8" using byte_val_range [of bs k] by simp_all
  have "byte_val bs k < 2 ^ 31" using r by simp
  then have "shr (byte_val bs k) (8 - int n) = byte_val bs k div 2 ^ (8 - n)"
    using r assms by (simp add: shr_small nat_diff_distrib)
  moreover have "byte_val bs k div 2 ^ (8 - n) < 2 ^ n"
  proof -
    have "n \<in> {0, 1, 2, 3, 4, 5, 6, 7, 8}" using assms by auto
    then show ?thesis using r by (elim insertE) simp_all
  qed
  ultimately show ?thesis
    using stream_bits_in_byte [of 0 n bs k] assms r by (simp add: pos_imp_zdiv_nonneg_iff)
qed

lemma low_mask: "n \<le> 8 \<Longrightarrow> shr 255 (8 - int n) = 2 ^ n - 1"
proof -
  have "\<forall>n \<in> set [0..<9]. shr 255 (8 - int n) = 2 ^ n - 1" by code_simp
  then show "n \<le> 8 \<Longrightarrow> shr 255 (8 - int n) = 2 ^ n - 1" by (simp del: upt_Suc)
qed

lemma shift_in:
  assumes "length ys = m" "length xs + m \<le> 31"
  shows "shl (bits_val xs) (int m) OR bits_val ys = bits_val (xs @ ys)"
proof -
  have b: "0 \<le> bits_val xs" "bits_val xs < 2 ^ length xs" using bits_val_bounds [of xs] by simp_all
  have "bits_val xs * 2 ^ m < 2 ^ length xs * 2 ^ m" using b by simp
  also have "\<dots> \<le> 2 ^ 31" unfolding power_add [symmetric] by (rule power_increasing) (use assms(2) in simp_all)
  finally have "shl (bits_val xs) (int m) = bits_val xs * 2 ^ m" using shl_small [of "bits_val xs" "int m"] b assms(2) by simp
  then show ?thesis using bits_val_bounds [of ys] assms(1) by (simp add: or_disjoint_int bits_val_append)
qed

lemma put_bytes_bits:
  "length xs + 8 * q \<le> 31 \<Longrightarrow>
     put_bytes bs (int k) (int (k + q)) (bits_val xs) = bits_val (xs @ stream_bits bs (8 * k) (8 * q))"
proof (induction q arbitrary: k xs)
  case (Suc q)
  have "put_bytes bs (int k) (int (k + Suc q)) (bits_val xs) =
      put_bytes bs (int (Suc k)) (int (Suc k + q)) (shl (bits_val xs) 8 OR byte_val bs k)"
    by (subst put_bytes.simps) (simp add: byte_val_def add.commute)
  also have "shl (bits_val xs) 8 OR byte_val bs k = bits_val (xs @ stream_bits bs (8 * k) 8)"
    using shift_in [of "stream_bits bs (8 * k) 8" 8 xs] Suc.prems by (simp add: byte_bits)
  also have "put_bytes bs (int (Suc k)) (int (Suc k + q)) (bits_val (xs @ stream_bits bs (8 * k) 8)) =
      bits_val ((xs @ stream_bits bs (8 * k) 8) @ stream_bits bs (8 * Suc k) (8 * q))"
    by (rule Suc.IH) (use Suc.prems in simp)
  also have "\<dots> = bits_val (xs @ stream_bits bs (8 * k) (8 * Suc q))"
    using stream_bits_append [of bs "8 * k" 8 "8 * q"] by (simp add: add.commute)
  finally show ?case .
qed (simp add: put_bytes.simps)

subsection \<open>Reading bits\<close>

lemma nextBits_in_byte:
  assumes "bitIndex r = int (8 * k + a)" "a < 8" "8 * k + a < 2 ^ 31" "a + n \<le> 8"
  shows "nextBits r (int n) = bits_val (stream_bits (bytes r) (8 * k + a) n)"
proof -
  have "shr (byte_val (bytes r) k) (8 - int a - int n) = byte_val (bytes r) k div 2 ^ (8 - (a + n))"
  proof -
    have "0 \<le> byte_val (bytes r) k" "byte_val (bytes r) k < 2 ^ 31" using byte_val_range [of "bytes r" k] by simp_all
    moreover have "8 - int a - int n = int (8 - (a + n))" using assms(4) by simp
    ultimately show ?thesis by (simp only: shr_small nat_int)
  qed
  moreover have "shr (bitIndex r) 3 = int k" using assms by (simp add: shr_small)
  ultimately show ?thesis
    using assms low_mask [of n] stream_bits_in_byte [of a n "bytes r" k]
    by (simp add: nextBits_def js_rem_nonneg and_low_bits_int Let_def flip: byte_val_def)
qed

lemma nextBits_across:
  assumes i: "bitIndex r = int (8 * k + a)" "a < 8" "8 * k + a + n < 2 ^ 31" and n: "8 < a + n" "n \<le> 31"
  shows "nextBits r (int n) = bits_val (stream_bits (bytes r) (8 * k + a) n)"
proof -
  define m where "m = a + n - 9"
  define q l where "q = m div 8" and "l = Suc (m mod 8)"
  have l: "1 \<le> l" "l \<le> 8" and n': "n = 8 - a + 8 * q + l" using i(2) n(1) by (simp_all add: m_def q_def l_def)
  let ?bs = "bytes r"
  define first where "first = stream_bits ?bs (8 * k + a) (8 - a)"
  define mid where "mid = stream_bits ?bs (8 * Suc k) (8 * q)"
  define rest where "rest = stream_bits ?bs (8 * (Suc k + q)) l"
  have all: "stream_bits ?bs (8 * k + a) n = (first @ mid) @ rest"
    using stream_bits_append [of ?bs "8 * k + a" "8 - a + 8 * q" l] stream_bits_append [of ?bs "8 * k + a" "8 - a" "8 * q"] i(2)
    by (simp add: n' first_def mid_def rest_def algebra_simps)
  have pos: "shr (bitIndex r) 3 = int k" "js_rem (bitIndex r) 8 = int a" "js_rem (bitIndex r + int n) 8 = int (l mod 8)"
    "shr (bitIndex r + int n - 1) 3 = int (Suc k + q)"
  proof -
    show "shr (bitIndex r) 3 = int k" "js_rem (bitIndex r) 8 = int a" using i by (simp_all add: shr_small js_rem_nonneg)
    have e: "bitIndex r + int n = int (8 * (Suc k + q) + l)" using i(1,2) n' by simp
    have "(8 * (Suc k + q) + l) mod 8 = l mod 8" by (rule mod_mult_self4)
    then show "js_rem (bitIndex r + int n) 8 = int (l mod 8)"
      using js_rem_int [of 8 "8 * (Suc k + q) + l"] unfolding e by simp
    have "bitIndex r + int n - 1 = int (8 * (Suc k + q) + (l - 1))" using e l by simp
    moreover have "8 * (Suc k + q) + (l - 1) < 2 ^ 31" "(8 * (Suc k + q) + (l - 1)) div 8 = Suc k + q" using i(2,3) n' l by simp_all
    ultimately show "shr (bitIndex r + int n - 1) 3 = int (Suc k + q)"
      by (simp only: shr3_int)
  qed
  have 1: "byte_val ?bs k AND shr 255 (8 - (8 - int a)) = bits_val first"
    using low_mask [of "8 - a"] low_bits_of_byte [of a ?bs k] i(2) by (simp add: first_def of_nat_diff)
  have "put_bytes ?bs (int (Suc k)) (int (Suc k + q)) (bits_val first) = bits_val (first @ mid)"
    unfolding mid_def by (rule put_bytes_bits) (use n(2) n' in \<open>simp add: first_def\<close>)
  moreover have "shl (bits_val (first @ mid)) (int l) OR bits_val rest = bits_val ((first @ mid) @ rest)"
    by (rule shift_in) (use n(2) n' in \<open>simp_all add: first_def mid_def rest_def\<close>)
  moreover have "shr (byte_val ?bs (Suc k + q)) (8 - int l) = bits_val rest"
    unfolding rest_def by (rule high_bits_of_byte) (rule l)
  moreover have "int32 (byte_at ?bs (int k)) = byte_val ?bs k" "int32 (byte_at ?bs (1 + (int k + int q))) = byte_val ?bs (Suc (k + q))"
    by (simp_all add: byte_val_def)
  moreover have "byte_val ?bs (Suc (k + q)) = shr (byte_val ?bs (Suc (k + q))) 0"
    using high_bits_of_byte [of 8 ?bs "Suc (k + q)"] by (simp add: byte_bits)
  ultimately show ?thesis using i(2) n 1 l
    by (cases "l = 8") (simp_all add: nextBits_def pos all Let_def add.commute [of "int k" 1])
qed

lemma nextBits_value:
  assumes "0 \<le> bitIndex r" "bitIndex r + int n < 2 ^ 31" "n \<le> 31"
  shows "nextBits r (int n) = bits_val (stream_bits (bytes r) (nat (bitIndex r)) n)"
proof -
  define k a where "k = nat (bitIndex r) div 8" and "a = nat (bitIndex r) mod 8"
  have "bitIndex r = int (8 * k + a)" "nat (bitIndex r) = 8 * k + a" "a < 8" using assms(1) by (simp_all add: k_def a_def)
  with assms show ?thesis
    using nextBits_in_byte [of r k a n] nextBits_across [of r k a n] by (cases "a + n \<le> 8") simp_all
qed

text \<open>
  C18. \<^verbatim>\<open>nextBits\<close> cuts the wanted bits out of the bytes they lie in: the end of the first byte, whole bytes, and the front of
  the last one.  The result is the number that the bits write, most significant bit first, wherever they begin, and bits
  behind the end of the data count as zeros.
\<close>

theorem nextBits_is_big_endian:
  assumes "0 \<le> bitIndex r" "bitIndex r + int n < 2 ^ 31" "n \<le> 31"
  shows "nextBits r (int n) = bits_val (stream_bits (bytes r) (nat (bitIndex r)) n)"
  using assms by (rule nextBits_value)

theorem nextBits_is_big_endian_witness:
  "nextBits \<lparr>bytes = [0x12, 0x34, 0x56], writePos = 3, bitIndex = 4\<rparr> 12 = 0x234 \<and>
   bits_val (stream_bits [0x12, 0x34, 0x56] 4 12) = 0x234"
proof -
  let ?r = "\<lparr>bytes = [0x12, 0x34, 0x56], writePos = 3, bitIndex = 4\<rparr>"
  have "bits_val (stream_bits [0x12, 0x34, 0x56] 4 12) = 0x234" by code_simp
  then show ?thesis using nextBits_is_big_endian [of ?r 12] by simp
qed

lemma bytes_simps [simp]:
  "bytes (advance n r) = bytes r" "writePos (advance n r) = writePos r" "bitIndex (advance n r) = bitIndex r + n"
  "bytes (rewind n r) = bytes r" "writePos (rewind n r) = writePos r" "bitIndex (rewind n r) = bitIndex r - n"
  "snd (getBits n r) = advance n r"
  by (simp_all add: advance_def rewind_def getBits_def)

lemma advance_advance [simp]: "advance n (advance m r) = advance (m + n) r"
  by (simp add: advance_def add.assoc)

lemma rewind_advance [simp]: "rewind n (advance n r) = r"
  by (simp add: advance_def rewind_def)

lemma getBits_value:
  assumes "bitIndex r = int k" "k + n < 2 ^ 31" "n \<le> 31"
  shows "getBits (int n) r = (bits_val (stream_bits (bytes r) k n), advance (int n) r)"
  using nextBits_value [of r n] assms by (simp add: getBits_def)

lemma getBits_1: "bitIndex r = int k \<Longrightarrow> k + 1 < 2 ^ 31 \<Longrightarrow> getBits 1 r = (of_bool (stream_bit (bytes r) k), advance 1 r)"
  using getBits_value [of r k 1] by (simp add: stream_bits_def bits_val_def)

subsection \<open>Start codes\<close>

lemma seek_prefix_unfold:
  "wp \<le> i \<Longrightarrow> seek_prefix bs wp i = None"
  "i < wp \<Longrightarrow> start_prefix bs i \<Longrightarrow> seek_prefix bs wp i = Some i"
  "i < wp \<Longrightarrow> \<not> start_prefix bs i \<Longrightarrow> seek_prefix bs wp i = seek_prefix bs wp (i + 1)"
  by (simp_all add: seek_prefix.simps [of bs wp i])

lemma seek_prefix_spec:
  "case seek_prefix bs wp i of
     Some j \<Rightarrow> i \<le> j \<and> j < wp \<and> start_prefix bs j \<and> (\<forall>k. i \<le> k \<and> k < j \<longrightarrow> \<not> start_prefix bs k)
   | None \<Rightarrow> (\<forall>k. i \<le> k \<and> k < wp \<longrightarrow> \<not> start_prefix bs k)"
proof (induction bs wp i rule: seek_prefix.induct)
  case (1 bs wp i)
  consider "wp \<le> i" | "i < wp" "start_prefix bs i" | "i < wp" "\<not> start_prefix bs i" by linarith
  then show ?case
  proof cases
    case 3
    have front: "(i \<le> k \<and> k < m \<longrightarrow> \<not> start_prefix bs k) \<longleftrightarrow> (i + 1 \<le> k \<and> k < m \<longrightarrow> \<not> start_prefix bs k)" for k m
      using 3 by (cases "k = i") auto
    show ?thesis unfolding seek_prefix_unfold(3) [OF 3] front
      using 1 [OF 3] by (cases "seek_prefix bs wp (i + 1)") simp_all
  qed (auto simp: seek_prefix_unfold)
qed

lemma seek_prefix_Some:
  "seek_prefix bs wp i = Some j \<Longrightarrow> i \<le> j \<and> j < wp \<and> start_prefix bs j \<and> (\<forall>k. i \<le> k \<and> k < j \<longrightarrow> \<not> start_prefix bs k)"
  using seek_prefix_spec [where bs = bs and wp = wp and i = i] by simp

lemma seek_prefix_None:
  "seek_prefix bs wp i = None \<Longrightarrow> i \<le> k \<Longrightarrow> k < wp \<Longrightarrow> \<not> start_prefix bs k"
  using seek_prefix_spec [where bs = bs and wp = wp and i = i] by simp

end
