(* ===== verification/Vlc_Tables.thy ===== *)
theory Vlc_Tables
  imports Bit_Reader
begin

text \<open>
  The variable length codes of the page's video player (\<^verbatim>\<open>readCode\<close> and the code tables of
  src/WebServer/public/lib/jsmpg.js).  A table is a binary tree laid out in rows of three numbers: the row to go to on a 0,
  the row to go to on a 1, and the decoded value; a row that begins with 0 is a leaf, and -1 stands for a code that does not
  exist.  The comments of the source give the code word of every leaf; they are the lists \<open>_codes\<close> here.  Shown are that
  \<^verbatim>\<open>readCode\<close> returns on every input, and that it decodes exactly the code words of the comments.
\<close>

subsection \<open>The tables\<close>

definition MACROBLOCK_ADDRESS_INCREMENT :: "int list" where
  "MACROBLOCK_ADDRESS_INCREMENT = [
   3, 6, 0, 9, 12, 0, 0, 0, 1, 15, 18, 0, 21, 24, 0, 27, 30, 0, 33, 36, 0, 0, 0, 3, 0, 0, 2, 39, 42, 0, 45, 48, 0,
   0, 0, 5, 0, 0, 4, 51, 54, 0, 57, 60, 0, 0, 0, 7, 0, 0, 6, 63, 66, 0, 69, 72, 0, 75, 78, 0, 81, 84, 0, -1, 87, 0,
   -1, 90, 0, 93, 96, 0, 99, 102, 0, 105, 108, 0, 111, 114, 0, 0, 0, 9, 0, 0, 8, 117, 120, 0, 123, 126, 0,
   129, 132, 0, 135, 138, 0, 0, 0, 15, 0, 0, 14, 0, 0, 13, 0, 0, 12, 0, 0, 11, 0, 0, 10, 141, -1, 0, -1, 144, 0,
   147, 150, 0, 153, 156, 0, 159, 162, 0, 165, 168, 0, 171, 174, 0, 177, 180, 0, 183, -1, 0, -1, 186, 0,
   189, 192, 0, 195, 198, 0, 201, 204, 0, 207, 210, 0, 213, 216, 0, 219, 222, 0, 0, 0, 21, 0, 0, 20, 0, 0, 19,
   0, 0, 18, 0, 0, 17, 0, 0, 16, 0, 0, 35, 0, 0, 34, 0, 0, 33, 0, 0, 32, 0, 0, 31, 0, 0, 30, 0, 0, 29, 0, 0, 28,
   0, 0, 27, 0, 0, 26, 0, 0, 25, 0, 0, 24, 0, 0, 23, 0, 0, 22]"

definition MACROBLOCK_TYPE_I :: "int list" where
  "MACROBLOCK_TYPE_I = [
   3, 6, 0, -1, 9, 0, 0, 0, 1, 0, 0, 17]"

definition MACROBLOCK_TYPE_P :: "int list" where
  "MACROBLOCK_TYPE_P = [
   3, 6, 0, 9, 12, 0, 0, 0, 10, 15, 18, 0, 0, 0, 2, 21, 24, 0, 0, 0, 8, 27, 30, 0, 33, 36, 0, -1, 39, 0, 0, 0, 18,
   0, 0, 26, 0, 0, 1, 0, 0, 17]"

definition MACROBLOCK_TYPE_B :: "int list" where
  "MACROBLOCK_TYPE_B = [
   3, 6, 0, 9, 15, 0, 12, 18, 0, 24, 21, 0, 0, 0, 12, 27, 30, 0, 0, 0, 14, 39, 42, 0, 36, 33, 0, 0, 0, 4, 0, 0, 6,
   54, 48, 0, 45, 51, 0, 0, 0, 8, 0, 0, 10, -1, 57, 0, 0, 0, 1, 60, 63, 0, 0, 0, 30, 0, 0, 17, 0, 0, 22, 0, 0, 26]"

definition CODE_BLOCK_PATTERN :: "int list" where
  "CODE_BLOCK_PATTERN = [
   6, 3, 0, 9, 18, 0, 12, 15, 0, 24, 33, 0, 36, 39, 0, 27, 21, 0, 30, 42, 0, 60, 57, 0, 54, 48, 0, 69, 51, 0,
   81, 75, 0, 63, 84, 0, 45, 66, 0, 72, 78, 0, 0, 0, 60, 105, 120, 0, 132, 144, 0, 114, 108, 0, 126, 141, 0,
   87, 93, 0, 117, 96, 0, 0, 0, 32, 135, 138, 0, 99, 123, 0, 129, 102, 0, 0, 0, 4, 90, 111, 0, 0, 0, 8, 0, 0, 16,
   0, 0, 44, 150, 168, 0, 0, 0, 28, 0, 0, 52, 0, 0, 62, 183, 177, 0, 156, 180, 0, 0, 0, 1, 165, 162, 0, 0, 0, 61,
   0, 0, 56, 171, 174, 0, 0, 0, 2, 0, 0, 40, 153, 186, 0, 0, 0, 48, 192, 189, 0, 147, 159, 0, 0, 0, 20, 0, 0, 12,
   240, 249, 0, 0, 0, 63, 231, 225, 0, 195, 219, 0, 252, 198, 0, 0, 0, 24, 0, 0, 36, 0, 0, 3, 207, 261, 0,
   243, 237, 0, 204, 213, 0, 210, 234, 0, 201, 228, 0, 216, 222, 0, 258, 255, 0, 264, 246, 0, -1, 282, 0,
   285, 291, 0, 0, 0, 33, 0, 0, 9, 318, 330, 0, 306, 348, 0, 0, 0, 5, 0, 0, 10, 279, 267, 0, 0, 0, 6, 0, 0, 18,
   0, 0, 17, 0, 0, 34, 339, 357, 0, 309, 312, 0, 270, 276, 0, 327, 321, 0, 351, 354, 0, 303, 297, 0, 294, 288, 0,
   300, 273, 0, 342, 345, 0, 315, 324, 0, 336, 333, 0, 363, 375, 0, 0, 0, 41, 0, 0, 14, 0, 0, 21, 372, 366, 0,
   360, 369, 0, 0, 0, 11, 0, 0, 19, 0, 0, 7, 0, 0, 35, 0, 0, 13, 0, 0, 50, 0, 0, 49, 0, 0, 58, 0, 0, 37, 0, 0, 25,
   0, 0, 45, 0, 0, 57, 0, 0, 26, 0, 0, 29, 0, 0, 38, 0, 0, 53, 0, 0, 23, 0, 0, 43, 0, 0, 46, 0, 0, 42, 0, 0, 22,
   0, 0, 54, 0, 0, 51, 0, 0, 15, 0, 0, 30, 0, 0, 39, 0, 0, 47, 0, 0, 55, 0, 0, 27, 0, 0, 59, 0, 0, 31]"

definition MOTION :: "int list" where
  "MOTION = [
   3, 6, 0, 12, 9, 0, 0, 0, 0, 18, 15, 0, 24, 21, 0, 0, 0, -1, 0, 0, 1, 27, 30, 0, 36, 33, 0, 0, 0, 2, 0, 0, -2,
   42, 45, 0, 48, 39, 0, 60, 54, 0, 0, 0, 3, 0, 0, -3, 51, 57, 0, -1, 69, 0, 81, 75, 0, 78, 63, 0, 72, 66, 0,
   96, 84, 0, 87, 93, 0, -1, 99, 0, 108, 105, 0, 0, 0, -4, 90, 102, 0, 0, 0, 4, 0, 0, -7, 0, 0, 5, 111, 123, 0,
   0, 0, -5, 0, 0, 7, 114, 120, 0, 126, 117, 0, 0, 0, -6, 0, 0, 6, 153, 162, 0, 150, 147, 0, 135, 138, 0,
   156, 141, 0, 129, 159, 0, 132, 144, 0, 0, 0, 10, 0, 0, 9, 0, 0, 8, 0, 0, -8, 171, 198, 0, 0, 0, -9, 180, 192, 0,
   168, 183, 0, 165, 186, 0, 174, 189, 0, 0, 0, -10, 177, 195, 0, 0, 0, 12, 0, 0, 16, 0, 0, 13, 0, 0, 14, 0, 0, 11,
   0, 0, 15, 0, 0, -16, 0, 0, -12, 0, 0, -14, 0, 0, -15, 0, 0, -11, 0, 0, -13]"

definition DCT_DC_SIZE_LUMINANCE :: "int list" where
  "DCT_DC_SIZE_LUMINANCE = [
   6, 3, 0, 18, 15, 0, 9, 12, 0, 0, 0, 1, 0, 0, 2, 27, 24, 0, 21, 30, 0, 0, 0, 0, 36, 33, 0, 0, 0, 4, 0, 0, 3,
   39, 42, 0, 0, 0, 5, 0, 0, 6, 48, 45, 0, 51, -1, 0, 0, 0, 7, 0, 0, 8]"

definition DCT_DC_SIZE_CHROMINANCE :: "int list" where
  "DCT_DC_SIZE_CHROMINANCE = [
   6, 3, 0, 12, 9, 0, 18, 15, 0, 24, 21, 0, 0, 0, 2, 0, 0, 1, 0, 0, 0, 30, 27, 0, 0, 0, 3, 36, 33, 0, 0, 0, 4,
   42, 39, 0, 0, 0, 5, 48, 45, 0, 0, 0, 6, 51, -1, 0, 0, 0, 7, 0, 0, 8]"

definition DCT_COEFF :: "int list" where
  "DCT_COEFF = [
   3, 6, 0, 12, 9, 0, 0, 0, 1, 21, 24, 0, 18, 15, 0, 39, 27, 0, 33, 30, 0, 42, 36, 0, 0, 0, 257, 60, 66, 0,
   54, 63, 0, 48, 57, 0, 0, 0, 513, 51, 45, 0, 0, 0, 2, 0, 0, 3, 81, 75, 0, 87, 93, 0, 72, 78, 0, 96, 90, 0,
   0, 0, 1025, 69, 84, 0, 0, 0, 769, 0, 0, 258, 0, 0, 1793, 0, 0, 65535, 0, 0, 1537, 111, 108, 0, 0, 0, 1281,
   105, 102, 0, 117, 114, 0, 99, 126, 0, 120, 123, 0, 156, 150, 0, 162, 159, 0, 144, 147, 0, 129, 135, 0,
   138, 132, 0, 0, 0, 2049, 0, 0, 4, 0, 0, 514, 0, 0, 2305, 153, 141, 0, 165, 171, 0, 180, 168, 0, 177, 174, 0,
   183, 186, 0, 0, 0, 2561, 0, 0, 3329, 0, 0, 6, 0, 0, 259, 0, 0, 5, 0, 0, 770, 0, 0, 2817, 0, 0, 3073,
   228, 225, 0, 201, 210, 0, 219, 213, 0, 234, 222, 0, 216, 231, 0, 207, 192, 0, 204, 189, 0, 198, 195, 0,
   243, 261, 0, 273, 240, 0, 246, 237, 0, 249, 258, 0, 279, 276, 0, 252, 255, 0, 270, 282, 0, 264, 267, 0,
   0, 0, 515, 0, 0, 260, 0, 0, 7, 0, 0, 1026, 0, 0, 1282, 0, 0, 4097, 0, 0, 3841, 0, 0, 3585, 315, 321, 0,
   333, 342, 0, 312, 291, 0, 375, 357, 0, 288, 294, 0, -1, 369, 0, 285, 303, 0, 318, 363, 0, 297, 306, 0,
   339, 309, 0, 336, 348, 0, 330, 300, 0, 372, 345, 0, 351, 366, 0, 327, 354, 0, 360, 324, 0, 381, 408, 0,
   417, 420, 0, 390, 378, 0, 435, 438, 0, 384, 387, 0, 0, 0, 2050, 396, 402, 0, 465, 462, 0, 0, 0, 8, 411, 399, 0,
   429, 432, 0, 453, 414, 0, 426, 423, 0, 0, 0, 10, 0, 0, 9, 0, 0, 11, 0, 0, 5377, 0, 0, 1538, 0, 0, 771,
   0, 0, 5121, 0, 0, 1794, 0, 0, 4353, 0, 0, 4609, 0, 0, 4865, 444, 456, 0, 0, 0, 1027, 459, 450, 0, 0, 0, 261,
   393, 405, 0, 0, 0, 516, 447, 441, 0, 516, 519, 0, 486, 474, 0, 510, 483, 0, 504, 498, 0, 471, 537, 0,
   507, 501, 0, 522, 513, 0, 534, 531, 0, 468, 477, 0, 492, 495, 0, 549, 546, 0, 525, 528, 0, 0, 0, 263,
   0, 0, 2562, 0, 0, 2306, 0, 0, 5633, 0, 0, 5889, 0, 0, 6401, 0, 0, 6145, 0, 0, 1283, 0, 0, 772, 0, 0, 13,
   0, 0, 12, 0, 0, 14, 0, 0, 15, 0, 0, 517, 0, 0, 6657, 0, 0, 262, 540, 543, 0, 480, 489, 0, 588, 597, 0, 0, 0, 27,
   609, 555, 0, 606, 603, 0, 0, 0, 19, 0, 0, 22, 591, 621, 0, 0, 0, 18, 573, 576, 0, 564, 570, 0, 0, 0, 20,
   552, 582, 0, 0, 0, 21, 558, 579, 0, 0, 0, 23, 612, 594, 0, 0, 0, 25, 0, 0, 24, 600, 615, 0, 0, 0, 31, 0, 0, 30,
   0, 0, 28, 0, 0, 29, 0, 0, 26, 0, 0, 17, 0, 0, 16, 567, 618, 0, 561, 585, 0, 654, 633, 0, 0, 0, 37, 645, 648, 0,
   0, 0, 36, 630, 636, 0, 0, 0, 34, 639, 627, 0, 663, 666, 0, 657, 624, 0, 651, 642, 0, 669, 660, 0, 0, 0, 35,
   0, 0, 267, 0, 0, 40, 0, 0, 268, 0, 0, 266, 0, 0, 32, 0, 0, 264, 0, 0, 265, 0, 0, 38, 0, 0, 269, 0, 0, 270,
   0, 0, 33, 0, 0, 39, 0, 0, 7937, 0, 0, 6913, 0, 0, 7681, 0, 0, 4098, 0, 0, 7425, 0, 0, 7169, 0, 0, 271,
   0, 0, 274, 0, 0, 273, 0, 0, 272, 0, 0, 1539, 0, 0, 2818, 0, 0, 3586, 0, 0, 3330, 0, 0, 3074, 0, 0, 3842]"

definition MACROBLOCK_TYPE_TABLES :: "int list option list" where
  "MACROBLOCK_TYPE_TABLES = [None, Some MACROBLOCK_TYPE_I, Some MACROBLOCK_TYPE_P, Some MACROBLOCK_TYPE_B]"

subsection \<open>Reading a code\<close>

text \<open>The loop of \<^verbatim>\<open>readCode\<close>; reading the table at an index it does not have gives \<^verbatim>\<open>undefined\<close>, which compares false
  with \<^verbatim>\<open>>= 0\<close> and unequal to 0.\<close>

partial_function (option) readCode_from :: "int list \<Rightarrow> int \<Rightarrow> bit_reader \<Rightarrow> (number \<times> bit_reader) option" where
  "readCode_from codeTable state r =
     (let (b, r) = getBits 1 r
      in case elem codeTable (state + b) of
           None \<Rightarrow> Some (None, r)
         | Some state \<Rightarrow>
             if state \<ge> 0 \<and> elem codeTable state \<noteq> Some 0 then readCode_from codeTable state r
             else Some (elem codeTable (state + 2), r))"

definition readCode :: "int list \<Rightarrow> bit_reader \<Rightarrow> (number \<times> bit_reader) option" where
  "readCode codeTable r = readCode_from codeTable 0 r"

section \<open>Properties\<close>

subsection \<open>The code words of the comments\<close>

text \<open>In alphabetical order.\<close>

definition MACROBLOCK_ADDRESS_INCREMENT_codes :: "(string \<times> int) list" where
  "MACROBLOCK_ADDRESS_INCREMENT_codes = [
   (''00000001000'', 35), (''00000001111'', 34), (''00000011000'', 33), (''00000011001'', 32),
   (''00000011010'', 31), (''00000011011'', 30), (''00000011100'', 29), (''00000011101'', 28),
   (''00000011110'', 27), (''00000011111'', 26), (''00000100000'', 25), (''00000100001'', 24),
   (''00000100010'', 23), (''00000100011'', 22), (''0000010010'', 21), (''0000010011'', 20), (''0000010100'', 19),
   (''0000010101'', 18), (''0000010110'', 17), (''0000010111'', 16), (''00000110'', 15), (''00000111'', 14),
   (''00001000'', 13), (''00001001'', 12), (''00001010'', 11), (''00001011'', 10), (''0000110'', 9),
   (''0000111'', 8), (''00010'', 7), (''00011'', 6), (''0010'', 5), (''0011'', 4), (''010'', 3), (''011'', 2),
   (''1'', 1)]"

definition MACROBLOCK_TYPE_I_codes :: "(string \<times> int) list" where
  "MACROBLOCK_TYPE_I_codes = [
   (''01'', 17), (''1'', 1)]"

definition MACROBLOCK_TYPE_P_codes :: "(string \<times> int) list" where
  "MACROBLOCK_TYPE_P_codes = [
   (''000001'', 17), (''00001'', 18), (''00010'', 26), (''00011'', 1), (''001'', 8), (''01'', 2), (''1'', 10)]"

definition MACROBLOCK_TYPE_B_codes :: "(string \<times> int) list" where
  "MACROBLOCK_TYPE_B_codes = [
   (''000001'', 17), (''000010'', 22), (''000011'', 26), (''00010'', 30), (''00011'', 1), (''0010'', 8),
   (''0011'', 10), (''010'', 4), (''011'', 6), (''10'', 12), (''11'', 14)]"

definition CODE_BLOCK_PATTERN_codes :: "(string \<times> int) list" where
  "CODE_BLOCK_PATTERN_codes = [
   (''000000010'', 39), (''000000011'', 27), (''000000100'', 59), (''000000101'', 55), (''000000110'', 47),
   (''000000111'', 31), (''00000100'', 58), (''00000101'', 54), (''00000110'', 46), (''00000111'', 30),
   (''00001000'', 57), (''00001001'', 53), (''00001010'', 45), (''00001011'', 29), (''00001100'', 38),
   (''00001101'', 26), (''00001110'', 37), (''00001111'', 25), (''00010000'', 43), (''00010001'', 23),
   (''00010010'', 51), (''00010011'', 15), (''00010100'', 42), (''00010101'', 22), (''00010110'', 50),
   (''00010111'', 14), (''00011000'', 41), (''00011001'', 21), (''00011010'', 49), (''00011011'', 13),
   (''00011100'', 35), (''00011101'', 19), (''00011110'', 11), (''00011111'', 7), (''0010000'', 34),
   (''0010001'', 18), (''0010010'', 10), (''0010011'', 6), (''0010100'', 33), (''0010101'', 17), (''0010110'', 9),
   (''0010111'', 5), (''001100'', 63), (''001101'', 3), (''001110'', 36), (''001111'', 24), (''01000'', 62),
   (''01001'', 2), (''01010'', 61), (''01011'', 1), (''01100'', 56), (''01101'', 52), (''01110'', 44),
   (''01111'', 28), (''10000'', 40), (''10001'', 20), (''10010'', 48), (''10011'', 12), (''1010'', 32),
   (''1011'', 16), (''1100'', 8), (''1101'', 4), (''111'', 60)]"

definition MOTION_codes :: "(string \<times> int) list" where
  "MOTION_codes = [
   (''00000011000'', 16), (''00000011001'', -16), (''00000011010'', 15), (''00000011011'', -15),
   (''00000011100'', 14), (''00000011101'', -14), (''00000011110'', 13), (''00000011111'', -13),
   (''00000100000'', 12), (''00000100001'', -12), (''00000100010'', 11), (''00000100011'', -11),
   (''0000010010'', 10), (''0000010011'', -10), (''0000010100'', 9), (''0000010101'', -9), (''0000010110'', 8),
   (''0000010111'', -8), (''00000110'', 7), (''00000111'', -7), (''00001000'', 6), (''00001001'', -6),
   (''00001010'', 5), (''00001011'', -5), (''0000110'', 4), (''0000111'', -4), (''00010'', 3), (''00011'', -3),
   (''0010'', 2), (''0011'', -2), (''010'', 1), (''011'', -1), (''1'', 0)]"

definition DCT_DC_SIZE_LUMINANCE_codes :: "(string \<times> int) list" where
  "DCT_DC_SIZE_LUMINANCE_codes = [
   (''00'', 1), (''01'', 2), (''100'', 0), (''101'', 3), (''110'', 4), (''1110'', 5), (''11110'', 6),
   (''111110'', 7), (''1111110'', 8)]"

definition DCT_DC_SIZE_CHROMINANCE_codes :: "(string \<times> int) list" where
  "DCT_DC_SIZE_CHROMINANCE_codes = [
   (''00'', 0), (''01'', 1), (''10'', 2), (''110'', 3), (''1110'', 4), (''11110'', 5), (''111110'', 6),
   (''1111110'', 7), (''11111110'', 8)]"

definition DCT_COEFF_codes :: "(string \<times> int) list" where
  "DCT_COEFF_codes = [
   (''0000000000010000'', 274), (''0000000000010001'', 273), (''0000000000010010'', 272),
   (''0000000000010011'', 271), (''0000000000010100'', 1539), (''0000000000010101'', 4098),
   (''0000000000010110'', 3842), (''0000000000010111'', 3586), (''0000000000011000'', 3330),
   (''0000000000011001'', 3074), (''0000000000011010'', 2818), (''0000000000011011'', 7937),
   (''0000000000011100'', 7681), (''0000000000011101'', 7425), (''0000000000011110'', 7169),
   (''0000000000011111'', 6913), (''000000000010000'', 40), (''000000000010001'', 39), (''000000000010010'', 38),
   (''000000000010011'', 37), (''000000000010100'', 36), (''000000000010101'', 35), (''000000000010110'', 34),
   (''000000000010111'', 33), (''000000000011000'', 32), (''000000000011001'', 270), (''000000000011010'', 269),
   (''000000000011011'', 268), (''000000000011100'', 267), (''000000000011101'', 266), (''000000000011110'', 265),
   (''000000000011111'', 264), (''00000000010000'', 31), (''00000000010001'', 30), (''00000000010010'', 29),
   (''00000000010011'', 28), (''00000000010100'', 27), (''00000000010101'', 26), (''00000000010110'', 25),
   (''00000000010111'', 24), (''00000000011000'', 23), (''00000000011001'', 22), (''00000000011010'', 21),
   (''00000000011011'', 20), (''00000000011100'', 19), (''00000000011101'', 18), (''00000000011110'', 17),
   (''00000000011111'', 16), (''0000000010000'', 2562), (''0000000010001'', 2306), (''0000000010010'', 1283),
   (''0000000010011'', 772), (''0000000010100'', 517), (''0000000010101'', 263), (''0000000010110'', 262),
   (''0000000010111'', 15), (''0000000011000'', 14), (''0000000011001'', 13), (''0000000011010'', 12),
   (''0000000011011'', 6657), (''0000000011100'', 6401), (''0000000011101'', 6145), (''0000000011110'', 5889),
   (''0000000011111'', 5633), (''000000010000'', 11), (''000000010001'', 2050), (''000000010010'', 1027),
   (''000000010011'', 10), (''000000010100'', 516), (''000000010101'', 1794), (''000000010110'', 5377),
   (''000000010111'', 5121), (''000000011000'', 9), (''000000011001'', 4865), (''000000011010'', 4609),
   (''000000011011'', 261), (''000000011100'', 771), (''000000011101'', 8), (''000000011110'', 1538),
   (''000000011111'', 4353), (''0000001000'', 4097), (''0000001001'', 1282), (''0000001010'', 7),
   (''0000001011'', 515), (''0000001100'', 260), (''0000001101'', 3841), (''0000001110'', 3585),
   (''0000001111'', 1026), (''000001'', 65535), (''0000100'', 514), (''0000101'', 2305), (''0000110'', 4),
   (''0000111'', 2049), (''000100'', 1793), (''000101'', 1537), (''000110'', 258), (''000111'', 1281),
   (''00100000'', 3329), (''00100001'', 6), (''00100010'', 3073), (''00100011'', 2817), (''00100100'', 770),
   (''00100101'', 259), (''00100110'', 5), (''00100111'', 2561), (''00101'', 3), (''00110'', 1025),
   (''00111'', 769), (''0100'', 2), (''0101'', 513), (''011'', 257), (''1'', 1)]"

definition code_tables :: "(int list \<times> (string \<times> int) list) list" where
  "code_tables = [
     (MACROBLOCK_ADDRESS_INCREMENT, MACROBLOCK_ADDRESS_INCREMENT_codes), (MACROBLOCK_TYPE_I, MACROBLOCK_TYPE_I_codes),
     (MACROBLOCK_TYPE_P, MACROBLOCK_TYPE_P_codes), (MACROBLOCK_TYPE_B, MACROBLOCK_TYPE_B_codes),
     (CODE_BLOCK_PATTERN, CODE_BLOCK_PATTERN_codes), (MOTION, MOTION_codes),
     (DCT_DC_SIZE_LUMINANCE, DCT_DC_SIZE_LUMINANCE_codes), (DCT_DC_SIZE_CHROMINANCE, DCT_DC_SIZE_CHROMINANCE_codes),
     (DCT_COEFF, DCT_COEFF_codes)]"

definition code_word :: "string \<Rightarrow> bool list" where
  "code_word s = map (\<lambda>c. c = CHR ''1'') s"

subsection \<open>All ways through a table\<close>

text \<open>The bits that the reader delivers next, one at a time.\<close>

fun next_bits :: "bit_reader \<Rightarrow> nat \<Rightarrow> bool list" where
  "next_bits r 0 = []"
| "next_bits r (Suc n) = (nextBits r 1 = 1) # next_bits (advance 1 r) n"

text \<open>Every path from a row to the end of the loop, with the value returned there.\<close>

fun exits :: "nat \<Rightarrow> int list \<Rightarrow> int \<Rightarrow> (bool list \<times> number) list option" where
  "exits 0 T state = None"
| "exits (Suc fuel) T state =
     (let go = (\<lambda>b. case elem T (state + of_bool b) of
           None \<Rightarrow> Some [([b], None)]
         | Some s \<Rightarrow> if s \<ge> 0 \<and> elem T s \<noteq> Some 0 then map_option (map (\<lambda>(p, v). (b # p, v))) (exits fuel T s)
                    else Some [([b], elem T (s + 2))])
      in case (go False, go True) of (Some xs, Some ys) \<Rightarrow> Some (xs @ ys) | _ \<Rightarrow> None)"

lemma nextBits_1: "nextBits r 1 = of_bool (nextBits r 1 = 1)"
proof -
  have "shr 255 7 = 1" by code_simp
  moreover have "1 \<le> 8 - js_rem (bitIndex r) 8"
    using pos_mod_bound [of 8 "\<bar>bitIndex r\<bar>"] pos_mod_sign [of 8 "\<bar>bitIndex r\<bar>"]
    by (cases "bitIndex r" "0 :: int" rule: linorder_cases) (simp_all add: js_rem_def)
  ultimately have "\<exists>x. nextBits r 1 = x mod 2" by (simp add: nextBits_def Let_def and_one_eq) blast
  then show ?thesis by auto
qed

lemma readCode_step:
  "readCode_from T state r =
     (let r' = advance 1 r; b = (nextBits r 1 = 1)
      in case elem T (state + of_bool b) of
           None \<Rightarrow> Some (None, r')
         | Some s \<Rightarrow> if s \<ge> 0 \<and> elem T s \<noteq> Some 0 then readCode_from T s r' else Some (elem T (s + 2), r'))"
  using nextBits_1 [of r] by (subst readCode_from.simps) (simp add: getBits_def Let_def)

text \<open>One of the ways is the one that the bits of the reader take.\<close>

lemma exits_cover:
  "exits fuel T state = Some E \<Longrightarrow>
     \<exists>(p, v) \<in> set E. next_bits r (length p) = p \<and> readCode_from T state r = Some (v, advance (int (length p)) r)"
proof (induction fuel arbitrary: state r E)
  case (Suc fuel)
  define b where "b = (nextBits r 1 = 1)"
  define go where "go = (\<lambda>b. case elem T (state + of_bool b) of
           None \<Rightarrow> Some [([b], None)]
         | Some s \<Rightarrow> if s \<ge> 0 \<and> elem T s \<noteq> Some 0 then map_option (map (\<lambda>(p, v). (b # p, v))) (exits fuel T s)
                    else Some [([b], elem T (s + 2))])"
  have "(case (go False, go True) of (Some xs, Some ys) \<Rightarrow> Some (xs @ ys) | _ \<Rightarrow> None) = Some E"
    using Suc.prems unfolding exits.simps Let_def go_def .
  then obtain zs where zs: "go b = Some zs" "set zs \<subseteq> set E" by (cases b) (auto split: option.splits)
  note step = readCode_step [of T state r, folded b_def, unfolded Let_def]
  have "\<exists>(p, v) \<in> set zs. next_bits r (length p) = p \<and> readCode_from T state r = Some (v, advance (int (length p)) r)"
  proof (cases "elem T (state + of_bool b)")
    case (Some s)
    show ?thesis
    proof (cases "s \<ge> 0 \<and> elem T s \<noteq> Some 0")
      case True
      with Some zs(1) obtain E' where E': "exits fuel T s = Some E'" "zs = map (\<lambda>(p, v). (b # p, v)) E'" by (auto simp: go_def)
      from Suc.IH [OF E'(1), of "advance 1 r"] obtain p v where "(p, v) \<in> set E'" "next_bits (advance 1 r) (length p) = p"
        "readCode_from T s (advance 1 r) = Some (v, advance (1 + int (length p)) r)" by auto
      then show ?thesis using Some True step by (intro bexI [of _ "(b # p, v)"]) (auto simp: E'(2) b_def intro!: image_eqI [of _ _ "(p, v)"])
    qed (use Some zs(1) step in \<open>auto simp: go_def b_def\<close>)
  qed (use zs(1) step in \<open>auto simp: go_def b_def\<close>)
  then show ?case using zs(2) by blast
qed simp

text \<open>And the bits determine the way: following a path of bits from a row.\<close>

fun follow :: "int list \<Rightarrow> int \<Rightarrow> bool list \<Rightarrow> number option" where
  "follow T state [] = None"
| "follow T state (b # p) =
     (case elem T (state + of_bool b) of
        None \<Rightarrow> if p = [] then Some None else None
      | Some s \<Rightarrow> if s \<ge> 0 \<and> elem T s \<noteq> Some 0 then follow T s p else if p = [] then Some (elem T (s + 2)) else None)"

lemma exits_follow: "exits fuel T state = Some E \<Longrightarrow> (p, v) \<in> set E \<Longrightarrow> follow T state p = Some v"
proof (induction fuel arbitrary: state E p)
  case (Suc fuel)
  then show ?case
    by (auto simp: Let_def split: option.splits if_splits)
qed simp

lemma follow_reads:
  "follow T state p = Some v \<Longrightarrow> next_bits r (length p) = p \<Longrightarrow> readCode_from T state r = Some (v, advance (int (length p)) r)"
proof (induction p arbitrary: state r)
  case (Cons b p)
  from Cons.prems(2) have b: "b = (nextBits r 1 = 1)" "next_bits (advance 1 r) (length p) = p" by simp_all
  show ?case
    using Cons.prems(1) Cons.IH [of _ "advance 1 r"] b
    by (subst readCode_step) (auto simp: Let_def split: option.splits if_splits)
qed simp

lemma next_bits_prefix: "next_bits r (length p) = p \<Longrightarrow> n \<le> length p \<Longrightarrow> next_bits r n = take n p"
proof (induction p arbitrary: r n)
  case (Cons b p)
  then show ?case by (cases n) auto
qed simp

subsection \<open>The tables are what their comments say\<close>

definition code_list :: "(string \<times> int) list \<Rightarrow> (bool list \<times> int) list" where
  "code_list cs = map (\<lambda>(s, v). (code_word s, v)) cs"

fun agree :: "(bool list \<times> number) list \<Rightarrow> (bool list \<times> int) list \<Rightarrow> number \<Rightarrow> bool" where
  "agree [] cs bad \<longleftrightarrow> cs = []"
| "agree ((p, v) # E) [] bad \<longleftrightarrow> v = bad \<and> agree E [] bad"
| "agree ((p, v) # E) ((q, w) # cs) bad \<longleftrightarrow>
     (if p = q then v = Some w \<and> agree E cs bad else v = bad \<and> agree E ((q, w) # cs) bad)"

definition table_ok :: "int list \<times> (string \<times> int) list \<Rightarrow> bool" where
  "table_ok = (\<lambda>(T, cs). case exits 16 T 0 of None \<Rightarrow> False | Some E \<Rightarrow> agree E (code_list cs) (elem T 1))"

lemma table_ok_small:
  "table_ok (MACROBLOCK_TYPE_I, MACROBLOCK_TYPE_I_codes)" "table_ok (MACROBLOCK_TYPE_P, MACROBLOCK_TYPE_P_codes)"
  "table_ok (MACROBLOCK_TYPE_B, MACROBLOCK_TYPE_B_codes)"
  "table_ok (DCT_DC_SIZE_LUMINANCE, DCT_DC_SIZE_LUMINANCE_codes)"
  "table_ok (DCT_DC_SIZE_CHROMINANCE, DCT_DC_SIZE_CHROMINANCE_codes)"
  by code_simp+

lemma table_ok_increment: "table_ok (MACROBLOCK_ADDRESS_INCREMENT, MACROBLOCK_ADDRESS_INCREMENT_codes)"
  by code_simp

lemma table_ok_pattern: "table_ok (CODE_BLOCK_PATTERN, CODE_BLOCK_PATTERN_codes)"
  by code_simp

lemma table_ok_motion: "table_ok (MOTION, MOTION_codes)"
  by code_simp

lemma table_ok_coeff: "table_ok (DCT_COEFF, DCT_COEFF_codes)"
  by code_simp

lemma tables_ok: "(T, cs) \<in> set code_tables \<Longrightarrow> table_ok (T, cs)"
  unfolding code_tables_def
  using table_ok_small table_ok_increment table_ok_pattern table_ok_motion table_ok_coeff by auto

lemma agree_codes: "agree E cs bad \<Longrightarrow> (q, w) \<in> set cs \<Longrightarrow> (q, Some w) \<in> set E"
  by (induction E cs bad rule: agree.induct) (auto split: if_splits)

lemma agree_exits: "agree E cs bad \<Longrightarrow> (p, v) \<in> set E \<Longrightarrow> v = bad \<or> (\<exists>w. v = Some w \<and> (p, w) \<in> set cs)"
  by (induction E cs bad rule: agree.induct) (auto split: if_splits)

lemma exits_length: "exits fuel T state = Some E \<Longrightarrow> (p, v) \<in> set E \<Longrightarrow> 1 \<le> length p \<and> length p \<le> fuel"
proof (induction fuel arbitrary: state E p)
  case (Suc fuel)
  then show ?case by (fastforce simp: Let_def split: option.splits if_splits)
qed simp

lemma table_exits:
  assumes "(T, cs) \<in> set code_tables"
  obtains E where "exits 16 T 0 = Some E" "agree E (code_list cs) (elem T 1)"
  using tables_ok [OF assms] by (auto simp: table_ok_def split: option.splits)

lemma readCode_word:
  assumes "(T, cs) \<in> set code_tables" "(s, w) \<in> set cs" "next_bits r (length s) = code_word s"
  shows "readCode T r = Some (Some w, advance (int (length s)) r)"
proof -
  obtain E where E: "exits 16 T 0 = Some E" "agree E (code_list cs) (elem T 1)" by (rule table_exits [OF assms(1)])
  have "(code_word s, w) \<in> set (code_list cs)" using assms(2) by (force simp: code_list_def)
  then have "follow T 0 (code_word s) = Some (Some w)" using E agree_codes exits_follow by blast
  then show ?thesis
    using follow_reads [of T 0 "code_word s" "Some w" r] assms(3) by (simp add: readCode_def code_word_def)
qed

lemma readCode_total:
  assumes "(T, cs) \<in> set code_tables"
  obtains n v where "readCode T r = Some (v, advance (int n) r)" "1 \<le> n" "n \<le> 16"
    "v = elem T 1 \<or> (\<exists>s w. (s, w) \<in> set cs \<and> v = Some w \<and> n = length s \<and> next_bits r n = code_word s)"
proof -
  obtain E where E: "exits 16 T 0 = Some E" "agree E (code_list cs) (elem T 1)" by (rule table_exits [OF assms(1)])
  obtain p v where p: "(p, v) \<in> set E" "next_bits r (length p) = p" "readCode T r = Some (v, advance (int (length p)) r)"
    using exits_cover [OF E(1), of r] by (auto simp: readCode_def)
  have "v = elem T 1 \<or> (\<exists>s w. (s, w) \<in> set cs \<and> v = Some w \<and> length p = length s \<and> next_bits r (length p) = code_word s)"
    using agree_exits [OF E(2) p(1)] p(2) by (auto simp: code_list_def code_word_def)
  with p exits_length [OF E(1) p(1)] show thesis by (intro that) auto
qed

text \<open>
  C17. The nine tables are the code words that the comments beside them give.  Whatever bits follow, \<^verbatim>\<open>readCode\<close> returns after 1
  to 16 bits: if a code word of the table is next, its value, having read exactly that word; if none is, it returns the
  table's second number, because \<^verbatim>\<open>-1\<close> is used as an index like any other row.
\<close>

theorem readCode_decodes_tables:
  assumes "(T, cs) \<in> set code_tables"
  shows "\<exists>v n. readCode T r = Some (v, advance (int n) r) \<and> 1 \<le> n \<and> n \<le> 16 \<and>
     (if \<exists>(s, w) \<in> set cs. next_bits r (length s) = code_word s
      then \<exists>(s, w) \<in> set cs. v = Some w \<and> n = length s \<and> next_bits r n = code_word s
      else v = elem T 1)"
proof -
  obtain n v where n: "readCode T r = Some (v, advance (int n) r)" "1 \<le> n" "n \<le> 16"
    "v = elem T 1 \<or> (\<exists>s w. (s, w) \<in> set cs \<and> v = Some w \<and> n = length s \<and> next_bits r n = code_word s)"
    by (rule readCode_total [OF assms, of r])
  have eq: "v = Some w \<and> n = length s" if "(s, w) \<in> set cs" "next_bits r (length s) = code_word s" for s w
    using readCode_word [OF assms that] n(1) by (auto simp: advance_def dest: arg_cong [of _ _ bitIndex])
  show ?thesis
  proof (cases "\<exists>(s, w) \<in> set cs. next_bits r (length s) = code_word s")
    case True
    then have "\<exists>(s, w) \<in> set cs. v = Some w \<and> n = length s \<and> next_bits r n = code_word s" using eq by fastforce
    with True n(1-3) show ?thesis by auto
  next
    case False
    with n have "v = elem T 1" by fastforce
    with False n(1-3) show ?thesis by auto
  qed
qed

theorem readCode_decodes_tables_witness:
  "\<exists>v n. readCode MOTION (BitReader [0x34]) = Some (v, advance (int n) (BitReader [0x34])) \<and> 1 \<le> n \<and> n \<le> 16 \<and>
     (\<exists>(s, w) \<in> set MOTION_codes. v = Some w \<and> n = length s \<and> next_bits (BitReader [0x34]) n = code_word s)"
proof -
  have "(''0011'', -2) \<in> set MOTION_codes" by (simp add: MOTION_codes_def)
  moreover have "next_bits (BitReader [0x34]) (length ''0011'') = code_word ''0011''" by code_simp
  ultimately have "\<exists>(s, w) \<in> set MOTION_codes. next_bits (BitReader [0x34]) (length s) = code_word s" by blast
  moreover have "(MOTION, MOTION_codes) \<in> set code_tables" by (simp add: code_tables_def)
  ultimately show ?thesis using readCode_decodes_tables [of MOTION MOTION_codes "BitReader [0x34]"] by simp
qed

lemma next_bits_stream:
  "bitIndex r = int k \<Longrightarrow> k + n < 2 ^ 31 \<Longrightarrow> next_bits r n = stream_bits (bytes r) k n"
proof (induction n arbitrary: r k)
  case (Suc n)
  then show ?case
    using getBits_1 [of r k] Suc.IH [of "advance 1 r" "Suc k"] by (simp add: stream_bits_Cons getBits_def)
qed simp

end
