(* ===== verification/Mpeg_Block.thy ===== *)
theory Mpeg_Block
  imports Vlc_Tables
begin

text \<open>
  The block layer of the page's video player (src/WebServer/public/lib/jsmpg.js): reading the coefficients of a block of
  8 by 8 samples (the first half of \<^verbatim>\<open>decodeBlock\<close>), the inverse cosine transform \<^verbatim>\<open>IDCT\<close>, and writing a block into a
  plane of the picture.  Shown are that a block written with any of the codes that the tables allow is read back, that the
  short cut for a block with one coefficient gives what the transform would, where the samples of a block land, and that
  the writing routines for browsers without clamping arrays agree with the others.
\<close>

subsection \<open>Constants\<close>

definition ZIG_ZAG :: "int list" where
  "ZIG_ZAG = [
     0,  1,  8, 16,  9,  2,  3, 10,
    17, 24, 32, 25, 18, 11,  4,  5,
    12, 19, 26, 33, 40, 48, 41, 34,
    27, 20, 13,  6,  7, 14, 21, 28,
    35, 42, 49, 56, 57, 50, 43, 36,
    29, 22, 15, 23, 30, 37, 44, 51,
    58, 59, 52, 45, 38, 31, 39, 46,
    53, 60, 61, 54, 47, 55, 62, 63]"

definition DEFAULT_INTRA_QUANT_MATRIX :: "u8 list" where
  "DEFAULT_INTRA_QUANT_MATRIX = [
     8, 16, 19, 22, 26, 27, 29, 34,
    16, 16, 22, 24, 27, 29, 34, 37,
    19, 22, 26, 27, 29, 34, 34, 38,
    22, 22, 26, 27, 29, 34, 37, 40,
    22, 26, 27, 29, 32, 35, 40, 48,
    26, 27, 29, 32, 35, 40, 48, 58,
    26, 27, 29, 34, 38, 46, 56, 69,
    27, 29, 35, 38, 46, 56, 69, 83]"

definition DEFAULT_NON_INTRA_QUANT_MATRIX :: "u8 list" where
  "DEFAULT_NON_INTRA_QUANT_MATRIX = replicate 64 16"

definition PREMULTIPLIER_MATRIX :: "int list" where
  "PREMULTIPLIER_MATRIX = [
    32, 44, 42, 38, 32, 25, 17,  9,
    44, 62, 58, 52, 44, 35, 24, 12,
    42, 58, 55, 49, 42, 33, 23, 12,
    38, 52, 49, 44, 38, 30, 20, 10,
    32, 44, 42, 38, 32, 25, 17,  9,
    25, 35, 33, 30, 25, 20, 14,  7,
    17, 24, 23, 20, 17, 14,  9,  5,
     9, 12, 12, 10,  9,  7,  5,  2]"

subsection \<open>Reading the coefficients\<close>

text \<open>The DC coefficient of an intra-coded block: the size of the difference to the predictor, then the difference.\<close>

definition read_dc :: "int list \<Rightarrow> int \<Rightarrow> bit_reader \<Rightarrow> (int \<times> bit_reader) option" where
  "read_dc table predictor r =
     (case readCode table r of
        None \<Rightarrow> None
      | Some (dctSize, r) \<Rightarrow>
          (case dctSize of
             None \<Rightarrow> Some (to_int32 predictor, r)
           | Some k \<Rightarrow>
               if k > 0 then
                 let (differential, r) = getBits k r
                 in if to_int32 differential AND shl 1 (k - 1) \<noteq> 0
                    then Some (to_int32 (predictor + differential), r)
                    else Some (to_int32 (predictor + (shl (-1) k OR to_int32 (differential + 1))), r)
               else Some (to_int32 predictor, r)))"

text \<open>Dequantize, oddify, clip; a position outside the block reads \<^verbatim>\<open>undefined\<close> from the matrix.\<close>

definition dequantize :: "bool \<Rightarrow> int \<Rightarrow> number \<Rightarrow> int \<Rightarrow> int" where
  "dequantize intra quantizerScale q level =
     (let level = shl level 1;
        level = (if intra then level else level + (if level < 0 then -1 else 1));
        level = shr (int32 (map_option (\<lambda>m. level * quantizerScale * m) q)) 4;
        level = (if to_int32 level AND 1 = 0 then level - (if level > 0 then 1 else -1) else level)
      in if level > 2047 then 2047 else if level < -2048 then -2048 else level)"

text \<open>Run and level of a code that is not the end of the block.\<close>

definition read_level :: "number \<Rightarrow> bit_reader \<Rightarrow> (int \<times> int) \<times> bit_reader" where
  "read_level coeff r =
     (if coeff = Some 0xffff then
        let (run, r) = getBits 6 r; (level, r) = getBits 8 r
        in if level = 0 then let (level, r) = getBits 8 r in ((run, level), r)
           else if level = 128 then let (level, r) = getBits 8 r in ((run, level - 256), r)
           else if level > 128 then ((run, level - 256), r)
           else ((run, level), r)
      else
        let run = shr (int32 coeff) 8; level = int32 coeff AND 0xff; (sign, r) = getBits 1 r
        in ((run, if sign \<noteq> 0 then - level else level), r))"

definition store_coeff :: "bool \<Rightarrow> int \<Rightarrow> u8 list \<Rightarrow> int \<Rightarrow> int \<Rightarrow> int list \<Rightarrow> int list" where
  "store_coeff intra quantizerScale quantMatrix n level blockData =
     (let dezigZagged = elem ZIG_ZAG n;
        level = dequantize intra quantizerScale (Option.bind dezigZagged (byte_at quantMatrix)) level
      in case dezigZagged of
           None \<Rightarrow> blockData
         | Some z \<Rightarrow> put blockData z (to_int32 (level * (PREMULTIPLIER_MATRIX ! nat z))))"

text \<open>The loop over the AC coefficients (and the DC coefficient of blocks that are not intra-coded).\<close>

partial_function (option) read_coeffs ::
  "bool \<Rightarrow> int \<Rightarrow> u8 list \<Rightarrow> int \<Rightarrow> int list \<Rightarrow> bit_reader \<Rightarrow> (int \<times> int list \<times> bit_reader) option" where
  "read_coeffs intra quantizerScale quantMatrix n blockData r =
     Option.bind (readCode DCT_COEFF r) (\<lambda>(coeff, r).
       let (again, r) = (if coeff = Some 1 \<and> n > 0 then getBits 1 r else (1, r))
       in if again = 0 then Some (n, blockData, r)
          else
            let ((run, level), r) = read_level coeff r;
              n = n + run
            in read_coeffs intra quantizerScale quantMatrix (n + 1)
                 (store_coeff intra quantizerScale quantMatrix n level blockData) r)"

subsection \<open>The inverse cosine transform\<close>

text \<open>The arithmetic on eight numbers, which the source writes out once for the columns and once for the rows.\<close>

definition idct8 :: "int list \<Rightarrow> int list" where
  "idct8 a =
     (let b1 = a ! 4;
        b3 = a ! 2 + a ! 6;
        b4 = a ! 5 - a ! 3;
        tmp1 = a ! 1 + a ! 7;
        tmp2 = a ! 3 + a ! 5;
        b6 = a ! 1 - a ! 7;
        b7 = tmp1 + tmp2;
        m0 = a ! 0;
        x4 = shr (b6 * 473 - b4 * 196 + 128) 8 - b7;
        x0 = x4 - shr ((tmp1 - tmp2) * 362 + 128) 8;
        x1 = m0 - b1;
        x2 = shr ((a ! 2 - a ! 6) * 362 + 128) 8 - b3;
        x3 = m0 + b1;
        y3 = x1 + x2;
        y4 = x3 + b3;
        y5 = x1 - x2;
        y6 = x3 - b3;
        y7 = - x0 - shr (b4 * 473 + b6 * 196 + 128) 8
      in [b7 + y4, x4 + y3, y5 - x0, y6 - y7, y6 + y7, x0 + y5, y3 - x4, y4 - b7])"

definition transform_column :: "nat \<Rightarrow> int list \<Rightarrow> int list" where
  "transform_column i blockData =
     (let out = idct8 (map (\<lambda>k. blockData ! (k * 8 + i)) [0..<8])
      in fold (\<lambda>k b. b[k * 8 + i := to_int32 (out ! k)]) [0..<8] blockData)"

definition transform_row :: "nat \<Rightarrow> int list \<Rightarrow> int list" where
  "transform_row i blockData =
     (let out = idct8 (map (\<lambda>k. blockData ! (k + 8 * i)) [0..<8])
      in fold (\<lambda>k b. b[k + 8 * i := to_int32 (shr (out ! k + 128) 8)]) [0..<8] blockData)"

definition IDCT :: "int list \<Rightarrow> int list" where
  "IDCT blockData = fold transform_row [0..<8] (fold transform_column [0..<8] blockData)"

subsection \<open>Writing a block into a plane\<close>

text \<open>The loops shared by the routines below: sample \<open>j\<close> of row \<open>n\<close> is computed from the sample it replaces.\<close>

definition block_samples :: "(nat \<Rightarrow> nat \<Rightarrow> number \<Rightarrow> u8) \<Rightarrow> u8 list \<Rightarrow> int \<Rightarrow> int \<Rightarrow> u8 list" where
  "block_samples f destArray destIndex scan =
     fold (\<lambda>n d. fold (\<lambda>j d. let i = destIndex + int n * (scan + 8) + int j in put d i (f n j (byte_at d i))) [0..<8] d)
       [0..<8] destArray"

text \<open>\<open>store\<close> is the conversion of the array's type: \<open>clamped8\<close>, or \<open>wrapped8\<close> where the browser has no clamping arrays.\<close>

definition copyBlockToDestination :: "(number \<Rightarrow> u8) \<Rightarrow> int list \<Rightarrow> u8 list \<Rightarrow> int \<Rightarrow> int \<Rightarrow> u8 list" where
  "copyBlockToDestination store blockData destArray destIndex scan =
     block_samples (\<lambda>n j old. store (Some (blockData ! (8 * n + j)))) destArray destIndex scan"

definition addBlockToDestination :: "(number \<Rightarrow> u8) \<Rightarrow> int list \<Rightarrow> u8 list \<Rightarrow> int \<Rightarrow> int \<Rightarrow> u8 list" where
  "addBlockToDestination store blockData destArray destIndex scan =
     block_samples (\<lambda>n j old. store (nadd old (Some (blockData ! (8 * n + j))))) destArray destIndex scan"

definition copyValueToDestination :: "(number \<Rightarrow> u8) \<Rightarrow> int \<Rightarrow> u8 list \<Rightarrow> int \<Rightarrow> int \<Rightarrow> u8 list" where
  "copyValueToDestination store v destArray destIndex scan = block_samples (\<lambda>n j old. store (Some v)) destArray destIndex scan"

definition addValueToDestination :: "(number \<Rightarrow> u8) \<Rightarrow> int \<Rightarrow> u8 list \<Rightarrow> int \<Rightarrow> int \<Rightarrow> u8 list" where
  "addValueToDestination store v destArray destIndex scan =
     block_samples (\<lambda>n j old. store (nadd old (Some v))) destArray destIndex scan"

text \<open>The versions that clamp by hand, for arrays that do not.\<close>

definition clamp :: "number \<Rightarrow> number" where
  "clamp p = (case p of None \<Rightarrow> None | Some p \<Rightarrow> Some (if p > 255 then 255 else if p < 0 then 0 else p))"

definition copyBlockToDestinationClamp :: "int list \<Rightarrow> u8 list \<Rightarrow> int \<Rightarrow> int \<Rightarrow> u8 list" where
  "copyBlockToDestinationClamp blockData destArray destIndex scan =
     block_samples (\<lambda>n j old. wrapped8 (clamp (Some (blockData ! (8 * n + j))))) destArray destIndex scan"

definition addBlockToDestinationClamp :: "int list \<Rightarrow> u8 list \<Rightarrow> int \<Rightarrow> int \<Rightarrow> u8 list" where
  "addBlockToDestinationClamp blockData destArray destIndex scan =
     block_samples (\<lambda>n j old. wrapped8 (clamp (nadd (Some (blockData ! (8 * n + j))) old))) destArray destIndex scan"

section \<open>Properties\<close>

subsection \<open>The transform\<close>

lemma fold_update_length [simp]: "length (fold (\<lambda>k b. b[g k := h k]) ks xs) = length xs"
  by (induction ks arbitrary: xs) simp_all

lemma fold_update_miss: "j \<notin> g ` set ks \<Longrightarrow> fold (\<lambda>k b. b[g k := h k]) ks xs ! j = xs ! j"
  by (induction ks arbitrary: xs) auto

lemma fold_update_hit:
  "distinct (map g ks) \<Longrightarrow> k \<in> set ks \<Longrightarrow> g k < length xs \<Longrightarrow> fold (\<lambda>k b. b[g k := h k]) ks xs ! g k = h k"
proof (induction ks arbitrary: xs)
  case (Cons a ks)
  show ?case
  proof (cases "k = a")
    case True
    with Cons.prems have "g k \<notin> g ` set ks" by auto
    with True Cons.prems show ?thesis by (simp add: fold_update_miss)
  next
    case False
    with Cons show ?thesis by simp
  qed
qed simp

definition column_of :: "int list \<Rightarrow> nat \<Rightarrow> int list" where
  "column_of b c = map (\<lambda>k. b ! (k * 8 + c)) [0..<8]"

definition row_of :: "int list \<Rightarrow> nat \<Rightarrow> int list" where
  "row_of b r = map (\<lambda>k. b ! (k + 8 * r)) [0..<8]"

lemma length_transform [simp]:
  "length (transform_column i b) = length b" "length (transform_row i b) = length b"
  by (simp_all add: transform_column_def transform_row_def Let_def)

lemma transform_column_nth:
  assumes "length b = 64" "r < 8" "c < 8" "i < 8"
  shows "transform_column i b ! (r * 8 + c) = (if c = i then to_int32 (idct8 (column_of b i) ! r) else b ! (r * 8 + c))"
proof (cases "c = i")
  case True
  have "distinct (map (\<lambda>k. k * 8 + i) [0..<8])" by (simp add: distinct_map inj_on_def)
  then show ?thesis
    using assms True fold_update_hit [of "\<lambda>k. k * 8 + i" "[0..<8]" r b]
    by (simp add: transform_column_def column_of_def Let_def)
next
  case False
  have "r * 8 + c \<notin> (\<lambda>k. k * 8 + i) ` set [0..<8]"
  proof
    assume "r * 8 + c \<in> (\<lambda>k. k * 8 + i) ` set [0..<8]"
    then obtain k where "r * 8 + c = k * 8 + i" by auto
    then have "(r * 8 + c) mod 8 = (k * 8 + i) mod 8" by simp
    then show False using assms False by simp
  qed
  then show ?thesis using False by (simp add: transform_column_def fold_update_miss Let_def)
qed

lemma transform_row_nth:
  assumes "length b = 64" "r < 8" "c < 8" "i < 8"
  shows "transform_row i b ! (r * 8 + c) = (if r = i then to_int32 (shr (idct8 (row_of b i) ! c + 128) 8) else b ! (r * 8 + c))"
proof (cases "r = i")
  case True
  have "distinct (map (\<lambda>k. k + 8 * i) [0..<8])" by (simp add: distinct_map inj_on_def)
  then show ?thesis
    using assms True fold_update_hit [of "\<lambda>k. k + 8 * i" "[0..<8]" c b]
    by (simp add: transform_row_def row_of_def Let_def add.commute mult.commute)
next
  case False
  have "r * 8 + c \<notin> (\<lambda>k. k + 8 * i) ` set [0..<8]"
  proof
    assume "r * 8 + c \<in> (\<lambda>k. k + 8 * i) ` set [0..<8]"
    then obtain k where "r * 8 + c = k + 8 * i" "k < 8" by (elim imageE) simp
    then have "(r * 8 + c) div 8 = (k + 8 * i) div 8" by simp
    then show False using assms False \<open>k < 8\<close> by simp
  qed
  then show ?thesis using False by (simp add: transform_row_def fold_update_miss Let_def)
qed

text \<open>All columns, then all rows.\<close>

lemma transform_columns_nth:
  assumes "length b = 64" "r < 8" "c < 8" "n \<le> 8"
  shows "length (fold transform_column [0..<n] b) = 64 \<and>
    fold transform_column [0..<n] b ! (r * 8 + c) = (if c < n then to_int32 (idct8 (column_of b c) ! r) else b ! (r * 8 + c))"
  using assms
proof (induction n arbitrary: r c)
  case (Suc n)
  let ?b = "fold transform_column [0..<n] b"
  have len: "length ?b = 64" using Suc.IH [of 0 0] Suc.prems(1,4) by simp
  have "column_of ?b n = column_of b n" using Suc.IH [of _ n] Suc.prems(1,4) by (simp add: column_of_def)
  then show ?case
    using Suc.IH [of r c] Suc.prems len by (auto simp: transform_column_nth)
qed simp

lemma transform_rows_nth:
  assumes "length b = 64" "r < 8" "c < 8" "n \<le> 8"
  shows "length (fold transform_row [0..<n] b) = 64 \<and>
    fold transform_row [0..<n] b ! (r * 8 + c) =
      (if r < n then to_int32 (shr (idct8 (row_of b r) ! c + 128) 8) else b ! (r * 8 + c))"
  using assms
proof (induction n arbitrary: r c)
  case (Suc n)
  let ?b = "fold transform_row [0..<n] b"
  have len: "length ?b = 64" using Suc.IH [of 0 0] Suc.prems(1,4) by simp
  have "row_of ?b n = row_of b n"
    using Suc.IH [of n] Suc.prems(1,4) by (auto simp: row_of_def add.commute mult.commute)
  then show ?case
    using Suc.IH [of r c] Suc.prems len by (auto simp: transform_row_nth)
qed simp

lemma IDCT_nth:
  assumes "length b = 64" "r < 8" "c < 8"
  shows "length (IDCT b) = 64 \<and> IDCT b ! (r * 8 + c) =
    to_int32 (shr (idct8 (map (\<lambda>k. to_int32 (idct8 (column_of b k) ! r)) [0..<8]) ! c + 128) 8)"
proof -
  let ?b = "fold transform_column [0..<8] b"
  have len: "length ?b = 64" using transform_columns_nth [of b 0 0 8] assms(1) by simp
  have "row_of ?b r = map (\<lambda>k. to_int32 (idct8 (column_of b k) ! r)) [0..<8]"
    unfolding row_of_def
  proof (rule map_cong [OF refl])
    fix k assume "k \<in> set [0..<8]"
    then have "k < 8" by simp
    then show "?b ! (k + 8 * r) = to_int32 (idct8 (column_of b k) ! r)"
      using transform_columns_nth [of b r k 8] assms by (simp add: add.commute mult.commute)
  qed
  then show ?thesis using transform_rows_nth [of ?b r c 8] assms len by (simp add: IDCT_def)
qed

lemma idct8_dc: "idct8 (v # replicate 7 0) = replicate 8 v"
proof -
  have "shr 128 8 = 0" by code_simp
  then show ?thesis by (simp add: idct8_def Let_def numeral_eq_Suc)
qed

lemma upt_8: "[0..<8] = [0, 1, 2, 3, 4, 5, 6, 7]"
  by (simp add: upt_rec)

lemma IDCT_dc:
  assumes "- (2 ^ 31) \<le> v" "v < 2 ^ 31"
  shows "IDCT (v # replicate 63 0) = replicate 64 (shr (v + 128) 8)"
proof (rule nth_equalityI)
  let ?b = "v # replicate 63 0"
  show "length (IDCT ?b) = length (replicate 64 (shr (v + 128) 8))" using IDCT_nth [of ?b 0 0] by simp
  fix j assume "j < length (IDCT ?b)"
  then have j: "j < 64" using IDCT_nth [of ?b 0 0] by simp
  define r c where "r = j div 8" and "c = j mod 8"
  have rc: "j = r * 8 + c" "r < 8" "c < 8" using j by (simp_all add: r_def c_def)
  have col: "column_of ?b k = (if k = 0 then v else 0) # replicate 7 0" if "k < 8" for k
    using that by (simp add: column_of_def upt_8 nth_Cons' numeral_eq_Suc)
  have "to_int32 (idct8 (column_of ?b k) ! r) = (if k = 0 then v else 0)" if "k < 8" for k
    using col [OF that] rc(2) assms by (simp add: idct8_dc)
  then have "map (\<lambda>k. to_int32 (idct8 (column_of ?b k) ! r)) [0..<8] = v # replicate 7 0"
    by (simp add: upt_8 numeral_eq_Suc)
  then have "IDCT ?b ! j = to_int32 (shr (v + 128) 8)" using IDCT_nth [of ?b r c] rc by (simp add: idct8_dc)
  moreover have "to_int32 (shr (v + 128) 8) = shr (v + 128) 8"
    using to_int32_range [of "v + 128"] by (intro to_int32_id) (simp_all add: shr_def drop_bit_eq_div)
  ultimately show "IDCT ?b ! j = replicate 64 (shr (v + 128) 8) ! j" using j by simp
qed

subsection \<open>Writing blocks\<close>

lemma fold_product:
  "fold (\<lambda>n d. fold (\<lambda>j d. F n j d) js d) ns d = fold (\<lambda>(n, j) d. F n j d) (List.product ns js) d"
proof (induction ns arbitrary: d)
  case (Cons n ns)
  have "fold (\<lambda>(n, j) d. F n j d) (map (Pair n) js) d = fold (\<lambda>j d. F n j d) js d" by (simp add: fold_map comp_def)
  with Cons show ?case by simp
qed simp

lemma fold_put_length [simp]: "length (fold (\<lambda>k d. put d (g k) (h k (byte_at d (g k)))) ks d) = length d"
  by (induction ks arbitrary: d) simp_all

lemma fold_put_miss:
  "int j \<notin> g ` set ks \<Longrightarrow> j < length d \<Longrightarrow> fold (\<lambda>k d. put d (g k) (h k (byte_at d (g k)))) ks d ! j = d ! j"
  by (induction ks arbitrary: d) (auto simp: nth_put)

lemma fold_put_hit:
  "distinct (map g ks) \<Longrightarrow> k \<in> set ks \<Longrightarrow> g k = int j \<Longrightarrow> j < length d \<Longrightarrow>
     fold (\<lambda>k d. put d (g k) (h k (byte_at d (g k)))) ks d ! j = h k (byte_at d (g k))"
proof (induction ks arbitrary: d)
  case (Cons a ks)
  show ?case
  proof (cases "k = a")
    case True
    with Cons.prems have "int j \<notin> g ` set ks" by (auto simp flip: Cons.prems(3))
    with True Cons.prems show ?thesis by (simp add: fold_put_miss nth_put)
  next
    case False
    with Cons.prems have k: "k \<in> set ks" by simp
    with Cons.prems(1) have "g a \<noteq> g k" by auto
    then have "byte_at (put d (g a) v) (g k) = byte_at d (g k)" for v
      using Cons.prems(3,4) by (simp add: byte_at_def elem_def nth_put)
    with Cons k show ?thesis by simp
  qed
qed simp

definition block_index :: "int \<Rightarrow> int \<Rightarrow> nat \<times> nat \<Rightarrow> int" where
  "block_index destIndex scan = (\<lambda>(n, j). destIndex + int n * (scan + 8) + int j)"

lemma block_samples_fold:
  "block_samples f d destIndex scan =
     fold (\<lambda>k d. put d (block_index destIndex scan k) (case_prod f k (byte_at d (block_index destIndex scan k))))
       (List.product [0..<8] [0..<8]) d"
  unfolding block_samples_def fold_product by (simp add: block_index_def case_prod_unfold Let_def)

lemma block_index_inj:
  assumes "0 \<le> scan"
  shows "distinct (map (block_index destIndex scan) (List.product [0..<8] [0..<8]))"
proof -
  have "inj_on (block_index destIndex scan) (set (List.product [0..<8] [0..<8]))"
  proof (rule inj_onI, clarify)
    fix n j n' j'
    assume a: "(n, j) \<in> set (List.product [0..<8] [0..<8])" "(n', j') \<in> set (List.product [0..<8] [0..<8])"
      "block_index destIndex scan (n, j) = block_index destIndex scan (n', j')"
    then have e: "int n * (scan + 8) + int j = int n' * (scan + 8) + int j'" and j: "j < 8" "j' < 8" by (simp_all add: block_index_def)
    have "(int n * (scan + 8) + int j) div (scan + 8) = int n" "(int n' * (scan + 8) + int j') div (scan + 8) = int n'"
      using j assms by (simp_all add: div_add_self1 div_pos_pos_trivial)
    with e show "n = n' \<and> j = j'" by simp
  qed
  then show ?thesis by (simp add: distinct_map distinct_product)
qed

lemma block_samples_length [simp]: "length (block_samples f d destIndex scan) = length d"
  by (simp add: block_samples_fold)

lemma block_samples_hit:
  assumes "0 \<le> scan" "n < 8" "j < 8" "block_index destIndex scan (n, j) = int i" "i < length d"
  shows "block_samples f d destIndex scan ! i = f n j (Some (uint (d ! i)))"
proof -
  have "byte_at d (int i) = Some (uint (d ! i))" using assms(5) by (simp add: byte_at_def elem_def)
  then show ?thesis
    unfolding block_samples_fold
    using fold_put_hit [OF block_index_inj [OF assms(1)], of "(n, j)" destIndex i d "case_prod f"] assms by simp
qed

lemma block_samples_miss:
  assumes "\<And>n j. n < 8 \<Longrightarrow> j < 8 \<Longrightarrow> block_index destIndex scan (n, j) \<noteq> int i" "i < length d"
  shows "block_samples f d destIndex scan ! i = d ! i"
  unfolding block_samples_fold
proof (rule fold_put_miss)
  show "int i \<notin> block_index destIndex scan ` set (List.product [0..<8] [0..<8])"
  proof
    assume "int i \<in> block_index destIndex scan ` set (List.product [0..<8] [0..<8])"
    then obtain k where "k \<in> set (List.product [0..<8] [0..<8])" "block_index destIndex scan k = int i" by (elim imageE) simp
    then show False using assms(1) [of "fst k" "snd k"] by (simp add: mem_Times_iff)
  qed
qed (rule assms)

lemma block_samples_cong:
  assumes "0 \<le> scan" "\<And>n j i. n < 8 \<Longrightarrow> j < 8 \<Longrightarrow> i < length d \<Longrightarrow> f n j (Some (uint (d ! i))) = g n j (Some (uint (d ! i)))"
  shows "block_samples f d destIndex scan = block_samples g d destIndex scan"
proof (rule nth_equalityI)
  fix i assume "i < length (block_samples f d destIndex scan)"
  then have i: "i < length d" by simp
  show "block_samples f d destIndex scan ! i = block_samples g d destIndex scan ! i"
  proof (cases "\<exists>n j. n < 8 \<and> j < 8 \<and> block_index destIndex scan (n, j) = int i")
    case True
    then obtain n j where "n < 8" "j < 8" "block_index destIndex scan (n, j) = int i" by blast
    then show ?thesis using block_samples_hit [OF assms(1) _ _ _ i] assms(2) i by metis
  next
    case False
    then show ?thesis using block_samples_miss [of destIndex scan i d] i by metis
  qed
qed simp

lemma wrapped_clamp: "wrapped8 (clamp p) = clamped8 p"
  by (cases p) (auto simp: wrapped8_def clamp_def clamped8_def)

lemma nadd_commute: "nadd x y = nadd y x"
  by (simp add: nadd_def split: option.splits)

text \<open>
  On a browser without \<^verbatim>\<open>Uint8ClampedArray\<close> the player puts its own clamping versions of the two block routines in place;
  on arrays that wrap around they write what the usual versions write on clamping arrays.
\<close>

lemma clamp_versions_agree:
  "copyBlockToDestinationClamp = copyBlockToDestination clamped8 \<and> addBlockToDestinationClamp = addBlockToDestination clamped8"
  by (simp add: fun_eq_iff copyBlockToDestinationClamp_def copyBlockToDestination_def addBlockToDestinationClamp_def
      addBlockToDestination_def wrapped_clamp nadd_commute)

text \<open>
  C19. A block with a single coefficient, the first one, is not transformed: its value is rounded once and written to
  (or added to) all 64 samples.  Where the browser has clamping arrays, that gives the same picture as the transform would,
  for every value the coefficient can have.  Where it has none, the player's block routines clamp by hand and the ones for
  a single value do not clamp at all: there the pictures agree when the rounded value, or its sum with every
  sample of the picture, lies between 0 and 255.
\<close>

theorem dc_short_cut:
  assumes "- (2 ^ 31) \<le> v" "v < 2 ^ 31" "0 \<le> scan"
  defines "x \<equiv> shr (v + 128) 8" and "block \<equiv> IDCT (v # replicate 63 0)"
  shows "copyValueToDestination clamped8 x d destIndex scan = copyBlockToDestination clamped8 block d destIndex scan \<and>
    addValueToDestination clamped8 x d destIndex scan = addBlockToDestination clamped8 block d destIndex scan \<and>
    (0 \<le> x \<and> x \<le> 255 \<longrightarrow>
       copyValueToDestination wrapped8 x d destIndex scan = copyBlockToDestinationClamp block d destIndex scan) \<and>
    (list_all (\<lambda>s. 0 \<le> uint s + x \<and> uint s + x \<le> 255) d \<longrightarrow>
       addValueToDestination wrapped8 x d destIndex scan = addBlockToDestinationClamp block d destIndex scan)"
proof -
  have nth: "block ! (8 * n + j) = x" if "n < 8" "j < 8" for n j
    unfolding block_def x_def IDCT_dc [OF assms(1,2)] using that by (intro nth_replicate) simp
  have fit: "wrapped8 (Some y) = clamped8 (Some y)" if "0 \<le> y" "y \<le> 255" for y
    using that by (simp add: wrapped8_def clamped8_def)
  have 1: "copyValueToDestination clamped8 x d destIndex scan = copyBlockToDestination clamped8 block d destIndex scan"
    unfolding copyValueToDestination_def copyBlockToDestination_def by (rule block_samples_cong [OF assms(3)]) (simp add: nth)
  have 2: "addValueToDestination clamped8 x d destIndex scan = addBlockToDestination clamped8 block d destIndex scan"
    unfolding addValueToDestination_def addBlockToDestination_def by (rule block_samples_cong [OF assms(3)]) (simp add: nth)
  have 3: "copyValueToDestination wrapped8 x d destIndex scan = copyBlockToDestination clamped8 block d destIndex scan"
    if "0 \<le> x" "x \<le> 255"
    unfolding copyValueToDestination_def copyBlockToDestination_def
    by (rule block_samples_cong [OF assms(3)]) (simp add: nth fit that)
  have 4: "addValueToDestination wrapped8 x d destIndex scan = addBlockToDestination clamped8 block d destIndex scan"
    if "list_all (\<lambda>s. 0 \<le> uint s + x \<and> uint s + x \<le> 255) d"
    unfolding addValueToDestination_def addBlockToDestination_def
    by (rule block_samples_cong [OF assms(3)]) (use that in \<open>simp add: nth nadd_def fit list_all_length\<close>)
  show ?thesis using 1 2 3 4 by (simp add: clamp_versions_agree)
qed

theorem dc_short_cut_witness:
  "copyValueToDestination clamped8 (shr (102400 + 128) 8) (replicate 64 0) 0 0 =
     copyBlockToDestination clamped8 (IDCT (102400 # replicate 63 0)) (replicate 64 0) 0 0 \<and>
   copyValueToDestination wrapped8 (shr (25600 + 128) 8) (replicate 64 0) 0 0 =
     copyBlockToDestinationClamp (IDCT (25600 # replicate 63 0)) (replicate 64 0) 0 0 \<and>
   addValueToDestination wrapped8 (shr (- 2560 + 128) 8) (replicate 64 77) 0 0 =
     addBlockToDestinationClamp (IDCT (- 2560 # replicate 63 0)) (replicate 64 77) 0 0"
proof -
  have x: "shr (25600 + 128) 8 = 100" "shr (- 2560 + 128) 8 = - 10" by code_simp+
  show ?thesis
    using dc_short_cut [of 102400 0 "replicate 64 0" 0] dc_short_cut [of 25600 0 "replicate 64 0" 0]
      dc_short_cut [of "- 2560" 0 "replicate 64 77" 0]
    unfolding x by (simp add: list_all_iff)
qed

text \<open>
  There is no clamping version of the routines for a single value: on such a browser a block brighter than white comes out
  nearly black.
\<close>

theorem value_routines_do_not_clamp:
  "copyValueToDestination wrapped8 256 [0] 0 0 = [0] \<and> copyValueToDestination clamped8 256 [0] 0 0 = [255]"
  by code_simp

subsection \<open>Reading the coefficients\<close>

text \<open>The bits ahead of a reader whose position is in the range of the shifts.\<close>

definition ahead :: "bit_reader \<Rightarrow> bool list \<Rightarrow> bool" where
  "ahead r p \<longleftrightarrow> (\<exists>k. bitIndex r = int k \<and> k + length p < 2 ^ 31 \<and> stream_bits (bytes r) k (length p) = p)"

lemma ahead_append: "ahead r (p @ q) \<Longrightarrow> ahead r p \<and> ahead (advance (int (length p)) r) q"
proof -
  assume "ahead r (p @ q)"
  then obtain k where k: "bitIndex r = int k" "k + length p + length q < 2 ^ 31"
    "stream_bits (bytes r) k (length p) = p" "stream_bits (bytes r) (k + length p) (length q) = q"
    by (auto simp: ahead_def stream_bits_append)
  then show ?thesis
    unfolding ahead_def by (intro conjI exI [of _ k] exI [of _ "k + length p"]) simp_all
qed

lemma ahead_getBits: "ahead r p \<Longrightarrow> length p \<le> 31 \<Longrightarrow> getBits (int (length p)) r = (bits_val p, advance (int (length p)) r)"
  unfolding ahead_def using getBits_value by fastforce

lemma ahead_bit: "ahead r (b # p) \<Longrightarrow> getBits 1 r = (of_bool b, advance 1 r) \<and> ahead (advance 1 r) p"
  using ahead_append [of r "[b]" p] ahead_getBits [of r "[b]"] by (simp add: bits_val_def)

lemma ahead_readCode:
  "(T, cs) \<in> set code_tables \<Longrightarrow> (s, w) \<in> set cs \<Longrightarrow> ahead r (code_word s) \<Longrightarrow>
     readCode T r = Some (Some w, advance (int (length s)) r)"
  by (rule readCode_word) (auto simp: ahead_def code_word_def next_bits_stream)

text \<open>A number as a field of \<open>n\<close> bits.\<close>

fun field :: "nat \<Rightarrow> int \<Rightarrow> bool list" where
  "field 0 v = []"
| "field (Suc n) v = field n (v div 2) @ [odd v]"

lemma length_field [simp]: "length (field n v) = n"
  by (induction n arbitrary: v) simp_all

lemma bits_val_field: "bits_val (field n v) = v mod 2 ^ n"
proof (induction n arbitrary: v)
  case (Suc n)
  have "2 * (v div 2 mod 2 ^ n) + of_bool (odd v) = v mod 2 ^ Suc n"
    by (simp add: zmod_zmult2_eq flip: mod_2_eq_odd)
  then show ?case by (simp add: bits_val_snoc Suc)
qed simp

text \<open>
  The ways to write a run of zeros and the level behind it when \<open>n\<close> coefficients have been written: a code of the table
  with a sign (the code \<^verbatim>\<open>1\<close> is followed by a 1 except at the start of a block, where it cannot mean the end), or the
  escape code with run and level as numbers.  A block is a sequence of these and the end code.
\<close>

inductive coded :: "int \<Rightarrow> int \<Rightarrow> int \<Rightarrow> bool list \<Rightarrow> bool" where
  table_code: "(s, w) \<in> set DCT_COEFF_codes \<Longrightarrow> w \<noteq> 0xffff \<Longrightarrow>
     coded n (w div 256) (if neg then - (w mod 256) else w mod 256)
       (code_word s @ (if w = 1 \<and> n > 0 then [True] else []) @ [neg])"
| escape_short: "0 \<le> run \<Longrightarrow> run < 64 \<Longrightarrow> level \<noteq> 0 \<Longrightarrow> - 128 < level \<Longrightarrow> level < 128 \<Longrightarrow>
     coded n run level (code_word ''000001'' @ field 6 run @ field 8 level)"
| escape_long: "0 \<le> run \<Longrightarrow> run < 64 \<Longrightarrow> 128 \<le> level \<Longrightarrow> level < 256 \<Longrightarrow>
     coded n run level (code_word ''000001'' @ field 6 run @ field 8 0 @ field 8 level)"
| escape_long_neg: "0 \<le> run \<Longrightarrow> run < 64 \<Longrightarrow> - 256 \<le> level \<Longrightarrow> level \<le> - 128 \<Longrightarrow>
     coded n run level (code_word ''000001'' @ field 6 run @ field 8 128 @ field 8 (level + 256))"

inductive coded_block :: "int \<Rightarrow> (int \<times> int) list \<Rightarrow> bool list \<Rightarrow> bool" where
  end_code: "0 < n \<Longrightarrow> coded_block n [] (code_word ''10'')"
| next_code: "coded n run level b \<Longrightarrow> coded_block (n + run + 1) ps bs \<Longrightarrow> coded_block n ((run, level) # ps) (b @ bs)"

lemma coeff_table: "(DCT_COEFF, DCT_COEFF_codes) \<in> set code_tables"
  by (simp add: code_tables_def)

lemma escape_code: "(''000001'', 0xffff) \<in> set DCT_COEFF_codes"
  by (simp add: DCT_COEFF_codes_def)

lemma one_code: "(''1'', 1) \<in> set DCT_COEFF_codes"
  by (simp add: DCT_COEFF_codes_def)

lemma coeff_range: "(s, w) \<in> set DCT_COEFF_codes \<Longrightarrow> 0 < w \<and> w \<le> 0xffff"
proof -
  have "list_all (\<lambda>(s, w). 0 < w \<and> w \<le> 0xffff) DCT_COEFF_codes" by (simp add: DCT_COEFF_codes_def)
  then show "(s, w) \<in> set DCT_COEFF_codes \<Longrightarrow> 0 < w \<and> w \<le> 0xffff" by (auto simp: list_all_iff)
qed

lemma read_level_table:
  assumes "0 < w" "w < 0xffff" "ahead r [neg]"
  shows "read_level (Some w) r = ((w div 256, if neg then - (w mod 256) else w mod 256), advance 1 r)"
proof -
  have "shr w 8 = w div 256" "to_int32 w = w" using assms(1,2) by (simp_all add: shr_small)
  moreover have "w AND 255 = w mod 256" using and_low_bits_int [of w 8] by simp
  ultimately show ?thesis using assms ahead_bit [of r neg "[]"] by (simp add: read_level_def)
qed

lemma ahead_field:
  assumes "ahead r (field n v @ p)" "n \<le> 31"
  shows "getBits (int n) r = (v mod 2 ^ n, advance (int n) r)" "ahead (advance (int n) r) p"
  using ahead_append [OF assms(1)] ahead_getBits [of r "field n v"] assms(2) by (simp_all add: bits_val_field)

lemmas ahead_field6 = ahead_field [where n = 6, simplified]
lemmas ahead_field8 = ahead_field [where n = 8, simplified] ahead_field [where n = 8 and p = "[]", simplified]

lemma read_level_escape:
  assumes "0 \<le> run" "run < 64"
  shows "level \<noteq> 0 \<Longrightarrow> - 128 < level \<Longrightarrow> level < 128 \<Longrightarrow> ahead r (field 6 run @ field 8 level) \<Longrightarrow>
      read_level (Some 0xffff) r = ((run, level), advance 14 r)"
    and "128 \<le> level \<Longrightarrow> level < 256 \<Longrightarrow> ahead r (field 6 run @ field 8 0 @ field 8 level) \<Longrightarrow>
      read_level (Some 0xffff) r = ((run, level), advance 22 r)"
    and "- 256 \<le> level \<Longrightarrow> level \<le> - 128 \<Longrightarrow> ahead r (field 6 run @ field 8 128 @ field 8 (level + 256)) \<Longrightarrow>
      read_level (Some 0xffff) r = ((run, level), advance 22 r)"
proof -
  have run: "run mod 64 = run" using assms by simp
  show "read_level (Some 0xffff) r = ((run, level), advance 14 r)"
    if l: "level \<noteq> 0" "- 128 < level" "level < 128" and a: "ahead r (field 6 run @ field 8 level)"
  proof -
    have "getBits 8 (advance 6 r) = (level mod 256, advance 14 r)" using ahead_field8 [of "advance 6 r" level] ahead_field6 [OF a] by simp
    moreover have "(level + 256) mod 256 = level + 256" if "level < 0" using that l by (intro mod_pos_pos_trivial) simp_all
    then have "level mod 256 = (if level < 0 then level + 256 else level)" using l by simp
    ultimately show ?thesis using ahead_field6 [OF a] run l by (auto simp: read_level_def)
  qed
  show "read_level (Some 0xffff) r = ((run, level), advance 22 r)"
    if l: "128 \<le> level" "level < 256" and a: "ahead r (field 6 run @ field 8 0 @ field 8 level)"
  proof -
    note b = ahead_field6 [OF a] ahead_field8(1,2) [OF ahead_field6(2) [OF a]]
    have "getBits 8 (advance 14 r) = (level, advance 22 r)" using ahead_field8(3) [of "advance 14 r" level] b(4) l by simp
    then show ?thesis using b run by (simp add: read_level_def)
  qed
  show "read_level (Some 0xffff) r = ((run, level), advance 22 r)"
    if l: "- 256 \<le> level" "level \<le> - 128" and a: "ahead r (field 6 run @ field 8 128 @ field 8 (level + 256))"
  proof -
    note b = ahead_field6 [OF a] ahead_field8(1,2) [OF ahead_field6(2) [OF a]]
    have "(level + 256) mod 256 = level + 256" using l by (intro mod_pos_pos_trivial) simp_all
    then have "getBits 8 (advance 14 r) = (level + 256, advance 22 r)"
      using ahead_field8(3) [of "advance 14 r" "level + 256"] b(4) l by simp
    then show ?thesis using b run by (simp add: read_level_def)
  qed
qed

text \<open>What the loop does with one code, and with the end code.\<close>

lemma read_coeffs_go_on:
  assumes "readCode DCT_COEFF r = Some (coeff, r1)" "if coeff = Some 1 \<and> n > 0 then getBits 1 r1 = (1, r2) else r2 = r1"
    "read_level coeff r2 = ((run, level), r3)"
  shows "read_coeffs intra qs qm n bd r = read_coeffs intra qs qm (n + run + 1) (store_coeff intra qs qm (n + run) level bd) r3"
  using assms(2,3) by (subst read_coeffs.simps) (auto simp: assms(1) Let_def split: if_splits)

lemma read_coeffs_stop:
  assumes "readCode DCT_COEFF r = Some (Some 1, r1)" "n > 0" "getBits 1 r1 = (0, r2)"
  shows "read_coeffs intra qs qm n bd r = Some (n, bd, r2)"
  using assms(2,3) by (subst read_coeffs.simps) (simp add: assms(1))

lemma length_code_word [simp]: "length (code_word s) = length s"
  by (simp add: code_word_def)

lemma ahead_escape:
  assumes "ahead r (code_word ''000001'' @ p)"
  shows "readCode DCT_COEFF r = Some (Some 0xffff, advance 6 r)" "ahead (advance 6 r) p"
  using ahead_append [OF assms] ahead_readCode [OF coeff_table escape_code, of r] by simp_all

lemma read_coeffs_step:
  assumes "coded n run level b" "ahead r b"
  shows "read_coeffs intra qs qm n bd r =
    read_coeffs intra qs qm (n + run + 1) (store_coeff intra qs qm (n + run) level bd) (advance (int (length b)) r)"
  using assms
proof (cases rule: coded.cases)
  case (table_code s w neg)
  let ?r = "advance (int (length s)) r"
  have a: "ahead r (code_word s)" "ahead ?r ((if w = 1 \<and> n > 0 then [True] else []) @ [neg])"
    using assms(2) ahead_append [of r "code_word s"] unfolding table_code(3) by simp_all
  have w: "0 < w" "w < 0xffff" using coeff_range [OF table_code(4)] table_code(5) by simp_all
  define r2 where "r2 = (if w = 1 \<and> n > 0 then advance 1 ?r else ?r)"
  have "(if Some w = Some 1 \<and> n > 0 then getBits 1 ?r = (1, r2) else r2 = ?r) \<and> ahead r2 [neg]"
    using a(2) ahead_bit [of ?r True "[neg]"] by (cases "w = 1 \<and> n > 0") (auto simp: r2_def)
  then have r2: "if Some w = Some 1 \<and> n > 0 then getBits 1 ?r = (1, r2) else r2 = ?r" "ahead r2 [neg]" by simp_all
  then have "read_coeffs intra qs qm n bd r =
      read_coeffs intra qs qm (n + run + 1) (store_coeff intra qs qm (n + run) level bd) (advance 1 r2)"
    using ahead_readCode [OF coeff_table table_code(4) a(1)] read_level_table [OF w r2(2)] unfolding table_code(1,2)
    by (intro read_coeffs_go_on)
  moreover have "advance 1 r2 = advance (int (length b)) r" by (simp add: r2_def table_code(3) add.commute)
  ultimately show ?thesis by simp
next
  case escape_short
  note a = ahead_escape [OF assms(2) [unfolded escape_short(1)]]
  from read_level_escape(1) [OF escape_short(2-6) a(2)] show ?thesis
    by (subst read_coeffs_go_on [OF a(1)]) (simp_all add: escape_short(1))
next
  case escape_long
  note a = ahead_escape [OF assms(2) [unfolded escape_long(1)]]
  from read_level_escape(2) [OF escape_long(2-5) a(2)] show ?thesis
    by (subst read_coeffs_go_on [OF a(1)]) (simp_all add: escape_long(1))
next
  case escape_long_neg
  note a = ahead_escape [OF assms(2) [unfolded escape_long_neg(1)]]
  from read_level_escape(3) [OF escape_long_neg(2-5) a(2)] show ?thesis
    by (subst read_coeffs_go_on [OF a(1)]) (simp_all add: escape_long_neg(1))
qed

text \<open>The positions of the levels in the order of the stream, and the number of coefficients.\<close>

fun positions :: "int \<Rightarrow> (int \<times> int) list \<Rightarrow> (int \<times> int) list" where
  "positions n [] = []"
| "positions n ((run, level) # ps) = (n + run, level) # positions (n + run + 1) ps"

fun block_end :: "int \<Rightarrow> (int \<times> int) list \<Rightarrow> int" where
  "block_end n [] = n"
| "block_end n ((run, level) # ps) = block_end (n + run + 1) ps"

lemma read_coeffs_block:
  "coded_block n ps bits \<Longrightarrow> ahead r bits \<Longrightarrow>
     read_coeffs intra qs qm n bd r =
       Some (block_end n ps, fold (\<lambda>(k, level). store_coeff intra qs qm k level) (positions n ps) bd,
         advance (int (length bits)) r)"
proof (induction arbitrary: r bd rule: coded_block.induct)
  case (end_code n)
  have "ahead r (code_word ''1'' @ [False])" using end_code.prems by (simp add: code_word_def)
  from ahead_append [OF this] have "ahead r (code_word ''1'')" "ahead (advance 1 r) [False]" by simp_all
  then have "readCode DCT_COEFF r = Some (Some 1, advance 1 r)" "getBits 1 (advance 1 r) = (0, advance 2 r)"
    using ahead_readCode [OF coeff_table one_code, of r] ahead_bit [of "advance 1 r" False "[]"] by simp_all
  then show ?case using end_code.hyps by (simp add: read_coeffs_stop)
next
  case (next_code n run level b ps bs)
  note a = ahead_append [OF next_code.prems]
  show ?case
    using read_coeffs_step [OF next_code.hyps(1)] a next_code.IH [of "advance (int (length b)) r"] by (simp add: add.commute)
qed

lemma coded_run: "coded n run level b \<Longrightarrow> 0 \<le> run"
  by (induction rule: coded.induct) (auto dest: coeff_range intro: pos_imp_zdiv_nonneg_iff [THEN iffD2])

lemma positions_distinct:
  "coded_block n ps bits \<Longrightarrow> distinct (map fst (positions n ps)) \<and> (\<forall>k \<in> fst ` set (positions n ps). n \<le> k)"
proof (induction rule: coded_block.induct)
  case (next_code n run level b ps bs)
  with coded_run [OF next_code.hyps(1)] show ?case by fastforce
qed simp

lemma zig_zag_permutes: "distinct ZIG_ZAG" "length ZIG_ZAG = 64" "\<forall>z \<in> set ZIG_ZAG. 0 \<le> z \<and> z < 64"
  by (simp_all add: ZIG_ZAG_def)

lemma length_store_coeff [simp]: "length (store_coeff intra qs qm n level bd) = length bd"
  by (simp add: store_coeff_def Let_def split: option.split)

definition coeff_value :: "bool \<Rightarrow> int \<Rightarrow> u8 list \<Rightarrow> int \<Rightarrow> int \<Rightarrow> int" where
  "coeff_value intra qs qm z level = to_int32 (dequantize intra qs (byte_at qm z) level * PREMULTIPLIER_MATRIX ! nat z)"

lemma store_coeff_nth:
  assumes "length bd = 64" "k < 64"
  shows "store_coeff intra qs qm i level bd ! nat (ZIG_ZAG ! k) =
    (if i = int k then coeff_value intra qs qm (ZIG_ZAG ! k) level else bd ! nat (ZIG_ZAG ! k))"
proof (cases "0 \<le> i \<and> i < 64")
  case True
  then obtain j where j: "i = int j" "j < 64" by (metis nat_0_le nat_less_iff of_nat_numeral)
  have z: "0 \<le> ZIG_ZAG ! m \<and> ZIG_ZAG ! m < 64" if "m < 64" for m using zig_zag_permutes that by simp
  have "ZIG_ZAG ! j = ZIG_ZAG ! k \<longleftrightarrow> j = k" using zig_zag_permutes j(2) assms(2) by (simp add: nth_eq_iff_index_eq)
  then show ?thesis
    using z [of j] z [of k] j assms zig_zag_permutes(2)
    by (auto simp: store_coeff_def coeff_value_def elem_def nth_put Let_def)
next
  case False
  then have "elem ZIG_ZAG i = None" using zig_zag_permutes(2) by (auto simp: elem_def)
  then show ?thesis using False assms(2) by (auto simp: store_coeff_def Let_def)
qed

lemma store_coeffs_nth:
  assumes "k < 64"
  shows "length bd = 64 \<Longrightarrow> distinct (map fst xs) \<Longrightarrow>
    length (fold (\<lambda>(k, level). store_coeff intra qs qm k level) xs bd) = 64 \<and>
    fold (\<lambda>(k, level). store_coeff intra qs qm k level) xs bd ! nat (ZIG_ZAG ! k) =
      (case map_of xs (int k) of None \<Rightarrow> bd ! nat (ZIG_ZAG ! k) | Some level \<Rightarrow> coeff_value intra qs qm (ZIG_ZAG ! k) level)"
proof (induction xs arbitrary: bd)
  case (Cons x xs)
  obtain i level where x: "x = (i, level)" by (cases x)
  have "map_of xs i = None" using Cons.prems(2) by (simp add: x map_of_eq_None_iff)
  then show ?case
    using Cons.IH [of "store_coeff intra qs qm i level bd"] Cons.prems assms
    by (auto simp: x store_coeff_nth split: option.split)
qed simp

text \<open>
  C16. Whatever mixture of table codes and escape codes a block is written with, the loop reads all of it and nothing behind
  it, counts the coefficients, and puts every level, dequantized, at the place that the zigzag order gives its position;
  the other places keep their value.
\<close>

theorem block_codes_roundtrip:
  assumes "coded_block n ps bits" "ahead r bits" "length bd = 64"
  shows "\<exists>b. read_coeffs intra qs qm n bd r = Some (block_end n ps, b, advance (int (length bits)) r) \<and> length b = 64 \<and>
    (\<forall>k < 64. b ! nat (ZIG_ZAG ! k) =
       (case map_of (positions n ps) (int k) of
          None \<Rightarrow> bd ! nat (ZIG_ZAG ! k)
        | Some level \<Rightarrow> coeff_value intra qs qm (ZIG_ZAG ! k) level))"
proof -
  have "distinct (map fst (positions n ps))" using positions_distinct [OF assms(1)] by simp
  with read_coeffs_block [OF assms(1,2)] store_coeffs_nth [OF _ assms(3), where xs = "positions n ps"] show ?thesis
    by (auto intro: store_coeffs_nth [where k = 0, THEN conjunct1] simp: assms(3))
qed

theorem block_codes_roundtrip_witness:
  "\<exists>b. read_coeffs True 8 DEFAULT_INTRA_QUANT_MATRIX 1 (replicate 64 0) (BitReader [0xD0]) =
       Some (2, b, advance 5 (BitReader [0xD0])) \<and> b ! 1 = 660 \<and> b ! 8 = 0"
proof -
  have "coded 1 (1 div 256) (if False then - (1 mod 256) else 1 mod 256)
      (code_word ''1'' @ (if 1 = (1 :: int) \<and> 1 > (0 :: int) then [True] else []) @ [False])"
    by (rule table_code [OF one_code]) simp
  then have "coded 1 0 1 [True, True, False]" by (simp add: code_word_def)
  moreover have "coded_block (1 + 0 + 1) [] [True, False]" using end_code [of 2] by (simp add: code_word_def)
  ultimately have c: "coded_block 1 [(0, 1)] [True, True, False, True, False]" using next_code by fastforce
  have "stream_bits [0xD0] 0 (length [True, True, False, True, False]) = [True, True, False, True, False]" by code_simp
  then have a: "ahead (BitReader [0xD0]) [True, True, False, True, False]" by (simp add: ahead_def BitReader_def)
  have "coeff_value True 8 DEFAULT_INTRA_QUANT_MATRIX 1 1 = 660" "ZIG_ZAG ! 1 = 1" "ZIG_ZAG ! 2 = 8" by code_simp+
  moreover obtain b where b: "read_coeffs True 8 DEFAULT_INTRA_QUANT_MATRIX 1 (replicate 64 0) (BitReader [0xD0]) =
       Some (2, b, advance 5 (BitReader [0xD0]))"
    "\<forall>k < 64. b ! nat (ZIG_ZAG ! k) = (case map_of [(1, 1)] (int k) of
        None \<Rightarrow> replicate 64 0 ! nat (ZIG_ZAG ! k) | Some level \<Rightarrow> coeff_value True 8 DEFAULT_INTRA_QUANT_MATRIX (ZIG_ZAG ! k) level)"
    using block_codes_roundtrip [OF c a, of "replicate 64 0" True 8 DEFAULT_INTRA_QUANT_MATRIX] by auto
  ultimately have "b ! 1 = 660" "b ! 8 = 0" using spec [OF b(2), of 1] spec [OF b(2), of 2] by simp_all
  with b(1) show ?thesis by blast
qed

subsection \<open>A block that is cut off\<close>

lemma read_level_advance: "\<exists>m \<ge> 1. snd (read_level c r) = advance m r"
  by (auto simp: read_level_def getBits_def Let_def intro: exI [of _ 1] exI [of _ 14] exI [of _ 22])

lemma read_coeffs_forward:
  assumes "read_coeffs intra qs qm n bd r = Some y"
  shows "bitIndex r \<le> bitIndex (snd (snd y))"
  using assms
proof (rule read_coeffs.raw_induct [where P = "\<lambda>intra qs qm n bd r y. bitIndex r \<le> bitIndex (snd (snd y))", rotated])
  fix f intra qs qm n bd r y
  assume IH: "\<And>intra qs qm n bd r y. f intra qs qm n bd r = Some y \<Longrightarrow> bitIndex r \<le> bitIndex (snd (snd y))"
    and eq: "Option.bind (readCode DCT_COEFF r) (\<lambda>(coeff, r).
       let (again, r) = (if coeff = Some 1 \<and> n > 0 then getBits 1 r else (1, r))
       in if again = 0 then Some (n, bd, r)
          else
            let ((run, level), r) = read_level coeff r;
              n = n + run
            in f intra qs qm (n + 1) (store_coeff intra qs qm n level bd) r) = Some y"
  obtain c m where c: "readCode DCT_COEFF r = Some (c, advance (int m) r)" by (rule readCode_total [OF coeff_table, of r])
  define t where "t = (if c = Some 1 \<and> n > 0 then getBits 1 (advance (int m) r) else (1, advance (int m) r))"
  obtain again r2 where t: "t = (again, r2)" by (cases t)
  have r2: "bitIndex r \<le> bitIndex r2" using t by (auto simp: t_def getBits_def split: if_splits)
  obtain run level r3 where l: "read_level c r2 = ((run, level), r3)" by (metis surj_pair)
  have r3: "bitIndex r2 \<le> bitIndex r3" using read_level_advance [of c r2] l by auto
  have body: "(let (again, r) = t
      in if again = 0 then Some (n, bd, r)
         else let ((run, level), r) = read_level c r; n = n + run
           in f intra qs qm (n + 1) (store_coeff intra qs qm n level bd) r) = Some y"
    using eq unfolding t_def by (simp only: c bind.simps prod.case)
  show "bitIndex r \<le> bitIndex (snd (snd y))"
  proof (cases "again = 0")
    case True
    with body r2 show ?thesis by (auto simp: t)
  next
    case False
    with body l have "f intra qs qm (n + run + 1) (store_coeff intra qs qm (n + run) level bd) r3 = Some y" by (simp add: t Let_def)
    from IH [OF this] r2 r3 show ?thesis by simp
  qed
qed

text \<open>Behind the data all bits are zero; there the table has no code, and \<^verbatim>\<open>readCode\<close> returns 6 for twelve zeros.\<close>

definition zeros_ahead :: "bit_reader \<Rightarrow> bool" where
  "zeros_ahead r \<longleftrightarrow> 0 \<le> bitIndex r \<and> (\<forall>j. bitIndex r \<le> int j \<longrightarrow> \<not> stream_bit (bytes r) j)"

lemma zeros_advance: "zeros_ahead r \<Longrightarrow> 0 \<le> m \<Longrightarrow> zeros_ahead (advance m r)"
  by (auto simp: zeros_ahead_def)

lemma zeros_ahead_bits:
  assumes "zeros_ahead r" "bitIndex r + int n < 2 ^ 31"
  shows "ahead r (replicate n False)"
proof -
  obtain k where k: "bitIndex r = int k" using assms(1) nonneg_int_cases by (auto simp: zeros_ahead_def)
  then have "stream_bits (bytes r) k n = map (\<lambda>_. False) [k..<k + n]"
    using assms(1) unfolding stream_bits_def zeros_ahead_def by (intro map_cong) auto
  with k assms(2) show ?thesis by (simp add: ahead_def map_replicate_const)
qed

lemma follow_zeros: "follow DCT_COEFF 0 (replicate 12 False) = Some (Some 6)"
  by code_simp

lemma readCode_zeros:
  assumes "zeros_ahead r" "bitIndex r + 12 < 2 ^ 31"
  shows "readCode DCT_COEFF r = Some (Some 6, advance 12 r)"
proof -
  have "next_bits r 12 = replicate 12 False"
    using zeros_ahead_bits [of r 12] assms by (auto simp: ahead_def next_bits_stream)
  then show ?thesis using follow_reads [OF follow_zeros, of r] by (simp add: readCode_def)
qed

lemma zeros_run_on:
  "read_coeffs intra qs qm n bd r = Some y \<Longrightarrow> zeros_ahead r \<Longrightarrow> 2 ^ 31 \<le> bitIndex (snd (snd y)) + 13"
proof (induction "nat (2 ^ 31 - bitIndex r)" arbitrary: n bd r rule: less_induct)
  case less
  show ?case
  proof (cases "bitIndex r + 13 < 2 ^ 31")
    case True
    have "ahead (advance 12 r) [False]"
      using zeros_ahead_bits [OF zeros_advance [OF less.prems(2)], of 12 1] True by simp
    then have "read_level (Some 6) (advance 12 r) = ((0, 6), advance 13 r)" using read_level_table [of 6 "advance 12 r" False] by simp
    then have "read_coeffs intra qs qm n bd r = read_coeffs intra qs qm (n + 0 + 1) (store_coeff intra qs qm (n + 0) 6 bd) (advance 13 r)"
      using readCode_zeros [OF less.prems(2)] True by (intro read_coeffs_go_on) simp_all
    with less.prems True show ?thesis
      using less.hyps [of "advance 13 r" "n + 0 + 1" "store_coeff intra qs qm (n + 0) 6 bd"] zeros_advance [of r 13] by simp
  next
    case False
    with read_coeffs_forward [OF less.prems(1)] show ?thesis by linarith
  qed
qed

text \<open>A buffer that holds nothing but zeros reads as zeros wherever the position is.\<close>

definition zero_buffer :: "bit_reader \<Rightarrow> bool" where
  "zero_buffer r \<longleftrightarrow> list_all (\<lambda>b. b = 0) (bytes r)"

lemma zero_buffer_bit: "zero_buffer r \<Longrightarrow> nextBits r 1 = 0"
proof -
  assume "zero_buffer r"
  then have "int32 (byte_at (bytes r) i) = 0" for i by (auto simp: zero_buffer_def list_all_length byte_at_def elem_def)
  moreover have "shr 0 i = 0" for i by (simp add: shr_def)
  ultimately have "shr (int32 (byte_at (bytes r) i)) k AND m = 0" for i k m by simp
  moreover have "1 \<le> 8 - js_rem (bitIndex r) 8"
    using pos_mod_bound [of 8 "\<bar>bitIndex r\<bar>"] pos_mod_sign [of 8 "\<bar>bitIndex r\<bar>"]
    by (cases "bitIndex r" "0 :: int" rule: linorder_cases) (simp_all add: js_rem_def)
  ultimately show ?thesis by (simp add: nextBits_def Let_def)
qed

lemma zero_buffer_advance [simp]: "zero_buffer (advance m r) = zero_buffer r"
  by (simp add: zero_buffer_def)

lemma zero_buffer_bits: "zero_buffer r \<Longrightarrow> next_bits r n = replicate n False"
  by (induction n arbitrary: r) (simp_all add: zero_buffer_bit)

lemma zero_buffer_code:
  assumes "zero_buffer r"
  shows "readCode DCT_COEFF r = Some (Some 6, advance 12 r)" "read_level (Some 6) (advance 12 r) = ((0, 6), advance 13 r)"
proof -
  show "readCode DCT_COEFF r = Some (Some 6, advance 12 r)"
    using follow_reads [OF follow_zeros, of r] zero_buffer_bits [OF assms, of 12] by (simp add: readCode_def)
  have "getBits 1 (advance 12 r) = (0, advance 13 r)" using zero_buffer_bit [of "advance 12 r"] assms by (simp add: getBits_def)
  moreover have "shr 6 8 = 0" "(6 :: int) AND 255 = 6" by code_simp+
  ultimately show "read_level (Some 6) (advance 12 r) = ((0, 6), advance 13 r)" by (simp add: read_level_def)
qed

lemma zero_buffer_hangs:
  assumes "read_coeffs intra qs qm n bd r = Some y"
  shows "\<not> zero_buffer r"
  using assms
proof (rule read_coeffs.raw_induct [where P = "\<lambda>intra qs qm n bd r y. \<not> zero_buffer r", rotated], intro notI)
  fix f intra qs qm n bd r y
  assume IH: "\<And>intra qs qm n bd r y. f intra qs qm n bd r = Some y \<Longrightarrow> \<not> zero_buffer r"
    and eq: "Option.bind (readCode DCT_COEFF r) (\<lambda>(coeff, r).
       let (again, r) = (if coeff = Some 1 \<and> n > 0 then getBits 1 r else (1, r))
       in if again = 0 then Some (n, bd, r)
          else
            let ((run, level), r) = read_level coeff r;
              n = n + run
            in f intra qs qm (n + 1) (store_coeff intra qs qm n level bd) r) = Some y"
    and z: "zero_buffer r"
  have "f intra qs qm (n + 1) (store_coeff intra qs qm n 6 bd) (advance 13 r) = Some y"
    using eq by (simp add: zero_buffer_code [OF z])
  from IH [OF this] z show False by simp
qed

text \<open>
  C20. The loop over a block's coefficients has no exit but the end code, and zeros alone never form one: once it
  looks for a code at a position from which on no bit of the data is 1 (which includes every position behind the data), then, if it returns at
  all, it has read on to the end of the 32-bit range of positions, up to a quarter of a gigabyte further; in a buffer of zeros
  it never returns.  So data that stops between two codes of a block before its end code keeps the player busy.  (Data that
  stops inside a code may be luckier: the end code is the two bits 10, and the zero read behind a final 1 completes it.)
\<close>

theorem cut_off_block_reads_on:
  assumes "zeros_ahead r"
  shows "(case read_coeffs intra qs qm n bd r of None \<Rightarrow> True | Some (n', b, r') \<Rightarrow> 2 ^ 31 \<le> bitIndex r' + 13) \<and>
    (if zero_buffer r then read_coeffs intra qs qm n bd r = None else True)"
  using zeros_run_on [OF _ assms, of intra qs qm n bd] zero_buffer_hangs [of intra qs qm n bd r]
  by (cases "read_coeffs intra qs qm n bd r") auto

theorem cut_off_block_reads_on_witness:
  "(case read_coeffs True 8 DEFAULT_INTRA_QUANT_MATRIX 1 (replicate 64 0) (advance 2 (BitReader [0x40])) of
      None \<Rightarrow> True | Some (n', b, r') \<Rightarrow> 2 ^ 31 \<le> bitIndex r' + 13) \<and>
   read_coeffs True 8 DEFAULT_INTRA_QUANT_MATRIX 1 (replicate 64 0) (BitReader [0, 0]) = None"
proof -
  have "\<not> stream_bit [0x40] j" if "2 \<le> j" for j
  proof (cases "j < 8")
    case True
    with that have "j \<in> {2, 3, 4, 5, 6, 7}" by auto
    moreover have "list_all (\<lambda>j. \<not> stream_bit [0x40] j) [2, 3, 4, 5, 6, 7]" by code_simp
    ultimately show ?thesis by auto
  qed (simp add: stream_bit_def div_greater_zero_iff)
  then have 1: "zeros_ahead (advance 2 (BitReader [0x40]))" by (simp add: zeros_ahead_def BitReader_def)
  have "\<not> stream_bit [0, 0] j" for j by (simp add: stream_bit_def nth_Cons split: nat.split)
  then have 2: "zeros_ahead (BitReader [0, 0])" "zero_buffer (BitReader [0, 0])"
    by (simp_all add: zeros_ahead_def zero_buffer_def BitReader_def)
  from cut_off_block_reads_on [OF 1] cut_off_block_reads_on [OF 2(1)] 2(2) show ?thesis by auto
qed

subsection \<open>Single coefficients\<close>

text \<open>A dequantized level is odd and fits in twelve bits; only the lower bound itself is even.\<close>

theorem dequantize_range:
  "- 2048 \<le> dequantize intra qs q level \<and> dequantize intra qs q level \<le> 2047 \<and>
   (odd (dequantize intra qs q level) \<or> dequantize intra qs q level = - 2048)"
proof -
  define x where "x = shr (int32 (map_option (\<lambda>m. (if intra then shl level 1 else shl level 1 + (if shl level 1 < 0 then -1 else 1)) * qs * m) q)) 4"
  have "- (2 ^ 31) \<le> x" "x < 2 ^ 31"
    using to_int32_range [of "int32 (map_option (\<lambda>m. (if intra then shl level 1 else shl level 1 + (if shl level 1 < 0 then -1 else 1)) * qs * m) q)"]
    by (simp_all add: x_def shr_def drop_bit_eq_div)
  then have x: "to_int32 x AND 1 = x mod 2" by (simp add: and_one_eq)
  define y where "y = (if to_int32 x AND 1 = 0 then x - (if x > 0 then 1 else -1) else x)"
  have "odd y" using x by (auto simp: y_def)
  moreover have "dequantize intra qs q level = (if y > 2047 then 2047 else if y < - 2048 then - 2048 else y)"
    unfolding dequantize_def Let_def x_def y_def by (rule refl)
  ultimately show ?thesis by auto
qed

text \<open>
  The DC coefficient: the size of the difference, then its digits, a negative difference less one in two's complement.
\<close>

definition dc_digits :: "nat \<Rightarrow> int \<Rightarrow> bool list" where
  "dc_digits k d = field k (if d > 0 then d else d + 2 ^ k - 1)"

lemma and_top_bit:
  fixes x :: int
  assumes "0 \<le> x" "x < 2 ^ Suc m"
  shows "x AND 2 ^ m \<noteq> 0 \<longleftrightarrow> 2 ^ m \<le> x"
proof -
  have "x AND 2 ^ m \<noteq> 0 \<longleftrightarrow> odd (x div 2 ^ m)" by (simp add: and_exp_eq_0_iff_not_bit bit_iff_odd)
  also have "\<dots> \<longleftrightarrow> 2 ^ m \<le> x"
  proof (cases "2 ^ m \<le> x")
    case True
    have "x div 2 ^ m = (x - 2 ^ m) div 2 ^ m + 1" using div_add_self2 [of "2 ^ m" "x - 2 ^ m"] by simp
    also have "(x - 2 ^ m) div 2 ^ m = 0" using True assms(2) by (intro div_pos_pos_trivial) simp_all
    finally show ?thesis using True by simp
  qed (use assms(1) in simp)
  finally show ?thesis .
qed

lemma power_le_256: "k \<le> 8 \<Longrightarrow> (2 :: int) ^ k \<le> 256"
  using power_increasing [of k 8 "2 :: int"] by simp

theorem dc_roundtrip:
  assumes "(T, cs) \<in> set code_tables" "(s, int k) \<in> set cs" "1 \<le> k" "k \<le> 8"
    and d: "2 ^ (k - 1) \<le> \<bar>d\<bar>" "\<bar>d\<bar> < 2 ^ k"
    and r: "ahead r (code_word s @ dc_digits k d)" and pr: "\<bar>predictor\<bar> < 2 ^ 30"
  shows "read_dc T predictor r = Some (predictor + d, advance (int (length s + k)) r)"
proof -
  define x where "x = (if d > 0 then d else d + 2 ^ k - 1)"
  obtain m where m: "k = Suc m" using assms(3) by (cases k) simp_all
  have x: "0 \<le> x" "x < 2 ^ k" "2 ^ m \<le> x \<longleftrightarrow> d > 0" using d by (auto simp: x_def m)
  have k: "(2 :: int) ^ k \<le> 256" by (rule power_le_256 [OF assms(4)])
  note a = ahead_append [OF r]
  have code: "readCode T r = Some (Some (int k), advance (int (length s)) r)" using ahead_readCode [OF assms(1,2)] a by simp
  have bits: "getBits (int k) (advance (int (length s)) r) = (x, advance (int (length s + k)) r)"
    using ahead_field(1) [of "advance (int (length s)) r" k x "[]"] a assms(4) x by (simp add: dc_digits_def x_def)
  have one: "shl 1 (int k - 1) = 2 ^ m" using shl_small [of 1 "int m"] assms(4) k by (simp add: m)
  have id: "to_int32 x = x" "to_int32 (x + 1) = x + 1" "to_int32 (predictor + d) = predictor + d" using x k pr d by simp_all
  have "0 < (2 :: int) ^ k" by simp
  with k have "- 2147483648 \<le> - ((2 :: int) ^ k)" "- ((2 :: int) ^ k) < 2147483648" by linarith+
  then have "to_int32 (- (2 ^ k)) = - (2 ^ k)" by simp
  then have "shl (- 1) (int k) = - 1 * 2 ^ k" using assms(4) by (simp add: shl_def push_bit_eq_mult)
  then have "shl (- 1) (int k) OR (x + 1) = d" if "\<not> d > 0"
    using or_disjoint_int [of "x + 1" k "- 1"] that x d by (simp add: x_def m)
  moreover have "x = d" if "d > 0" using that by (simp add: x_def)
  ultimately show ?thesis
    using and_top_bit [of x m] x id bits one assms(3) by (auto simp: read_dc_def code m)
qed

theorem dc_roundtrip_witness:
  "read_dc DCT_DC_SIZE_LUMINANCE 128 (BitReader [0xA8]) = Some (123, advance 6 (BitReader [0xA8]))"
proof -
  have t: "(DCT_DC_SIZE_LUMINANCE, DCT_DC_SIZE_LUMINANCE_codes) \<in> set code_tables" by (simp add: code_tables_def)
  have s: "(''101'', int 3) \<in> set DCT_DC_SIZE_LUMINANCE_codes" by (simp add: DCT_DC_SIZE_LUMINANCE_codes_def)
  have c: "code_word ''101'' @ dc_digits 3 (- 5) = [True, False, True, False, True, False]" by code_simp
  have "stream_bits [0xA8] 0 (length [True, False, True, False, True, False]) = [True, False, True, False, True, False]" by code_simp
  then have "ahead (BitReader [0xA8]) (code_word ''101'' @ dc_digits 3 (- 5))" unfolding c by (simp add: ahead_def BitReader_def)
  from dc_roundtrip [OF t s _ _ _ _ this, of 128] show ?thesis by simp
qed

end
