(* ===== verification/Spec2Isabelle.thy ===== *)
theory Spec2Isabelle
  imports Catalogue Web_Server Audio_Spool Pc_Machine Tablet_Path Mpeg_Block
begin

text \<open>
  Verification of SSM IaaS, a service that runs virtual machines for browsers.

  \<^bold>\<open>The program.\<close>  A user logs in at the load balancer (src/LoadBalancer, Node.js with Redis and MongoDB), which picks a free
  port number for the session and sends a line of text to the VM manager (src/VMManager/vm_manager.c, C).  The VM
  manager picks a disk image, leaves the session's data in the file client_data.dat and runs src/command.sh, which
  starts a modified QEMU (src/Qemu-2.4.1).  The machine publishes its screen as an image file and its sound as a series of
  files, ffmpeg streams both to a worker of the web server (src/WebServer/bin/www), and the worker relays them to the page.  The
  page's scripts send keys and mouse movements back through the worker to a thread in QEMU's SDL window, which feeds them to
  QEMU's input layer: keys go to the PS/2 keyboard, the 8042 controller and the interrupt controllers, the mouse to the
  USB tablet.

  \<^bold>\<open>How it is modelled.\<close>  Every part is a shallow embedding: a C structure or the variables of a script are a record, an
  operation is a function on it, named as in the source.  An \<^verbatim>\<open>unsigned\<close> integer whose wrap-around can be seen is a word of its
  width; an \<^verbatim>\<open>int\<close> is an integer.  Undefined behaviour, a failed assertion and an access outside an array are values of
  \<open>c_fault\<close>, threaded by \<open>bindE\<close> and \<open>foldE\<close>.  A callback or an interrupt line is a function on the state of whatever is
  behind it (\<open>qemu_irq\<close>), and a device's operations work on the pair of the device and that state, so that the devices
  compose as they do in the source.  The operating system, Redis, MongoDB, the sound device, SDL's answers and the rest
  of the board are parameters.  Concurrency (forked servers, interleaved callbacks, the spool's reader and writer, what a guest
  may do to a device) is a step relation with invariants proved by rule induction.

  \<^bold>\<open>The theories.\<close>
  \<^item> \<open>Prelude\<close> has the types, the result monad and the interfaces as locales: \<open>wire\<close>, a line whose far end shows the level last
    sent; \<open>irq_inv\<close>, an operation that keeps a property; \<open>bounded_fifo\<close>, a queue that drops what does not fit.  \<open>C_Library\<close> has
    \<^verbatim>\<open>atoi\<close>, \<^verbatim>\<open>strtok\<close>, \<^verbatim>\<open>sprintf\<close> and \<^verbatim>\<open>read\<close> on arrays.
  \<^item> \<open>Vm_Manager\<close> (vm_manager.c, client_info.h): parsing a request, the table of images, the command line, the pool of forked
    servers.  Shown: a start request is read back as it was sent, creating takes the least free image, forked servers hand
    out the same image, and which names and systems overrun or spoil the command line.
  \<^item> \<open>Image_Files\<close> (command.sh): the script on a map from paths to images, together with the VM manager's requests.  The shell
    is a parameter where its answer is not fixed: whether a directory can be made and entered, and what it makes of a line
    with characters that it interprets.
  \<^item> \<open>Load_Balancer\<close> (routes/select.js, routes/member.js, model/MemberDAO.js, util/Redis.js, util/SocketUtil.js): requests as chains
    of callbacks that interleave; where Redis answers with an error the source only logs it, and the chain gets no further
    turn.  Shown: a request on its own gets the least free port; which ports are shared or
    leaked when they interleave; joining again takes over an account.  \<open>Catalogue\<close> (model/ImageDAO.js and the other handlers of
    select.js): the list of images, with a database that does not fail.  Shown: numbers are given out once however requests
    interleave; catalogue, VM manager and disk agree on an image from its creation to its deletion.
  \<^item> \<open>Web_Server\<close> (bin/www and the scripts of public/js): the handlers of a worker and of the page.  Shown: events are
    relayed in order to the machine that is connected; the left button is followed.
  \<^item> \<open>Js_Numbers\<close>, \<open>Bit_Reader\<close>, \<open>Vlc_Tables\<close> and \<open>Mpeg_Block\<close> (public/lib/jsmpg.js): JavaScript's bit operators and typed
    arrays, and on them the lower layers of the page's video player.  Shown: \<^verbatim>\<open>nextBits\<close> returns the number that the bits
    write; \<^verbatim>\<open>readCode\<close> returns on every input and decodes the code words that the comments beside the tables give;
    a block is read back whatever codes it is written with, and where only zeros are left the player keeps reading; the
    short cut for a block with one coefficient gives what the transform gives, as far as the arrays clamp.
  \<^item> \<open>Client_Ipc\<close> (vl.c): reading client_data.dat and connecting.  Shown: what the VM manager wrote arrives, when the byte
    behind it on the stack is NUL, and what happens when it is not.
  \<^item> \<open>Frame_Buffer\<close> (ui/sdl.c): the image file.  Shown: a full update shows the screen pixel by pixel, and which partial updates do
    not.  \<open>Audio_Spool\<close> (audio/alsaaudio.c, audio/audio.c, vl.c): the ring, the device and the spool files.  Shown: the sound reaches
    ffmpeg whole and in order while the writer is less than a round ahead; the output routine keeps the ring and returns.
  \<^item> \<open>Sdl_Window\<close> (ui/sdl.c, ui/x_keymap.c): the window's start and event loop; unless it starts in full screen, the grab flag agrees with SDL.  \<open>Cursor\<close>
    (ui/cursor.c): the guest's cursor as bitmaps, which can be read back.  \<open>Web_Input\<close> (ui/sdl.c): the thread
    that reads the browser's lines.  \<open>Input_Keymap\<close> and \<open>Input_Core\<close> (ui/input-keymap.c, ui/input.c): key codes, handlers and the
    queue of delayed keys, which refines immediate delivery.
  \<^item> \<open>Ps2\<close> (hw/input/ps2.c), \<open>Pckbd\<close> (hw/input/pckbd.c), \<open>I8259\<close> (hw/intc/i8259.c), \<open>I8254\<close> (hw/timer/i8254.c) and their wiring
    \<open>Pc_Machine\<close> (hw/i386/pc.c).  Shown: the PS/2 queue is a bounded queue, the controller's outputs and the processor's pin are a
    function of the devices' state in every reachable state of the machine (its operations include the guest's initialisation of the 8259s and
    leave out three kinds of writes after which the source lets the wiring lag, \<open>pics_access\<close>), the interrupt controller picks
    the right line, the timer's next transition misses no edge and a latched count is read back.  \<open>Pckbd\<close>'s locale \<open>kbc_board\<close> and \<open>Pc_Machine\<close>'s \<open>ports_inv\<close> say what the
    controller needs of a board; both are interpreted on the PC.
  \<^item> \<open>Usb_Hid\<close> (hw/input/hid.c, hw/usb/dev-hid.c): the USB tablet, mouse and keyboard.  Shown: no assertion is ever reached, loading a saved state included,
    reports have the shape the descriptors promise, the guest sees every change of the buttons, no motion is lost, keys
    come through.  \<open>Tablet_Path\<close>: a mouse message of the browser's thread as the guest reads it from the tablet.
  \<^item> This theory holds what spans the parts: the ports agree from the load balancer to the page; a key pressed in the
    browser interrupts the guest and is read from port 0x60; a drag in the browser is what the guest reads from the
    tablet; a click hits the pixel that is shown (outside Android mode; there it lands a row lower); closing the page brings the machine down.

  \<^bold>\<open>Loops and bounds.\<close>  Loops are structural recursion or \<open>function\<close> with a termination proof; those that a device could keep
  going (\<^verbatim>\<open>get_priority\<close>'s \<^verbatim>\<open>while\<close>, the sound device's loops, the video player's reading of codes and coefficients) are \<open>partial_function\<close> to \<open>option\<close>, and that they return, and on what data, is a
  theorem.  There is no fuel in what models code; the number that bounds \<open>exits\<close> in \<open>Vlc_Tables\<close> is the length of the longest code.  Hypotheses such as fewer than ten ports or screens below 10000 pixels are the limits of
  the source's formats and arrays.

  \<^bold>\<open>Not modelled.\<close>  The processor, block and network devices, display adapters, sound cards and other back ends of QEMU are
  upstream code that the service reaches only through the interfaces above, and so is QEMU's command line.  Express
  set-up, templates and database drivers are configuration.  Of the page's video player the upper layers (pictures, slices,
  macroblocks and motion, joining messages, recording and seeking) and the output to canvas and WebGL are not modelled, nor is the
  sound player, which works in floating point on the browser's sound interface.  Set-up and clean-up of the ALSA device only call that library.  Server_for_web.c and the older scripts are not called.
\<close>

section \<open>Properties that span the parts\<close>

lemma length_Make_keymap: "length (Make_keymap k) = length k"
proof -
  have "length (fold (\<lambda>(i, v) k. k[i := v]) es k) = length k" for es :: "(nat \<times> int) list"
    by (induction es arbitrary: k) auto
  then show ?thesis by (simp add: Make_keymap_def)
qed

subsection \<open>Starting a session\<close>

lemma joined_port: "p < 10 \<Longrightarrow> 0 < b \<Longrightarrow> dec_of_nat b @ dec_of_nat p = dec_of_nat (b * 10 + p)"
proof -
  assume "p < 10" "0 < b"
  moreover from this have "length (dec_of_nat p) = 1" by (simp add: dec_of_nat.simps [of p])
  ultimately show ?thesis using dec_of_nat_append [of b p] by simp
qed

lemmas worker_ports = IMAGE_STREAM_PORT_def IMAGE_WEBSOCKET_PORT_def AUDIO_STREAM_PORT_def AUDIO_WEBSOCKET_PORT_def
  NET_SOCKET_PORT_def EVENT_WEBSOCKET_PORT_def worker_init_def

text \<open>
  C1. The parts meet on the same ports.  Let the load balancer grant port p < 10 to a start or install request whose user
  and address are single words (no blanks or NULs, the user's name of at most 66 characters) and whose image number is below 2^31, let its
  message of at most 500 bytes reach a server process of the VM manager whose receive array has a NUL behind it, and let the
  manager be able to open and close the hand-over file.  Then the request is served: the file is written, the
  manager forks when it can, and a virtual machine that reads the file sends its frames, its sound and its event connection to the ports
  of the web server's worker p, in Android mode exactly for an Android image; and the addresses the page builds from the string p are that
  worker's three websockets.  One more condition is on QEMU's side: the array it reads the file into lies on the stack and is
  not initialised, and the byte behind the file's seven characters has to be NUL, or it becomes part of the event port
  (\<open>stack_joins_port\<close>).
\<close>

theorem session_ports_agree:
  assumes "getImageIndex (rq_version r) = Some t" "rq_index r = Str (dec_of_nat k)" "rq_email r = Str e" "rq_ip r = Str ip"
    and "is_token e" "length e \<le> 66" "is_token ip" "k < 2 ^ 31" "granted r p = Inr msg" "length msg \<le> 500" "p < 10"
    and "NUL \<in> set (drop (length msg) (buffer m))" "os_fopen env (chdir env (cwd m) e) ''client_data.dat''" "os_fclose env" "0 \<le> fd"
    and "length stack = 200" "stack ! 7 = NUL"
  shows "\<exists>m' acts file gl. serve env c0 fd msg m = Inr (m', acts) \<and> forks acts = os_fork env
    \<and> Write_File (chdir env (cwd m) e) ''client_data.dat'' file \<in> set acts
    \<and> IPC_getClientData (replicate n None @ [Some file]) stack qemu_globals_init = Some (Inr gl)
    \<and> g_frame_domain gl = ''http://211.189.20.76:'' @ dec_of_nat (IMAGE_STREAM_PORT (worker_init p)) @ ''/1234''
    \<and> g_audio_domain gl = ''http://211.189.20.76:'' @ dec_of_nat (AUDIO_STREAM_PORT (worker_init p)) @ ''/1234''
    \<and> portnum gl = int (NET_SOCKET_PORT (worker_init p)) \<and> (g_androidMode gl \<longleftrightarrow> t = 0)
    \<and> stream_port 900 (dec_of_nat p) = dec_of_nat (IMAGE_WEBSOCKET_PORT (worker_init p))
    \<and> stream_port 950 (dec_of_nat p) = dec_of_nat (AUDIO_WEBSOCKET_PORT (worker_init p))
    \<and> stream_port 700 (dec_of_nat p) = dec_of_nat (EVENT_WEBSOCKET_PORT (worker_init p))"
proof -
  have "p < 2 ^ 31" using assms(11) by simp
  from granted_parsed [OF assms(1-5,7,8) this assms(9,10,12), of c0] obtain c buf' where
    c: "parse_request c0 (c_read 500 msg (buffer m)) = Inr (c, buf')" "ci_command c = 0 \<or> ci_command c = 3" "ci_id c = e"
      "ci_os_type c = of_nat t" "ci_port_i c = of_nat p" "ci_port_a c = of_nat p" "ci_port_e c = of_nat p"
    by (cases "rq_kind r") auto
  have t: "t \<le> 3" using assms(1) by (auto simp: getImageIndex_def split: if_splits)
  then have ut: "unat (of_nat t :: u8) = t" by (simp add: unat_of_nat)
  then have os: "ci_os_type c = 0 \<longleftrightarrow> t = 0" unfolding c(4) by (metis unat_0 unat_eq_zero)
  have "t = 0 \<or> t = 1 \<or> t = 2 \<or> t = 3" using t by auto
  then obtain sys where sys: "os_name (ci_os_type c) = Some sys" unfolding c(4) by (auto simp: os_name_def)
  have p: "unat (of_nat p :: u16) = p" "uint (of_nat p :: u16) = int p" using assms(11) by (auto simp: unat_of_nat uint_nat)
  have one: "length (dec_of_nat q) = 1" if "q < 10" for q using that by (simp add: dec_of_nat.simps [of q])
  have len: "length (client_data c) = 7"
    unfolding client_data_def dec_of_uint c(4-7) ut p using one [of t] one [OF assms(11)] t by simp
  have d: "''800'' = dec_of_nat 800" "''850'' = dec_of_nat 850" by code_simp+
  have urls: "''http://211.189.20.76:800'' @ dec_of_nat p @ ''/1234'' = ''http://211.189.20.76:'' @ dec_of_nat (8000 + p) @ ''/1234''"
    "''http://211.189.20.76:850'' @ dec_of_nat p @ ''/1234'' = ''http://211.189.20.76:'' @ dec_of_nat (8500 + p) @ ''/1234''"
    using joined_port [OF assms(11), of 800] joined_port [OF assms(11), of 850] by (simp_all flip: d)
  have ports: "stream_port 900 (dec_of_nat p) = dec_of_nat (9000 + p)" "stream_port 950 (dec_of_nat p) = dec_of_nat (9500 + p)"
    "stream_port 700 (dec_of_nat p) = dec_of_nat (7000 + p)" by (simp_all add: stream_port_def joined_port assms(11))
  let ?m = "m\<lparr>buffer := buf'\<rparr>"
  have open_ok: "os_fopen env (chdir env (cwd ?m) (ci_id c)) ''client_data.dat''" using assms(13) by (simp add: c(3))
  from command_starts [OF c(2) sys _ open_ok assms(14)] assms(6) c(3) obtain m' acts where
    run: "command env c ?m = Inr (m', acts)" "forks acts = os_fork env" by auto
  have serve: "serve env c0 fd msg m = Inr (m', acts)" using assms(15) c(1) run(1) by (simp add: serve_def)
  have e: "unat (ci_port_e c) < 100" unfolding c(7) p using assms(11) by simp
  from hand_over [OF run(1) c(2) open_ok assms(16) _ e, of n qemu_globals_init] obtain data gl where
    "Write_File (chdir env (cwd m) e) ''client_data.dat'' data \<in> set acts"
    "IPC_getClientData (replicate n None @ [Some data]) stack qemu_globals_init = Some (Inr gl)"
    "g_frame_domain gl = ''http://211.189.20.76:'' @ dec_of_nat (8000 + p) @ ''/1234''"
    "g_audio_domain gl = ''http://211.189.20.76:'' @ dec_of_nat (8500 + p) @ ''/1234''"
    "portnum gl = int (7500 + p)" "g_androidMode gl \<longleftrightarrow> t = 0"
    unfolding c(3,5,6,7) p urls len using assms(11,17) by (auto simp: os qemu_globals_init_def)
  then show ?thesis using serve run(2) ports unfolding worker_ports by auto
qed

subsection \<open>Keys, from the page to the guest\<close>

lemma key_line_sent: "key_message state code @ [CHR 0x0A] = web_line [1, state, code]"
proof -
  have "dec_of_nat 1 = ''1''" by code_simp
  then show ?thesis by (simp add: key_message_def web_line_def)
qed

lemma length_key_line: "state < 2 \<Longrightarrow> code < 250 \<Longrightarrow> length (web_line [1, state, code]) \<le> 100"
  using length_dec_of_nat [of 1 0] length_dec_of_nat [of state 0] length_dec_of_nat [of code 2] by (simp add: web_line_def)

text \<open>
  C2. From the page to the guest: a key with a code below 250, the size of the machine's key table, that is pressed or released in the
  browser while the worker has the machine's connection is sent as one line.  Let the line arrive alone, in the thread's array
  of 100 bytes, which is not initialised and so has to hold a NUL behind it, at a machine that has been started and run by
  the operations of \<open>machine_step\<close> (the guest's initialisation of the 8259s among them) and whose guest waits for a
  key: the keyboard's queue is empty, its interrupt is enabled at the controller and not masked at the master 8259, which
  has its fixed order of priorities, and neither the timer's line 0 nor line 1 stands in its way (\<open>awaits_key\<close>); let the input layer pass keys straight to the PS/2
  keyboard (\<open>passes_keys\<close>).  Then the line raises the processor's interrupt pin; the acknowledge returns the vector of line 1,
  the keyboard holds the key's scan code bytes (the first 15), and a read of port 0x60 returns the first of them.
\<close>

theorem browser_key_interrupts_guest:
  assumes "Event_client pg" "NET_SOCKET_TARGET wk = Some s"
    and "(machine_step env)\<^sup>*\<^sup>* (machine_init x) (devs (inp (window w)))" "awaits_key (devs (inp (window w)))"
    and "passes_keys (ps2_keyboard_handler env) (con (window w)) (inp (window w))"
    and "code < 250" "length (km w) = 250" "length (rbuf w) = 100"
    and "NUL \<in> set (drop (length (web_line [1, of_bool down, code])) (rbuf w))"
  shows "\<exists>msg line w'. page_event (if down then Key_Down code else Key_Up code) pg = (pg, [msg])
    \<and> worker_event num (Event_Message msg) wk = (wk, [Net_Write s line]) \<and> web_event line w = Inr w'
    \<and> (let st = devs (inp (window w)); st' = devs (inp (window w'));
            bytes = key_bytes (kbd st) (KEY_VALUE_KIND_NUMBER (km w ! code)) down
       in cpu_pin (ext st') \<and> fst (pic_read_irq pin (pics (ext st'))) = uint (irq_base (master_of (ext st))) + 1
        \<and> contents (queue (k_common (kbd st'))) = take 15 bytes \<and> fst (kbd_read_data (i8042_ports env) st') = hd bytes)"
proof -
  have n: "of_bool down < (2::nat)" "(of_bool down = (1::nat)) = down" by simp_all
  let ?m = "key_message (of_bool down) code" and ?l = "web_line [1, of_bool down, code]"
  have pg: "page_event (if down then Key_Down code else Key_Up code) pg = (pg, [?m])" using assms(1) by (simp add: send_if_def)
  have wk: "worker_event num (Event_Message ?m) wk = (wk, [Net_Write s ?l])" using assms(2) by (simp add: key_line_sent)
  from key_line_interrupts [OF assms(3-5) n(1) assms(6-8) length_key_line [OF n(1) assms(6)] assms(9)] show ?thesis
    unfolding n(2) using pg wk by blast
qed

text \<open>
  C40. Closing the page brings the virtual machine down: after a key event the worker closes the machine's
  connection, and the turn in which the machine finds it closed runs into a null pointer.
\<close>

theorem closing_page_crashes_vm:
  assumes "Event_client pg" "NET_SOCKET_TARGET wk = Some s" "code < 250" "length (km w) = 250" "length (rbuf w) = 100"
    and "length (web_line [1, 0, code]) \<le> 100" "NUL \<in> set (drop (length (web_line [1, 0, code])) (rbuf w))"
  shows "\<exists>msg line. page_event (Key_Up code) pg = (pg, [msg])
    \<and> worker_run num [Event_Message msg, Event_Close] wk = (wk, [Net_Write s line, Net_Close s])
    \<and> foldE web_event [line, []] w = Inl Null_Pointer"
  using end_of_stream [of 0 code w] assms by (simp add: send_if_def key_line_sent)

subsection \<open>Clicks and what the user sees\<close>

lemma mouse_line_sent: "mouse_message (int x) (int y) state @ [CHR 0x0A] = mouse_text x y state"
proof -
  have "dec_of_nat 0 = ''0''" by code_simp
  then show ?thesis by (simp add: mouse_message_def mouse_text_def dec_of_int_def)
qed

lemma lines_sent:
  assumes "NET_SOCKET_TARGET wk = Some s"
  shows "worker_run num (map Event_Message (map (\<lambda>(x, y, k). mouse_message (int x) (int y) k) ps)) wk =
    (wk, map (Net_Write s) (map (\<lambda>(x, y, k). mouse_text x y k) ps))"
  using assms by (induction ps) (auto simp: mouse_line_sent)

text \<open>A drag with the left button: the messages that the page sends for it, as points and button states.\<close>

definition drag :: "nat \<times> nat \<Rightarrow> (nat \<times> nat) list \<Rightarrow> nat \<times> nat \<Rightarrow> page_input list" where
  "drag a moves b = Mouse_Down 1 (int (fst a)) (int (snd a)) # map (\<lambda>(x, y). Mouse_Move (int x) (int y)) moves
     @ [Mouse_Up (int (fst b)) (int (snd b))]"

definition drag_points :: "nat \<times> nat \<Rightarrow> (nat \<times> nat) list \<Rightarrow> nat \<times> nat \<Rightarrow> (nat \<times> nat \<times> nat) list" where
  "drag_points a moves b = (fst a, snd a, 1) # map (\<lambda>(x, y). (x, y, 1)) moves @ [(fst b, snd b, 0)]"

lemma drag_sent:
  assumes "Event_client pg"
  shows "page_run (drag a moves b) pg = (pg\<lparr>page_check := 0\<rparr>, map (\<lambda>(x, y, k). mouse_message (int x) (int y) k) (drag_points a moves b))"
proof -
  have up: "page_run (map (\<lambda>(x, y). Mouse_Move (int x) (int y)) ms @ [Mouse_Up u v]) q =
      (q\<lparr>page_check := 0\<rparr>, map (\<lambda>(x, y). mouse_message (int x) (int y) 1) ms @ [mouse_message u v 0])"
    if "page_check q = 1" "Event_client q" for q ms u v
    using that by (induction ms) (auto simp: send_if_def)
  show ?thesis
    using assms up [of "pg\<lparr>page_check := 1\<rparr>" moves] by (simp add: drag_def drag_points_def send_if_def comp_def case_prod_unfold)
qed

text \<open>
  C3. From the page to the guest's pointer: when the user drags with the left button in the browser, from a point over any points to
  another, and every line reaches the machine by itself with the guest fetching the tablet's reports in between,
  these reports show the left button held at exactly the points of the drag, in order, and released at its
  end.  A point (x, y) of the page goes to the screen's point (x, y), and in Android mode, where the picture is turned, to (y, h - x)
  on a screen of height h (\<open>web_point\<close>); all these points lie on the screen.  \<open>tablet_web\<close> is what the machine has to be
  like: it takes the picture's scale to be 1, as \<^verbatim>\<open>IPC_getClientData\<close> sets it, the screen is below 10000 points either way, and the tablet is the
  device that gets the pointer events and has no report waiting.
\<close>

theorem browser_drag_reaches_guest:
  assumes "Event_client pg" "NET_SOCKET_TARGET wk = Some s" "tablet_web env w" "scr = real_screen (window w)"
    and "list_all (\<lambda>(x, y). on_screen scr (web_point w x y)) (a # b # moves)"
  shows "\<exists>pg' msgs lines rs w'. page_run (drag a moves b) pg = (pg', msgs)
    \<and> worker_run num (map Event_Message msgs) wk = (wk, map (Net_Write s) lines) \<and> web_turns env now lines w = Inr (rs, w')
    \<and> map (read_report scr) rs = map (\<lambda>(x, y). Some (1, web_point w x y)) (a # moves) @ [Some (0, web_point w (fst b) (snd b))]"
proof -
  have "list_all (\<lambda>(x, y, k). on_screen scr (web_point w x y) \<and> k < 8) (drag_points a moves b)"
    using assms(5) by (auto simp: drag_points_def list_all_iff)
  from mouse_turns [OF assms(3,4) this, of now] obtain rs w' where
    r: "web_turns env now (map (\<lambda>(x, y, k). mouse_text x y k) (drag_points a moves b)) w = Inr (rs, w')"
      "map (read_report scr) rs = map (\<lambda>(x, y, k). Some (tablet_buttons (word_of_nat k), web_point w x y)) (drag_points a moves b)" by blast
  have b: "tablet_buttons 1 = 1" "tablet_buttons 0 = 0" by code_simp+
  have "map (read_report scr) rs = map (\<lambda>(x, y). Some (1, web_point w x y)) (a # moves) @ [Some (0, web_point w (fst b) (snd b))]"
    unfolding r(2) by (simp add: drag_points_def b case_prod_unfold)
  then show ?thesis using drag_sent [OF assms(1)] lines_sent [OF assms(2)] r(1) by blast
qed

text \<open>
  C21. Outside Android mode, what the user clicks is what the user sees: the image that the machine makes of its screen, of 16 or 32
  bits per pixel and in a file that it can map, shows the screen's pixel (x, y) at the point (x, y), and the mouse message that names this point
  makes the report that the guest next fetches from the tablet show exactly this point and the message's buttons.  The machine is
  as for the drag (\<open>tablet_web\<close>), and the message arrives alone.  (In Android mode the click lands one row lower:
  \<open>android_click_one_row_off\<close>.)
\<close>

theorem click_hits_what_is_shown:
  assumes "tablet_web env w" "\<not> g_androidMode (globals w)" "real_screen (window w) = scr" "screen_ok bpp scr" "bpp = 2 \<or> bpp = 4"
    and "int x < sf_w scr" "int y < sf_h scr" "state < 8"
  shows "\<exists>f r w'. make_frameData True False scr (sf_w scr) (sf_h scr) st = Inr f
    \<and> image_pixel (sf_w scr) f (int x) (int y) = screen_pixel bpp scr (int x) (int y)
    \<and> web_turn env now (mouse_text x y state) w = Inr (r, w')
    \<and> read_report scr r = Some (tablet_buttons (word_of_nat state), int x, int y)"
proof -
  have p: "web_point w x y = (int x, int y)" using assms(2) by (simp add: web_point_def)
  have "on_screen (real_screen (window w)) (web_point w x y)" unfolding p using assms(3,6,7) by (simp add: on_screen_def)
  from mouse_turn [OF assms(1) this assms(8), of now] make_frame_shows [OF assms(4,5), of st] assms(3,6,7)
  show ?thesis unfolding p by auto
qed

text \<open>
  In Android mode the image is turned and the click is turned back, but one row too low: the image
  point (h - 1 - y, x) shows the screen's pixel (x, y), and a mouse message that names it goes to
  (x, y + 1).
\<close>

theorem android_click_one_row_off:
  assumes "screen_ok 2 scr" "int x < sf_w scr" "int y < sf_h scr" "x \<noteq> 0" "real_screen (window w) = scr"
    and "g_androidMode (globals w)" "g_scaleConstant_X (globals w) = 1" "g_scaleConstant_Y (globals w) = 1"
    and "length (rbuf w) = 100" "rbuf w ! 99 = NUL" "state < 256"
    and "length (mouse_text (nat (sf_h scr) - 1 - y) x state) < 100"
  shows "\<exists>f w'. make_frameData True True scr (sf_h scr) (sf_w scr) st = Inr f
    \<and> image_pixel (sf_h scr) f (sf_h scr - 1 - int y) (int x) = screen_pixel 2 scr (int x) (int y)
    \<and> web_event (mouse_text (nat (sf_h scr) - 1 - y) x state) w = Inr w'
    \<and> window w' = sdl_send_mouse_event 0 0 (int x) (int y + 1) (word_of_nat state) (window w)"
proof -
  have lim: "0 < sf_h scr" "sf_w scr < 10000" "sf_h scr < 10000" using assms(1) by (simp_all add: screen_ok_def)
  then have b: "nat (sf_h scr) - 1 - y < 10000" "x < 10000" "sf_h scr - int (nat (sf_h scr) - 1 - y) = int y + 1"
    using assms(2,3) by auto
  from android_frame_shows [OF assms(1), of st] assms(2-4) obtain f where
    "make_frameData True True scr (sf_h scr) (sf_w scr) st = Inr f"
    "image_pixel (sf_h scr) f (sf_h scr - 1 - int y) (int x) = screen_pixel 2 scr (int x) (int y)" by auto
  moreover from mouse_at_image [OF b(1,2) assms(11,9,10,7,8,12)] obtain w' where
    "web_event (mouse_text (nat (sf_h scr) - 1 - y) x state) w = Inr w'"
    "window w' = sdl_send_mouse_event 0 0 (int x) (int y + 1) (word_of_nat state) (window w)"
    by (simp only: assms(5,6) b(3) if_True) blast
  ultimately show ?thesis by blast
qed

text \<open>A screen of two pixels, and the browser's thread before it in either mode.\<close>

definition two_pixels :: SDL_Surface where
  "two_pixels = \<lparr>sf_w = 2, sf_h = 1, sf_pitch = 4, sf_pixels = [1, 2, 3, 4]\<rparr>"

definition click_web :: "bool \<Rightarrow> InputEvent list web" where
  "click_web turned_screen = easy_web\<lparr>window := easy_window\<lparr>real_screen := two_pixels\<rparr>,
     globals := (globals easy_web)\<lparr>g_androidMode := turned_screen\<rparr>\<rparr>"

lemma click_web_simps:
  "length (rbuf (click_web a)) = 100" "rbuf (click_web a) ! 99 = NUL" "g_androidMode (globals (click_web a)) = a"
  "g_scaleConstant_X (globals (click_web a)) = 1" "g_scaleConstant_Y (globals (click_web a)) = 1"
  "real_screen (window (click_web a)) = two_pixels"
  using easy_web_simps by (simp_all add: click_web_def)

lemma two_pixels_ok: "screen_ok 2 two_pixels" "sf_w two_pixels = 2" "sf_h two_pixels = 1"
  by (simp_all add: screen_ok_def two_pixels_def)

definition small_web :: "(c_fault + HIDState \<times> nat) web" where
  "small_web = sample_web\<lparr>window := (window sample_web)\<lparr>real_screen := two_pixels\<rparr>\<rparr>"

lemma small_web_ok: "tablet_web plain_hid small_web" "\<not> g_androidMode (globals small_web)" "real_screen (window small_web) = two_pixels"
proof -
  have "tablet_listens plain_hid ((window sample_web)\<lparr>real_screen := two_pixels\<rparr>) = tablet_listens plain_hid (window sample_web)"
    by (simp add: tablet_listens_def cong: option.case_cong)
  then show "tablet_web plain_hid small_web"
    using sample_web_ok by (simp add: tablet_web_def small_web_def two_pixels_ok cong: sum.case_cong)
qed (simp_all add: small_web_def sample_web_def qemu_globals_init_def)

theorem click_hits_what_is_shown_witness:
  "\<exists>f r w'. make_frameData True False two_pixels 2 1 frame_init = Inr f \<and> image_pixel 2 f 1 0 = (0, 129, 24)
    \<and> web_turn plain_hid 0 (mouse_text 1 0 1) small_web = Inr (r, w') \<and> read_report two_pixels r = Some (1, 1, 0)"
proof -
  have "screen_pixel 2 two_pixels 1 0 = (0, 129, 24)" "tablet_buttons 1 = 1" by code_simp+
  then show ?thesis
    using click_hits_what_is_shown [OF small_web_ok two_pixels_ok(1), of 1 0 1 frame_init 0] by (auto simp: two_pixels_ok)
qed

theorem android_click_one_row_off_witness:
  "\<exists>w'. web_event (mouse_text 0 1 1) (click_web True) = Inr w'
    \<and> window w' = sdl_send_mouse_event 0 0 1 1 1 (window (click_web True))"
proof -
  have "length (mouse_text 0 1 1) < 100" by code_simp
  then show ?thesis
    using android_click_one_row_off [OF two_pixels_ok(1), of 1 0 "click_web True" 1]
    by (auto simp: click_web_simps two_pixels_ok)
qed

theorem session_ports_agree_witness:
  "\<exists>m' acts file gl. serve ipc_env sample_client 1 ''0 2 1 bob 10.0.0.2 1 2 2 2 '' (manager_init ''/srv'') = Inr (m', acts) \<and> forks acts
    \<and> Write_File ''/srv/bob'' ''client_data.dat'' file \<in> set acts
    \<and> IPC_getClientData [None, Some file] (replicate 200 NUL) qemu_globals_init = Some (Inr gl)
    \<and> g_frame_domain gl = ''http://211.189.20.76:'' @ dec_of_nat 8002 @ ''/1234''
    \<and> g_audio_domain gl = ''http://211.189.20.76:'' @ dec_of_nat 8502 @ ''/1234'' \<and> portnum gl = 7502 \<and> \<not> g_androidMode gl
    \<and> stream_port 700 (dec_of_nat 2) = dec_of_nat 7002"
proof -
  let ?r = "sample_request Start ''bob''" and ?msg = "''0 2 1 bob 10.0.0.2 1 2 2 2 ''" and ?m = "manager_init ''/srv''"
  have g: "granted ?r 2 = Inr ?msg" "rq_index ?r = Str (dec_of_nat 1)" "getImageIndex (rq_version ?r) = Some 2"
    "rq_email ?r = Str ''bob''" "rq_ip ?r = Str ''10.0.0.2''" by code_simp+
  have t: "is_token ''bob''" "is_token ''10.0.0.2''" "length ''bob'' \<le> 66" "length ?msg \<le> 500" by (simp_all add: is_token_def NUL_def)
  have d: "chdir ipc_env (cwd ?m) ''bob'' = ''/srv/bob''" by code_simp
  have n: "NUL \<in> set (drop (length ?msg) (buffer ?m))" by (simp add: manager_init_def)
  have e: "os_fopen ipc_env (chdir ipc_env (cwd ?m) ''bob'') ''client_data.dat''" "os_fclose ipc_env" "os_fork ipc_env"
    by (simp_all add: ipc_env_def sample_env_def)
  have k: "(1 :: nat) < 2 ^ 31" "(2 :: nat) < 10" "(0 :: int) \<le> 1" "length (replicate 200 NUL) = 200" "replicate 200 NUL ! 7 = NUL" by simp_all
  have w: "IMAGE_STREAM_PORT (worker_init 2) = 8002" "AUDIO_STREAM_PORT (worker_init 2) = 8502" "NET_SOCKET_PORT (worker_init 2) = 7502"
    "EVENT_WEBSOCKET_PORT (worker_init 2) = 7002" by (simp_all add: worker_ports)
  from session_ports_agree [OF g(3,2,4,5) t(1,3,2) k(1) g(1) t(4) k(2) n e(1,2) k(3-5), of sample_client 1] show ?thesis
    unfolding w d using e(3) by auto
qed

definition busy_worker :: worker where
  "busy_worker = (worker_init 2)\<lparr>NET_SOCKET_TARGET := Some 4\<rparr>"

theorem browser_key_interrupts_guest_witness:
  "\<exists>msg line w'. page_event (Key_Down 65) page_init = (page_init, [msg])
    \<and> worker_event (\<lambda>_. None) (Event_Message msg) busy_worker = (busy_worker, [Net_Write 4 line])
    \<and> web_event line easy_pc_web = Inr w' \<and> cpu_pin (ext (devs (inp (window w'))))
    \<and> fst (pic_read_irq pin (pics (ext (devs (inp (window w')))))) = 9"
proof -
  have w: "length (km easy_pc_web) = 250" "length (rbuf easy_pc_web) = 100" "rbuf easy_pc_web = replicate 100 NUL"
    using length_Make_keymap [of "replicate 250 0"] by (simp_all add: easy_pc_web_def)
  have l: "length (web_line [1, of_bool True, 65]) = 7" by code_simp
  have nul: "NUL \<in> set (drop (length (web_line [1, of_bool True, 65])) (rbuf easy_pc_web))" unfolding l w by simp
  have wk: "NET_SOCKET_TARGET busy_worker = Some 4" "Event_client page_init" by (simp_all add: busy_worker_def page_init_def)
  have r: "(machine_step easy_pc)\<^sup>*\<^sup>* (machine_init ()) (devs (inp (window easy_pc_web)))"
    "awaits_key (devs (inp (window easy_pc_web)))" unfolding easy_devs by (rule easy_machine_run, rule easy_awaits)
  from browser_key_interrupts_guest [OF wk(2,1) r easy_passes _ w(1,2) nul, of "\<lambda>_. None"] show ?thesis
    unfolding Let_def easy_devs easy_awaits(2) by auto
qed

theorem closing_page_crashes_vm_witness:
  "\<exists>msg line. worker_run (\<lambda>_. None) [Event_Message msg, Event_Close] busy_worker = (busy_worker, [Net_Write 4 line, Net_Close 4])
    \<and> foldE web_event [line, []] easy_web = Inl Null_Pointer"
proof -
  have wk: "NET_SOCKET_TARGET busy_worker = Some 4" "Event_client page_init" by (simp_all add: busy_worker_def page_init_def)
  have l: "length (web_line [1, 0, 65]) = 7" by code_simp
  have r: "rbuf easy_web = replicate 100 NUL" "length (km easy_web) = 250" using easy_web_simps by (simp_all add: easy_web_def)
  have "NUL \<in> set (drop (length (web_line [1, 0, 65])) (rbuf easy_web))" unfolding l r by simp
  from closing_page_crashes_vm [OF wk(2,1) _ _ _ _ this, of "\<lambda>_. None"] l r show ?thesis by auto
qed

theorem browser_drag_reaches_guest_witness:
  "\<exists>pg' msgs lines rs w'. page_run (drag (10, 20) [(30, 40)] (799, 599)) page_init = (pg', msgs)
    \<and> worker_run (\<lambda>_. None) (map Event_Message msgs) busy_worker = (busy_worker, map (Net_Write 4) lines)
    \<and> web_turns plain_hid 0 lines sample_web = Inr (rs, w')
    \<and> map (read_report (real_screen (window sample_web))) rs = [Some (1, 10, 20), Some (1, 30, 40), Some (0, 799, 599)]"
proof -
  have wk: "NET_SOCKET_TARGET busy_worker = Some 4" "Event_client page_init" by (simp_all add: busy_worker_def page_init_def)
  have p: "web_point sample_web x y = (int x, int y)" for x y by (simp add: web_point_def sample_web_def qemu_globals_init_def)
  have "list_all (\<lambda>(x, y). on_screen (real_screen (window sample_web)) (web_point sample_web x y)) [(10, 20), (799, 599), (30, 40)]"
    by (simp add: p on_screen_def) (simp add: sample_web_def)
  from browser_drag_reaches_guest [OF wk(2,1) sample_web_ok refl this, of "\<lambda>_. None" 0] show ?thesis by (simp add: p)
qed

end
